(* ===== verification/Bytes_Prelude.thy ===== *)
theory Bytes_Prelude
  imports Main "HOL-Library.Word" "HOL-Library.Sublist"
begin

text \<open>
  The vocabulary every component of the development shares: Go's byte slices and fixed-width
  integers, the fixed-width encodings of package \<^verbatim>\<open>encoding/binary\<close>, sub-slicing, and the
  generic list facts the parsers rest on.

  A Go \<^verbatim>\<open>[]byte\<close> is a \<open>byte list\<close>; \<^verbatim>\<open>uint8\<close>, \<^verbatim>\<open>uint16\<close>, \<^verbatim>\<open>uint32\<close> and \<^verbatim>\<open>uint64\<close> are words
  of that width. Offsets and lengths, which Go keeps in \<^verbatim>\<open>int\<close> and which the modelled code never
  lets go negative, are \<open>nat\<close>; a Go \<^verbatim>\<open>int\<close> that may be negative is an \<open>int\<close>. A read
  \<open>b ! i\<close> is only ever written under the guard that makes it in range in the source.
\<close>

unbundle bit_operations_syntax

type_synonym byte = "8 word"
type_synonym u16 = "16 word"
type_synonym u32 = "32 word"
type_synonym u64 = "64 word"
type_synonym bytes = "byte list"

named_theorems wire_simps \<open>reading back what was just written, and lengths of encodings\<close>

section \<open>Sub-slices\<close>

text \<open>Go's \<^verbatim>\<open>b[i:j]\<close>, for \<open>i \<le> j \<le> length b\<close> (the source panics outside that range and
  every use below is guarded).\<close>

definition subslice :: "'a list \<Rightarrow> nat \<Rightarrow> nat \<Rightarrow> 'a list" where
  "subslice b i j = take (j - i) (drop i b)"

lemma length_subslice [simp]: "length (subslice b i j) = min (j - i) (length b - i)"
  by (simp add: subslice_def)

lemma subslice_full [simp]: "subslice b 0 (length b) = b"
  by (simp add: subslice_def)

lemma subslice_empty [simp]: "subslice b i i = []"
  by (simp add: subslice_def)

lemma subslice_append_adjacent:
  assumes "i \<le> j" "j \<le> k"
  shows "subslice b i j @ subslice b j k = subslice b i k"
proof -
  have "take (k - i) (drop i b) = take ((j - i) + (k - j)) (drop i b)"
    using assms by simp
  also have "\<dots> = take (j - i) (drop i b) @ take (k - j) (drop (j - i) (drop i b))"
    by (rule take_add)
  finally show ?thesis using assms by (simp add: subslice_def)
qed

lemma subslice_append_adjacent_more:
  "i \<le> j \<Longrightarrow> j \<le> k \<Longrightarrow> subslice b i j @ subslice b j k @ c = subslice b i k @ c"
  by (metis append.assoc subslice_append_adjacent)

lemmas subslice_glue = subslice_append_adjacent subslice_append_adjacent_more

lemma subslice_take: "j \<le> n \<Longrightarrow> subslice (take n b) i j = subslice b i j"
  by (simp add: subslice_def drop_take min_def)

lemma subslice_append_left: "j \<le> length b \<Longrightarrow> subslice (b @ c) i j = subslice b i j"
  by (simp add: subslice_def)

lemma subslice_append_right:
  "subslice (b @ c) (length b) (length b + n) = take n c"
  by (simp add: subslice_def)

lemma subslice_shift: "subslice (a @ b) (length a + i) (length a + j) = subslice b i j"
  by (simp add: subslice_def)

lemma nth_subslice: "k < j - i \<Longrightarrow> i + k < length b \<Longrightarrow> subslice b i j ! k = b ! (i + k)"
  by (simp add: subslice_def)

lemma subslice_single: "i < length b \<Longrightarrow> subslice b i (Suc i) = [b ! i]"
  by (simp add: subslice_def take_Suc hd_drop_conv_nth)

lemma subslice_two: "2 \<le> length b \<Longrightarrow> subslice b 0 2 = [b ! 0, b ! 1]"
  by (cases b; cases "tl b") (auto simp: subslice_def)

lemma take_eq_subslice: "take n b = subslice b 0 n"
  by (simp add: subslice_def)

lemma subslice_subslice:
  "i + l \<le> j \<Longrightarrow> subslice (subslice b i j) k l = subslice b (i + k) (i + l)"
  by (simp add: subslice_def drop_take min_def add.commute)

lemma take_subslice: "n \<le> j - i \<Longrightarrow> take n (subslice b i j) = subslice b i (i + n)"
  by (simp add: subslice_def min_def)

lemma drop_subslice: "drop n (subslice b i j) = subslice b (i + n) j"
  by (simp add: subslice_def drop_take add.commute)

lemma split_at_subslice:
  assumes "i \<le> j"
  shows "b = take i b @ subslice b i j @ drop j b"
proof -
  have "take i b @ subslice b i j = take j b"
    using subslice_append_adjacent [of 0 i j b] assms by (simp add: take_eq_subslice)
  then show ?thesis by (metis append.assoc append_take_drop_id)
qed

lemma word_of_nat_unat_id [simp]: "word_of_nat (unat (w :: 'a :: len word)) = w"
  by (simp add: word_unat_eq_iff)

section \<open>Fixed-width encodings\<close>

text \<open>The value of a big-endian byte string, and the \<open>n\<close>-byte big-endian string of a number
  (reduced modulo \<open>256 ^ n\<close>, as a Go conversion to a narrower unsigned type is).\<close>

primrec be_val :: "bytes \<Rightarrow> nat" where
  "be_val [] = 0"
| "be_val (b # bs) = unat b * 256 ^ length bs + be_val bs"

primrec be_bytes :: "nat \<Rightarrow> nat \<Rightarrow> bytes" where
  "be_bytes 0 x = []"
| "be_bytes (Suc n) x = word_of_nat (x div 256 ^ n) # be_bytes n x"

definition le_val :: "bytes \<Rightarrow> nat" where
  "le_val bs = be_val (rev bs)"

definition le_bytes :: "nat \<Rightarrow> nat \<Rightarrow> bytes" where
  "le_bytes n x = rev (be_bytes n x)"

lemma length_be_bytes [simp, wire_simps]: "length (be_bytes n x) = n"
  by (induction n) auto

lemma length_le_bytes [simp, wire_simps]: "length (le_bytes n x) = n"
  by (simp add: le_bytes_def)

lemma be_bytes_four: "be_bytes 4 x =
    [word_of_nat (x div 16777216), word_of_nat (x div 65536), word_of_nat (x div 256), word_of_nat x]"
proof -
  have four: "4 = Suc (Suc (Suc (Suc 0)))" by simp
  show ?thesis unfolding four be_bytes.simps by simp
qed

lemma be_bytes_two: "be_bytes 2 x = [word_of_nat (x div 256), word_of_nat x]"
proof -
  have two: "2 = Suc (Suc 0)" by simp
  show ?thesis unfolding two be_bytes.simps by simp
qed

lemma unat_byte_less: "unat (b :: byte) < 256"
proof -
  have "unat b < 2 ^ LENGTH(8)" by (rule unsigned_less)
  then show ?thesis by simp
qed

lemma unat_byte_of_nat [simp]: "unat (word_of_nat n :: byte) = n mod 256"
  by (simp add: unat_of_nat)

lemma be_val_less: "be_val bs < 256 ^ length bs"
proof (induction bs)
  case Nil
  then show ?case by simp
next
  case (Cons b bs)
  have "unat b * 256 ^ length bs + be_val bs < (unat b + 1) * 256 ^ length bs"
    using Cons.IH by simp
  also have "\<dots> \<le> 256 * 256 ^ length bs"
    using unat_byte_less [of b] by (intro mult_right_mono) simp_all
  finally show ?case by simp
qed

lemma be_val_be_bytes [simp, wire_simps]: "be_val (be_bytes n x) = x mod 256 ^ n"
proof (induction n)
  case 0
  then show ?case by simp
next
  case (Suc n)
  have "x mod 256 ^ Suc n = (x div 256 ^ n) mod 256 * 256 ^ n + x mod 256 ^ n"
    by (metis add.commute mod_mult2_eq mult.commute power_Suc2)
  then show ?case using Suc.IH by simp
qed

lemma byte_of_nat_eq_iff: "(word_of_nat m :: byte) = word_of_nat n \<longleftrightarrow> m mod 256 = n mod 256"
  by (simp add: word_unat_eq_iff)

lemma be_bytes_cong: "x mod 256 ^ n = y mod 256 ^ n \<Longrightarrow> be_bytes n x = be_bytes n y"
proof (induction n)
  case 0
  then show ?case by simp
next
  case (Suc n)
  have split: "z mod 256 ^ Suc n = 256 ^ n * (z div 256 ^ n mod 256) + z mod 256 ^ n" for z :: nat
    using mod_mult2_eq [of z "256 ^ n" 256] by (simp add: mult.commute)
  have low: "x mod 256 ^ n = y mod 256 ^ n"
  proof -
    have "z mod 256 ^ Suc n mod 256 ^ n = z mod 256 ^ n" for z :: nat
      by (rule mod_mod_cancel) simp
    with Suc.prems show ?thesis by metis
  qed
  moreover have "x div 256 ^ n mod 256 = y div 256 ^ n mod 256"
    using Suc.prems split [of x] split [of y] low by simp
  ultimately show ?case using Suc.IH by (simp add: byte_of_nat_eq_iff)
qed

lemma be_bytes_mod: "be_bytes n (x mod 256 ^ n) = be_bytes n x"
  by (rule be_bytes_cong) simp

lemma be_bytes_be_val: "be_bytes (length bs) (be_val bs) = bs"
proof (induction bs)
  case Nil
  then show ?case by simp
next
  case (Cons b bs)
  have div: "(unat b * 256 ^ length bs + be_val bs) div 256 ^ length bs = unat b"
    using be_val_less [of bs] by simp
  have "be_bytes (length bs) (unat b * 256 ^ length bs + be_val bs) =
        be_bytes (length bs) ((unat b * 256 ^ length bs + be_val bs) mod 256 ^ length bs)"
    by (simp only: be_bytes_mod)
  also have "\<dots> = bs"
    using be_val_less [of bs] Cons.IH by simp
  finally show ?case using div by simp
qed

lemma be_bytes_be_val_length: "length bs = n \<Longrightarrow> be_bytes n (be_val bs) = bs"
  using be_bytes_be_val by blast

lemma le_val_le_bytes [simp, wire_simps]: "le_val (le_bytes n x) = x mod 256 ^ n"
  by (simp add: le_val_def le_bytes_def)

lemma le_bytes_le_val_length: "length bs = n \<Longrightarrow> le_bytes n (le_val bs) = bs"
  by (simp add: le_bytes_def le_val_def be_bytes_be_val_length)

lemma le_val_less: "le_val bs < 256 ^ length bs"
  using be_val_less [of "rev bs"] by (simp add: le_val_def)

section \<open>Typed accessors of \<^verbatim>\<open>encoding/binary\<close>\<close>

text \<open>\<^verbatim>\<open>binary.BigEndian.Uint16\<close> and its relatives read the leading bytes of the slice they are
  given; \<^verbatim>\<open>PutUint16\<close> and its relatives are modelled by the bytes they store.\<close>

definition be_u16 :: "bytes \<Rightarrow> u16" where
  "be_u16 b = word_of_nat (be_val (take 2 b))"

definition be_u32 :: "bytes \<Rightarrow> u32" where
  "be_u32 b = word_of_nat (be_val (take 4 b))"

definition le_u16 :: "bytes \<Rightarrow> u16" where
  "le_u16 b = word_of_nat (le_val (take 2 b))"

definition le_u32 :: "bytes \<Rightarrow> u32" where
  "le_u32 b = word_of_nat (le_val (take 4 b))"

definition put_be16 :: "u16 \<Rightarrow> bytes" where
  "put_be16 w = be_bytes 2 (unat w)"

definition put_be32 :: "u32 \<Rightarrow> bytes" where
  "put_be32 w = be_bytes 4 (unat w)"

definition put_le16 :: "u16 \<Rightarrow> bytes" where
  "put_le16 w = le_bytes 2 (unat w)"

definition put_le32 :: "u32 \<Rightarrow> bytes" where
  "put_le32 w = le_bytes 4 (unat w)"

lemma length_put [simp, wire_simps]:
  "length (put_be16 w) = 2" "length (put_be32 v) = 4"
  "length (put_le16 w) = 2" "length (put_le32 v) = 4"
  by (simp_all add: put_be16_def put_be32_def put_le16_def put_le32_def)

lemma unat_u16_less: "unat (w :: u16) < 65536"
proof -
  have "unat w < 2 ^ LENGTH(16)" by (rule unsigned_less)
  then show ?thesis by simp
qed

lemma unat_u32_less: "unat (w :: u32) < 4294967296"
proof -
  have "unat w < 2 ^ LENGTH(32)" by (rule unsigned_less)
  then show ?thesis by simp
qed

lemma unat_u16_of_nat [simp]: "unat (word_of_nat n :: u16) = n mod 65536"
  by (simp add: unat_of_nat)

lemma unat_u32_of_nat [simp]: "unat (word_of_nat n :: u32) = n mod 4294967296"
  by (simp add: unat_of_nat)

lemma be_u16_put [simp, wire_simps]: "be_u16 (put_be16 w @ r) = w"
  using unat_u16_less [of w] by (simp add: be_u16_def put_be16_def word_unat_eq_iff)

lemma be_u32_put [simp, wire_simps]: "be_u32 (put_be32 w @ r) = w"
  using unat_u32_less [of w] by (simp add: be_u32_def put_be32_def word_unat_eq_iff)

lemma le_u16_put [simp, wire_simps]: "le_u16 (put_le16 w @ r) = w"
  using unat_u16_less [of w] by (simp add: le_u16_def put_le16_def word_unat_eq_iff)

lemma le_u32_put [simp, wire_simps]: "le_u32 (put_le32 w @ r) = w"
  using unat_u32_less [of w] by (simp add: le_u32_def put_le32_def word_unat_eq_iff)

lemma put_be_u16 [simp, wire_simps]:
  assumes "2 \<le> length b" shows "put_be16 (be_u16 b) = take 2 b"
proof -
  have "be_val (take 2 b) < 65536"
    using be_val_less [of "take 2 b"] assms by (simp add: min_absorb2)
  then show ?thesis
    using assms by (simp add: put_be16_def be_u16_def be_bytes_be_val_length)
qed

lemma put_be_u32 [simp, wire_simps]:
  assumes "4 \<le> length b" shows "put_be32 (be_u32 b) = take 4 b"
proof -
  have "be_val (take 4 b) < 4294967296"
    using be_val_less [of "take 4 b"] assms by (simp add: min_absorb2)
  then show ?thesis
    using assms by (simp add: put_be32_def be_u32_def be_bytes_be_val_length)
qed

lemma put_le_u16 [simp, wire_simps]:
  assumes "2 \<le> length b" shows "put_le16 (le_u16 b) = take 2 b"
proof -
  have "le_val (take 2 b) < 65536"
    using le_val_less [of "take 2 b"] assms by (simp add: min_absorb2)
  then show ?thesis
    using assms by (simp add: put_le16_def le_u16_def le_bytes_le_val_length)
qed

lemma put_le_u32 [simp, wire_simps]:
  assumes "4 \<le> length b" shows "put_le32 (le_u32 b) = take 4 b"
proof -
  have "le_val (take 4 b) < 4294967296"
    using le_val_less [of "take 4 b"] assms by (simp add: min_absorb2)
  then show ?thesis
    using assms by (simp add: put_le32_def le_u32_def le_bytes_le_val_length)
qed

lemma put_u16_subslice:
  assumes "j = i + 2" "j \<le> length b"
  shows "put_be16 (be_u16 (subslice b i j)) = subslice b i j"
    "put_le16 (le_u16 (subslice b i j)) = subslice b i j"
  using assms by simp_all

lemma put_u32_subslice:
  assumes "j = i + 4" "j \<le> length b"
  shows "put_be32 (be_u32 (subslice b i j)) = subslice b i j"
    "put_le32 (le_u32 (subslice b i j)) = subslice b i j"
  using assms by simp_all

lemma be_u16_cong_take: "2 \<le> n \<Longrightarrow> be_u16 (take n b) = be_u16 b"
  by (simp add: be_u16_def min_def)

lemma be_u16_append: "2 \<le> length b \<Longrightarrow> be_u16 (b @ c) = be_u16 b"
  by (simp add: be_u16_def)

end
