(* ===== verification/Mbap_Decode.thy ===== *)
theory Mbap_Decode
  imports Bytes_Prelude
begin

text \<open>
  The bench's own MBAP/Modbus reader, \<^verbatim>\<open>internal/mbapref/decode.go\<close>: framing of a byte buffer
  into MBAP ADUs (\<^verbatim>\<open>FrameStream\<close>, \<^verbatim>\<open>frameAt\<close>, \<^verbatim>\<open>Encode\<close>) and the PDU layer (\<^verbatim>\<open>DecodePDU\<close>,
  \<^verbatim>\<open>EncodePDU\<close>). Error messages are datatypes whose constructors carry the values the source
  formats into the text.
\<close>

section \<open>Framing constants and data\<close>

definition HeaderLen :: nat where "HeaderLen = 7"
definition MaxPDU :: nat where "MaxPDU = 253"
definition ProtocolID :: u16 where "ProtocolID = 0"
definition MinLengthField :: u16 where "MinLengthField = 2"
definition MaxLengthField :: u16 where "MaxLengthField = 1 + 253"

lemmas mbap_consts = HeaderLen_def MaxPDU_def ProtocolID_def MinLengthField_def MaxLengthField_def

record mbap_frame =
  TID :: u16
  PID :: u16
  LengthField :: u16
  UnitID :: byte
  PDUbytes :: bytes
  Off :: nat
  EndOff :: nat

text \<open>The reasons \<^verbatim>\<open>frameAt\<close> gives, one constructor per message.\<close>

datatype frame_reason =
    HeaderShort nat nat
  | ProtocolMismatch u16 u16
  | LengthOutside u16 u16 u16
  | PDUShort nat nat

record fault =
  FaultOff :: nat
  Reason :: frame_reason
  Truncated :: bool

section \<open>Framing\<close>

definition frameAt :: "bytes \<Rightarrow> nat \<Rightarrow> fault + (mbap_frame \<times> nat)" where
  "frameAt b off =
    (if length b - off < HeaderLen then
       Inl \<lparr>FaultOff = off, Reason = HeaderShort (length b - off) HeaderLen, Truncated = True\<rparr>
     else
       let h = subslice b off (off + HeaderLen);
           tid = be_u16 (subslice h 0 2);
           pid = be_u16 (subslice h 2 4);
           len = be_u16 (subslice h 4 6);
           unit = h ! 6
       in if pid \<noteq> ProtocolID then
            Inl \<lparr>FaultOff = off, Reason = ProtocolMismatch pid ProtocolID, Truncated = False\<rparr>
          else if len < MinLengthField \<or> len > MaxLengthField then
            Inl \<lparr>FaultOff = off, Reason = LengthOutside len MinLengthField MaxLengthField,
                 Truncated = False\<rparr>
          else
            let pduLen = unat len - 1;
                end = off + HeaderLen + pduLen
            in if end > length b then
                 Inl \<lparr>FaultOff = off, Reason = PDUShort pduLen (length b - off - HeaderLen),
                      Truncated = True\<rparr>
               else
                 Inr (\<lparr>TID = tid, PID = pid, LengthField = len, UnitID = unit,
                       PDUbytes = subslice b (off + HeaderLen) end, Off = off, EndOff = end\<rparr>,
                      HeaderLen + pduLen))"

text \<open>The offset strictly advances, which is what makes the framing loop terminate.\<close>

lemma frameAt_adv: "frameAt b off = Inr (f, adv) \<Longrightarrow> HeaderLen \<le> adv"
  by (auto simp: frameAt_def Let_def split: if_splits)

text \<open>The loop of \<^verbatim>\<open>FrameStream\<close>, with its two variables \<^verbatim>\<open>off\<close> and \<^verbatim>\<open>out\<close>.\<close>

function frame_loop :: "bytes \<Rightarrow> nat \<Rightarrow> mbap_frame list \<Rightarrow> mbap_frame list \<times> fault option" where
  "frame_loop b off out =
    (if off < length b then
       (case frameAt b off of
          Inl fault \<Rightarrow> (out, Some fault)
        | Inr (f, adv) \<Rightarrow> frame_loop b (off + adv) (out @ [f]))
     else (out, None))"
  by pat_completeness auto
termination
proof (relation "measure (\<lambda>(b, off, out). length b - off)")
  fix b :: bytes and off :: nat and out :: "mbap_frame list" and x y z
  assume "off < length b" "frameAt b off = Inr x" "(y, z) = x"
  then have "HeaderLen \<le> z" using frameAt_adv [of b off y z] by simp
  then show "((b, off + z, out @ [y]), b, off, out) \<in> measure (\<lambda>(b, off, out). length b - off)"
    using \<open>off < length b\<close> by (simp add: HeaderLen_def)
qed simp

declare frame_loop.simps [simp del]

definition FrameStream :: "bytes \<Rightarrow> mbap_frame list \<times> fault option" where
  "FrameStream b = frame_loop b 0 []"

datatype encode_error = EncProtocol u16 u16 | EncPDULength nat nat

definition Encode :: "mbap_frame \<Rightarrow> encode_error + bytes" where
  "Encode f =
    (if PID f \<noteq> ProtocolID then Inl (EncProtocol (PID f) ProtocolID)
     else if length (PDUbytes f) < 1 \<or> length (PDUbytes f) > MaxPDU then
       Inl (EncPDULength (length (PDUbytes f)) MaxPDU)
     else Inr (put_be16 (TID f) @ put_be16 ProtocolID
               @ put_be16 (word_of_nat (length (PDUbytes f) + 1))
               @ [UnitID f] @ PDUbytes f))"

section \<open>The PDU layer\<close>

definition FCReadHolding :: byte where "FCReadHolding = 0x03"
definition FCReadInput :: byte where "FCReadInput = 0x04"
definition FCWriteSingle :: byte where "FCWriteSingle = 0x06"
definition FCWriteMultiple :: byte where "FCWriteMultiple = 0x10"
definition ExceptionBit :: byte where "ExceptionBit = 0x80"

definition MaxReadCount :: nat where "MaxReadCount = (MaxPDU - 2) div 2"
definition MaxWriteCount :: nat where "MaxWriteCount = (MaxPDU - 6) div 2"

lemma max_counts [simp]: "MaxReadCount = 125" "MaxWriteCount = 123"
  by (simp_all add: MaxReadCount_def MaxWriteCount_def MaxPDU_def)

lemmas fc_consts = FCReadHolding_def FCReadInput_def FCWriteSingle_def FCWriteMultiple_def
  ExceptionBit_def

datatype kind =
    KindReadReq | KindReadResp | KindWriteReq | KindWriteResp
  | KindException | KindUnsupported | KindIndecipherab

datatype dir = FromClient | FromServer

text \<open>The rule a refusal names (\<^verbatim>\<open>PDU.Why\<close>); \<open>NoWhy\<close> is the empty string.\<close>

datatype why =
    NoWhy
  | EmptyPDU
  | ExceptionLength nat
  | ExceptionFromClient
  | ReadReqLength nat
  | ReadCountOutside u16
  | ReadSpan u16 u16
  | ReadRespLength nat
  | ReadRespOddByteCount nat
  | ReadRespInconsistent nat nat nat
  | FC06Length nat
  | FC16ReqLength nat
  | FC16CountOutside u16
  | FC16ByteCount nat u16
  | FC16Inconsistent nat nat nat
  | FC16Span u16 u16
  | FC16RespLength nat

record pdu =
  Kind :: kind
  FC :: byte
  Addr :: u16
  Count :: u16
  Values :: "u16 list"
  ByteCount :: nat
  ExCode :: byte
  Why :: why

text \<open>Go's composite literal leaves every field it does not name at its zero value.\<close>

definition pdu_of :: "kind \<Rightarrow> byte \<Rightarrow> pdu" where
  "pdu_of k fc = \<lparr>Kind = k, FC = fc, Addr = 0, Count = 0, Values = [], ByteCount = 0,
                  ExCode = 0, Why = NoWhy\<rparr>"

definition undecodable :: "byte \<Rightarrow> why \<Rightarrow> pdu" where
  "undecodable fc w = (pdu_of KindIndecipherab fc)\<lparr>Why := w\<rparr>"

definition decodeReadReq :: "bytes \<Rightarrow> pdu" where
  "decodeReadReq p =
    (if length p \<noteq> 5 then undecodable (p ! 0) (ReadReqLength (length p))
     else
       let d = (pdu_of KindReadReq (p ! 0))
                 \<lparr>Addr := be_u16 (subslice p 1 3), Count := be_u16 (subslice p 3 5)\<rparr>
       in if unat (Count d) < 1 \<or> unat (Count d) > MaxReadCount then
            undecodable (p ! 0) (ReadCountOutside (Count d))
          else if unat (Addr d) + unat (Count d) > 0x10000 then
            undecodable (p ! 0) (ReadSpan (Addr d) (Count d))
          else d)"

definition decodeReadResp :: "bytes \<Rightarrow> pdu" where
  "decodeReadResp p =
    (if length p < 2 then undecodable (p ! 0) (ReadRespLength (length p))
     else
       let bc = unat (p ! 1)
       in if bc mod 2 \<noteq> 0 then undecodable (p ! 0) (ReadRespOddByteCount bc)
          else if length p \<noteq> 2 + bc then
            undecodable (p ! 0) (ReadRespInconsistent (length p) bc (2 + bc))
          else (pdu_of KindReadResp (p ! 0))
                 \<lparr>ByteCount := bc, Count := word_of_nat (bc div 2),
                  Values := map (\<lambda>i. be_u16 (drop (2 + 2 * i) p)) [0..<bc div 2]\<rparr>)"

definition decodeWriteSingle :: "bytes \<Rightarrow> dir \<Rightarrow> pdu" where
  "decodeWriteSingle p dir =
    (if length p \<noteq> 5 then undecodable (p ! 0) (FC06Length (length p))
     else
       let k = (if dir = FromServer then KindWriteResp else KindWriteReq)
       in (pdu_of k (p ! 0))\<lparr>Addr := be_u16 (subslice p 1 3), Count := 1,
                             Values := [be_u16 (subslice p 3 5)]\<rparr>)"

definition decodeWriteMultiReq :: "bytes \<Rightarrow> pdu" where
  "decodeWriteMultiReq p =
    (if length p < 7 then undecodable (p ! 0) (FC16ReqLength (length p))
     else
       let count = be_u16 (subslice p 3 5);
           bc = unat (p ! 5)
       in if unat count < 1 \<or> unat count > MaxWriteCount then
            undecodable (p ! 0) (FC16CountOutside count)
          else if bc \<noteq> 2 * unat count then undecodable (p ! 0) (FC16ByteCount bc count)
          else if length p \<noteq> 6 + bc then
            undecodable (p ! 0) (FC16Inconsistent (length p) bc (6 + bc))
          else
            let addr = be_u16 (subslice p 1 3)
            in if unat addr + unat count > 0x10000 then undecodable (p ! 0) (FC16Span addr count)
               else (pdu_of KindWriteReq (p ! 0))
                      \<lparr>Addr := addr, Count := count, ByteCount := bc,
                       Values := map (\<lambda>i. be_u16 (drop (6 + 2 * i) p)) [0..<unat count]\<rparr>)"

definition decodeWriteMultiResp :: "bytes \<Rightarrow> pdu" where
  "decodeWriteMultiResp p =
    (if length p \<noteq> 5 then undecodable (p ! 0) (FC16RespLength (length p))
     else (pdu_of KindWriteResp (p ! 0))
            \<lparr>Addr := be_u16 (subslice p 1 3), Count := be_u16 (subslice p 3 5)\<rparr>)"

definition DecodePDU :: "bytes \<Rightarrow> dir \<Rightarrow> pdu" where
  "DecodePDU p dir =
    (if length p = 0 then undecodable 0 EmptyPDU
     else
       let fc = p ! 0
       in if fc AND ExceptionBit \<noteq> 0 then
            (if length p \<noteq> 2 then undecodable fc (ExceptionLength (length p))
             else if dir = FromClient then undecodable fc ExceptionFromClient
             else (pdu_of KindException (fc AND NOT ExceptionBit))\<lparr>ExCode := p ! 1\<rparr>)
          else if fc = FCReadHolding \<or> fc = FCReadInput then
            (if dir = FromClient then decodeReadReq p else decodeReadResp p)
          else if fc = FCWriteSingle then decodeWriteSingle p dir
          else if fc = FCWriteMultiple then
            (if dir = FromClient then decodeWriteMultiReq p else decodeWriteMultiResp p)
          else pdu_of KindUnsupported fc)"

datatype pdu_encode_error =
    FC06Values nat
  | FC06RespValues nat
  | CannotReencode kind

definition put_values :: "u16 list \<Rightarrow> bytes" where
  "put_values vs = concat (map put_be16 vs)"

definition EncodePDU :: "pdu \<Rightarrow> pdu_encode_error + bytes" where
  "EncodePDU d =
    (case Kind d of
       KindReadReq \<Rightarrow> Inr ([FC d] @ put_be16 (Addr d) @ put_be16 (Count d))
     | KindReadResp \<Rightarrow>
         Inr ([FC d, word_of_nat (2 * length (Values d))] @ put_values (Values d))
     | KindWriteReq \<Rightarrow>
         (if FC d = FCWriteSingle then
            (if length (Values d) \<noteq> 1 then Inl (FC06Values (length (Values d)))
             else Inr ([FC d] @ put_be16 (Addr d) @ put_be16 (Values d ! 0)))
          else Inr ([FC d] @ put_be16 (Addr d) @ put_be16 (word_of_nat (length (Values d)))
                    @ [word_of_nat (2 * length (Values d))] @ put_values (Values d)))
     | KindWriteResp \<Rightarrow>
         (if FC d = FCWriteSingle then
            (if length (Values d) \<noteq> 1 then Inl (FC06RespValues (length (Values d)))
             else Inr ([FC d] @ put_be16 (Addr d) @ put_be16 (Values d ! 0)))
          else Inr ([FC d] @ put_be16 (Addr d) @ put_be16 (Count d)))
     | KindException \<Rightarrow> Inr [FC d OR ExceptionBit, ExCode d]
     | _ \<Rightarrow> Inl (CannotReencode (Kind d)))"

section \<open>Framing facts\<close>

text \<open>What a frame the reader accepts looks like, and the bytes it occupies on the wire.\<close>

definition valid_frame :: "mbap_frame \<Rightarrow> bool" where
  "valid_frame f \<longleftrightarrow> PID f = ProtocolID \<and> 1 \<le> length (PDUbytes f) \<and> length (PDUbytes f) \<le> MaxPDU
     \<and> unat (LengthField f) = length (PDUbytes f) + 1"

definition wire :: "mbap_frame \<Rightarrow> bytes" where
  "wire f = put_be16 (TID f) @ put_be16 (PID f) @ put_be16 (LengthField f) @ [UnitID f] @ PDUbytes f"

lemma length_wire [simp]: "length (wire f) = 7 + length (PDUbytes f)"
  by (simp add: wire_def)

lemma Encode_valid: "valid_frame f \<Longrightarrow> Encode f = Inr (wire f)"
proof -
  assume v: "valid_frame f"
  then have "(word_of_nat (length (PDUbytes f) + 1) :: u16) = LengthField f"
    unfolding valid_frame_def by (metis word_of_nat_unat_id)
  with v show ?thesis by (auto simp: Encode_def valid_frame_def wire_def)
qed

text \<open>The offset range of the frames, end to end from \<open>i\<close> to \<open>j\<close>: no gap, no overlap.\<close>

fun tiles :: "nat \<Rightarrow> mbap_frame list \<Rightarrow> nat \<Rightarrow> bool" where
  "tiles i [] j = (i = j)"
| "tiles i (f # fs) j = (Off f = i \<and> i < EndOff f \<and> tiles (EndOff f) fs j)"

definition stop_of :: "bytes \<Rightarrow> fault option \<Rightarrow> nat" where
  "stop_of b ft = (case ft of None \<Rightarrow> length b | Some t \<Rightarrow> FaultOff t)"

definition shift_frame :: "nat \<Rightarrow> mbap_frame \<Rightarrow> mbap_frame" where
  "shift_frame n f = f\<lparr>Off := n + Off f, EndOff := n + EndOff f\<rparr>"

definition shift_fault :: "nat \<Rightarrow> fault \<Rightarrow> fault" where
  "shift_fault n t = t\<lparr>FaultOff := n + FaultOff t\<rparr>"

lemma frameAt_Inr:
  assumes "frameAt b off = Inr (f, adv)"
  shows "valid_frame f" "Off f = off" "EndOff f = off + adv" "adv = length (wire f)"
    "off + adv \<le> length b" "subslice b off (off + adv) = wire f"
proof -
  let ?h = "subslice b off (off + 7)"
  let ?len = "be_u16 (subslice ?h 4 6)"
  let ?e = "off + 7 + (unat ?len - 1)"
  from assms have len: "7 \<le> length b - off" and L: "2 \<le> unat ?len" "unat ?len \<le> 254"
    and e: "?e \<le> length b" and pid: "be_u16 (subslice ?h 2 4) = 0"
    and f: "f = \<lparr>TID = be_u16 (subslice ?h 0 2), PID = be_u16 (subslice ?h 2 4),
                 LengthField = ?len, UnitID = ?h ! 6, PDUbytes = subslice b (off + 7) ?e,
                 Off = off, EndOff = ?e\<rparr>"
    and adv: "adv = 7 + (unat ?len - 1)"
    by (auto simp: frameAt_def Let_def mbap_consts word_less_nat_alt not_less split: if_splits)
  have pdu: "length (PDUbytes f) = unat ?len - 1"
    using e by (simp add: f)
  have lf: "LengthField f = ?len" "PID f = 0" by (simp_all add: f pid)
  show "valid_frame f"
    using L pdu lf by (auto simp: valid_frame_def mbap_consts)
  show "Off f = off" "EndOff f = off + adv" by (simp_all add: f adv)
  show "adv = length (wire f)" using pdu adv by simp
  show "off + adv \<le> length b" using e adv by simp
  have h: "length ?h = 7" using len by simp
  have unit: "[?h ! 6] = subslice ?h 6 7"
    using subslice_single [of 6 ?h] unfolding h by simp
  have "wire f = subslice ?h 0 2 @ subslice ?h 2 4 @ subslice ?h 4 6 @ subslice ?h 6 7
                 @ subslice b (off + 7) ?e"
    using h by (simp add: wire_def f unit put_u16_subslice del: length_subslice)
  also have "\<dots> = subslice ?h 0 7 @ subslice b (off + 7) ?e"
    by (simp add: subslice_glue)
  also have "\<dots> = subslice b off (off + 7) @ subslice b (off + 7) ?e"
    using h by (metis subslice_full)
  also have "\<dots> = subslice b off ?e"
    by (rule subslice_append_adjacent) simp_all
  finally show "subslice b off (off + adv) = wire f" using adv by (simp add: add.assoc)
qed

lemma frameAt_wire:
  assumes "valid_frame f"
  shows "frameAt (pre @ wire f @ rest) (length pre) =
    Inr (f\<lparr>Off := length pre, EndOff := length pre + length (wire f)\<rparr>, length (wire f))"
proof -
  let ?b = "pre @ wire f @ rest"
  let ?hd = "put_be16 (TID f) @ put_be16 (PID f) @ put_be16 (LengthField f) @ [UnitID f]"
  have h: "subslice ?b (length pre) (length pre + HeaderLen) = ?hd"
    by (simp add: subslice_append_right HeaderLen_def wire_def)
  have fields: "be_u16 (subslice ?hd 0 2) = TID f" "be_u16 (subslice ?hd 2 4) = PID f"
    "be_u16 (subslice ?hd 4 6) = LengthField f" "?hd ! 6 = UnitID f"
    using be_u16_put [of _ "[]"] by (simp_all add: subslice_def nth_append)
  have pdu: "subslice ?b (length pre + HeaderLen)
        (length pre + HeaderLen + (unat (LengthField f) - 1)) = PDUbytes f"
    using assms by (simp add: subslice_def HeaderLen_def wire_def valid_frame_def)
  have ok: "PID f = ProtocolID" "\<not> LengthField f < MinLengthField" "\<not> MaxLengthField < LengthField f"
    "unat (LengthField f) - 1 = length (PDUbytes f)"
    using assms by (auto simp: valid_frame_def mbap_consts word_less_nat_alt)
  show ?thesis
    unfolding frameAt_def Let_def h fields pdu using ok by (simp add: HeaderLen_def)
qed

lemma frameAt_shift:
  "frameAt (pre @ b) (length pre + off) =
    map_sum (shift_fault (length pre)) (map_prod (shift_frame (length pre)) id) (frameAt b off)"
proof -
  have e: "subslice (pre @ b) (length pre + i) (length pre + j) = subslice b i j" for i j
    by (rule subslice_shift)
  show ?thesis
    by (simp add: frameAt_def Let_def shift_fault_def shift_frame_def add.assoc e
        del: length_subslice)
qed

lemma frameAt_extend_Inr:
  assumes "frameAt b off = Inr (f, adv)"
  shows "frameAt (b @ c) off = Inr (f, adv)"
proof -
  note facts = frameAt_Inr [OF assms]
  have b: "b = take off b @ wire f @ drop (off + adv) b"
    using split_at_subslice [of off "off + adv" b] facts(6) by simp
  have off: "length (take off b) = off" using facts(5) by simp
  have "frameAt (b @ c) off =
      frameAt (take off b @ wire f @ drop (off + adv) b @ c) (length (take off b))"
    by (subst b) (simp only: append.assoc off)
  also have "\<dots> = Inr (f\<lparr>Off := off, EndOff := off + length (wire f)\<rparr>, length (wire f))"
    using frameAt_wire [OF facts(1), of "take off b"] off by simp
  also have "f\<lparr>Off := off, EndOff := off + length (wire f)\<rparr> = f"
    using facts(2-4) by simp
  finally show ?thesis using facts(4) by simp
qed

lemma frameAt_extend_violation:
  assumes "frameAt b off = Inl t" "\<not> Truncated t"
  shows "frameAt (b @ c) off = Inl t"
proof -
  have len: "7 \<le> length b - off"
    using assms by (auto simp: frameAt_def HeaderLen_def Let_def split: if_splits)
  have n1: "\<not> length b - off < HeaderLen" and n2: "\<not> length b + length c - off < HeaderLen"
    using len by (simp_all add: HeaderLen_def)
  have h: "subslice (b @ c) off (off + HeaderLen) = subslice b off (off + HeaderLen)"
    using len by (intro subslice_append_left) (simp add: HeaderLen_def)
  show ?thesis
    using assms
    by (auto simp: frameAt_def h n1 n2 Let_def simp del: length_subslice split: if_splits)
qed

lemma frameAt_Inl_off: "frameAt b off = Inl t \<Longrightarrow> FaultOff t = off"
  by (auto simp: frameAt_def Let_def split: if_splits)

section \<open>The framing loop\<close>

text \<open>The accumulator only collects, so the loop is described by what it returns from \<open>[]\<close>.\<close>

lemma frame_loop_acc:
  "frame_loop b off out = (out @ fst (frame_loop b off []), snd (frame_loop b off []))"
proof (induction "length b - off" arbitrary: off out rule: less_induct)
  case less
  show ?case
  proof (cases "off < length b")
    case False
    then show ?thesis by (simp add: frame_loop.simps [of b off])
  next
    case True
    show ?thesis
    proof (cases "frameAt b off")
      case (Inl t)
      with True show ?thesis by (simp add: frame_loop.simps [of b off])
    next
      case (Inr r)
      obtain f adv where r: "r = (f, adv)" by (cases r)
      have "length b - (off + adv) < length b - off"
        using True frameAt_adv [of b off f adv] Inr r by (simp add: HeaderLen_def)
      note IH = less [OF this]
      show ?thesis
        using True Inr r IH [of "out @ [f]"] IH [of "[f]"]
        by (simp add: frame_loop.simps [of b off])
    qed
  qed
qed

abbreviation frames_from :: "bytes \<Rightarrow> nat \<Rightarrow> mbap_frame list \<times> fault option" where
  "frames_from b off \<equiv> frame_loop b off []"

lemma frames_from_end: "\<not> off < length b \<Longrightarrow> frames_from b off = ([], None)"
  by (simp add: frame_loop.simps)

lemma frames_from_Inl: "off < length b \<Longrightarrow> frameAt b off = Inl t \<Longrightarrow> frames_from b off = ([], Some t)"
  by (simp add: frame_loop.simps)

lemma frames_from_Inr:
  "off < length b \<Longrightarrow> frameAt b off = Inr (f, adv) \<Longrightarrow>
   frames_from b off = (f # fst (frames_from b (off + adv)), snd (frames_from b (off + adv)))"
  using frame_loop_acc [of b "off + adv" "[f]"] by (simp add: frame_loop.simps [of b off])

lemmas frames_from_steps = frames_from_end frames_from_Inl frames_from_Inr

text \<open>Induction along the frames a buffer yields: the three ways one iteration goes.\<close>

lemma frames_induct [case_names End Fault Frame]:
  assumes "\<And>off. \<not> off < length b \<Longrightarrow> P off"
    and "\<And>off t. off < length b \<Longrightarrow> frameAt b off = Inl t \<Longrightarrow> P off"
    and "\<And>off f adv. off < length b \<Longrightarrow> frameAt b off = Inr (f, adv) \<Longrightarrow> P (off + adv) \<Longrightarrow> P off"
  shows "P off"
proof (induction "length b - off" arbitrary: off rule: less_induct)
  case less
  show ?case
  proof (cases "off < length b")
    case True
    show ?thesis
    proof (cases "frameAt b off")
      case (Inr r)
      obtain f adv where r: "r = (f, adv)" by (cases r)
      have "length b - (off + adv) < length b - off"
        using True frameAt_adv [of b off f adv] Inr r by (simp add: HeaderLen_def)
      with True Inr r less show ?thesis by (auto intro: assms(3))
    qed (auto intro: assms(2) True)
  qed (rule assms(1))
qed

lemma frames_from_tile:
  assumes "off \<le> length b" "frames_from b off = (fs, ft)"
  shows "tiles off fs (stop_of b ft) \<and> stop_of b ft \<le> length b \<and>
    (\<forall>f \<in> set fs. valid_frame f \<and> subslice b (Off f) (EndOff f) = wire f)"
  using assms
proof (induction off arbitrary: fs ft rule: frames_induct [of b])
  case (End off)
  then show ?case by (simp add: frames_from_end stop_of_def)
next
  case (Fault off t)
  then show ?case using frameAt_Inl_off [of b off t] by (auto simp: frames_from_Inl stop_of_def)
next
  case (Frame off f adv)
  note facts = frameAt_Inr [OF Frame(2)]
  obtain gs gt where rest: "frames_from b (off + adv) = (gs, gt)" by fastforce
  with Frame have eq: "fs = f # gs" "ft = gt" by (simp_all add: frames_from_Inr)
  have "tiles (off + adv) gs (stop_of b gt) \<and> stop_of b gt \<le> length b \<and>
    (\<forall>f \<in> set gs. valid_frame f \<and> subslice b (Off f) (EndOff f) = wire f)"
    using Frame.IH facts(5) rest by blast
  with eq facts show ?case by simp
qed

lemma frames_from_shift:
  "frames_from (pre @ b) (length pre + off) =
     map_prod (map (shift_frame (length pre))) (map_option (shift_fault (length pre)))
       (frames_from b off)"
proof (induction off rule: frames_induct [of b])
  case (End off)
  then show ?case by (simp add: frames_from_end)
next
  case (Fault off t)
  then show ?case by (simp add: frames_from_Inl frameAt_shift)
next
  case (Frame off f adv)
  have "frameAt (pre @ b) (length pre + off) = Inr (shift_frame (length pre) f, adv)"
    using Frame(2) by (simp add: frameAt_shift)
  then show ?case
    using Frame by (simp add: frames_from_Inr add.assoc)
qed

lemma frames_from_extend:
  assumes "off \<le> length b" "frames_from b off = (fs, ft)"
  shows "frames_from (b @ c) off =
    (case ft of
       Some t \<Rightarrow> if Truncated t then (fs @ fst (frames_from (b @ c) (FaultOff t)),
                                   snd (frames_from (b @ c) (FaultOff t))) else (fs, ft)
     | None \<Rightarrow> (fs @ fst (frames_from (b @ c) (length b)), snd (frames_from (b @ c) (length b))))"
  using assms
proof (induction off arbitrary: fs ft rule: frames_induct [of b])
  case (End off)
  then show ?case by (auto simp: frames_from_end)
next
  case (Fault off t)
  then show ?case using frameAt_Inl_off [of b off t] frameAt_extend_violation [of b off t c]
    by (auto simp: frames_from_Inl)
next
  case (Frame off f adv)
  obtain gs gt where rest: "frames_from b (off + adv) = (gs, gt)" by fastforce
  with Frame have eq: "fs = f # gs" "ft = gt" by (simp_all add: frames_from_Inr)
  have "off + adv \<le> length b" using frameAt_Inr [OF Frame(2)] by simp
  note IH = Frame.IH [OF this rest]
  show ?case
    using Frame(1) frameAt_extend_Inr [OF Frame(2), of c] IH
    by (simp add: frames_from_Inr eq split: option.splits)
qed

text \<open>Frames laid end to end are read back, each at the place it lies.\<close>

primrec relocate :: "nat \<Rightarrow> mbap_frame list \<Rightarrow> mbap_frame list" where
  "relocate i [] = []"
| "relocate i (f # fs) =
     f\<lparr>Off := i, EndOff := i + length (wire f)\<rparr> # relocate (i + length (wire f)) fs"

lemma frames_from_wires:
  assumes "\<forall>f \<in> set fs. valid_frame f"
  shows "frames_from (pre @ concat (map wire fs)) (length pre) = (relocate (length pre) fs, None)"
  using assms
proof (induction fs arbitrary: pre)
  case Nil
  then show ?case by (simp add: frames_from_end)
next
  case (Cons f fs)
  let ?b = "pre @ wire f @ concat (map wire fs)"
  have at: "frameAt ?b (length pre) =
    Inr (f\<lparr>Off := length pre, EndOff := length pre + length (wire f)\<rparr>, length (wire f))"
    using Cons.prems by (intro frameAt_wire) simp
  have "frames_from ((pre @ wire f) @ concat (map wire fs)) (length (pre @ wire f)) =
    (relocate (length (pre @ wire f)) fs, None)"
    using Cons by (intro Cons.IH) simp
  then show ?case
    using frames_from_Inr [OF _ at] by simp
qed

section \<open>PDU facts\<close>

lemma length_put_values [simp]: "length (put_values vs) = 2 * length vs"
  by (induction vs) (simp_all add: put_values_def)

lemma put_values_read:
  "k + 2 * n \<le> length p \<Longrightarrow>
   put_values (map (\<lambda>i. be_u16 (drop (k + 2 * i) p)) [0..<n]) = subslice p k (k + 2 * n)"
proof (induction n)
  case 0
  then show ?case by (simp add: put_values_def)
next
  case (Suc n)
  have "put_be16 (be_u16 (drop (k + 2 * n) p)) = subslice p (k + 2 * n) (k + 2 * n + 2)"
    using Suc.prems by (simp add: subslice_def)
  moreover have "put_values (map (\<lambda>i. be_u16 (drop (k + 2 * i) p)) [0..<n])
      = subslice p k (k + 2 * n)"
    using Suc by simp
  ultimately show ?case by (simp add: put_values_def subslice_glue)
qed

lemma pdu_fields [simp]:
  "Kind (pdu_of k fc) = k" "FC (pdu_of k fc) = fc" "Addr (pdu_of k fc) = 0"
  "Count (pdu_of k fc) = 0" "Values (pdu_of k fc) = []" "Why (pdu_of k fc) = NoWhy"
  "ExCode (pdu_of k fc) = 0" "ByteCount (pdu_of k fc) = 0"
  "Kind (undecodable fc w) = KindIndecipherab" "FC (undecodable fc w) = fc"
  "Why (undecodable fc w) = w"
  by (simp_all add: pdu_of_def undecodable_def)

lemma head_subslice: "0 < length p \<Longrightarrow> [p ! 0] = subslice p 0 1"
  using subslice_single [of 0 p] by simp

lemma five_bytes:
  assumes "length p = 5"
  shows "[p ! 0] @ put_be16 (be_u16 (subslice p 1 3)) @ put_be16 (be_u16 (subslice p 3 5)) = p"
proof -
  have "subslice p 0 5 = p" using assms subslice_full [of p] by simp
  then show ?thesis
    using assms head_subslice [of p]
    by (simp only: put_u16_subslice) (simp add: put_u16_subslice subslice_glue del: subslice_full)
qed

lemma clear_set_bit: "bit x n \<Longrightarrow> (x AND NOT (2 ^ n)) OR 2 ^ n = x" for x :: "'a :: len word"
  by (intro bit_word_eqI) (auto simp: bit_and_iff bit_or_iff bit_not_iff bit_exp_iff)

lemma exception_bit_or:
  assumes "fc AND ExceptionBit \<noteq> 0"
  shows "(fc AND NOT ExceptionBit) OR ExceptionBit = fc"
proof -
  have e: "ExceptionBit = 2 ^ 7" by (simp add: ExceptionBit_def)
  have "bit fc 7"
    using assms and_exp_eq_0_iff_not_bit [of fc 7] unfolding e by blast
  then show ?thesis unfolding e by (rule clear_set_bit)
qed

lemma decodeReadReq_ok:
  assumes "Kind (decodeReadReq p) \<noteq> KindIndecipherab"
  shows "EncodePDU (decodeReadReq p) = Inr p"
    "Kind (decodeReadReq p) = KindReadReq" "1 \<le> unat (Count (decodeReadReq p))"
    "unat (Count (decodeReadReq p)) \<le> MaxReadCount"
    "unat (Addr (decodeReadReq p)) + unat (Count (decodeReadReq p)) \<le> 0x10000"
  using assms five_bytes [of p]
  by (auto simp: decodeReadReq_def Let_def EncodePDU_def split: if_splits)

lemma decodeReadResp_ok:
  assumes "Kind (decodeReadResp p) \<noteq> KindIndecipherab"
  shows "EncodePDU (decodeReadResp p) = Inr p" "Kind (decodeReadResp p) = KindReadResp"
    "length p = 2 + 2 * length (Values (decodeReadResp p))"
    "unat (Count (decodeReadResp p)) = length (Values (decodeReadResp p))"
proof -
  let ?d = "decodeReadResp p" and ?bc = "unat (p ! 1)"
  from assms have len: "2 \<le> length p" "length p = 2 + ?bc" and even: "even ?bc"
    and d: "?d = (pdu_of KindReadResp (p ! 0))
         \<lparr>ByteCount := ?bc, Count := word_of_nat (?bc div 2),
          Values := map (\<lambda>i. be_u16 (drop (2 + 2 * i) p)) [0..<?bc div 2]\<rparr>"
    by (auto simp: decodeReadResp_def Let_def dvd_eq_mod_eq_0 split: if_splits)
  have bc: "2 * (?bc div 2) = ?bc" using even by simp
  have vals: "put_values (Values ?d) = subslice p 2 (length p)"
    using put_values_read [of 2 "?bc div 2" p] len bc by (simp add: d)
  have "[p ! 0, p ! 1] = subslice p 0 2"
    using subslice_two [OF len(1)] by simp
  then have "[p ! 0, p ! 1] @ put_values (Values ?d) = p"
    using len(1) by (simp only: vals) (simp add: subslice_glue)
  moreover have "word_of_nat (2 * length (Values ?d)) = p ! 1"
    using bc by (simp add: d)
  moreover have "Kind ?d = KindReadResp" "FC ?d = p ! 0" by (simp_all add: d)
  ultimately show "EncodePDU ?d = Inr p"
    by (simp add: EncodePDU_def)
  show "Kind ?d = KindReadResp" by (simp add: d)
  show "length p = 2 + 2 * length (Values ?d)" using len bc by (simp add: d)
  show "unat (Count ?d) = length (Values ?d)"
    using unat_byte_less [of "p ! 1"] by (simp add: d)
qed

lemma decodeWriteSingle_ok:
  assumes "Kind (decodeWriteSingle p dir) \<noteq> KindIndecipherab" "p ! 0 = FCWriteSingle"
  shows "EncodePDU (decodeWriteSingle p dir) = Inr p"
    "Kind (decodeWriteSingle p dir) = (if dir = FromServer then KindWriteResp else KindWriteReq)"
    "Count (decodeWriteSingle p dir) = 1" "length (Values (decodeWriteSingle p dir)) = 1"
  using assms five_bytes [of p]
  by (auto simp: decodeWriteSingle_def Let_def EncodePDU_def split: if_splits)

lemma decodeWriteMultiReq_ok:
  assumes "Kind (decodeWriteMultiReq p) \<noteq> KindIndecipherab" "p ! 0 \<noteq> FCWriteSingle"
  shows "EncodePDU (decodeWriteMultiReq p) = Inr p"
    "Kind (decodeWriteMultiReq p) = KindWriteReq"
    "length (Values (decodeWriteMultiReq p)) = unat (Count (decodeWriteMultiReq p))"
    "1 \<le> unat (Count (decodeWriteMultiReq p))"
    "unat (Count (decodeWriteMultiReq p)) \<le> MaxWriteCount"
    "unat (Addr (decodeWriteMultiReq p)) + unat (Count (decodeWriteMultiReq p)) \<le> 0x10000"
proof -
  let ?d = "decodeWriteMultiReq p" and ?count = "be_u16 (subslice p 3 5)" and ?bc = "unat (p ! 5)"
  from assms(1) have len: "7 \<le> length p" "length p = 6 + ?bc" and bc: "?bc = 2 * unat ?count"
    and bounds: "1 \<le> unat ?count" "unat ?count \<le> MaxWriteCount"
      "unat (be_u16 (subslice p 1 3)) + unat ?count \<le> 0x10000"
    and d: "?d = (pdu_of KindWriteReq (p ! 0))
         \<lparr>Addr := be_u16 (subslice p 1 3), Count := ?count, ByteCount := ?bc,
          Values := map (\<lambda>i. be_u16 (drop (6 + 2 * i) p)) [0..<unat ?count]\<rparr>"
    by (auto simp: decodeWriteMultiReq_def Let_def split: if_splits)
  have vals: "put_values (Values ?d) = subslice p 6 (length p)"
    using put_values_read [of 6 "unat ?count" p] len bc by (simp add: d)
  have lenv: "length (Values ?d) = unat ?count" by (simp add: d)
  have "[p ! 0] @ put_be16 (Addr ?d) @ put_be16 (Count ?d) @ [p ! 5] @ put_values (Values ?d)
      = subslice p 0 1 @ subslice p 1 3 @ subslice p 3 5 @ subslice p 5 6 @ subslice p 6 (length p)"
    using len subslice_single [of 0 p] subslice_single [of 5 p]
    by (simp only: vals) (simp add: d put_u16_subslice)
  also have "\<dots> = p" using len(1) by (simp add: subslice_glue)
  finally have enc: "[p ! 0] @ put_be16 (Addr ?d) @ put_be16 (Count ?d) @ [p ! 5]
      @ put_values (Values ?d) = p" .
  have "(word_of_nat (length (Values ?d)) :: u16) = Count ?d"
    "word_of_nat (2 * length (Values ?d)) = p ! 5"
    using bc [symmetric] by (simp_all only: lenv) (simp_all add: d)
  moreover have "Kind ?d = KindWriteReq" "FC ?d = p ! 0" by (simp_all add: d)
  ultimately show "EncodePDU ?d = Inr p"
    using enc assms(2) by (simp add: EncodePDU_def)
  show "Kind ?d = KindWriteReq" "length (Values ?d) = unat (Count ?d)" "1 \<le> unat (Count ?d)"
    "unat (Count ?d) \<le> MaxWriteCount" "unat (Addr ?d) + unat (Count ?d) \<le> 0x10000"
    using bounds by (simp_all add: d)
qed

lemma decodeWriteMultiResp_ok:
  assumes "Kind (decodeWriteMultiResp p) \<noteq> KindIndecipherab" "p ! 0 \<noteq> FCWriteSingle"
  shows "EncodePDU (decodeWriteMultiResp p) = Inr p"
    "Kind (decodeWriteMultiResp p) = KindWriteResp"
  using assms five_bytes [of p]
  by (auto simp: decodeWriteMultiResp_def EncodePDU_def split: if_splits)

text \<open>The cases of \<^verbatim>\<open>DecodePDU\<close>: which decoder a PDU reaches.\<close>

lemma DecodePDU_cases:
  assumes "Kind (DecodePDU p dir) \<noteq> KindIndecipherab" "Kind (DecodePDU p dir) \<noteq> KindUnsupported"
  obtains
    (Exc) "dir = FromServer" "length p = 2" "p ! 0 AND ExceptionBit \<noteq> 0"
      "DecodePDU p dir = (pdu_of KindException (p ! 0 AND NOT ExceptionBit))\<lparr>ExCode := p ! 1\<rparr>"
  | (RReq) "dir = FromClient" "DecodePDU p dir = decodeReadReq p"
  | (RResp) "dir = FromServer" "DecodePDU p dir = decodeReadResp p"
  | (W1) "p ! 0 = FCWriteSingle" "DecodePDU p dir = decodeWriteSingle p dir"
  | (WReq) "dir = FromClient" "p ! 0 \<noteq> FCWriteSingle" "DecodePDU p dir = decodeWriteMultiReq p"
  | (WResp) "dir = FromServer" "p ! 0 \<noteq> FCWriteSingle" "DecodePDU p dir = decodeWriteMultiResp p"
proof -
  have "dir = FromClient \<or> dir = FromServer" by (cases dir) auto
  with assms show thesis
    by (auto simp: DecodePDU_def Let_def split: if_splits intro: that)
qed

section \<open>Properties\<close>

text \<open>C17: Every frame the reader accepts re-encodes, through the encoder that recomputes the
  length, to exactly the bytes it was read from; the frames lie end to end from offset 0, and
  what they do not cover begins where the fault says (or is empty when there is no fault). The
  reader neither repairs a frame nor skips a byte between frames.\<close>

theorem FrameStream_identity:
  assumes "FrameStream b = (fs, ft)"
  shows "tiles 0 fs (stop_of b ft) \<and> stop_of b ft \<le> length b \<and>
    (\<forall>f \<in> set fs. Encode f = Inr (subslice b (Off f) (EndOff f)))"
proof -
  have "tiles 0 fs (stop_of b ft) \<and> stop_of b ft \<le> length b \<and>
    (\<forall>f \<in> set fs. valid_frame f \<and> subslice b (Off f) (EndOff f) = wire f)"
    using assms frames_from_tile [of 0 b fs ft] by (simp add: FrameStream_def)
  then show ?thesis by (auto simp: Encode_valid)
qed

theorem FrameStream_identity_witness:
  "FrameStream [0, 1, 0, 0, 0, 2, 9, 3, 0, 2, 0, 1] =
     ([\<lparr>TID = 1, PID = 0, LengthField = 2, UnitID = 9, PDUbytes = [3], Off = 0, EndOff = 8\<rparr>],
      Some \<lparr>FaultOff = 8, Reason = HeaderShort 4 7, Truncated = True\<rparr>) \<and>
   Encode \<lparr>TID = 1, PID = 0, LengthField = 2, UnitID = 9, PDUbytes = [3], Off = 0, EndOff = 8\<rparr>
     = Inr [0, 1, 0, 0, 0, 2, 9, 3]"
proof -
  have run: "FrameStream [0, 1, 0, 0, 0, 2, 9, 3, 0, 2, 0, 1] =
     ([\<lparr>TID = 1, PID = 0, LengthField = 2, UnitID = 9, PDUbytes = [3], Off = 0, EndOff = 8\<rparr>],
      Some \<lparr>FaultOff = 8, Reason = HeaderShort 4 7, Truncated = True\<rparr>)"
    by code_simp
  show ?thesis
    using run FrameStream_identity [OF run] by (simp add: subslice_def)
qed

text \<open>Framing inverts encoding: any sequence of encodable frames written one after the other
  is read back as the same sequence, each frame carrying the offsets it occupies, and no fault.\<close>

lemma FrameStream_roundtrip:
  assumes "\<forall>f \<in> set fs. valid_frame f"
  shows "FrameStream (concat (map wire fs)) = (relocate 0 fs, None) \<and>
    (\<forall>f \<in> set fs. Encode f = Inr (wire f))"
  using frames_from_wires [OF assms, of "[]"] assms by (simp add: FrameStream_def Encode_valid)

text \<open>The reader never resynchronises. Appending bytes to a buffer changes nothing when the
  reader had refused bytes it could see; when it had run out of bytes (or had ended on a frame
  boundary), it continues with exactly what framing the unread rest afresh would give, so a stream
  may be fed in pieces.\<close>

lemma FrameStream_extend:
  assumes "FrameStream b = (fs, ft)"
  shows "FrameStream (b @ c) =
    (if \<exists>t. ft = Some t \<and> \<not> Truncated t then (fs, ft)
     else let s = stop_of b ft; (gs, gt) = FrameStream (drop s b @ c)
          in (fs @ map (shift_frame s) gs, map_option (shift_fault s) gt))"
proof -
  have b: "frames_from b 0 = (fs, ft)" using assms by (simp add: FrameStream_def)
  define s where "s = stop_of b ft"
  have "s \<le> length b" using frames_from_tile [of 0 b fs ft] b by (simp add: s_def)
  then have "frames_from (b @ c) s = map_prod (map (shift_frame s)) (map_option (shift_fault s))
      (FrameStream (drop s b @ c))"
    using frames_from_shift [of "take s b" "drop s b @ c" 0]
    by (simp add: FrameStream_def min_absorb2 flip: append.assoc)
  then show ?thesis
    using frames_from_extend [OF _ b, of c]
    by (auto simp: FrameStream_def s_def stop_of_def Let_def split: option.splits prod.splits)
qed

text \<open>Every PDU the reader understands, in either direction, re-encodes through the encoder
  that recomputes all byte and register counts to exactly the bytes it was decoded from.\<close>

lemma EncodePDU_DecodePDU:
  assumes "Kind (DecodePDU p dir) \<noteq> KindIndecipherab" "Kind (DecodePDU p dir) \<noteq> KindUnsupported"
  shows "EncodePDU (DecodePDU p dir) = Inr p"
proof -
  have two: "[p ! 0, p ! 1] = p" if "length p = 2"
    using that by (cases p; cases "tl p") auto
  from assms show ?thesis
  proof (cases rule: DecodePDU_cases)
    case Exc
    then show ?thesis using two exception_bit_or [of "p ! 0"] by (simp add: EncodePDU_def)
  qed (use assms(1) decodeReadReq_ok decodeReadResp_ok decodeWriteSingle_ok
      decodeWriteMultiReq_ok decodeWriteMultiResp_ok in auto)
qed

text \<open>An accepted request never reaches outside the register space and never asks for more
  registers than one PDU can carry: a read of 1 to 125 registers, a write of 1 to 123 with one
  value per register, both ending at or below register 65535.\<close>

lemma DecodePDU_request_bounds:
  assumes "Kind (DecodePDU p FromClient) = KindReadReq \<or> Kind (DecodePDU p FromClient) = KindWriteReq"
  shows "1 \<le> unat (Count (DecodePDU p FromClient)) \<and>
    unat (Count (DecodePDU p FromClient)) \<le>
      (if Kind (DecodePDU p FromClient) = KindReadReq then 125 else 123) \<and>
    unat (Addr (DecodePDU p FromClient)) + unat (Count (DecodePDU p FromClient)) \<le> 65536 \<and>
    (Kind (DecodePDU p FromClient) = KindWriteReq \<longrightarrow>
      length (Values (DecodePDU p FromClient)) = unat (Count (DecodePDU p FromClient)))"
proof -
  have ok: "Kind (DecodePDU p FromClient) \<noteq> KindIndecipherab"
    "Kind (DecodePDU p FromClient) \<noteq> KindUnsupported"
    using assms by auto
  from ok show ?thesis
  proof (cases rule: DecodePDU_cases)
    case RReq
    then show ?thesis using ok decodeReadReq_ok [of p] by auto
  next
    case W1
    then show ?thesis
      using ok decodeWriteSingle_ok [of p FromClient]
        unat_u16_less [of "Addr (decodeWriteSingle p FromClient)"] by auto
  next
    case WReq
    then show ?thesis using ok decodeWriteMultiReq_ok [of p] by auto
  qed (use assms in auto)
qed

end
