(* ===== verification/Mbap_Product.thy ===== *)
theory Mbap_Product
  imports Mbap_Decode
begin

text \<open>
  The product's Modbus codec, the subject of the differential (\<^verbatim>\<open>vendor/lexa-proto/mbap\<close>: \<^verbatim>\<open>mbap.go\<close> and
  \<^verbatim>\<open>pdu.go\<close>), and the adapter of \<^verbatim>\<open>internal/mbapref/differential.go\<close> that runs it over a buffer
  (\<^verbatim>\<open>countingReader\<close>, \<^verbatim>\<open>protoSubject\<close>).  A Go interface is a record of functions; an index out of range is
  the panic \<open>None\<close>, which the adapter recovers.
\<close>

section \<open>Reading from a buffer\<close>

record counting_reader =
  rdB :: bytes
  rdOff :: nat
  rdHitEOF :: bool

text \<open>\<^verbatim>\<open>countingReader.Read\<close> into a slice of \<open>n\<close> bytes: \<open>None\<close> is \<^verbatim>\<open>io.EOF\<close>.\<close>

definition counting_Read :: "counting_reader \<Rightarrow> nat \<Rightarrow> bytes option \<times> counting_reader" where
  "counting_Read r n =
    (if rdOff r \<ge> length (rdB r) then (None, r\<lparr>rdHitEOF := True\<rparr>)
     else let chunk = take n (drop (rdOff r) (rdB r))
          in (Some chunk, r\<lparr>rdOff := rdOff r + length chunk\<rparr>))"

datatype read_failure = EndOfFile | UnexpectedEnd

text \<open>\<^verbatim>\<open>io.ReadFull\<close>: reads until the slice is full; running out part-way is \<^verbatim>\<open>io.ErrUnexpectedEOF\<close>.\<close>

function read_full :: "counting_reader \<Rightarrow> nat \<Rightarrow> bytes \<Rightarrow> (read_failure + bytes) \<times> counting_reader" where
  "read_full r n acc =
    (if length acc \<ge> n then (Inr acc, r)
     else case counting_Read r (n - length acc) of
       (None, r') \<Rightarrow> (Inl (if acc = [] then EndOfFile else UnexpectedEnd), r')
     | (Some chunk, r') \<Rightarrow> read_full r' n (acc @ chunk))"
  by pat_completeness auto
termination
  by (relation "measure (\<lambda>(r, n, acc). length (rdB r) - rdOff r)")
    (auto simp: counting_Read_def Let_def split: if_splits)

declare read_full.simps [simp del]

section \<open>Frames\<close>

definition minLength :: u16 where "minLength = 3"
definition maxLength :: u16 where "maxLength = 1 + 253"

datatype frame_error = ProtocolID_want0 u16 | LengthRange u16 u16 u16 | TruncatedHeader | TruncatedBody nat
  | EncodePDURange nat nat | HeaderInconsistent u16 nat

datatype mbap_error = CleanEOF | FrameError frame_error

record adu =
  adTID :: u16
  adPID :: u16
  adLength :: u16
  adUnitID :: byte
  adPDU :: bytes

definition mbap_Encode :: "adu \<Rightarrow> mbap_error + bytes" where
  "mbap_Encode a =
    (let n = length (adPDU a)
     in if adPID a \<noteq> 0 then Inl (FrameError (ProtocolID_want0 (adPID a)))
        else if n < 1 \<or> n > MaxPDU then Inl (FrameError (EncodePDURange n MaxPDU))
        else if adLength a \<noteq> 0 \<and> unat (adLength a) \<noteq> n + 1 then
          Inl (FrameError (HeaderInconsistent (adLength a) n))
        else Inr (put_be16 (adTID a) @ put_be16 0 @ put_be16 (word_of_nat (n + 1)) @ [adUnitID a] @ adPDU a))"

definition mbap_Decode :: "counting_reader \<Rightarrow> (mbap_error + adu) \<times> counting_reader" where
  "mbap_Decode r =
    (case read_full r HeaderLen [] of
       (Inl EndOfFile, r1) \<Rightarrow> (Inl CleanEOF, r1)
     | (Inl UnexpectedEnd, r1) \<Rightarrow> (Inl (FrameError TruncatedHeader), r1)
     | (Inr hdr, r1) \<Rightarrow>
         let tid = be_u16 (subslice hdr 0 2); pid = be_u16 (subslice hdr 2 4);
             len = be_u16 (subslice hdr 4 6); unit = hdr ! 6
         in if pid \<noteq> 0 then (Inl (FrameError (ProtocolID_want0 pid)), r1)
            else if len < minLength \<or> len > maxLength then
              (Inl (FrameError (LengthRange len minLength maxLength)), r1)
            else case read_full r1 (unat (len - 1)) [] of
              (Inl _, r2) \<Rightarrow> (Inl (FrameError (TruncatedBody (unat (len - 1)))), r2)
            | (Inr pdu, r2) \<Rightarrow>
                (Inr \<lparr>adTID = tid, adPID = pid, adLength = len, adUnitID = unit, adPDU = pdu\<rparr>, r2))"

section \<open>Request and response bodies\<close>

text \<open>\<^verbatim>\<open>*PDUError\<close>: the reason, one constructor per message.\<close>

datatype pdu_error = EmptyPdu | NotRead byte | NotWrite byte | ReadCountRange u16 | SpanExceeds u16 u16
  | ReadReqLen nat | RespFunction byte byte | RespShape nat byte u16 | SingleCount nat | WriteCountRange nat
  | Fc06Len nat | Fc16Len nat | Fc16Bytes nat u16 | Fc16Inconsistent nat nat nat
  | WriteRespLen nat nat | EchoMismatch nat byte byte

record readReq =
  rqFC :: byte
  rqAddr :: u16
  rqCount :: u16

record writeReq =
  wqFC :: byte
  wqAddr :: u16
  wqValues :: "u16 list"

definition checkSpan :: "u16 \<Rightarrow> u16 \<Rightarrow> pdu_error option" where
  "checkSpan addr count =
    (if (ucast addr :: u32) + ucast count > 0x10000 then Some (SpanExceeds addr count) else None)"

definition checkReadFC :: "byte \<Rightarrow> pdu_error option" where
  "checkReadFC fc = (if fc \<noteq> FCReadHolding \<and> fc \<noteq> FCReadInput then Some (NotRead fc) else None)"

definition checkReadCount :: "u16 \<Rightarrow> pdu_error option" where
  "checkReadCount count = (if count < 1 \<or> count > 125 then Some (ReadCountRange count) else None)"

definition first_error :: "pdu_error option list \<Rightarrow> 'a \<Rightarrow> pdu_error + 'a" where
  "first_error checks ok = (case find (\<lambda>c. c \<noteq> None) checks of Some (Some e) \<Rightarrow> Inl e | _ \<Rightarrow> Inr ok)"

definition ParseReadReq :: "bytes \<Rightarrow> pdu_error + readReq" where
  "ParseReadReq p =
    (if length p = 0 then Inl EmptyPdu
     else case checkReadFC (p ! 0) of Some e \<Rightarrow> Inl e
     | None \<Rightarrow>
         if length p \<noteq> 5 then Inl (ReadReqLen (length p))
         else
           let req = \<lparr>rqFC = p ! 0, rqAddr = be_u16 (subslice p 1 3), rqCount = be_u16 (subslice p 3 5)\<rparr>
           in first_error [checkReadCount (rqCount req), checkSpan (rqAddr req) (rqCount req)] req)"

definition BuildReadReq :: "readReq \<Rightarrow> pdu_error + bytes" where
  "BuildReadReq req =
    first_error [checkReadFC (rqFC req), checkReadCount (rqCount req), checkSpan (rqAddr req) (rqCount req)]
      ([rqFC req] @ put_be16 (rqAddr req) @ put_be16 (rqCount req))"

text \<open>The error of a response of the wrong shape quotes its second byte, which a one-byte response lacks.\<close>

definition ParseReadResp :: "readReq \<Rightarrow> bytes \<Rightarrow> (pdu_error + u16 list) option" where
  "ParseReadResp req p =
    (case first_error [checkReadFC (rqFC req), checkReadCount (rqCount req)] () of Inl e \<Rightarrow> Some (Inl e)
     | Inr _ \<Rightarrow>
         if length p = 0 then Some (Inl EmptyPdu)
         else if p ! 0 \<noteq> rqFC req then Some (Inl (RespFunction (p ! 0) (rqFC req)))
         else
           let want = 2 * unat (rqCount req)
           in if length p \<noteq> 2 + want \<or> unat (p ! 1) \<noteq> want then
                (if length p = 1 then None else Some (Inl (RespShape (length p) (p ! 1) (rqCount req))))
              else Some (Inr (map (\<lambda>i. be_u16 (drop (2 + 2 * i) p)) [0..<unat (rqCount req)])))"

definition checkWriteShape :: "byte \<Rightarrow> nat \<Rightarrow> pdu_error option" where
  "checkWriteShape fc n =
    (if fc = FCWriteSingle then (if n \<noteq> 1 then Some (SingleCount n) else None)
     else if fc = FCWriteMultiple then (if n < 1 \<or> n > 123 then Some (WriteCountRange n) else None)
     else Some (NotWrite fc))"

definition ParseWriteReq :: "bytes \<Rightarrow> pdu_error + writeReq" where
  "ParseWriteReq p =
    (if length p = 0 then Inl EmptyPdu
     else
       let fc = p ! 0
       in if fc = FCWriteSingle then
            (if length p \<noteq> 5 then Inl (Fc06Len (length p))
             else Inr \<lparr>wqFC = fc, wqAddr = be_u16 (subslice p 1 3), wqValues = [be_u16 (subslice p 3 5)]\<rparr>)
          else if fc = FCWriteMultiple then
            (if length p < 6 then Inl (Fc16Len (length p))
             else
               let count = be_u16 (subslice p 3 5); byteCount = unat (p ! 5)
               in case checkWriteShape fc (unat count) of Some e \<Rightarrow> Inl e
                  | None \<Rightarrow>
                      if byteCount \<noteq> 2 * unat count then Inl (Fc16Bytes byteCount count)
                      else if length p \<noteq> 6 + byteCount then
                        Inl (Fc16Inconsistent (length p) byteCount (6 + byteCount))
                      else
                        let req = \<lparr>wqFC = fc, wqAddr = be_u16 (subslice p 1 3),
                          wqValues = map (\<lambda>i. be_u16 (drop (6 + 2 * i) p)) [0..<unat count]\<rparr>
                        in first_error [checkSpan (wqAddr req) count] req)
          else Inl (NotWrite fc))"

definition BuildWriteResp :: "writeReq \<Rightarrow> pdu_error + bytes" where
  "BuildWriteResp req =
    first_error [checkWriteShape (wqFC req) (length (wqValues req))]
      ([wqFC req] @ put_be16 (wqAddr req) @
        (if wqFC req = FCWriteSingle then put_be16 (wqValues req ! 0)
         else put_be16 (word_of_nat (length (wqValues req)))))"

fun echo_mismatch :: "nat \<Rightarrow> bytes \<Rightarrow> bytes \<Rightarrow> pdu_error option" where
  "echo_mismatch i (w # ws) (g # gs) =
    (if g \<noteq> w then Some (EchoMismatch i g w) else echo_mismatch (i + 1) ws gs)"
| "echo_mismatch i _ _ = None"

definition ParseWriteResp :: "writeReq \<Rightarrow> bytes \<Rightarrow> pdu_error option" where
  "ParseWriteResp req p =
    (case BuildWriteResp req of Inl e \<Rightarrow> Some e
     | Inr want \<Rightarrow>
         if length p \<noteq> length want then Some (WriteRespLen (length p) (length want))
         else echo_mismatch 0 want p)"

section \<open>The subject interface\<close>

datatype stop_class = StopClean | StopTruncated | StopViolation

text \<open>\<^verbatim>\<open>Framing.Reason\<close> is never compared; it is kept as the error value it prints.\<close>

datatype stop_reason = NoReason | ReferenceReason frame_reason | ProductReason mbap_error

record framing =
  fmFrames :: "mbap_frame list"
  fmStop :: stop_class
  fmStopOff :: nat
  fmReason :: stop_reason

datatype subject_error = MbapError mbap_error | PduError pdu_error | EmptyRequest | PanicError

record subject =
  sbName :: string
  sbFrame :: "bytes \<Rightarrow> framing"
  sbEncode :: "mbap_frame \<Rightarrow> subject_error + bytes"
  sbParseRequest :: "bytes \<Rightarrow> subject_error + pdu"
  sbParseReadResponse :: "pdu \<Rightarrow> bytes \<Rightarrow> subject_error + u16 list"
  sbParseWriteResponse :: "pdu \<Rightarrow> bytes \<Rightarrow> subject_error option"

definition Reference :: "bytes \<Rightarrow> framing" where
  "Reference b =
    (case FrameStream b of
       (frames, None) \<Rightarrow> \<lparr>fmFrames = frames, fmStop = StopClean, fmStopOff = length b, fmReason = NoReason\<rparr>
     | (frames, Some fault) \<Rightarrow>
         \<lparr>fmFrames = frames, fmStop = (if Truncated fault then StopTruncated else StopViolation),
          fmStopOff = FaultOff fault, fmReason = ReferenceReason (Reason fault)\<rparr>)"

section \<open>The product behind the interface\<close>

definition frame_of_adu :: "adu \<Rightarrow> nat \<Rightarrow> nat \<Rightarrow> mbap_frame" where
  "frame_of_adu a start stop =
    \<lparr>TID = adTID a, PID = adPID a, LengthField = adLength a, UnitID = adUnitID a, PDUbytes = adPDU a,
     Off = start, EndOff = stop\<rparr>"

lemma read_full_bytes: "rdB (snd (read_full r n acc)) = rdB r"
  by (induction r n acc rule: read_full.induct)
    (subst read_full.simps, auto simp: counting_Read_def Let_def split: if_splits)

lemma read_full_mono: "rdOff r \<le> rdOff (snd (read_full r n acc))"
  by (induction r n acc rule: read_full.induct)
    (subst read_full.simps, auto simp: counting_Read_def Let_def split: if_splits)

lemma mbap_Decode_bytes: "rdB (snd (mbap_Decode r)) = rdB r"
  using read_full_bytes [of r HeaderLen "[]"]
  by (auto simp: mbap_Decode_def Let_def split: prod.splits sum.splits read_failure.splits)
    (metis read_full_bytes snd_conv)+

lemma read_full_eq:
  assumes "0 < n"
  shows "read_full r n [] =
    (if rdOff r + n \<le> length (rdB r) then (Inr (subslice (rdB r) (rdOff r) (rdOff r + n)), r\<lparr>rdOff := rdOff r + n\<rparr>)
     else (Inl (if length (rdB r) \<le> rdOff r then EndOfFile else UnexpectedEnd),
           r\<lparr>rdOff := max (rdOff r) (length (rdB r)), rdHitEOF := True\<rparr>))"
proof (cases "length (rdB r) \<le> rdOff r")
  case True
  with assms show ?thesis by (subst read_full.simps) (simp add: counting_Read_def)
next
  case False
  let ?c = "take n (drop (rdOff r) (rdB r))"
  let ?r = "r\<lparr>rdOff := rdOff r + length ?c\<rparr>"
  have c: "?c \<noteq> []" using assms False by simp
  have step: "read_full r n [] = read_full ?r n ?c"
    using False assms by (subst read_full.simps) (simp add: counting_Read_def Let_def)
  show ?thesis
  proof (cases "rdOff r + n \<le> length (rdB r)")
    case True
    then have "n \<le> length ?c" by simp
    then have "read_full ?r n ?c = (Inr ?c, ?r)" by (subst read_full.simps) simp
    with step True show ?thesis by (simp add: subslice_def)
  next
    case short: False
    then have l: "length ?c = length (rdB r) - rdOff r" by simp
    then have "\<not> n \<le> length ?c" "length (rdB ?r) \<le> rdOff ?r" using False short by simp_all
    then have "read_full ?r n ?c = (Inl (if ?c = [] then EndOfFile else UnexpectedEnd), ?r\<lparr>rdHitEOF := True\<rparr>)"
      by (subst read_full.simps) (simp only: counting_Read_def if_True if_False simp_thms option.case prod.case)
    with step False short l c show ?thesis by simp
  qed
qed

text \<open>One call of the product's decoder against one call of the reference's.\<close>

definition adu_of_frame :: "mbap_frame \<Rightarrow> adu" where
  "adu_of_frame f =
    \<lparr>adTID = TID f, adPID = PID f, adLength = LengthField f, adUnitID = UnitID f, adPDU = PDUbytes f\<rparr>"

lemma frame_of_adu_of_frame: "Off f = i \<Longrightarrow> EndOff f = j \<Longrightarrow> frame_of_adu (adu_of_frame f) i j = f"
  by (cases f) (simp add: frame_of_adu_def adu_of_frame_def)

definition short_length :: "bytes \<Rightarrow> nat \<Rightarrow> bool" where
  "short_length b off \<longleftrightarrow> off + HeaderLen \<le> length b \<and>
     be_u16 (subslice (subslice b off (off + HeaderLen)) 4 6) = MinLengthField"

lemma mbap_Decode_header:
  assumes "off + HeaderLen \<le> length b"
  shows "mbap_Decode \<lparr>rdB = b, rdOff = off, rdHitEOF = False\<rparr> =
    (let h = subslice b off (off + HeaderLen); len = be_u16 (subslice h 4 6); pid = be_u16 (subslice h 2 4);
         r1 = \<lparr>rdB = b, rdOff = off + HeaderLen, rdHitEOF = False\<rparr>; n = unat len - 1
     in if pid \<noteq> 0 then (Inl (FrameError (ProtocolID_want0 pid)), r1)
        else if len < 3 \<or> len > 254 then (Inl (FrameError (LengthRange len 3 254)), r1)
        else if off + HeaderLen + n \<le> length b then
          (Inr \<lparr>adTID = be_u16 (subslice h 0 2), adPID = pid, adLength = len, adUnitID = h ! 6,
                adPDU = subslice b (off + HeaderLen) (off + HeaderLen + n)\<rparr>,
           \<lparr>rdB = b, rdOff = off + HeaderLen + n, rdHitEOF = False\<rparr>)
        else (Inl (FrameError (TruncatedBody n)), \<lparr>rdB = b, rdOff = length b, rdHitEOF = True\<rparr>))"
proof -
  let ?h = "subslice b off (off + HeaderLen)"
  let ?len = "be_u16 (subslice ?h 4 6)"
  have hdr: "read_full \<lparr>rdB = b, rdOff = off, rdHitEOF = False\<rparr> HeaderLen [] =
      (Inr ?h, \<lparr>rdB = b, rdOff = off + HeaderLen, rdHitEOF = False\<rparr>)"
    using assms by (subst read_full_eq) (simp_all add: HeaderLen_def)
  have body: "\<not> ?len < 3 \<Longrightarrow> 0 < unat (?len - 1) \<and> unat (?len - 1) = unat ?len - 1"
  proof -
    assume "\<not> ?len < 3"
    then have "3 \<le> unat ?len" by (simp add: word_less_nat_alt)
    moreover from this have "unat (?len - 1) = unat ?len - 1"
      by (subst unat_sub) (simp_all add: word_le_nat_alt)
    ultimately show ?thesis by simp
  qed
  show ?thesis
    using assms body unfolding mbap_Decode_def hdr
    by (auto simp: Let_def minLength_def maxLength_def read_full_eq max_def split: if_splits)
qed

lemma past_two: "len < 3 \<Longrightarrow> \<not> len < 2 \<Longrightarrow> len = 2" for len :: u16
proof -
  assume "len < 3" "\<not> len < 2"
  then have "unat len = 2" by (simp add: word_less_nat_alt)
  then show "len = 2" by (metis word_of_nat_unat_id of_nat_numeral)
qed

lemma mbap_Decode_short:
  assumes "length b < off + HeaderLen"
  shows "mbap_Decode \<lparr>rdB = b, rdOff = off, rdHitEOF = False\<rparr> =
    (Inl (if length b \<le> off then CleanEOF else FrameError TruncatedHeader),
     \<lparr>rdB = b, rdOff = max off (length b), rdHitEOF = True\<rparr>)"
  using assms unfolding mbap_Decode_def by (subst read_full_eq) (simp_all add: HeaderLen_def)

lemma mbap_Decode_Inr:
  assumes "frameAt b off = Inr (f, adv)"
  shows "LengthField f \<noteq> MinLengthField \<Longrightarrow> mbap_Decode \<lparr>rdB = b, rdOff = off, rdHitEOF = False\<rparr> =
      (Inr (adu_of_frame f), \<lparr>rdB = b, rdOff = off + adv, rdHitEOF = False\<rparr>)"
    and "LengthField f = MinLengthField \<Longrightarrow> short_length b off \<and>
      (\<exists>e r. mbap_Decode \<lparr>rdB = b, rdOff = off, rdHitEOF = False\<rparr> = (Inl (FrameError e), r) \<and> \<not> rdHitEOF r)"
proof -
  let ?h = "subslice b off (off + HeaderLen)"
  let ?len = "be_u16 (subslice ?h 4 6)"
  have fit: "off + HeaderLen \<le> length b" and pid: "be_u16 (subslice ?h 2 4) = 0"
    and L: "\<not> (?len < 2 \<or> 254 < ?len)" and e: "off + HeaderLen + (unat ?len - 1) \<le> length b"
    and f: "f = \<lparr>TID = be_u16 (subslice ?h 0 2), PID = be_u16 (subslice ?h 2 4), LengthField = ?len,
                 UnitID = ?h ! 6, PDUbytes = subslice b (off + HeaderLen) (off + HeaderLen + (unat ?len - 1)),
                 Off = off, EndOff = off + HeaderLen + (unat ?len - 1)\<rparr>"
    and adv: "adv = HeaderLen + (unat ?len - 1)"
    using assms by (auto simp: frameAt_def Let_def mbap_consts split: if_splits)
  {
    assume "LengthField f \<noteq> MinLengthField"
    then have "?len \<noteq> 2" by (simp add: f MinLengthField_def)
    with L have "\<not> (?len < 3 \<or> 254 < ?len)" using past_two by blast
    then show "mbap_Decode \<lparr>rdB = b, rdOff = off, rdHitEOF = False\<rparr> =
        (Inr (adu_of_frame f), \<lparr>rdB = b, rdOff = off + adv, rdHitEOF = False\<rparr>)"
      unfolding mbap_Decode_header [OF fit] using pid e
      by (simp add: Let_def adu_of_frame_def f adv add.assoc)
  next
    assume "LengthField f = MinLengthField"
    then have "?len = 2" by (simp add: f MinLengthField_def)
    then show "short_length b off \<and>
      (\<exists>e r. mbap_Decode \<lparr>rdB = b, rdOff = off, rdHitEOF = False\<rparr> = (Inl (FrameError e), r) \<and> \<not> rdHitEOF r)"
      unfolding mbap_Decode_header [OF fit] using pid fit
      by (simp add: Let_def short_length_def MinLengthField_def)
  }
qed

lemma mbap_Decode_Inl:
  assumes "frameAt b off = Inl t" "off < length b"
  shows "\<exists>e r. mbap_Decode \<lparr>rdB = b, rdOff = off, rdHitEOF = False\<rparr> = (Inl (FrameError e), r) \<and>
    (rdHitEOF r = Truncated t \<or> \<not> rdHitEOF r \<and> short_length b off)"
proof (cases "off + HeaderLen \<le> length b")
  case False
  then have "length b - off < HeaderLen" using assms(2) by simp
  then have "Truncated t" using assms(1) by (auto simp: frameAt_def)
  with False assms(2) show ?thesis by (simp add: mbap_Decode_short)
next
  case fit: True
  let ?h = "subslice b off (off + HeaderLen)"
  let ?len = "be_u16 (subslice ?h 4 6)"
  have "\<not> length b - off < HeaderLen" using fit by simp
  note t = assms(1) [unfolded frameAt_def if_not_P [OF this] Let_def]
  consider "be_u16 (subslice ?h 2 4) \<noteq> 0" "\<not> Truncated t"
    | "be_u16 (subslice ?h 2 4) = 0" "?len < 2 \<or> 254 < ?len" "\<not> Truncated t"
    | "be_u16 (subslice ?h 2 4) = 0" "\<not> (?len < 2 \<or> 254 < ?len)" "length b < off + HeaderLen + (unat ?len - 1)"
      "Truncated t"
    using t by (auto simp: mbap_consts split: if_splits)
  then show ?thesis
  proof cases
    case 2
    then have "?len < 3 \<or> 254 < ?len" by (auto simp: word_less_nat_alt)
    with 2 show ?thesis unfolding mbap_Decode_header [OF fit] by (simp add: Let_def)
  next
    case 3
    show ?thesis
    proof (cases "?len = 2")
      case True
      with 3 fit show ?thesis
        unfolding mbap_Decode_header [OF fit] by (simp add: Let_def short_length_def MinLengthField_def)
    next
      case False
      with 3(2) have "\<not> (?len < 3 \<or> 254 < ?len)"
        using past_two by blast
      with 3 show ?thesis unfolding mbap_Decode_header [OF fit] by (simp add: Let_def)
    qed
  qed (simp add: mbap_Decode_header [OF fit] Let_def)
qed

lemma read_full_advance: "read_full r n [] = (Inr bs, r') \<Longrightarrow> rdB r' = rdB r \<and> rdOff r \<le> rdOff r' \<and> rdOff r' \<le> max (rdOff r) (length (rdB r))"
  by (cases "n = 0") (auto simp: read_full.simps [of r 0] read_full_eq split: if_splits)

lemma mbap_Decode_advance:
  assumes "mbap_Decode r = (Inr a, r')"
  shows "rdB r' = rdB r \<and> rdOff r < rdOff r' \<and> rdOff r' \<le> length (rdB r)"
proof -
  obtain hdr r1 n pdu where r1: "read_full r HeaderLen [] = (Inr hdr, r1)" and r2: "read_full r1 n [] = (Inr pdu, r')"
    using assms by (auto simp: mbap_Decode_def Let_def split: prod.splits sum.splits read_failure.splits if_splits)
  have "rdOff r + HeaderLen \<le> length (rdB r)" "r1 = r\<lparr>rdOff := rdOff r + HeaderLen\<rparr>"
    using r1 by (simp_all add: read_full_eq HeaderLen_def split: if_splits)
  with read_full_advance [OF r2] show ?thesis by (auto simp: HeaderLen_def)
qed

lemma mbap_Decode_decreases:
  "(Inr a, r') = mbap_Decode (r\<lparr>rdHitEOF := False\<rparr>) \<Longrightarrow> \<not> length (rdB r) \<le> rdOff r' \<Longrightarrow>
   length (rdB r') - rdOff r' < length (rdB r) - rdOff r"
  using mbap_Decode_advance [of "r\<lparr>rdHitEOF := False\<rparr>" a r'] by (simp add: diff_less_mono2)

text \<open>The loop of \<^verbatim>\<open>protoSubject.Frame\<close>.\<close>

function proto_loop :: "counting_reader \<Rightarrow> mbap_frame list \<Rightarrow> framing" where
  "proto_loop r out =
    (let start = rdOff r; n = length (rdB r)
     in case mbap_Decode (r\<lparr>rdHitEOF := False\<rparr>) of
       (Inl e, r1) \<Rightarrow>
         if e = CleanEOF \<and> start = n then
           \<lparr>fmFrames = out, fmStop = StopClean, fmStopOff = n, fmReason = NoReason\<rparr>
         else \<lparr>fmFrames = out, fmStop = (if rdHitEOF r1 then StopTruncated else StopViolation),
               fmStopOff = start, fmReason = ProductReason e\<rparr>
     | (Inr a, r1) \<Rightarrow>
         let out' = out @ [frame_of_adu a start (rdOff r1)]
         in if rdOff r1 \<ge> n then
              \<lparr>fmFrames = out', fmStop = StopClean, fmStopOff = n, fmReason = NoReason\<rparr>
            else proto_loop r1 out')"
  by pat_completeness auto
termination
  by (relation "measure (\<lambda>(r, out). length (rdB r) - rdOff r)")
    (simp, simp add: mbap_Decode_decreases)

declare proto_loop.simps [simp del]

definition proto_Frame :: "bytes \<Rightarrow> framing" where
  "proto_Frame b = proto_loop \<lparr>rdB = b, rdOff = 0, rdHitEOF = False\<rparr> []"

definition proto_Encode :: "mbap_frame \<Rightarrow> subject_error + bytes" where
  "proto_Encode f =
    map_sum MbapError id (mbap_Encode \<lparr>adTID = TID f, adPID = PID f, adLength = LengthField f,
      adUnitID = UnitID f, adPDU = PDUbytes f\<rparr>)"

definition proto_ParseRequest :: "bytes \<Rightarrow> subject_error + pdu" where
  "proto_ParseRequest p =
    (if length p = 0 then Inl EmptyRequest
     else if p ! 0 = FCReadHolding \<or> p ! 0 = FCReadInput then
       map_sum PduError (\<lambda>r. (pdu_of KindReadReq (rqFC r))\<lparr>Addr := rqAddr r, Count := rqCount r\<rparr>) (ParseReadReq p)
     else if p ! 0 = FCWriteSingle \<or> p ! 0 = FCWriteMultiple then
       map_sum PduError (\<lambda>w. (pdu_of KindWriteReq (wqFC w))
         \<lparr>Addr := wqAddr w, Count := word_of_nat (length (wqValues w)), Values := wqValues w\<rparr>) (ParseWriteReq p)
     else Inr (pdu_of KindUnsupported (p ! 0)))"

definition proto_ParseReadResponse :: "pdu \<Rightarrow> bytes \<Rightarrow> subject_error + u16 list" where
  "proto_ParseReadResponse req p =
    (case ParseReadResp \<lparr>rqFC = FC req, rqAddr = Addr req, rqCount = Count req\<rparr> p of
       None \<Rightarrow> Inl PanicError
     | Some res \<Rightarrow> map_sum PduError id res)"

definition proto_ParseWriteResponse :: "pdu \<Rightarrow> bytes \<Rightarrow> subject_error option" where
  "proto_ParseWriteResponse req p =
    map_option PduError (ParseWriteResp \<lparr>wqFC = FC req, wqAddr = Addr req, wqValues = Values req\<rparr> p)"

definition ProtoSubject :: subject where
  "ProtoSubject = \<lparr>sbName = ''lexa-proto/mbap'', sbFrame = proto_Frame, sbEncode = proto_Encode,
     sbParseRequest = proto_ParseRequest, sbParseReadResponse = proto_ParseReadResponse,
     sbParseWriteResponse = proto_ParseWriteResponse\<rparr>"

definition lengthFieldAt :: "bytes \<Rightarrow> nat \<Rightarrow> u16" where
  "lengthFieldAt b off = (if off + 6 > length b then 0 else be_u16 (subslice b (off + 4) (off + 6)))"

lemma lengthFieldAt_short: "short_length b off \<Longrightarrow> lengthFieldAt b off = MinLengthField"
  by (simp add: short_length_def lengthFieldAt_def HeaderLen_def subslice_subslice)

definition reference_stop :: "fault option \<Rightarrow> stop_class" where
  "reference_stop ft = (case ft of None \<Rightarrow> StopClean
     | Some t \<Rightarrow> if Truncated t then StopTruncated else StopViolation)"

text \<open>How the product frames a buffer, in terms of the reference: the same frames up to the first whose
  length field is 2, which it refuses there.\<close>

definition long_frame :: "mbap_frame \<Rightarrow> bool" where "long_frame f \<longleftrightarrow> LengthField f \<noteq> MinLengthField"

lemma proto_loop_frames:
  "off < length b \<Longrightarrow> frames_from b off = (fs, ft) \<Longrightarrow>
   fmFrames (proto_loop \<lparr>rdB = b, rdOff = off, rdHitEOF = h\<rparr> out) = out @ takeWhile long_frame fs \<and>
   (let g = proto_loop \<lparr>rdB = b, rdOff = off, rdHitEOF = h\<rparr> out
    in fmStop g = StopViolation \<and> lengthFieldAt b (fmStopOff g) = MinLengthField \<or>
       list_all long_frame fs \<and> fmStopOff g = stop_of b ft \<and> fmStop g = reference_stop ft)"
proof (induction off arbitrary: fs out h rule: frames_induct [of b])
  case (End off)
  then show ?case by simp
next
  case (Fault off t)
  obtain e r where d: "mbap_Decode \<lparr>rdB = b, rdOff = off, rdHitEOF = False\<rparr> = (Inl (FrameError e), r)"
    and r: "rdHitEOF r = Truncated t \<or> \<not> rdHitEOF r \<and> short_length b off"
    using mbap_Decode_Inl [OF Fault(2,1)] by blast
  have "fs = []" "ft = Some t" using Fault frames_from_Inl [OF Fault(1,2)] by auto
  moreover have "FaultOff t = off" by (rule frameAt_Inl_off [OF Fault(2)])
  ultimately show ?case
    using r by (auto simp: proto_loop.simps [of "\<lparr>rdB = b, rdOff = off, rdHitEOF = h\<rparr>"] d Let_def stop_of_def
        reference_stop_def lengthFieldAt_short)
next
  case (Frame off f adv)
  obtain gs where gs: "frames_from b (off + adv) = (gs, ft)" "fs = f # gs"
    using frames_from_Inr [OF Frame(1,2)] Frame(5) by (cases "frames_from b (off + adv)") auto
  show ?case
  proof (cases "long_frame f")
    case False
    then obtain e r where "short_length b off"
      "mbap_Decode \<lparr>rdB = b, rdOff = off, rdHitEOF = False\<rparr> = (Inl (FrameError e), r)" "\<not> rdHitEOF r"
      using mbap_Decode_Inr(2) [OF Frame(2)] by (auto simp: long_frame_def)
    with False show ?thesis
      by (simp add: proto_loop.simps [of "\<lparr>rdB = b, rdOff = off, rdHitEOF = h\<rparr>"] Let_def gs lengthFieldAt_short)
  next
    case True
    note d = mbap_Decode_Inr(1) [OF Frame(2) True [unfolded long_frame_def]]
    have fr: "frame_of_adu (adu_of_frame f) off (off + adv) = f"
      using frameAt_Inr(2,3) [OF Frame(2)] by (intro frame_of_adu_of_frame)
    show ?thesis
    proof (cases "off + adv < length b")
      case more: True
      then have "proto_loop \<lparr>rdB = b, rdOff = off, rdHitEOF = h\<rparr> out =
          proto_loop \<lparr>rdB = b, rdOff = off + adv, rdHitEOF = False\<rparr> (out @ [f])"
        by (subst proto_loop.simps) (simp add: d fr Let_def)
      then show ?thesis using Frame(3) [OF more gs(1)] True by (simp add: gs(2) Let_def)
    next
      case stop: False
      then have "gs = [] \<and> ft = None" using gs(1) by (simp add: frames_from_end)
      with stop True show ?thesis
        by (subst (1 2) proto_loop.simps) (simp add: d fr Let_def gs(2) stop_of_def reference_stop_def)
    qed
  qed
qed

end
