(* ===== verification/Mbap_Differential.thy ===== *)
theory Mbap_Differential
  imports Mbap_Product "HOL-Library.Sublist"
begin

text \<open>
  The differential referee (\<^verbatim>\<open>internal/mbapref/differential.go\<close>, \<^verbatim>\<open>pair.go\<close>): it runs a subject and the bench's own
  reader over the same bytes and reports every disagreement as a finding, the enumerated ones marked.  Details are
  values instead of formatted text.  Offsets are naturals; the one guard against a negative offset is void here.
\<close>

section \<open>Findings\<close>

datatype finding_class = ClassDefault | ClassDifferential | ClassTraffic

datatype question = QFraming | QSemantics | QAcceptance | QIdentity

datatype detail =
    BoundariesDiffer nat nat nat nat nat
  | StopsDiffer framing framing
  | TransactionDiffers u16 u16 | ProtocolDiffers u16 u16 | LengthDiffers u16 u16 | UnitDiffers byte byte
  | PduBytesDiffer bytes bytes
  | ReferenceCannotEncode encode_error | ReferenceReencodes bytes bytes
  | SubjectCannotEncode subject_error | SubjectReencodes bytes bytes
  | RequestRefused pdu subject_error | RequestShapeDiffers pdu pdu | RequestCountDiffers nat nat
  | RequestRegisterDiffers nat u16 u16 | RequestAccepted why pdu
  | ExceptionMismatch byte byte
  | ReadResponsePanic nat pdu | ReadResponseRefused pdu pdu subject_error | ReadResponseAccepted pdu pdu
  | ReadResponseCountDiffers nat nat | ReadResponseRegisterDiffers nat u16 u16
  | WriteEchoRefused subject_error | WriteEchoAccepted pdu pdu

record finding =
  fdQuestion :: question
  fdClass :: finding_class
  fdOff :: nat
  fdSubject :: string
  fdDetail :: detail
  fdDivergence :: string

definition mk_finding :: "question \<Rightarrow> nat \<Rightarrow> string \<Rightarrow> detail \<Rightarrow> finding" where
  "mk_finding q off name d =
    \<lparr>fdQuestion = q, fdClass = ClassDefault, fdOff = off, fdSubject = name, fdDetail = d, fdDivergence = []\<rparr>"

definition finding_Kind :: "finding \<Rightarrow> finding_class" where
  "finding_Kind f = (if fdClass f = ClassDefault then ClassDifferential else fdClass f)"

definition is_unenumerated :: "finding \<Rightarrow> bool" where "is_unenumerated f \<longleftrightarrow> fdDivergence f = []"

definition Unenumerated :: "finding list \<Rightarrow> finding list" where
  "Unenumerated fs = filter is_unenumerated fs"

definition Differential :: "finding list \<Rightarrow> finding list" where
  "Differential fs = filter (\<lambda>f. is_unenumerated f \<and> finding_Kind f = ClassDifferential) fs"

definition Traffic :: "finding list \<Rightarrow> finding list" where
  "Traffic fs = filter (\<lambda>f. finding_Kind f = ClassTraffic) fs"

section \<open>One direction\<close>

definition acceptanceFinding :: "string \<Rightarrow> bytes \<Rightarrow> framing \<Rightarrow> framing \<Rightarrow> finding" where
  "acceptanceFinding name b ref got =
    (let f = mk_finding QAcceptance (min (fmStopOff ref) (fmStopOff got)) name (StopsDiffer ref got)
     in if fmStop got = StopViolation \<and> lengthFieldAt b (fmStopOff got) = MinLengthField
        then f\<lparr>fdDivergence := ''DIV-LEN2''\<rparr> else f)"

text \<open>The first pair of frames with different boundaries, with its position.\<close>

fun first_moved :: "nat \<Rightarrow> mbap_frame list \<Rightarrow> mbap_frame list \<Rightarrow> (nat \<times> mbap_frame \<times> mbap_frame) option" where
  "first_moved i (rf # rfs) (gf # gfs) =
    (if Off rf \<noteq> Off gf \<or> EndOff rf \<noteq> EndOff gf then Some (i, rf, gf) else first_moved (i + 1) rfs gfs)"
| "first_moved i _ _ = None"

definition compareFraming :: "string \<Rightarrow> bytes \<Rightarrow> framing \<Rightarrow> framing \<Rightarrow> finding list" where
  "compareFraming name b ref got =
    (case first_moved 0 (fmFrames ref) (fmFrames got) of
       Some (i, rf, gf) \<Rightarrow>
         [mk_finding QFraming (Off rf) name (BoundariesDiffer i (Off rf) (EndOff rf) (Off gf) (EndOff gf))]
     | None \<Rightarrow>
         if fmStop ref = fmStop got \<and> fmStopOff ref = fmStopOff got \<and> length (fmFrames ref) = length (fmFrames got)
         then [] else [acceptanceFinding name b ref got])"

definition compareHeader :: "string \<Rightarrow> mbap_frame \<Rightarrow> mbap_frame \<Rightarrow> finding list" where
  "compareHeader name rf gf =
    (let add = (\<lambda>c d. if c then [mk_finding QSemantics (Off rf) name d] else [])
     in add (TID rf \<noteq> TID gf) (TransactionDiffers (TID rf) (TID gf))
        @ add (PID rf \<noteq> PID gf) (ProtocolDiffers (PID rf) (PID gf))
        @ add (LengthField rf \<noteq> LengthField gf) (LengthDiffers (LengthField rf) (LengthField gf))
        @ add (UnitID rf \<noteq> UnitID gf) (UnitDiffers (UnitID rf) (UnitID gf))
        @ add (PDUbytes rf \<noteq> PDUbytes gf) (PduBytesDiffer (PDUbytes rf) (PDUbytes gf)))"

definition compareIdentity :: "subject \<Rightarrow> bytes \<Rightarrow> mbap_frame \<Rightarrow> mbap_frame \<Rightarrow> finding list" where
  "compareIdentity sub b rf gf =
    (let orig = subslice b (Off rf) (EndOff rf);
         own = (case Encode rf of
           Inl e \<Rightarrow> [mk_finding QIdentity (Off rf) ''reference'' (ReferenceCannotEncode e)]
         | Inr re \<Rightarrow> if re \<noteq> orig then [mk_finding QIdentity (Off rf) ''reference'' (ReferenceReencodes re orig)] else [])
     in case sbEncode sub gf of
          Inl e \<Rightarrow> own @ [mk_finding QIdentity (Off gf) (sbName sub) (SubjectCannotEncode e)]
        | Inr re \<Rightarrow>
            own @ (if re \<noteq> orig then [mk_finding QIdentity (Off gf) (sbName sub) (SubjectReencodes re orig)] else []))"

text \<open>Register by register, numbered from the address of the request.\<close>

fun register_findings :: "(nat \<Rightarrow> u16 \<Rightarrow> u16 \<Rightarrow> finding) \<Rightarrow> nat \<Rightarrow> u16 list \<Rightarrow> u16 list \<Rightarrow> finding list" where
  "register_findings mk i (v # vs) (w # ws) = (if v \<noteq> w then [mk i v w] else []) @ register_findings mk (i + 1) vs ws"
| "register_findings mk i _ _ = []"

definition comparePDU :: "subject \<Rightarrow> mbap_frame \<Rightarrow> dir \<Rightarrow> finding list" where
  "comparePDU sub rf dir =
    (if dir \<noteq> FromClient then []
     else
       let mk = mk_finding; name = sbName sub; ref = DecodePDU (PDUbytes rf) FromClient;
           res = sbParseRequest sub (PDUbytes rf)
       in if Kind ref = KindReadReq \<or> Kind ref = KindWriteReq then
            (case res of
               Inl e \<Rightarrow> [mk QAcceptance (Off rf) name (RequestRefused ref e)]
             | Inr got \<Rightarrow>
                 if Kind got \<noteq> Kind ref \<or> FC got \<noteq> FC ref \<or> Addr got \<noteq> Addr ref \<or> Count got \<noteq> Count ref then
                   [mk QSemantics (Off rf) name (RequestShapeDiffers ref got)]
                 else if length (Values got) \<noteq> length (Values ref) then
                   [mk QSemantics (Off rf) name (RequestCountDiffers (length (Values ref)) (length (Values got)))]
                 else register_findings (\<lambda>i v w. mk QSemantics (Off rf) name (RequestRegisterDiffers i v w))
                        (unat (Addr ref)) (Values ref) (Values got))
          else if Kind ref = KindIndecipherab then
            (case res of
               Inr got \<Rightarrow>
                 if Kind got = KindReadReq \<or> Kind got = KindWriteReq then
                   [mk QAcceptance (Off rf) name (RequestAccepted (Why ref) got)] else []
             | Inl _ \<Rightarrow> [])
          else [])"

fun compare_frames :: "subject \<Rightarrow> bytes \<Rightarrow> dir \<Rightarrow> mbap_frame list \<Rightarrow> mbap_frame list \<Rightarrow> finding list" where
  "compare_frames sub b dir (rf # rfs) (gf # gfs) =
    (if Off rf \<noteq> Off gf \<or> EndOff rf \<noteq> EndOff gf then []
     else compareHeader (sbName sub) rf gf @ compareIdentity sub b rf gf @ comparePDU sub rf dir
          @ compare_frames sub b dir rfs gfs)"
| "compare_frames sub b dir _ _ = []"

definition Compare :: "subject \<Rightarrow> bytes \<Rightarrow> dir \<Rightarrow> finding list" where
  "Compare sub b dir =
    (let ref = Reference b; got = sbFrame sub b
     in compareFraming (sbName sub) b ref got @ compare_frames sub b dir (fmFrames ref) (fmFrames got))"

section \<open>Exchanges\<close>

record exchange =
  exReq :: mbap_frame
  exResp :: mbap_frame

datatype pair_reason = TidMismatch u16 u16 | UnitMismatch byte byte

record pairFault =
  pfIndex :: nat
  pfReason :: pair_reason

fun pair_loop :: "nat \<Rightarrow> mbap_frame list \<Rightarrow> mbap_frame list \<Rightarrow> exchange list \<Rightarrow> exchange list \<times> pairFault option" where
  "pair_loop i (req # reqs) (resp # resps) out =
    (if TID resp \<noteq> TID req then (out, Some \<lparr>pfIndex = i, pfReason = TidMismatch (TID req) (TID resp)\<rparr>)
     else if UnitID resp \<noteq> UnitID req then (out, Some \<lparr>pfIndex = i, pfReason = UnitMismatch (UnitID req) (UnitID resp)\<rparr>)
     else pair_loop (i + 1) reqs resps (out @ [\<lparr>exReq = req, exResp = resp\<rparr>]))"
| "pair_loop i _ _ out = (out, None)"

definition Pair_streams :: "bytes \<Rightarrow> bytes \<Rightarrow> exchange list \<times> pairFault option" where
  "Pair_streams clientBytes serverBytes =
    pair_loop 0 (fst (FrameStream clientBytes)) (fst (FrameStream serverBytes)) []"

definition compareReadExchange :: "subject \<Rightarrow> nat \<Rightarrow> pdu \<Rightarrow> pdu \<Rightarrow> bytes \<Rightarrow> bytes \<Rightarrow> finding list" where
  "compareReadExchange sub off refReq refResp reqPDU respPDU =
    (let mk = mk_finding; name = sbName sub
     in case sbParseRequest sub reqPDU of Inl _ \<Rightarrow> []
     | Inr req \<Rightarrow>
         let refOK = (Kind refResp = KindReadResp \<and> FC refResp = FC refReq \<and> Count refResp = Count refReq)
         in case sbParseReadResponse sub req respPDU of
              Inl PanicError \<Rightarrow> [(mk QAcceptance off name (ReadResponsePanic (length respPDU) refReq))
                 \<lparr>fdDivergence := ''DEFECT-READRESP-1BYTE''\<rparr>]
            | Inl e \<Rightarrow> if refOK then [mk QAcceptance off name (ReadResponseRefused refResp refReq e)] else []
            | Inr vals \<Rightarrow>
                if \<not> refOK then [mk QAcceptance off name (ReadResponseAccepted refResp refReq)]
                else if length vals \<noteq> length (Values refResp) then
                  [mk QSemantics off name (ReadResponseCountDiffers (length (Values refResp)) (length vals))]
                else register_findings (\<lambda>i v w. mk QSemantics off name (ReadResponseRegisterDiffers i v w))
                       (unat (Addr refReq)) (Values refResp) vals)"

definition write_echo_ok :: "pdu \<Rightarrow> pdu \<Rightarrow> bool" where
  "write_echo_ok refReq refResp \<longleftrightarrow>
    Kind refResp = KindWriteResp \<and> FC refResp = FC refReq \<and> Addr refResp = Addr refReq \<and>
    (if FC refReq = FCWriteSingle then length (Values refResp) = 1 \<and> Values refResp ! 0 = Values refReq ! 0
     else Count refResp = Count refReq)"

definition compareWriteExchange :: "subject \<Rightarrow> nat \<Rightarrow> pdu \<Rightarrow> pdu \<Rightarrow> bytes \<Rightarrow> bytes \<Rightarrow> finding list" where
  "compareWriteExchange sub off refReq refResp reqPDU respPDU =
    (let mk = mk_finding; name = sbName sub
     in case sbParseRequest sub reqPDU of Inl _ \<Rightarrow> []
     | Inr req \<Rightarrow>
         (case sbParseWriteResponse sub req respPDU of
            Some e \<Rightarrow> if write_echo_ok refReq refResp then [mk QAcceptance off name (WriteEchoRefused e)] else []
          | None \<Rightarrow> if write_echo_ok refReq refResp then [] else [mk QAcceptance off name (WriteEchoAccepted refReq refResp)]))"

text \<open>\<open>None\<close> is a panic: an exception response is compared against the first byte of the request.\<close>

definition CompareExchange :: "subject \<Rightarrow> exchange \<Rightarrow> finding list option" where
  "CompareExchange sub ex =
    (let req = PDUbytes (exReq ex); resp = PDUbytes (exResp ex); off = Off (exResp ex);
         refReq = DecodePDU req FromClient; refResp = DecodePDU resp FromServer
     in if Kind refResp = KindException then
          (if length resp = 2 \<and> req = [] then None
           else if length resp = 2 \<and> resp ! 0 = (req ! 0 OR ExceptionBit) then Some []
           else if req = [] \<or> resp = [] then None
           else Some [(mk_finding QSemantics off (sbName sub) (ExceptionMismatch (resp ! 0) (req ! 0)))
                        \<lparr>fdClass := ClassTraffic\<rparr>])
        else if Kind refReq = KindReadReq then Some (compareReadExchange sub off refReq refResp req resp)
        else if Kind refReq = KindWriteReq then Some (compareWriteExchange sub off refReq refResp req resp)
        else Some [])"

fun exchanges_findings :: "subject \<Rightarrow> exchange list \<Rightarrow> finding list option" where
  "exchanges_findings sub [] = Some []"
| "exchanges_findings sub (ex # exs) =
    (case CompareExchange sub ex of None \<Rightarrow> None
     | Some fs \<Rightarrow> map_option (\<lambda>gs. fs @ gs) (exchanges_findings sub exs))"

definition CompareStreams :: "subject \<Rightarrow> bytes \<Rightarrow> bytes \<Rightarrow> (finding list \<times> pairFault option) option" where
  "CompareStreams sub clientBytes serverBytes =
    (case Pair_streams clientBytes serverBytes of (exs, fault) \<Rightarrow>
       map_option (\<lambda>fs. (Compare sub clientBytes FromClient @ Compare sub serverBytes FromServer @ fs, fault))
         (exchanges_findings sub exs))"

section \<open>Facts about the comparison\<close>

lemma register_findings_same [simp]: "register_findings mk i vs vs = []"
  by (induction vs arbitrary: i) auto

lemma first_moved_prefix: "prefix gs rs \<Longrightarrow> first_moved i rs gs = None"
  by (induction i rs gs rule: first_moved.induct) (auto simp: prefix_Cons)

lemma compareHeader_same [simp]: "compareHeader name f f = []"
  by (simp add: compareHeader_def)

lemma compare_frames_same:
  assumes "prefix gs rs"
    and "\<And>g. g \<in> set rs \<Longrightarrow> compareIdentity sub b g g = []" "\<And>g. g \<in> set rs \<Longrightarrow> comparePDU sub g dir = []"
  shows "compare_frames sub b dir rs gs = []"
  using assms by (induction sub b dir rs gs rule: compare_frames.induct) auto

lemma register_findings_silent:
  "register_findings mk i vs ws = [] \<Longrightarrow> length ws = length vs \<Longrightarrow> ws = vs"
  by (induction mk i vs ws rule: register_findings.induct) (auto split: if_splits)

lemma compareHeader_silent:
  "compareHeader name rf gf = [] \<Longrightarrow> Off rf = Off gf \<Longrightarrow> EndOff rf = EndOff gf \<Longrightarrow> gf = rf"
  by (auto simp: compareHeader_def Let_def split: if_splits)

lemma compareIdentity_silent:
  "compareIdentity sub b f f = [] \<Longrightarrow> sbEncode sub f = Inr (subslice b (Off f) (EndOff f))"
  by (auto simp: compareIdentity_def Let_def split: sum.splits if_splits)

definition same_request :: "pdu \<Rightarrow> pdu \<Rightarrow> bool" where
  "same_request r q \<longleftrightarrow> Kind q = Kind r \<and> FC q = FC r \<and> Addr q = Addr r \<and> Count q = Count r \<and> Values q = Values r"

lemma comparePDU_silent:
  "comparePDU sub f FromClient = [] \<Longrightarrow> Kind (DecodePDU (PDUbytes f) FromClient) \<in> {KindReadReq, KindWriteReq} \<Longrightarrow>
   \<exists>q. sbParseRequest sub (PDUbytes f) = Inr q \<and> same_request (DecodePDU (PDUbytes f) FromClient) q"
  by (auto simp: comparePDU_def Let_def same_request_def split: sum.splits if_splits
      dest: register_findings_silent)

lemma compare_frames_silent:
  assumes "first_moved i rs gs = None" "length gs = length rs" "compare_frames sub b FromClient rs gs = []"
  shows "gs = rs \<and> (\<forall>f \<in> set rs. sbEncode sub f = Inr (subslice b (Off f) (EndOff f)) \<and>
    (Kind (DecodePDU (PDUbytes f) FromClient) \<in> {KindReadReq, KindWriteReq} \<longrightarrow>
      (\<exists>q. sbParseRequest sub (PDUbytes f) = Inr q \<and> same_request (DecodePDU (PDUbytes f) FromClient) q)))"
  using assms
proof (induction i rs gs rule: first_moved.induct)
  case (1 i rf rfs gf gfs)
  have same: "\<not> (Off rf \<noteq> Off gf \<or> EndOff rf \<noteq> EndOff gf)" and moved: "first_moved (i + 1) rfs gfs = None"
    using 1(2) by (auto split: if_splits)
  have parts: "compareHeader (sbName sub) rf gf = []" "compareIdentity sub b rf gf = []"
    "comparePDU sub rf FromClient = []" "compare_frames sub b FromClient rfs gfs = []"
    using 1(4) same by (simp_all del: append.simps)
  have eq: "gf = rf" by (rule compareHeader_silent [OF parts(1)]) (use same in auto)
  have len: "length gfs = length rfs" using 1(3) by simp
  note IH = 1(1) [OF same moved len parts(4)]
  note head = compareIdentity_silent [OF parts(2) [unfolded eq]] comparePDU_silent [OF parts(3)]
  show ?case using IH head eq by simp
qed auto

lemma Reference_frames: "fmFrames (Reference b) = fst (FrameStream b)"
  by (simp add: Reference_def split: prod.split option.split)

lemma Reference_stop:
  "FrameStream b = (fs, ft) \<Longrightarrow> fmStop (Reference b) = reference_stop ft \<and> fmStopOff (Reference b) = stop_of b ft"
  by (auto simp: Reference_def reference_stop_def stop_of_def split: option.split)

lemma frames_from_fault: "frames_from b off = (fs, Some t) \<Longrightarrow> FaultOff t < length b"
proof (induction off arbitrary: fs rule: frames_induct [of b])
  case (End off)
  then show ?case by (simp add: frames_from_end)
next
  case (Fault off t')
  then show ?case using frameAt_Inl_off [of b off t'] by (simp add: frames_from_Inl)
next
  case (Frame off f adv)
  then show ?case by (cases "frames_from b (off + adv)") (simp add: frames_from_Inr)
qed

lemma Reference_violation:
  assumes "fmStop (Reference b) = StopViolation"
  shows "fmStopOff (Reference b) < length b"
proof -
  obtain fs ft where f: "FrameStream b = (fs, ft)" by fastforce
  then obtain t where t: "ft = Some t" "\<not> Truncated t"
    using assms Reference_stop [OF f] by (auto simp: reference_stop_def split: option.splits if_splits)
  have "FaultOff t < length b" using f t frames_from_fault [of b 0 fs t] by (simp add: FrameStream_def)
  then show ?thesis using Reference_stop [OF f] t by (simp add: stop_of_def)
qed

lemma Reference_wire: "f \<in> set (fmFrames (Reference b)) \<Longrightarrow> valid_frame f \<and> subslice b (Off f) (EndOff f) = wire f"
  using frames_from_tile [of 0 b "fst (FrameStream b)" "snd (FrameStream b)"]
  by (simp add: Reference_frames FrameStream_def)

lemma exchanges_findings_all:
  assumes "\<And>ex. ex \<in> set exs \<Longrightarrow> \<exists>fs. CompareExchange sub ex = Some fs \<and> (\<forall>f \<in> set fs. P f)"
  shows "\<exists>gs. exchanges_findings sub exs = Some gs \<and> (\<forall>f \<in> set gs. P f)"
  using assms by (induction exs) fastforce+

lemma pair_loop_set:
  "pair_loop i reqs resps out = (exs, fault) \<Longrightarrow> ex \<in> set exs \<Longrightarrow>
   ex \<in> set out \<or> exReq ex \<in> set reqs \<and> exResp ex \<in> set resps"
  by (induction i reqs resps out rule: pair_loop.induct) (auto split: if_splits)

lemma Pair_streams_PDUs:
  assumes "Pair_streams cb sb = (exs, fault)" "ex \<in> set exs"
  shows "PDUbytes (exReq ex) \<noteq> [] \<and> PDUbytes (exResp ex) \<noteq> []"
proof -
  have "exReq ex \<in> set (fst (FrameStream cb)) \<and> exResp ex \<in> set (fst (FrameStream sb))"
    using pair_loop_set [OF assms(1) [unfolded Pair_streams_def] assms(2)] by simp
  then have "valid_frame (exReq ex) \<and> valid_frame (exResp ex)"
    using Reference_wire [of "exReq ex" cb] Reference_wire [of "exResp ex" sb] by (simp add: Reference_frames)
  then show ?thesis by (auto simp: valid_frame_def)
qed

section \<open>What a faithful subject promises\<close>

definition answers_read :: "pdu \<Rightarrow> pdu \<Rightarrow> bool" where
  "answers_read r a \<longleftrightarrow> Kind a = KindReadResp \<and> FC a = FC r \<and> Count a = Count r"

locale faithful_reader =
  fixes sub :: subject
  assumes frames: "prefix (fmFrames (sbFrame sub b)) (fmFrames (Reference b))"
    and stop: "fmStop (sbFrame sub b) = StopViolation \<and> lengthFieldAt b (fmStopOff (sbFrame sub b)) = MinLengthField \<or>
      fmFrames (sbFrame sub b) = fmFrames (Reference b) \<and> fmStop (sbFrame sub b) = fmStop (Reference b) \<and>
      fmStopOff (sbFrame sub b) = fmStopOff (Reference b)"
    and encode: "valid_frame f \<Longrightarrow> sbEncode sub f = Inr (wire f)"
    and request: "Kind (DecodePDU p FromClient) \<in> {KindReadReq, KindWriteReq} \<Longrightarrow>
      \<exists>q. sbParseRequest sub p = Inr q \<and> same_request (DecodePDU p FromClient) q"
    and refusal: "Kind (DecodePDU p FromClient) = KindIndecipherab \<Longrightarrow> sbParseRequest sub p = Inr q \<Longrightarrow>
      Kind q \<noteq> KindReadReq \<and> Kind q \<noteq> KindWriteReq"
    and read_response: "Kind (DecodePDU p FromClient) = KindReadReq \<Longrightarrow> same_request (DecodePDU p FromClient) q \<Longrightarrow>
      sbParseReadResponse sub q d = Inl PanicError \<or>
      (if answers_read (DecodePDU p FromClient) (DecodePDU d FromServer)
       then sbParseReadResponse sub q d = Inr (Values (DecodePDU d FromServer))
       else \<exists>e. sbParseReadResponse sub q d = Inl e)"
    and write_response: "Kind (DecodePDU p FromClient) = KindWriteReq \<Longrightarrow> same_request (DecodePDU p FromClient) q \<Longrightarrow>
      sbParseWriteResponse sub q d = None \<longleftrightarrow> write_echo_ok (DecodePDU p FromClient) (DecodePDU d FromServer)"
begin

text \<open>On the frames of the reference nothing is reported, whatever framing the subject is given.\<close>

lemma reference_frames_agree:
  assumes "prefix gs (fmFrames (Reference b))"
  shows "compare_frames (sub\<lparr>sbName := name, sbFrame := F\<rparr>) b dir (fmFrames (Reference b)) gs = []"
proof (rule compare_frames_same [OF assms])
  fix g
  assume "g \<in> set (fmFrames (Reference b))"
  then have v: "valid_frame g" and w: "subslice b (Off g) (EndOff g) = wire g"
    using Reference_wire by blast+
  show "compareIdentity (sub\<lparr>sbName := name, sbFrame := F\<rparr>) b g g = []"
    by (simp add: compareIdentity_def Encode_valid [OF v] encode [OF v] w)
  show "comparePDU (sub\<lparr>sbName := name, sbFrame := F\<rparr>) g dir = []"
    using request [of "PDUbytes g"] refusal [of "PDUbytes g"]
    by (auto simp: comparePDU_def Let_def same_request_def register_findings_same split: sum.splits)
qed

lemma common_frames_agree: "compare_frames sub b dir (fmFrames (Reference b)) (fmFrames (sbFrame sub b)) = []"
  using reference_frames_agree [where name = "sbName sub" and F = "sbFrame sub", OF frames] by simp

lemma compare_enumerated: "f \<in> set (Compare sub b dir) \<Longrightarrow> fdDivergence f = ''DIV-LEN2''"
  using first_moved_prefix [OF frames [of b]] stop [of b] common_frames_agree [of b dir]
  by (auto simp: Compare_def compareFraming_def acceptanceFinding_def Let_def mk_finding_def split: if_splits)

lemma compare_clean:
  "fmFrames (sbFrame sub b) = fmFrames (Reference b) \<Longrightarrow> fmStop (sbFrame sub b) = fmStop (Reference b) \<Longrightarrow>
   fmStopOff (sbFrame sub b) = fmStopOff (Reference b) \<Longrightarrow> Compare sub b dir = []"
  using first_moved_prefix [OF frames [of b]] common_frames_agree [of b dir]
  by (simp add: Compare_def compareFraming_def)

lemma exchange_enumerated:
  assumes "PDUbytes (exReq ex) \<noteq> []" "PDUbytes (exResp ex) \<noteq> []"
  shows "\<exists>fs. CompareExchange sub ex = Some fs \<and>
    (\<forall>f \<in> set fs. fdDivergence f = ''DEFECT-READRESP-1BYTE'' \<or> fdClass f = ClassTraffic \<and> fdDivergence f = [])"
proof -
  let ?p = "PDUbytes (exReq ex)" and ?d = "PDUbytes (exResp ex)"
  have r: "\<forall>f \<in> set (compareReadExchange sub off (DecodePDU ?p FromClient) (DecodePDU ?d FromServer) ?p ?d).
      fdDivergence f = ''DEFECT-READRESP-1BYTE''" if k: "Kind (DecodePDU ?p FromClient) = KindReadReq" for off
  proof -
    obtain q where q: "sbParseRequest sub ?p = Inr q" "same_request (DecodePDU ?p FromClient) q"
      using request [of ?p] k by auto
    then show ?thesis
      using read_response [OF k q(2), of ?d]
      by (auto simp: compareReadExchange_def Let_def answers_read_def register_findings_same
          split: if_splits sum.splits subject_error.splits)
  qed
  have w: "compareWriteExchange sub off (DecodePDU ?p FromClient) (DecodePDU ?d FromServer) ?p ?d = []"
    if k: "Kind (DecodePDU ?p FromClient) = KindWriteReq" for off
  proof -
    obtain q where q: "sbParseRequest sub ?p = Inr q" "same_request (DecodePDU ?p FromClient) q"
      using request [of ?p] k by auto
    then show ?thesis
      using write_response [OF k q(2), of ?d]
      by (auto simp: compareWriteExchange_def Let_def split: option.splits)
  qed
  show ?thesis
    using assms r [of "Off (exResp ex)"] w [of "Off (exResp ex)"]
    by (auto simp: CompareExchange_def Let_def mk_finding_def)
qed

lemma streams_enumerated:
  "\<exists>fs fault. CompareStreams sub cb sb = Some (fs, fault) \<and>
    (\<forall>f \<in> set fs. fdDivergence f = ''DIV-LEN2'' \<or> fdDivergence f = ''DEFECT-READRESP-1BYTE'' \<or> fdClass f = ClassTraffic \<and> fdDivergence f = [])"
proof -
  obtain exs fault where p: "Pair_streams cb sb = (exs, fault)" by fastforce
  have "\<exists>gs. exchanges_findings sub exs = Some gs \<and>
      (\<forall>f \<in> set gs. fdDivergence f = ''DEFECT-READRESP-1BYTE'' \<or> fdClass f = ClassTraffic \<and> fdDivergence f = [])"
  proof (rule exchanges_findings_all)
    fix ex
    assume "ex \<in> set exs"
    then show "\<exists>fs. CompareExchange sub ex = Some fs \<and>
        (\<forall>f \<in> set fs. fdDivergence f = ''DEFECT-READRESP-1BYTE'' \<or> fdClass f = ClassTraffic \<and> fdDivergence f = [])"
      using Pair_streams_PDUs [OF p] by (intro exchange_enumerated) auto
  qed
  then show ?thesis
    using compare_enumerated by (fastforce simp: CompareStreams_def p)
qed

end

section \<open>The product is faithful\<close>

lemma checkSpan_eq: "checkSpan a c = (if unat a + unat c > 0x10000 then Some (SpanExceeds a c) else None)"
proof -
  have "unat ((ucast a :: u32) + ucast c) = unat a + unat c"
    using unsigned_less [where ?'a = nat, of a] unsigned_less [where ?'a = nat, of c]
    by (simp add: unat_word_ariths unsigned_ucast_eq take_bit_nat_eq_self)
  then show ?thesis by (simp add: checkSpan_def word_less_nat_alt)
qed

lemma first_error_simps [simp]:
  "first_error [] x = Inr x" "first_error (None # cs) x = first_error cs x" "first_error (Some e # cs) x = Inl e"
  by (simp_all add: first_error_def)

lemma no_exception_bit: "fc \<in> {FCReadHolding, FCReadInput, FCWriteSingle, FCWriteMultiple} \<Longrightarrow> fc AND ExceptionBit = 0"
  by (auto simp: fc_consts)

lemma proto_read_request:
  assumes "p \<noteq> []" "p ! 0 = FCReadHolding \<or> p ! 0 = FCReadInput"
  shows "case ParseReadReq p of
      Inl e \<Rightarrow> Kind (decodeReadReq p) = KindIndecipherab
    | Inr r \<Rightarrow> decodeReadReq p = (pdu_of KindReadReq (rqFC r))\<lparr>Addr := rqAddr r, Count := rqCount r\<rparr>"
  using assms by (auto simp: ParseReadReq_def decodeReadReq_def checkReadFC_def checkReadCount_def checkSpan_eq Let_def
      undecodable_def word_less_nat_alt)

lemma proto_write_request:
  assumes "p \<noteq> []"
  shows "p ! 0 = FCWriteSingle \<Longrightarrow> case ParseWriteReq p of
      Inl e \<Rightarrow> Kind (decodeWriteSingle p FromClient) = KindIndecipherab
    | Inr w \<Rightarrow> same_request (decodeWriteSingle p FromClient) ((pdu_of KindWriteReq (wqFC w))
         \<lparr>Addr := wqAddr w, Count := word_of_nat (length (wqValues w)), Values := wqValues w\<rparr>)"
    and "p ! 0 = FCWriteMultiple \<Longrightarrow> case ParseWriteReq p of
      Inl e \<Rightarrow> Kind (decodeWriteMultiReq p) = KindIndecipherab
    | Inr w \<Rightarrow> same_request (decodeWriteMultiReq p) ((pdu_of KindWriteReq (wqFC w))
         \<lparr>Addr := wqAddr w, Count := word_of_nat (length (wqValues w)), Values := wqValues w\<rparr>)"
proof -
  show "p ! 0 = FCWriteSingle \<Longrightarrow> case ParseWriteReq p of
      Inl e \<Rightarrow> Kind (decodeWriteSingle p FromClient) = KindIndecipherab
    | Inr w \<Rightarrow> same_request (decodeWriteSingle p FromClient) ((pdu_of KindWriteReq (wqFC w))
         \<lparr>Addr := wqAddr w, Count := word_of_nat (length (wqValues w)), Values := wqValues w\<rparr>)"
    using assms by (auto simp: ParseWriteReq_def decodeWriteSingle_def same_request_def undecodable_def Let_def)
next
  let ?count = "be_u16 (subslice p 3 5)"
  assume fc: "p ! 0 = FCWriteMultiple"
  then have ne: "p ! 0 \<noteq> FCWriteSingle" by (simp add: fc_consts)
  have "checkWriteShape (p ! 0) (unat ?count) =
      (if unat ?count < 1 \<or> unat ?count > 123 then Some (WriteCountRange (unat ?count)) else None)"
    using ne fc by (simp add: checkWriteShape_def)
  moreover have "word_of_nat (unat ?count) = ?count" by simp
  ultimately show "case ParseWriteReq p of
      Inl e \<Rightarrow> Kind (decodeWriteMultiReq p) = KindIndecipherab
    | Inr w \<Rightarrow> same_request (decodeWriteMultiReq p) ((pdu_of KindWriteReq (wqFC w))
         \<lparr>Addr := wqAddr w, Count := word_of_nat (length (wqValues w)), Values := wqValues w\<rparr>)"
    using assms fc ne unfolding ParseWriteReq_def decodeWriteMultiReq_def
    by (auto simp: Let_def undecodable_def same_request_def checkSpan_eq)
qed

lemma DecodePDU_server:
  assumes "d \<noteq> []" "d ! 0 AND ExceptionBit = 0"
  shows "DecodePDU d FromServer =
    (if d ! 0 = FCReadHolding \<or> d ! 0 = FCReadInput then decodeReadResp d
     else if d ! 0 = FCWriteSingle then decodeWriteSingle d FromServer
     else if d ! 0 = FCWriteMultiple then decodeWriteMultiResp d
     else pdu_of KindUnsupported (d ! 0))"
  using assms by (simp add: DecodePDU_def Let_def)

lemma DecodePDU_server_exception:
  "d = [] \<or> d ! 0 AND ExceptionBit \<noteq> 0 \<Longrightarrow> Kind (DecodePDU d FromServer) \<in> {KindIndecipherab, KindException}"
  by (auto simp: DecodePDU_def Let_def undecodable_def)

lemma FC_decode_server:
  "FC (decodeReadResp d) = d ! 0" "FC (decodeWriteSingle d FromServer) = d ! 0" "FC (decodeWriteMultiResp d) = d ! 0"
  by (auto simp: decodeReadResp_def decodeWriteSingle_def decodeWriteMultiResp_def undecodable_def Let_def)

lemma Kind_decode_server:
  "Kind (decodeReadResp d) \<in> {KindReadResp, KindIndecipherab}"
  "Kind (decodeWriteSingle d FromServer) \<in> {KindWriteResp, KindIndecipherab}"
  "Kind (decodeWriteMultiResp d) \<in> {KindWriteResp, KindIndecipherab}"
  by (auto simp: decodeReadResp_def decodeWriteSingle_def decodeWriteMultiResp_def undecodable_def Let_def)

lemma half_word_eq: "bc < 256 \<Longrightarrow> bc mod 2 = 0 \<Longrightarrow> word_of_nat (bc div 2) = (c :: u16) \<longleftrightarrow> bc = 2 * unat c"
proof -
  assume "bc < 256" "bc mod 2 = 0"
  then have "unat (word_of_nat (bc div 2) :: u16) = bc div 2"
    by (simp add: unsigned_of_nat take_bit_nat_eq_self)
  then have "word_of_nat (bc div 2) = c \<longleftrightarrow> bc div 2 = unat c" by (metis word_of_nat_unat_id)
  with \<open>bc mod 2 = 0\<close> show ?thesis by auto
qed

lemma answers_read_iff:
  assumes "FC r = FCReadHolding \<or> FC r = FCReadInput"
  shows "answers_read r (DecodePDU d FromServer) \<longleftrightarrow>
    d \<noteq> [] \<and> d ! 0 = FC r \<and> length d = 2 + 2 * unat (Count r) \<and> unat (d ! 1) = 2 * unat (Count r)"
proof (cases "d \<noteq> [] \<and> d ! 0 = FC r")
  case False
  then show ?thesis
    using DecodePDU_server_exception [of d] DecodePDU_server [of d] FC_decode_server Kind_decode_server
    by (cases "d = [] \<or> d ! 0 AND ExceptionBit \<noteq> 0") (auto simp: answers_read_def)
next
  case True
  then have "DecodePDU d FromServer = decodeReadResp d"
    using DecodePDU_server [of d] no_exception_bit [of "d ! 0"] assms by auto
  moreover have "unat (d ! 1) < 256" using unsigned_less [where ?'a = nat, of "d ! 1"] by simp
  ultimately show ?thesis
    using True half_word_eq [of "unat (d ! 1)" "Count r"]
    by (auto simp: answers_read_def decodeReadResp_def Let_def undecodable_def)
qed

lemma answers_read_values:
  assumes "FC r = FCReadHolding \<or> FC r = FCReadInput" "answers_read r (DecodePDU d FromServer)"
  shows "Values (DecodePDU d FromServer) = map (\<lambda>i. be_u16 (drop (2 + 2 * i) d)) [0..<unat (Count r)]"
proof -
  have d: "d \<noteq> []" "d ! 0 = FC r" "length d = 2 + 2 * unat (Count r)" "unat (d ! 1) = 2 * unat (Count r)"
    using answers_read_iff [OF assms(1)] assms(2) by auto
  then have "DecodePDU d FromServer = decodeReadResp d"
    using DecodePDU_server [of d] no_exception_bit [of "d ! 0"] assms(1) by auto
  with d show ?thesis by (simp add: decodeReadResp_def Let_def)
qed

lemma proto_read_response:
  assumes "FC r = FCReadHolding \<or> FC r = FCReadInput" "1 \<le> unat (Count r)" "unat (Count r) \<le> 125"
  shows "case ParseReadResp \<lparr>rqFC = FC r, rqAddr = a, rqCount = Count r\<rparr> d of
      None \<Rightarrow> True
    | Some (Inl e) \<Rightarrow> \<not> answers_read r (DecodePDU d FromServer)
    | Some (Inr vs) \<Rightarrow> answers_read r (DecodePDU d FromServer) \<and> vs = Values (DecodePDU d FromServer)"
proof -
  have c: "\<not> (Count r < 1 \<or> 125 < Count r)" using assms(2,3) by (simp add: word_less_nat_alt)
  show ?thesis
    using answers_read_iff [OF assms(1), of d] answers_read_values [OF assms(1), of d] assms(1) c
    by (auto simp: ParseReadResp_def checkReadFC_def checkReadCount_def Let_def)
qed

lemma echo_mismatch_None: "length ws = length gs \<Longrightarrow> echo_mismatch i ws gs = None \<longleftrightarrow> gs = ws"
  by (induction i ws gs rule: echo_mismatch.induct) auto

lemma five_bytes_eq:
  "d = [fc] @ put_be16 a @ put_be16 v \<longleftrightarrow>
   length d = 5 \<and> d ! 0 = fc \<and> be_u16 (subslice d 1 3) = a \<and> be_u16 (subslice d 3 5) = v"
proof
  assume d: "d = [fc] @ put_be16 a @ put_be16 v"
  have "subslice d 1 3 = put_be16 a" "subslice d 3 5 = put_be16 v" by (simp_all add: d subslice_def)
  then show "length d = 5 \<and> d ! 0 = fc \<and> be_u16 (subslice d 1 3) = a \<and> be_u16 (subslice d 3 5) = v"
    using be_u16_put [of a "[]"] be_u16_put [of v "[]"] by (simp add: d)
next
  assume "length d = 5 \<and> d ! 0 = fc \<and> be_u16 (subslice d 1 3) = a \<and> be_u16 (subslice d 3 5) = v"
  then show "d = [fc] @ put_be16 a @ put_be16 v" using five_bytes [of d] by auto
qed

lemma BuildWriteResp_request:
  assumes "FC r = FCWriteSingle \<and> length (Values r) = 1 \<or>
    FC r = FCWriteMultiple \<and> length (Values r) = unat (Count r) \<and> 1 \<le> unat (Count r) \<and> unat (Count r) \<le> 123"
  shows "BuildWriteResp \<lparr>wqFC = FC r, wqAddr = Addr r, wqValues = Values r\<rparr> =
    Inr ([FC r] @ put_be16 (Addr r) @ put_be16 (if FC r = FCWriteSingle then Values r ! 0 else Count r))"
proof (cases "FC r = FCWriteSingle")
  case True
  with assms show ?thesis by (auto simp: BuildWriteResp_def checkWriteShape_def fc_consts)
next
  case False
  with assms have "FC r = FCWriteMultiple" "length (Values r) = unat (Count r)" "1 \<le> unat (Count r)" "unat (Count r) \<le> 123"
    by auto
  with False show ?thesis by (simp add: BuildWriteResp_def checkWriteShape_def)
qed

lemma write_echo_iff:
  assumes "FC r = FCWriteSingle \<or> FC r = FCWriteMultiple"
  shows "write_echo_ok r (DecodePDU d FromServer) \<longleftrightarrow>
    d = [FC r] @ put_be16 (Addr r) @ put_be16 (if FC r = FCWriteSingle then Values r ! 0 else Count r)"
proof (cases "d \<noteq> [] \<and> d ! 0 = FC r")
  case False
  then have "d \<noteq> [FC r] @ put_be16 (Addr r) @ put_be16 v" for v by auto
  moreover have "\<not> write_echo_ok r (DecodePDU d FromServer)"
    using False DecodePDU_server_exception [of d] DecodePDU_server [of d] FC_decode_server Kind_decode_server
    by (cases "d = [] \<or> d ! 0 AND ExceptionBit \<noteq> 0") (auto simp: write_echo_ok_def)
  ultimately show ?thesis by blast
next
  case True
  have fc: "FCWriteMultiple \<noteq> FCWriteSingle" "FCWriteSingle \<noteq> FCReadHolding" "FCWriteSingle \<noteq> FCReadInput"
    "FCWriteMultiple \<noteq> FCReadHolding" "FCWriteMultiple \<noteq> FCReadInput" by (simp_all add: fc_consts)
  have "DecodePDU d FromServer =
      (if FC r = FCWriteSingle then decodeWriteSingle d FromServer else decodeWriteMultiResp d)"
    using True DecodePDU_server [of d] no_exception_bit [of "d ! 0"] assms fc by auto
  with True assms fc show ?thesis
    unfolding five_bytes_eq
    by (auto simp: write_echo_ok_def decodeWriteSingle_def decodeWriteMultiResp_def undecodable_def)
qed

lemma proto_write_response:
  assumes "FC r = FCWriteSingle \<and> length (Values r) = 1 \<or>
    FC r = FCWriteMultiple \<and> length (Values r) = unat (Count r) \<and> 1 \<le> unat (Count r) \<and> unat (Count r) \<le> 123"
  shows "ParseWriteResp \<lparr>wqFC = FC r, wqAddr = Addr r, wqValues = Values r\<rparr> d = None \<longleftrightarrow>
    write_echo_ok r (DecodePDU d FromServer)"
proof -
  have fc: "FC r = FCWriteSingle \<or> FC r = FCWriteMultiple" using assms by blast
  show ?thesis
    unfolding write_echo_iff [OF fc] ParseWriteResp_def BuildWriteResp_request [OF assms]
    using echo_mismatch_None [of "[FC r] @ put_be16 (Addr r) @ put_be16 (if FC r = FCWriteSingle then Values r ! 0 else Count r)" d 0]
    by auto
qed

lemma request_fields:
  "Kind (DecodePDU p FromClient) = KindReadReq \<Longrightarrow>
    (FC (DecodePDU p FromClient) = FCReadHolding \<or> FC (DecodePDU p FromClient) = FCReadInput) \<and>
    1 \<le> unat (Count (DecodePDU p FromClient)) \<and> unat (Count (DecodePDU p FromClient)) \<le> 125"
  "Kind (DecodePDU p FromClient) = KindWriteReq \<Longrightarrow>
    FC (DecodePDU p FromClient) = FCWriteSingle \<and> length (Values (DecodePDU p FromClient)) = 1 \<or>
    FC (DecodePDU p FromClient) = FCWriteMultiple \<and>
      length (Values (DecodePDU p FromClient)) = unat (Count (DecodePDU p FromClient)) \<and>
      1 \<le> unat (Count (DecodePDU p FromClient)) \<and> unat (Count (DecodePDU p FromClient)) \<le> 123"
  by (auto simp: DecodePDU_def Let_def decodeReadReq_def decodeWriteSingle_def decodeWriteMultiReq_def undecodable_def
      split: if_splits)

lemma proto_Frame_spec:
  "prefix (fmFrames (proto_Frame b)) (fmFrames (Reference b))"
  "fmStop (proto_Frame b) = StopViolation \<and> lengthFieldAt b (fmStopOff (proto_Frame b)) = MinLengthField \<or>
   fmFrames (proto_Frame b) = fmFrames (Reference b) \<and> fmStop (proto_Frame b) = fmStop (Reference b) \<and>
   fmStopOff (proto_Frame b) = fmStopOff (Reference b)"
proof -
  obtain fs ft where fs: "FrameStream b = (fs, ft)" by fastforce
  have "prefix (fmFrames (proto_Frame b)) (fmFrames (Reference b)) \<and>
    (fmStop (proto_Frame b) = StopViolation \<and> lengthFieldAt b (fmStopOff (proto_Frame b)) = MinLengthField \<or>
     fmFrames (proto_Frame b) = fmFrames (Reference b) \<and> fmStop (proto_Frame b) = fmStop (Reference b) \<and>
     fmStopOff (proto_Frame b) = fmStopOff (Reference b))"
  proof (cases "b = []")
    case True
    then show ?thesis
      by (simp add: proto_Frame_def proto_loop.simps mbap_Decode_short HeaderLen_def Reference_def FrameStream_def
          frames_from_end)
  next
    case False
    then show ?thesis
      using proto_loop_frames [of 0 b fs ft False "[]"] Reference_stop [OF fs] fs takeWhile_is_prefix [of long_frame fs]
      by (auto simp: proto_Frame_def FrameStream_def Reference_frames Let_def list_all_iff)
  qed
  then show "prefix (fmFrames (proto_Frame b)) (fmFrames (Reference b))"
    "fmStop (proto_Frame b) = StopViolation \<and> lengthFieldAt b (fmStopOff (proto_Frame b)) = MinLengthField \<or>
     fmFrames (proto_Frame b) = fmFrames (Reference b) \<and> fmStop (proto_Frame b) = fmStop (Reference b) \<and>
     fmStopOff (proto_Frame b) = fmStopOff (Reference b)" by blast+
qed

lemma proto_Encode_valid: "valid_frame f \<Longrightarrow> proto_Encode f = Inr (wire f)"
proof -
  assume v: "valid_frame f"
  then have "(word_of_nat (length (PDUbytes f) + 1) :: u16) = LengthField f"
    unfolding valid_frame_def by (metis word_of_nat_unat_id)
  with v show ?thesis
    by (auto simp: proto_Encode_def mbap_Encode_def Let_def valid_frame_def wire_def ProtocolID_def)
qed

lemma DecodePDU_client:
  assumes "p \<noteq> []" "p ! 0 AND ExceptionBit = 0"
  shows "DecodePDU p FromClient =
    (if p ! 0 = FCReadHolding \<or> p ! 0 = FCReadInput then decodeReadReq p
     else if p ! 0 = FCWriteSingle then decodeWriteSingle p FromClient
     else if p ! 0 = FCWriteMultiple then decodeWriteMultiReq p
     else pdu_of KindUnsupported (p ! 0))"
  using assms by (simp add: DecodePDU_def Let_def)

lemma DecodePDU_client_exception:
  "p = [] \<or> p ! 0 AND ExceptionBit \<noteq> 0 \<Longrightarrow> Kind (DecodePDU p FromClient) = KindIndecipherab"
  by (auto simp: DecodePDU_def Let_def undecodable_def)

lemma proto_request_agrees:
  "case proto_ParseRequest p of
     Inl e \<Rightarrow> Kind (DecodePDU p FromClient) = KindIndecipherab
   | Inr q \<Rightarrow> same_request (DecodePDU p FromClient) q \<or> Kind q = KindUnsupported \<and>
       Kind (DecodePDU p FromClient) \<in> {KindIndecipherab, KindUnsupported}"
proof (cases "p = [] \<or> p ! 0 AND ExceptionBit \<noteq> 0")
  case True
  then show ?thesis
    using DecodePDU_client_exception [OF True] no_exception_bit [of "p ! 0"]
    by (auto simp: proto_ParseRequest_def)
next
  case False
  then have d: "DecodePDU p FromClient =
    (if p ! 0 = FCReadHolding \<or> p ! 0 = FCReadInput then decodeReadReq p
     else if p ! 0 = FCWriteSingle then decodeWriteSingle p FromClient
     else if p ! 0 = FCWriteMultiple then decodeWriteMultiReq p
     else pdu_of KindUnsupported (p ! 0))" by (intro DecodePDU_client) auto
  have fc: "FCWriteMultiple \<noteq> FCWriteSingle" "FCWriteSingle \<noteq> FCReadHolding" "FCWriteSingle \<noteq> FCReadInput"
    "FCWriteMultiple \<noteq> FCReadHolding" "FCWriteMultiple \<noteq> FCReadInput" by (simp_all add: fc_consts)
  show ?thesis
    unfolding d using False fc proto_read_request [of p] proto_write_request [of p]
    by (auto simp: proto_ParseRequest_def same_request_def split: sum.splits)
qed

interpretation product: faithful_reader ProtoSubject
proof unfold_locales
  show "prefix (fmFrames (sbFrame ProtoSubject b)) (fmFrames (Reference b))" for b
    using proto_Frame_spec(1) by (simp add: ProtoSubject_def)
  show "fmStop (sbFrame ProtoSubject b) = StopViolation \<and> lengthFieldAt b (fmStopOff (sbFrame ProtoSubject b)) = MinLengthField \<or>
      fmFrames (sbFrame ProtoSubject b) = fmFrames (Reference b) \<and> fmStop (sbFrame ProtoSubject b) = fmStop (Reference b) \<and>
      fmStopOff (sbFrame ProtoSubject b) = fmStopOff (Reference b)" for b
    using proto_Frame_spec(2) by (simp add: ProtoSubject_def)
  show "valid_frame f \<Longrightarrow> sbEncode ProtoSubject f = Inr (wire f)" for f
    by (simp add: ProtoSubject_def proto_Encode_valid)
  show "Kind (DecodePDU p FromClient) \<in> {KindReadReq, KindWriteReq} \<Longrightarrow>
      \<exists>q. sbParseRequest ProtoSubject p = Inr q \<and> same_request (DecodePDU p FromClient) q" for p
    using proto_request_agrees [of p] by (auto simp: ProtoSubject_def split: sum.splits)
  show "Kind (DecodePDU p FromClient) = KindIndecipherab \<Longrightarrow> sbParseRequest ProtoSubject p = Inr q \<Longrightarrow>
      Kind q \<noteq> KindReadReq \<and> Kind q \<noteq> KindWriteReq" for p q
    using proto_request_agrees [of p] by (auto simp: ProtoSubject_def same_request_def)
  show "sbParseReadResponse ProtoSubject q d = Inl PanicError \<or>
      (if answers_read (DecodePDU p FromClient) (DecodePDU d FromServer)
       then sbParseReadResponse ProtoSubject q d = Inr (Values (DecodePDU d FromServer))
       else \<exists>e. sbParseReadResponse ProtoSubject q d = Inl e)"
    if "Kind (DecodePDU p FromClient) = KindReadReq" "same_request (DecodePDU p FromClient) q" for p q d
    using proto_read_response [where r = "DecodePDU p FromClient" and a = "Addr q" and d = d] request_fields(1) [OF that(1)] that(2)
    by (auto simp: ProtoSubject_def proto_ParseReadResponse_def same_request_def split: option.splits sum.splits)
  show "sbParseWriteResponse ProtoSubject q d = None \<longleftrightarrow> write_echo_ok (DecodePDU p FromClient) (DecodePDU d FromServer)"
    if "Kind (DecodePDU p FromClient) = KindWriteReq" "same_request (DecodePDU p FromClient) q" for p q d
    using proto_write_response [OF request_fields(2) [OF that(1)], of d] that(2)
    by (auto simp: ProtoSubject_def proto_ParseWriteResponse_def same_request_def)
qed

section \<open>The enumeration\<close>

text \<open>\<^verbatim>\<open>divergence.go\<close>, without the prose of its entries.\<close>

record divergence =
  dvID :: string
  dvStricter :: string
  dvDefect :: bool

definition Divergences :: "divergence list" where
  "Divergences =
    [\<lparr>dvID = ''DIV-LEN2'', dvStricter = ''product'', dvDefect = False\<rparr>,
     \<lparr>dvID = ''DIV-FC06SPAN'', dvStricter = ''neither'', dvDefect = False\<rparr>,
     \<lparr>dvID = ''DEFECT-READRESP-1BYTE'', dvStricter = ''n/a'', dvDefect = True\<rparr>,
     \<lparr>dvID = ''DIV-RESPSHAPE'', dvStricter = ''reference'', dvDefect = False\<rparr>]"

definition Defects :: "divergence list" where "Defects = filter dvDefect Divergences"

section \<open>The properties\<close>

text \<open>C22: the product's reader and the bench's reader agree on every pair of byte streams.  The whole differential,
  both directions and every exchange, never panics and never reports a disagreement that is not on the
  enumerated list.\<close>

theorem CompareStreams_product:
  "\<exists>fs fault. CompareStreams ProtoSubject clientBytes serverBytes = Some (fs, fault) \<and> Differential fs = [] \<and>
    set (map fdDivergence fs) \<subseteq> insert [] (set (map dvID Divergences))"
proof -
  obtain fs fault where fs: "CompareStreams ProtoSubject clientBytes serverBytes = Some (fs, fault)"
    "\<forall>f \<in> set fs. fdDivergence f = ''DIV-LEN2'' \<or> fdDivergence f = ''DEFECT-READRESP-1BYTE'' \<or> fdClass f = ClassTraffic \<and> fdDivergence f = []"
    using product.streams_enumerated by blast
  have "Differential fs = []"
    using fs(2) by (auto simp: Differential_def is_unenumerated_def finding_Kind_def filter_empty_conv)
  moreover have "set (map fdDivergence fs) \<subseteq> insert [] (set (map dvID Divergences))"
    using fs(2) by (auto simp: Divergences_def)
  ultimately show ?thesis using fs(1) by blast
qed

text \<open>C23: silence means agreement, for any subject: when the comparison of a request stream reports nothing, the
  subject frames it exactly as the reference does, re-encodes every frame to the bytes it came from, and reads
  every request the reference accepts as the same request.\<close>

theorem Compare_silent:
  assumes "Compare sub b FromClient = []"
  shows "fmFrames (sbFrame sub b) = fst (FrameStream b) \<and> fmStop (sbFrame sub b) = fmStop (Reference b) \<and>
    fmStopOff (sbFrame sub b) = fmStopOff (Reference b) \<and>
    (\<forall>f \<in> set (fst (FrameStream b)). sbEncode sub f = Inr (subslice b (Off f) (EndOff f)) \<and>
       (Kind (DecodePDU (PDUbytes f) FromClient) \<in> {KindReadReq, KindWriteReq} \<longrightarrow>
         (\<exists>q. sbParseRequest sub (PDUbytes f) = Inr q \<and> same_request (DecodePDU (PDUbytes f) FromClient) q)))"
proof -
  have fr: "compareFraming (sbName sub) b (Reference b) (sbFrame sub b) = []"
    and cs: "compare_frames sub b FromClient (fmFrames (Reference b)) (fmFrames (sbFrame sub b)) = []"
    using assms by (simp_all add: Compare_def Let_def)
  have stops: "first_moved 0 (fmFrames (Reference b)) (fmFrames (sbFrame sub b)) = None"
    "fmStop (sbFrame sub b) = fmStop (Reference b)" "fmStopOff (sbFrame sub b) = fmStopOff (Reference b)"
    "length (fmFrames (sbFrame sub b)) = length (fmFrames (Reference b))"
    using fr by (auto simp: compareFraming_def split: option.splits if_splits)
  from compare_frames_silent [OF stops(1,4) cs] stops show ?thesis by (simp add: Reference_frames)
qed

definition sample_request :: bytes where
  "sample_request = [0, 1, 0, 0, 0, 6, 9, 3, 0, 2, 0, 1]"

theorem Compare_silent_witness:
  "fmFrames (sbFrame ProtoSubject sample_request) = fst (FrameStream sample_request) \<and> fst (FrameStream sample_request) \<noteq> []"
proof -
  have "sbFrame ProtoSubject sample_request = Reference sample_request"
    unfolding ProtoSubject_def subject.select_convs by code_simp
  then have "Compare ProtoSubject sample_request FromClient = []" by (simp add: product.compare_clean)
  note Compare_silent [OF this]
  moreover have "fst (FrameStream sample_request) \<noteq> []" by code_simp
  ultimately show ?thesis by blast
qed

text \<open>A subject that goes on past a framing violation: the reference stops there, and the subject's frames continue
  the reference's and reach further into the buffer.\<close>

definition resynchronises :: "bytes \<Rightarrow> framing \<Rightarrow> bool" where
  "resynchronises b got \<longleftrightarrow> fmStop (Reference b) = StopViolation \<and>
    prefix (fmFrames (Reference b)) (fmFrames got) \<and> fmStopOff (Reference b) < fmStopOff got"

lemma first_moved_continues [simp]: "first_moved i rs (rs @ gs) = None"
  by (induction rs arbitrary: i) auto

lemma compare_frames_continues: "compare_frames sub b dir rs (rs @ gs) = compare_frames sub b dir rs rs"
  by (induction rs) simp_all

text \<open>Its report: one finding for the stop, and the findings on the frames the reference accepted.  The frames it
  invented behind the violation are not compared.\<close>

lemma resync_findings:
  assumes "resynchronises b (sbFrame sub b)"
  shows "Compare sub b dir = acceptanceFinding (sbName sub) b (Reference b) (sbFrame sub b) #
    compare_frames sub b dir (fmFrames (Reference b)) (fmFrames (Reference b))"
proof -
  obtain gs where "fmFrames (sbFrame sub b) = fmFrames (Reference b) @ gs" "fmStopOff (Reference b) \<noteq> fmStopOff (sbFrame sub b)"
    using assms by (auto simp: resynchronises_def prefix_def)
  then show ?thesis
    by (simp add: Compare_def Let_def compareFraming_def compare_frames_continues)
qed

lemma resync_one_finding:
  assumes "resynchronises b (F b)"
  shows "Compare (ProtoSubject\<lparr>sbName := name, sbFrame := F\<rparr>) b dir = [acceptanceFinding name b (Reference b) (F b)]"
  using resync_findings [of b "ProtoSubject\<lparr>sbName := name, sbFrame := F\<rparr>" dir] assms product.reference_frames_agree
  by simp

text \<open>C24: a reader that resynchronises is always caught, and how.  A subject that is the product except for its
  framing, and that goes on past a header the reference refused, draws exactly one finding: an acceptance
  difference at the header where the reference stopped.  It is put under DIV-LEN2, and so left out of
  the unenumerated findings, exactly when the subject itself finally stops, by a violation, at a header whose
  length field is 2; the frames it invented in between play no part.\<close>

theorem Compare_resync_caught:
  assumes "resynchronises b (F b)"
  shows "\<exists>f. Compare (ProtoSubject\<lparr>sbName := name, sbFrame := F\<rparr>) b dir = [f] \<and>
    fdQuestion f = QAcceptance \<and> fdOff f = fmStopOff (Reference b) \<and>
    fdDivergence f =
      (if fmStop (F b) = StopViolation \<and> lengthFieldAt b (fmStopOff (F b)) = MinLengthField then ''DIV-LEN2'' else []) \<and>
    (Unenumerated [f] = [] \<longleftrightarrow> fmStop (F b) = StopViolation \<and> lengthFieldAt b (fmStopOff (F b)) = MinLengthField)"
  using assms resync_one_finding [where F = F, OF assms]
  by (simp add: acceptanceFinding_def mk_finding_def Unenumerated_def is_unenumerated_def resynchronises_def Let_def)

text \<open>The resynchronising reader of the referee's own tests (\<^verbatim>\<open>internal/mbapref/differential_test.go\<close>), which scans for
  the next plausible header one byte behind a violation and never stops by one itself.\<close>

function resyncing_loop :: "bytes \<Rightarrow> nat \<Rightarrow> mbap_frame list \<Rightarrow> framing" where
  "resyncing_loop b off out =
    (if off < length b then
       let f = Reference (drop off b); out' = out @ map (shift_frame off) (fmFrames f)
       in if fmStop f = StopClean then
            \<lparr>fmFrames = out', fmStop = StopClean, fmStopOff = length b, fmReason = NoReason\<rparr>
          else if fmStop f = StopTruncated then
            \<lparr>fmFrames = out', fmStop = StopTruncated, fmStopOff = off + fmStopOff f, fmReason = fmReason f\<rparr>
          else resyncing_loop b (off + fmStopOff f + 1) out'
     else \<lparr>fmFrames = out, fmStop = StopClean, fmStopOff = length b, fmReason = NoReason\<rparr>)"
  by pat_completeness auto
termination by (relation "measure (\<lambda>(b, off, out). length b - off)") auto

declare resyncing_loop.simps [simp del]

definition resyncing_Frame :: "bytes \<Rightarrow> framing" where
  "resyncing_Frame b = resyncing_loop b 0 []"

lemma resyncing_loop_goes_on:
  "off \<le> length b \<Longrightarrow> prefix out (fmFrames (resyncing_loop b off out)) \<and> off \<le> fmStopOff (resyncing_loop b off out) \<and>
    fmStop (resyncing_loop b off out) \<noteq> StopViolation"
proof (induction b off out rule: resyncing_loop.induct)
  case (1 b off out)
  let ?f = "Reference (drop off b)" and ?out = "out @ map (shift_frame off) (fmFrames (Reference (drop off b)))"
  have in_b: "off + fmStopOff ?f + 1 \<le> length b" if "off < length b" "fmStop ?f = StopViolation"
    using Reference_violation [OF that(2)] that(1) by simp
  have "prefix out (fmFrames (resyncing_loop b (off + fmStopOff ?f + 1) ?out)) \<and>
      off + fmStopOff ?f + 1 \<le> fmStopOff (resyncing_loop b (off + fmStopOff ?f + 1) ?out) \<and>
      fmStop (resyncing_loop b (off + fmStopOff ?f + 1) ?out) \<noteq> StopViolation"
    if "off < length b" "fmStop ?f \<noteq> StopClean" "fmStop ?f \<noteq> StopTruncated"
    using 1(1) [OF that(1) refl refl that(2,3)] in_b that by (cases "fmStop ?f") (auto intro: append_prefixD)
  then show ?case
    using 1(2) by (subst (1 2 3) resyncing_loop.simps) (auto simp: Let_def)
qed

lemma shift_frame_0 [simp]: "map (shift_frame 0) fs = fs"
  by (induction fs) (simp_all add: shift_frame_def)

text \<open>It satisfies the hypothesis wherever the reference refuses a header, so the differential reports it on every
  such buffer, never under an enumerated divergence.\<close>

lemma resyncing_resynchronises:
  assumes "fmStop (Reference b) = StopViolation"
  shows "resynchronises b (resyncing_Frame b) \<and> fmStop (resyncing_Frame b) \<noteq> StopViolation"
proof -
  have l: "fmStopOff (Reference b) + 1 \<le> length b" using Reference_violation [OF assms] by simp
  have "b \<noteq> []" using l by auto
  then have "resyncing_Frame b = resyncing_loop b (fmStopOff (Reference b) + 1) (fmFrames (Reference b))"
    using assms l by (simp add: resyncing_Frame_def resyncing_loop.simps [of b 0] Let_def shift_frame_0)
  then show ?thesis using resyncing_loop_goes_on [OF l, of "fmFrames (Reference b)"] assms by (simp add: resynchronises_def)
qed

lemma resyncing_reported:
  assumes "fmStop (Reference b) = StopViolation"
  shows "\<exists>f. Unenumerated (Compare (ProtoSubject\<lparr>sbName := ''resynchronising'', sbFrame := resyncing_Frame\<rparr>) b dir) = [f]"
  using resyncing_resynchronises [OF assms] resync_one_finding [of b resyncing_Frame]
  by (simp add: acceptanceFinding_def Unenumerated_def is_unenumerated_def mk_finding_def)

text \<open>Bytes as in the test: a good read request, seven bytes of garbage and a good write.  And a reader over a buffer that
  hides it: a bad header to skip, a write to register 2, and a header of length 2.\<close>

definition teeth_bytes :: bytes where
  "teeth_bytes = [0, 1, 0, 0, 0, 6, 1, 3, 0, 2, 0, 2] @ replicate 7 1 @ [0, 2, 0, 0, 0, 6, 1, 6, 0, 2, 0, 50]"

definition resync_Frame :: "bytes \<Rightarrow> framing" where
  "resync_Frame b = proto_loop \<lparr>rdB = b, rdOff = 7, rdHitEOF = False\<rparr> []"

definition resync_bytes :: bytes where
  "resync_bytes = [0, 1, 0, 5, 0, 2, 9] @ [0, 2, 0, 0, 0, 6, 9, 6, 0, 2, 0, 1] @ [0, 3, 0, 0, 0, 2, 9, 3]"

lemma resync_samples:
  "fmStop (Reference teeth_bytes) = StopViolation"
  "fmStopOff (Reference teeth_bytes) = 12"
  "map PDUbytes (fmFrames (resyncing_Frame teeth_bytes)) = [[3, 0, 2, 0, 2], [6, 0, 2, 0, 50]]"
  "fmStop (Reference resync_bytes) = StopViolation"
  "fmFrames (Reference resync_bytes) = []"
  "fmStopOff (Reference resync_bytes) = 0"
  "map PDUbytes (fmFrames (resync_Frame resync_bytes)) = [[6, 0, 2, 0, 1]]"
  "fmStop (resync_Frame resync_bytes) = StopViolation"
  "fmStopOff (resync_Frame resync_bytes) = 19"
  "lengthFieldAt resync_bytes 19 = MinLengthField"
  by code_simp+

theorem Compare_resync_caught_witness:
  "(\<exists>f. Compare (ProtoSubject\<lparr>sbName := ''resynchronising'', sbFrame := resyncing_Frame\<rparr>) teeth_bytes FromClient = [f] \<and>
      fdQuestion f = QAcceptance \<and> fdOff f = 12 \<and> Unenumerated [f] = [f]) \<and>
   (\<exists>f. Compare (ProtoSubject\<lparr>sbName := ''hiding'', sbFrame := resync_Frame\<rparr>) resync_bytes FromClient = [f] \<and>
      fdQuestion f = QAcceptance \<and> fdDivergence f = ''DIV-LEN2'' \<and> Unenumerated [f] = [])"
proof
  have r: "resynchronises teeth_bytes (resyncing_Frame teeth_bytes)" "fmStop (resyncing_Frame teeth_bytes) \<noteq> StopViolation"
    using resyncing_resynchronises [OF resync_samples(1)] by simp_all
  show "\<exists>f. Compare (ProtoSubject\<lparr>sbName := ''resynchronising'', sbFrame := resyncing_Frame\<rparr>) teeth_bytes FromClient = [f] \<and>
      fdQuestion f = QAcceptance \<and> fdOff f = 12 \<and> Unenumerated [f] = [f]"
    using Compare_resync_caught [where F = resyncing_Frame, OF r(1)] r(2) resync_samples(2)
    by (auto simp: Unenumerated_def is_unenumerated_def split: if_splits)
  have h: "resynchronises resync_bytes (resync_Frame resync_bytes)"
    using resync_samples by (simp add: resynchronises_def)
  show "\<exists>f. Compare (ProtoSubject\<lparr>sbName := ''hiding'', sbFrame := resync_Frame\<rparr>) resync_bytes FromClient = [f] \<and>
      fdQuestion f = QAcceptance \<and> fdDivergence f = ''DIV-LEN2'' \<and> Unenumerated [f] = []"
    using Compare_resync_caught [where F = resync_Frame, OF h] resync_samples by (auto split: if_splits)
qed

text \<open>The panic the referee catches: the product's response parser panics exactly on a response that is the bare
  function code of a well-formed read request.\<close>

lemma ParseReadResp_panics:
  "ParseReadResp req d = None \<longleftrightarrow>
     (rqFC req = FCReadHolding \<or> rqFC req = FCReadInput) \<and> rqCount req \<noteq> 0 \<and> rqCount req \<le> 125 \<and> d = [rqFC req]"
proof -
  have "d = [rqFC req] \<longleftrightarrow> length d = 1 \<and> d ! 0 = rqFC req" by (cases d) auto
  then show ?thesis
    by (auto simp: ParseReadResp_def checkReadFC_def checkReadCount_def Let_def not_less not_le)
qed

end
