(* ===== verification/Tls_Cursor.thy ===== *)
theory Tls_Cursor
  imports Bytes_Prelude "HOL-Library.State_Monad"
begin

text \<open>
  \<^verbatim>\<open>internal/evidence/tlsdis/cursor.go\<close> and \<^verbatim>\<open>extension.go\<close>: the bounds-checked
  forward reader every TLS parser is written against, and the extension lists read with it.  A method on
  the cursor is a computation of the library's state monad over the cursor record, so the parsers below
  are the code's straight-line sequences.  The first error is latched in the cursor.
\<close>

section \<open>The cursor\<close>

datatype tls_error =
    Wants string nat nat nat
  | OddList string nat
  | NoCipherSuites
  | NoCompressionMethods
  | NoCertificates nat
  | TicketTrailing nat
  | BadKeyUpdate nat
  | BadHelloDone nat
  | NotTLSRecord nat byte
  | NotTLSVersion nat u16
  | FragmentTooLong nat nat
  | MessageTooLong byte nat nat

record cursor =
  cuB :: bytes
  cuOff :: nat
  cuErr :: "tls_error option"

type_synonym 'a tls_reader = "(cursor, 'a) state"

definition newCursor :: "bytes \<Rightarrow> cursor" where
  "newCursor b = \<lparr>cuB = b, cuOff = 0, cuErr = None\<rparr>"

definition cu_fail :: "tls_error \<Rightarrow> unit tls_reader" where
  "cu_fail e = State (\<lambda>c. ((), if cuErr c = None then c\<lparr>cuErr := Some e\<rparr> else c))"

definition need :: "nat \<Rightarrow> string \<Rightarrow> bool tls_reader" where
  "need n what = State (\<lambda>c.
    if cuErr c \<noteq> None then (False, c)
    else if length (cuB c) - cuOff c < n
    then (False, c\<lparr>cuErr := Some (Wants what n (cuOff c) (length (cuB c) - cuOff c))\<rparr>)
    else (True, c))"

definition peek :: "nat \<Rightarrow> bytes tls_reader" where
  "peek n = State (\<lambda>c. (subslice (cuB c) (cuOff c) (cuOff c + n), c\<lparr>cuOff := cuOff c + n\<rparr>))"

definition take_bytes :: "nat \<Rightarrow> string \<Rightarrow> bytes tls_reader" where
  "take_bytes n what = do { ok \<leftarrow> need n what; if ok then peek n else State_Monad.return [] }"

definition u8 :: "string \<Rightarrow> byte tls_reader" where
  "u8 what = do { ok \<leftarrow> need 1 what;
     if ok then do { v \<leftarrow> peek 1; State_Monad.return (v ! 0) } else State_Monad.return 0 }"

definition u16 :: "string \<Rightarrow> u16 tls_reader" where
  "u16 what = do { ok \<leftarrow> need 2 what;
     if ok then do { v \<leftarrow> peek 2; State_Monad.return (be_u16 v) } else State_Monad.return 0 }"

definition u24 :: "string \<Rightarrow> nat tls_reader" where
  "u24 what = do { ok \<leftarrow> need 3 what;
     if ok then do { v \<leftarrow> peek 3; State_Monad.return (be_val v) } else State_Monad.return 0 }"

definition u32 :: "string \<Rightarrow> u32 tls_reader" where
  "u32 what = do { ok \<leftarrow> need 4 what;
     if ok then do { v \<leftarrow> peek 4; State_Monad.return (be_u32 v) } else State_Monad.return 0 }"

definition length_of :: "string \<Rightarrow> string" where "length_of what = what @ '' length''"

definition vector8 :: "string \<Rightarrow> bytes tls_reader" where
  "vector8 what = do { n \<leftarrow> u8 (length_of what); take_bytes (unat n) what }"

definition vector16 :: "string \<Rightarrow> bytes tls_reader" where
  "vector16 what = do { n \<leftarrow> u16 (length_of what); take_bytes (unat n) what }"

definition vector24 :: "string \<Rightarrow> bytes tls_reader" where
  "vector24 what = do { n \<leftarrow> u24 (length_of what); take_bytes n what }"

definition cu_remaining :: "cursor \<Rightarrow> nat" where
  "cu_remaining c = (if cuErr c \<noteq> None then 0 else length (cuB c) - cuOff c)"

definition remaining :: "nat tls_reader" where "remaining = State (\<lambda>c. (cu_remaining c, c))"

definition at_end :: "bool tls_reader" where "at_end = State (\<lambda>c. (cu_remaining c = 0, c))"

definition cu_err :: "tls_error option tls_reader" where "cu_err = State (\<lambda>c. (cuErr c, c))"

definition cu_rest :: "bytes tls_reader" where
  "cu_rest = State (\<lambda>c. if cuErr c \<noteq> None then ([], c)
     else (drop (cuOff c) (cuB c), c\<lparr>cuOff := length (cuB c)\<rparr>))"

fun u16_pairs :: "bytes \<Rightarrow> u16 list" where
  "u16_pairs (a # b # bs) = be_u16 [a, b] # u16_pairs bs"
| "u16_pairs _ = []"

definition u16List :: "string \<Rightarrow> u16 list tls_reader" where
  "u16List what = do { body \<leftarrow> vector16 what;
     if length body mod 2 \<noteq> 0
     then do { cu_fail (OddList what (length body)); State_Monad.return [] }
     else State_Monad.return (u16_pairs body) }"

text \<open>The loops "while the inner cursor is not empty, read one item, stop on an error".  Every item
  read without an error consumes at least one byte, so the number of bytes remaining at the start bounds
  the iterations; that the bound is never what stops the loop is proved below.\<close>

primrec items_loop :: "nat \<Rightarrow> 'a tls_reader \<Rightarrow> cursor \<Rightarrow> 'a list \<times> cursor" where
  "items_loop 0 item c = ([], c)"
| "items_loop (Suc n) item c =
    (if cu_remaining c = 0 then ([], c)
     else case run_state item c of (x, c1) \<Rightarrow>
       if cuErr c1 \<noteq> None then ([], c1)
       else case items_loop n item c1 of (xs, c2) \<Rightarrow> (x # xs, c2))"

definition items :: "'a tls_reader \<Rightarrow> bytes \<Rightarrow> 'a list \<times> tls_error option" where
  "items item body =
    (case items_loop (length body) item (newCursor body) of (xs, c) \<Rightarrow> (xs, cuErr c))"

section \<open>Extensions\<close>

record extension =
  exType :: u16
  exData :: bytes

definition extension_item :: "extension tls_reader" where
  "extension_item = do { t \<leftarrow> u16 ''extension type''; d \<leftarrow> vector16 ''extension data'';
     State_Monad.return \<lparr>exType = t, exData = d\<rparr> }"

definition parseExtensions :: "bytes \<Rightarrow> extension list" where
  "parseExtensions body = fst (items extension_item body)"

definition parseExtensionsCursor :: "string \<Rightarrow> extension list tls_reader" where
  "parseExtensionsCursor what = do { body \<leftarrow> vector16 what; e \<leftarrow> cu_err;
     if e \<noteq> None then State_Monad.return []
     else case items extension_item body of (out, ie) \<Rightarrow>
       (case ie of None \<Rightarrow> State_Monad.return out
                 | Some x \<Rightarrow> do { cu_fail x; State_Monad.return out }) }"

fun findExtension :: "extension list \<Rightarrow> u16 \<Rightarrow> bytes option" where
  "findExtension [] t = None"
| "findExtension (e # es) t = (if exType e = t then Some (exData e) else findExtension es t)"

definition ExtensionTypes :: "extension list \<Rightarrow> u16 list" where
  "ExtensionTypes exts = map exType exts"

record keyShare =
  ksGroup :: u16
  ksKey :: bytes

text \<open>The four list decoders share a shape: a two-byte length, then items from what it delimits.\<close>

definition inner_list :: "string \<Rightarrow> 'a tls_reader \<Rightarrow> bytes \<Rightarrow> 'a list" where
  "inner_list what item body =
    (case run_state (vector16 what) (newCursor body) of (lst, c) \<Rightarrow>
       if cuErr c \<noteq> None then [] else fst (items item lst))"

definition parseClientKeyShares :: "bytes \<Rightarrow> keyShare list" where
  "parseClientKeyShares = inner_list ''key_share.client_shares''
     (do { g \<leftarrow> u16 ''key_share.group''; k \<leftarrow> vector16 ''key_share.key_exchange'';
           State_Monad.return \<lparr>ksGroup = g, ksKey = k\<rparr> })"

definition parseServerNameList :: "bytes \<Rightarrow> bytes list" where
  "parseServerNameList body = map snd (filter (\<lambda>p. fst p = 0) (inner_list ''server_name_list''
     (do { t \<leftarrow> u8 ''server_name.name_type''; n \<leftarrow> vector16 ''server_name.host_name'';
           State_Monad.return (t, n) }) body))"

definition parseALPN :: "bytes \<Rightarrow> bytes list" where
  "parseALPN = inner_list ''alpn.protocol_name_list'' (vector8 ''alpn.protocol_name'')"

section \<open>Readers stay inside the bytes and stop at the first error\<close>

text \<open>A steady reader never changes the bytes, only moves forward, never beyond the end, and does
  nothing once an error is latched.\<close>

definition steady :: "'a tls_reader \<Rightarrow> bool" where
  "steady m \<longleftrightarrow> (\<forall>c. cuOff c \<le> length (cuB c) \<longrightarrow>
     (let c' = snd (run_state m c)
      in cuB c' = cuB c \<and> cuOff c \<le> cuOff c' \<and> cuOff c' \<le> length (cuB c) \<and>
         (cuErr c \<noteq> None \<longrightarrow> c' = c)))"

named_theorems steady_intros

lemma steadyD:
  assumes "steady m" "run_state m c = (x, c')" "cuOff c \<le> length (cuB c)"
  shows "cuB c' = cuB c" "cuOff c \<le> cuOff c'" "cuOff c' \<le> length (cuB c)" "cuErr c \<noteq> None \<Longrightarrow> c' = c"
  using assms by (force simp: steady_def Let_def)+

lemma steady_return [steady_intros]: "steady (State_Monad.return x)"
  by (simp add: steady_def)

lemma steady_bind [steady_intros]:
  assumes "steady m" "\<And>x. steady (f x)"
  shows "steady (m \<bind> f)"
  unfolding steady_def Let_def
proof (intro allI impI)
  fix c :: cursor
  assume c: "cuOff c \<le> length (cuB c)"
  obtain x c1 where 1: "run_state m c = (x, c1)" by fastforce
  obtain y c2 where 2: "run_state (f x) c1 = (y, c2)" by fastforce
  note s1 = steadyD [OF assms(1) 1 c]
  have "cuOff c1 \<le> length (cuB c1)" using s1 by simp
  note s2 = steadyD [OF assms(2) 2 this]
  show "cuB (snd (run_state (m \<bind> f) c)) = cuB c \<and> cuOff c \<le> cuOff (snd (run_state (m \<bind> f) c)) \<and>
      cuOff (snd (run_state (m \<bind> f) c)) \<le> length (cuB c) \<and>
      (cuErr c \<noteq> None \<longrightarrow> snd (run_state (m \<bind> f) c) = c)"
    using 1 2 s1 s2 by auto
qed

lemma steady_if [steady_intros]: "steady a \<Longrightarrow> steady b \<Longrightarrow> steady (if P then a else b)"
  by simp

lemma steady_fail [steady_intros]: "steady (cu_fail e)"
  by (simp add: steady_def cu_fail_def Let_def)

lemma steady_queries [steady_intros]: "steady remaining" "steady at_end" "steady cu_err" "steady cu_rest"
  by (simp_all add: steady_def remaining_def at_end_def cu_err_def cu_rest_def Let_def)

text \<open>A peek is only steady behind its check.\<close>

lemma steady_checked [steady_intros]:
  assumes "\<And>v. steady (f v)" "steady g"
  shows "steady (need n what \<bind> (\<lambda>ok. if ok then peek n \<bind> f else g))"
  unfolding steady_def Let_def
proof (intro allI impI)
  fix c :: cursor
  assume c: "cuOff c \<le> length (cuB c)"
  let ?m = "need n what \<bind> (\<lambda>ok. if ok then peek n \<bind> f else g)"
  show "cuB (snd (run_state ?m c)) = cuB c \<and> cuOff c \<le> cuOff (snd (run_state ?m c)) \<and>
      cuOff (snd (run_state ?m c)) \<le> length (cuB c) \<and> (cuErr c \<noteq> None \<longrightarrow> snd (run_state ?m c) = c)"
  proof (cases "cuErr c = None \<and> n \<le> length (cuB c) - cuOff c")
    case True
    let ?c = "c\<lparr>cuOff := cuOff c + n\<rparr>"
    obtain x c2 where 2: "run_state (f (subslice (cuB c) (cuOff c) (cuOff c + n))) ?c = (x, c2)" by fastforce
    have "cuOff ?c \<le> length (cuB ?c)" using True c by (simp add: le_diff_conv2)
    from steadyD [OF assms(1) 2 this] show ?thesis
      using True 2 c by (simp add: need_def peek_def)
  next
    case False
    then obtain c1 where c1: "run_state (need n what) c = (False, c1)" "cuB c1 = cuB c" "cuOff c1 = cuOff c"
      "cuErr c \<noteq> None \<Longrightarrow> c1 = c"
      by (cases "cuErr c") (auto simp: need_def)
    obtain x c2 where 2: "run_state g c1 = (x, c2)" by fastforce
    have "cuOff c1 \<le> length (cuB c1)" using c c1 by simp
    from steadyD [OF assms(2) 2 this] show ?thesis using c1 2 by auto
  qed
qed

lemma steady_reads [steady_intros]:
  "steady (u8 what)" "steady (u16 what)" "steady (u24 what)" "steady (u32 what)"
  unfolding u8_def u16_def u24_def u32_def by (intro steady_intros)+

lemma steady_take [steady_intros]: "steady (take_bytes n what)"
proof -
  have "steady (need n what \<bind> (\<lambda>ok. if ok then peek n \<bind> State_Monad.return else State_Monad.return []))"
    by (intro steady_intros)
  then show ?thesis by (simp add: take_bytes_def cong: if_cong)
qed

lemma steady_vectors [steady_intros]:
  "steady (vector8 what)" "steady (vector16 what)" "steady (vector24 what)" "steady (u16List what)"
  by (simp_all add: vector8_def vector16_def vector24_def u16List_def steady_intros)

lemma steady_extension_item [steady_intros]: "steady extension_item"
  by (simp add: extension_item_def steady_intros)

lemma steady_parseExtensionsCursor [steady_intros]: "steady (parseExtensionsCursor what)"
  unfolding parseExtensionsCursor_def
  by (intro steady_intros) (auto split: prod.split option.split intro!: steady_intros)

section \<open>The loops end by themselves\<close>

text \<open>An eager reader consumes something whenever it succeeds.\<close>

definition eager :: "'a tls_reader \<Rightarrow> bool" where
  "eager m \<longleftrightarrow> (\<forall>c x c'. run_state m c = (x, c') \<longrightarrow> cuOff c \<le> length (cuB c) \<longrightarrow>
     cuErr c' = None \<longrightarrow> cuOff c < cuOff c')"

lemma eager_bind:
  assumes "eager m" "steady m" "\<And>x. steady (f x)"
  shows "eager (m \<bind> f)"
  unfolding eager_def
proof (intro allI impI)
  fix c y c2
  assume run: "run_state (m \<bind> f) c = (y, c2)" "cuOff c \<le> length (cuB c)" "cuErr c2 = None"
  obtain x c1 where 1: "run_state m c = (x, c1)" by fastforce
  with run have 2: "run_state (f x) c1 = (y, c2)" by simp
  note s1 = steadyD [OF assms(2) 1 run(2)]
  then have s2: "cuOff c1 \<le> cuOff c2" "cuErr c1 \<noteq> None \<Longrightarrow> c2 = c1"
    using steadyD [OF assms(3) 2] by simp_all
  then have "cuErr c1 = None" using run(3) by (cases "cuErr c1") simp_all
  then have "cuOff c < cuOff c1" using assms(1) 1 run(2) unfolding eager_def by blast
  then show "cuOff c < cuOff c2" using s2(1) by simp
qed

lemma eager_reads: "eager (u8 what)" "eager (u16 what)"
  by (auto simp: eager_def u8_def u16_def need_def peek_def split: if_splits)

lemma eager_vector8: "eager (vector8 what)"
  unfolding vector8_def by (intro eager_bind eager_reads steady_intros)

lemma eager_extension_item: "eager extension_item"
  unfolding extension_item_def by (intro eager_bind eager_reads steady_intros)

lemma items_loop_ends:
  assumes "steady item" "eager item" "cuOff c \<le> length (cuB c)" "cu_remaining c \<le> n"
  shows "case items_loop n item c of (xs, c') \<Rightarrow>
    cuB c' = cuB c \<and> cuOff c' \<le> length (cuB c) \<and> cu_remaining c' = 0"
  using assms(3,4)
proof (induction n arbitrary: c)
  case (Suc n)
  show ?case
  proof (cases "cu_remaining c = 0")
    case True
    with Suc.prems show ?thesis by simp
  next
    case False
    obtain x c1 where 1: "run_state item c = (x, c1)" by fastforce
    note s1 = steadyD [OF assms(1) 1 Suc.prems(1)]
    show ?thesis
    proof (cases "cuErr c1 = None")
      case False
      then show ?thesis using 1 s1 \<open>cu_remaining c \<noteq> 0\<close> by (simp add: cu_remaining_def)
    next
      case True
      then have "cuOff c < cuOff c1" using assms(2) 1 Suc.prems(1) unfolding eager_def by blast
      then have "cu_remaining c1 \<le> n"
        using Suc.prems(2) True s1 \<open>cu_remaining c \<noteq> 0\<close> by (auto simp: cu_remaining_def split: if_splits)
      then have "case items_loop n item c1 of (xs, c') \<Rightarrow>
          cuB c' = cuB c1 \<and> cuOff c' \<le> length (cuB c1) \<and> cu_remaining c' = 0"
        using s1 by (intro Suc.IH) simp_all
      then show ?thesis using 1 s1 True False by (simp split: prod.splits)
    qed
  qed
qed (auto simp: cu_remaining_def split: if_splits)

section \<open>Reading back what was encoded\<close>

text \<open>A reader reads x from bs when, wherever bs stands in the input, it returns x and moves past bs
  without an error.\<close>

definition at_offset :: "bytes \<Rightarrow> bytes \<Rightarrow> cursor" where
  "at_offset pre post = \<lparr>cuB = pre @ post, cuOff = length pre, cuErr = None\<rparr>"

definition reads :: "'a tls_reader \<Rightarrow> bytes \<Rightarrow> 'a \<Rightarrow> bool" where
  "reads m bs x \<longleftrightarrow> (\<forall>pre post. run_state m (at_offset pre (bs @ post)) = (x, at_offset (pre @ bs) post))"

definition reads_last :: "'a tls_reader \<Rightarrow> bytes \<Rightarrow> 'a \<Rightarrow> bool" where
  "reads_last m bs x \<longleftrightarrow> (\<forall>pre. run_state m (at_offset pre bs) = (x, at_offset (pre @ bs) []))"

named_theorems reads_intros

lemma reads_return: "reads (State_Monad.return x) [] x"
  by (simp add: reads_def)

lemma reads_bind: "reads m as x \<Longrightarrow> reads (f x) bs y \<Longrightarrow> reads (m \<bind> f) (as @ bs) y"
  by (simp add: reads_def)

lemma reads_bind_return: "reads m as x \<Longrightarrow> reads (m \<bind> (\<lambda>x. State_Monad.return (f x))) as (f x)"
  by (simp add: reads_def)

lemma reads_last_bind: "reads m as x \<Longrightarrow> reads_last (f x) bs y \<Longrightarrow> reads_last (m \<bind> f) (as @ bs) y"
  by (simp add: reads_def reads_last_def)

lemma reads_last_I: "reads m bs x \<Longrightarrow> reads_last m bs x"
  unfolding reads_def reads_last_def by (metis append_Nil2)

lemma reads_take: "length bs = n \<Longrightarrow> reads (take_bytes n what) bs bs"
  by (auto simp: reads_def take_bytes_def need_def peek_def at_offset_def subslice_def)

lemma reads_u8: "reads (u8 what) [b] b"
  by (auto simp: reads_def u8_def need_def peek_def at_offset_def subslice_def)

lemma reads_u16: "reads (u16 what) (put_be16 v) v"
  using be_u16_put [of v "[]"]
  by (auto simp: reads_def u16_def need_def peek_def at_offset_def subslice_def)

lemma reads_u32: "reads (u32 what) (put_be32 v) v"
  using be_u32_put [of v "[]"]
  by (auto simp: reads_def u32_def need_def peek_def at_offset_def subslice_def)

lemma reads_u24: "n < 2 ^ 24 \<Longrightarrow> reads (u24 what) (be_bytes 3 n) n"
  by (auto simp: reads_def u24_def need_def peek_def at_offset_def subslice_def)

definition vec8 :: "bytes \<Rightarrow> bytes" where "vec8 v = [word_of_nat (length v)] @ v"
definition vec16 :: "bytes \<Rightarrow> bytes" where "vec16 v = put_be16 (word_of_nat (length v)) @ v"
definition vec24 :: "bytes \<Rightarrow> bytes" where "vec24 v = be_bytes 3 (length v) @ v"

lemma reads_vector8: "length v < 256 \<Longrightarrow> reads (vector8 what) (vec8 v) v"
  unfolding vector8_def vec8_def
  by (rule reads_bind [OF reads_u8]) (auto intro: reads_take)

lemma reads_vector16: "length v < 65536 \<Longrightarrow> reads (vector16 what) (vec16 v) v"
  unfolding vector16_def vec16_def
  by (rule reads_bind [OF reads_u16]) (auto intro: reads_take)

lemma reads_vector24: "length v < 2 ^ 24 \<Longrightarrow> reads (vector24 what) (vec24 v) v"
  unfolding vector24_def vec24_def
  by (rule reads_bind [OF reads_u24]) (auto intro: reads_take)

lemma u16_pairs_put: "u16_pairs (concat (map put_be16 vs)) = vs"
proof (induction vs)
  case (Cons v vs)
  have "put_be16 v = [put_be16 v ! 0, put_be16 v ! 1]"
    by (intro nth_equalityI) (auto simp: less_2_cases_iff)
  then obtain a b where ab: "put_be16 v = [a, b]" by blast
  then have "be_u16 [a, b] = v" using be_u16_put [of v "[]"] by simp
  with Cons ab show ?case by simp
qed simp

lemma reads_u16List:
  assumes "2 * length vs < 65536"
  shows "reads (u16List what) (vec16 (concat (map put_be16 vs))) vs"
proof -
  have len: "length (concat (map put_be16 vs)) = 2 * length vs"
    by (induction vs) simp_all
  have "reads (vector16 what) (vec16 (concat (map put_be16 vs))) (concat (map put_be16 vs))"
    using assms by (intro reads_vector16) (simp only: len)
  then show ?thesis
    by (simp add: u16List_def reads_def len u16_pairs_put)
qed

lemma items_loop_reads:
  assumes "\<forall>x \<in> set xs. reads item (enc x) x \<and> enc x \<noteq> []" "length (concat (map enc xs)) \<le> n"
  shows "items_loop n item (at_offset pre (concat (map enc xs))) =
    (xs, at_offset (pre @ concat (map enc xs)) [])"
  using assms
proof (induction xs arbitrary: pre n)
  case Nil
  then show ?case by (cases n) (simp_all add: cu_remaining_def at_offset_def)
next
  case (Cons x xs)
  let ?rest = "concat (map enc xs)"
  have x: "reads item (enc x) x" "enc x \<noteq> []" using Cons.prems(1) by simp_all
  then obtain m where m: "n = Suc m" "length ?rest \<le> m"
    using Cons.prems(2) by (cases n) (auto simp: length_greater_0_conv [symmetric] simp del: length_greater_0_conv)
  have "cu_remaining (at_offset pre (enc x @ ?rest)) \<noteq> 0"
    using x(2) by (simp add: cu_remaining_def at_offset_def)
  moreover have "run_state item (at_offset pre (enc x @ ?rest)) = (x, at_offset (pre @ enc x) ?rest)"
    using x(1) by (simp add: reads_def)
  moreover have "cuErr (at_offset (pre @ enc x) ?rest) = None" by (simp add: at_offset_def)
  ultimately show ?case
    using Cons.IH [of m "pre @ enc x"] Cons.prems(1) m by simp
qed

lemma items_reads:
  assumes "\<forall>x \<in> set xs. reads item (enc x) x \<and> enc x \<noteq> []"
  shows "items item (concat (map enc xs)) = (xs, None)"
  using items_loop_reads [OF assms order_refl, of "[]"]
  by (simp add: items_def newCursor_def at_offset_def)

definition extension_wire :: "extension \<Rightarrow> bytes" where
  "extension_wire e = put_be16 (exType e) @ vec16 (exData e)"

lemma reads_extension_item:
  assumes "length (exData e) < 65536"
  shows "reads extension_item (extension_wire e) e"
proof -
  have "reads extension_item (extension_wire e) \<lparr>exType = exType e, exData = exData e\<rparr>"
    unfolding extension_item_def extension_wire_def
    by (intro reads_bind [OF reads_u16] reads_bind_return reads_vector16 assms)
  then show ?thesis by (cases e) simp
qed

lemma extension_wire_nonempty: "extension_wire e \<noteq> []"
proof -
  have "length (extension_wire e) \<noteq> 0" by (simp add: extension_wire_def)
  then show ?thesis by auto
qed

definition extensions_wire :: "extension list \<Rightarrow> bytes" where
  "extensions_wire es = concat (map extension_wire es)"

lemma items_extensions:
  assumes "\<forall>e \<in> set es. length (exData e) < 65536"
  shows "items extension_item (extensions_wire es) = (es, None)"
  unfolding extensions_wire_def using assms
  by (intro items_reads) (simp add: reads_extension_item extension_wire_nonempty)

lemma reads_parseExtensionsCursor:
  assumes "length (extensions_wire es) < 65536"
  shows "reads (parseExtensionsCursor what) (vec16 (extensions_wire es)) es"
proof -
  have "length (extension_wire e) \<le> length (extensions_wire es)" if "e \<in> set es" for e
    using that by (induction es) (auto simp: extensions_wire_def)
  then have "\<forall>e \<in> set es. length (exData e) < 65536"
    using assms by (force simp: extension_wire_def vec16_def)
  from items_extensions [OF this] reads_vector16 [OF assms, of what] show ?thesis
    by (simp add: parseExtensionsCursor_def reads_def cu_err_def at_offset_def)
qed

end
