(* ===== verification/Netdis_Flow.thy ===== *)
theory Netdis_Flow
  imports Bytes_Prelude
begin

text \<open>
  \<^verbatim>\<open>internal/evidence/netdis/flow.go\<close>: endpoints, the direction of a packet and the
  direction-independent key of a conversation.  An address is a \<^verbatim>\<open>netip.Addr\<close> of the Go standard
  library restricted to the values the dissector builds: the zero value, IPv4, and IPv6 without a zone.
\<close>

datatype addr = InvalidAddr | IPv4Addr u32 | IPv6Addr "128 word"

fun addr_bitlen :: "addr \<Rightarrow> nat" where
  "addr_bitlen InvalidAddr = 0"
| "addr_bitlen (IPv4Addr _) = 32"
| "addr_bitlen (IPv6Addr _) = 128"

fun addr_value :: "addr \<Rightarrow> nat" where
  "addr_value InvalidAddr = 0"
| "addr_value (IPv4Addr w) = unat w"
| "addr_value (IPv6Addr w) = unat w"

text \<open>\<^verbatim>\<open>netip.Addr.Compare\<close>: by bit length, then by value.\<close>

definition addr_compare :: "addr \<Rightarrow> addr \<Rightarrow> int" where
  "addr_compare a b =
    (if addr_bitlen a < addr_bitlen b then -1
     else if addr_bitlen b < addr_bitlen a then 1
     else if addr_value a < addr_value b then -1
     else if addr_value b < addr_value a then 1
     else 0)"

datatype endpoint = Endpoint (epAddr: addr) (epPort: u16)

definition compare :: "endpoint \<Rightarrow> endpoint \<Rightarrow> int" where
  "compare e o' =
    (let c = addr_compare (epAddr e) (epAddr o')
     in if c \<noteq> 0 then c
        else if epPort e < epPort o' then -1
        else if epPort o' < epPort e then 1
        else 0)"

record flowKey =
  flSrc :: endpoint
  flDst :: endpoint

definition Reverse :: "flowKey \<Rightarrow> flowKey" where
  "Reverse f = \<lparr>flSrc = flDst f, flDst = flSrc f\<rparr>"

record streamKey =
  skA :: endpoint
  skB :: endpoint

definition Stream :: "flowKey \<Rightarrow> streamKey" where
  "Stream f =
    (if compare (flSrc f) (flDst f) \<le> 0 then \<lparr>skA = flSrc f, skB = flDst f\<rparr>
     else \<lparr>skA = flDst f, skB = flSrc f\<rparr>)"

definition DirIndex :: "streamKey \<Rightarrow> flowKey \<Rightarrow> nat" where
  "DirIndex s f = (if flSrc f = skA s then 0 else 1)"

definition Flow :: "streamKey \<Rightarrow> nat \<Rightarrow> flowKey" where
  "Flow s dir =
    (if dir = 0 then \<lparr>flSrc = skA s, flDst = skB s\<rparr> else \<lparr>flSrc = skB s, flDst = skA s\<rparr>)"

section \<open>The comparison is a linear order\<close>

text \<open>Endpoints become an instance of the library's linear orders through the code's own
  comparison, so that its automation decides canonical forms.\<close>

lemma addr_eq_iff: "a = b \<longleftrightarrow> addr_bitlen a = addr_bitlen b \<and> addr_value a = addr_value b"
  by (cases a; cases b) (auto simp: word_unat_eq_iff)

definition endpoint_rank :: "endpoint \<Rightarrow> nat \<times> nat \<times> nat" where
  "endpoint_rank e = (addr_bitlen (epAddr e), addr_value (epAddr e), unat (epPort e))"

lemma endpoint_rank_inj: "endpoint_rank e = endpoint_rank f \<longleftrightarrow> e = f"
  by (cases e; cases f) (auto simp: endpoint_rank_def addr_eq_iff word_unat_eq_iff)

definition rank_less :: "nat \<times> nat \<times> nat \<Rightarrow> nat \<times> nat \<times> nat \<Rightarrow> bool" where
  "rank_less x y \<longleftrightarrow> fst x < fst y \<or> fst x = fst y \<and>
     (fst (snd x) < fst (snd y) \<or> fst (snd x) = fst (snd y) \<and> snd (snd x) < snd (snd y))"

lemma rank_less_linear: "x \<noteq> y \<Longrightarrow> rank_less x y \<or> rank_less y x"
  by (cases x; cases y) (auto simp: rank_less_def)

lemma rank_less_asym: "rank_less x y \<Longrightarrow> \<not> rank_less y x"
  by (auto simp: rank_less_def)

lemma rank_less_trans: "rank_less x y \<Longrightarrow> rank_less y z \<Longrightarrow> rank_less x z"
  by (auto simp: rank_less_def)

lemma compare_rank:
  "compare e f = (if e = f then 0 else if rank_less (endpoint_rank e) (endpoint_rank f) then -1 else 1)"
  by (cases e; cases f) (auto simp: compare_def addr_compare_def rank_less_def endpoint_rank_def
      addr_eq_iff word_unat_eq_iff word_less_nat_alt Let_def)

instantiation endpoint :: linorder
begin

definition less_eq_endpoint :: "endpoint \<Rightarrow> endpoint \<Rightarrow> bool" where
  "less_eq_endpoint e f \<longleftrightarrow> compare e f \<le> 0"

definition less_endpoint :: "endpoint \<Rightarrow> endpoint \<Rightarrow> bool" where
  "less_endpoint e f \<longleftrightarrow> compare e f < 0"

instance
proof
  fix x y z :: endpoint
  note defs = less_eq_endpoint_def less_endpoint_def compare_rank
  show "x < y \<longleftrightarrow> x \<le> y \<and> \<not> y \<le> x"
    using rank_less_asym rank_less_linear [of "endpoint_rank x" "endpoint_rank y"]
    by (auto simp: defs endpoint_rank_inj)
  show "x \<le> x" by (simp add: defs)
  show "x \<le> y \<Longrightarrow> y \<le> z \<Longrightarrow> x \<le> z"
    using rank_less_trans [of "endpoint_rank x" "endpoint_rank y" "endpoint_rank z"]
    by (auto simp: defs split: if_splits)
  show "x \<le> y \<Longrightarrow> y \<le> x \<Longrightarrow> x = y"
    using rank_less_asym [of "endpoint_rank x" "endpoint_rank y"] by (auto simp: defs split: if_splits)
  show "x \<le> y \<or> y \<le> x"
    using rank_less_linear [of "endpoint_rank x" "endpoint_rank y"]
    by (auto simp: defs endpoint_rank_inj)
qed

end

lemma Stream_min_max: "Stream f = \<lparr>skA = min (flSrc f) (flDst f), skB = max (flSrc f) (flDst f)\<rparr>"
  by (simp add: Stream_def min_def max_def less_eq_endpoint_def)

lemma Reverse_Reverse [simp]: "Reverse (Reverse f) = f"
  by (simp add: Reverse_def)

lemma Stream_Reverse [simp]: "Stream (Reverse f) = Stream f"
  by (simp add: Stream_min_max Reverse_def min.commute max.commute)

lemma Stream_ordered: "skA (Stream f) \<le> skB (Stream f)"
  by (auto simp: Stream_min_max min_def max_def)

lemma DirIndex_less_2: "DirIndex s f < 2"
  by (simp add: DirIndex_def)

lemma Flow_of_DirIndex: "Flow (Stream f) (DirIndex (Stream f) f) = f"
  by (cases f) (auto simp: Stream_min_max Flow_def DirIndex_def min_def max_def)

text \<open>Two packets belong to the same conversation exactly when they travel in the same or in
  opposite directions between the same two endpoints.\<close>

lemma Stream_eq_iff: "Stream f = Stream g \<longleftrightarrow> g = f \<or> g = Reverse f"
  by (cases f; cases g) (auto simp: Stream_min_max Reverse_def min_def max_def split: if_splits)

text \<open>The canonical key loses nothing: the direction index computed from a packet's flow leads
  back to that flow, and the opposite flow gets the other index unless a socket talks to itself.\<close>

lemma Flow_DirIndex:
  "Flow (Stream f) (DirIndex (Stream f) f) = f \<and>
   (flSrc f = flDst f \<or> DirIndex (Stream f) (Reverse f) = 1 - DirIndex (Stream f) f)"
  by (cases f) (auto simp: Stream_min_max Flow_def DirIndex_def Reverse_def min_def max_def)

end
