(* ===== verification/Pcapng.thy ===== *)
theory Pcapng
  imports Bytes_Prelude
begin

text \<open>
  The capture-file reader and writer, \<^verbatim>\<open>internal/evidence/pcapng\<close>: the format sniffer and the
  sticky-error \<^verbatim>\<open>Reader\<close> of \<^verbatim>\<open>reader.go\<close>, the block walker of \<^verbatim>\<open>block.go\<close>, the classic
  libpcap records of \<^verbatim>\<open>legacy.go\<close>, and the writer of \<^verbatim>\<open>write.go\<close>.

  The \<^verbatim>\<open>io.Reader\<close> behind a \<^verbatim>\<open>Reader\<close> is the list of bytes not yet consumed: a file that
  delivers its bytes and then ends. Errors the operating system could raise in the middle of a
  file are not modelled. A \<^verbatim>\<open>time.Time\<close> is its Unix seconds and nanoseconds.
\<close>

section \<open>Data\<close>

type_synonym gotime = "int \<times> nat"

text \<open>The zero \<^verbatim>\<open>time.Time\<close> is the start of year 1.\<close>

definition zero_time :: gotime where "zero_time = (-62135596800, 0)"

record packet =
  pkIndex :: nat
  pkTime :: gotime
  pkLinkType :: u16
  pkInterface :: nat
  pkOrigLen :: nat
  pkData :: bytes

definition packet_truncated :: "packet \<Rightarrow> bool" where
  "packet_truncated p \<longleftrightarrow> length (pkData p) < pkOrigLen p"

definition MaxBlockLen :: nat where "MaxBlockLen = 64 * 2 ^ 20"
definition MaxPacketLen :: nat where "MaxPacketLen = 16 * 2 ^ 20"

datatype byte_order = LittleEndian | BigEndian

definition bo_u16 :: "byte_order \<Rightarrow> bytes \<Rightarrow> u16" where
  "bo_u16 bo b = (case bo of LittleEndian \<Rightarrow> le_u16 b | BigEndian \<Rightarrow> be_u16 b)"

definition bo_u32 :: "byte_order \<Rightarrow> bytes \<Rightarrow> u32" where
  "bo_u32 bo b = (case bo of LittleEndian \<Rightarrow> le_u32 b | BigEndian \<Rightarrow> be_u32 b)"

text \<open>What a read was for (the \<^verbatim>\<open>what\<close> argument of \<^verbatim>\<open>Reader.read\<close>).\<close>

datatype read_what =
    BlockType | BlockLength | OrderMagic | BlockBody | BlockTrailer
  | RecordHeader | RecordData

datatype pcap_error =
    EOF
  | TruncatedRead read_what nat int
  | RefusedRead int read_what
  | EndsInsideBlock
  | TooShortToBeCapture nat
  | ShortPcapHeader nat
  | UnknownMagic u32
  | BadPcapVersion u16 u16
  | FirstBlockNotSHB bytes
  | BadOrderMagic bytes
  | ImpossibleLength bytes nat
  | BlockOverLimit bytes nat
  | TrailerMismatch bytes nat nat
  | SHBShort nat
  | BadNgVersion u16 u16
  | IDBShort nat
  | OptionTail nat
  | OptionOverrun u16 nat nat
  | TsResolSize nat
  | TsResolBase2 byte
  | TsResolBase10 byte
  | TooManyInterfaces
  | EPBShort nat
  | EPBInterface nat nat
  | EPBCapLen nat
  | EPBOverrun nat nat
  | ZeroResolution
  | TimestampRange u64 u64
  | SPBShort nat
  | SPBNoInterface
  | SPBOrigLen nat
  | SPBOverrun nat nat
  | RecordOverLimit nat
  | RecordOverSnapLen nat u32
  | RecordDataMissing nat
  | RecordFraction u64 u64

section \<open>Reading bytes\<close>

definition read :: "bytes \<Rightarrow> int \<Rightarrow> read_what \<Rightarrow> (pcap_error + bytes) \<times> bytes" where
  "read src n what =
    (if n = 0 then (Inr [], src)
     else if n < 0 \<or> n > int MaxBlockLen then (Inl (RefusedRead n what), src)
     else if n \<le> int (length src) then (Inr (take (nat n) src), drop (nat n) src)
     else if src = [] then (Inl EOF, src)
     else (Inl (TruncatedRead what (length src) n), []))"

definition unexpected :: "pcap_error \<Rightarrow> pcap_error" where
  "unexpected e = (if e = EOF then EndsInsideBlock else e)"

definition align4 :: "nat \<Rightarrow> nat" where
  "align4 n = (n + 3) - (n + 3) mod 4"

text \<open>The 128-bit multiply and divide of \<^verbatim>\<open>timestampFrom\<close> are exact, so they are written on
  \<open>nat\<close>.\<close>

definition timestampFrom :: "u64 \<Rightarrow> u64 \<Rightarrow> pcap_error + gotime" where
  "timestampFrom ticks perSecond =
    (if perSecond = 0 then Inl ZeroResolution
     else
       let sec = unat ticks div unat perSecond;
           frac = unat ticks mod unat perSecond;
           nsec = frac * 1000000000 div unat perSecond
       in if sec > 2 ^ 40 then Inl (TimestampRange ticks perSecond)
          else Inr (int sec, nsec))"

section \<open>Classic libpcap records\<close>

record pcState =
  pcBo :: byte_order
  pcNano :: bool
  pcSnapLen :: u32
  pcLinkType :: u16
  pcMajor :: u16
  pcMinor :: u16
  pcFcsExtras :: u32

definition pcapMagicMicro :: u32 where "pcapMagicMicro = 0xA1B2C3D4"
definition pcapMagicMicroSwapped :: u32 where "pcapMagicMicroSwapped = 0xD4C3B2A1"
definition pcapMagicNano :: u32 where "pcapMagicNano = 0xA1B23C4D"
definition pcapMagicNanoSwapped :: u32 where "pcapMagicNanoSwapped = 0x4D3CB2A1"

lemmas pcap_magics = pcapMagicMicro_def pcapMagicMicroSwapped_def pcapMagicNano_def
  pcapMagicNanoSwapped_def

definition pcapFileHeaderLen :: nat where "pcapFileHeaderLen = 24"
definition pcapRecordHeaderLen :: nat where "pcapRecordHeaderLen = 16"

definition readPcapHeader :: "bytes \<Rightarrow> (pcap_error + pcState) \<times> bytes" where
  "readPcapHeader src =
    (if length src < pcapFileHeaderLen then (Inl (ShortPcapHeader (length src)), [])
     else
       let hdr = take pcapFileHeaderLen src;
           rest = drop pcapFileHeaderLen src;
           be = be_u32 (subslice hdr 0 4)
       in case (if be = pcapMagicMicro then Some (BigEndian, False)
                else if be = pcapMagicMicroSwapped then Some (LittleEndian, False)
                else if be = pcapMagicNano then Some (BigEndian, True)
                else if be = pcapMagicNanoSwapped then Some (LittleEndian, True)
                else None) of
            None \<Rightarrow> (Inl (UnknownMagic be), rest)
          | Some (bo, nano) \<Rightarrow>
              let major = bo_u16 bo (subslice hdr 4 6);
                  minor = bo_u16 bo (subslice hdr 6 8);
                  network = bo_u32 bo (subslice hdr 20 24)
              in if major \<noteq> 2 then (Inl (BadPcapVersion major minor), rest)
                 else (Inr \<lparr>pcBo = bo, pcNano = nano, pcSnapLen = bo_u32 bo (subslice hdr 16 20),
                            pcLinkType = ucast (network AND 0xFFFF), pcMajor = major,
                            pcMinor = minor, pcFcsExtras = drop_bit 16 network\<rparr>, rest))"

definition nextPcap :: "pcState \<Rightarrow> bytes \<Rightarrow> (pcap_error + packet) \<times> bytes" where
  "nextPcap st src =
    (case read src (int pcapRecordHeaderLen) RecordHeader of
       (Inl e, src1) \<Rightarrow> (Inl e, src1)
     | (Inr hdr, src1) \<Rightarrow>
         let tsSec = unat (bo_u32 (pcBo st) (subslice hdr 0 4));
             tsFrac = unat (bo_u32 (pcBo st) (subslice hdr 4 8));
             inclLen = unat (bo_u32 (pcBo st) (subslice hdr 8 12));
             origLen0 = unat (bo_u32 (pcBo st) (subslice hdr 12 16))
         in if inclLen > MaxPacketLen then (Inl (RecordOverLimit inclLen), src1)
            else if pcSnapLen st > 0 \<and> inclLen > unat (pcSnapLen st) then
              (Inl (RecordOverSnapLen inclLen (pcSnapLen st)), src1)
            else
              let origLen = (if origLen0 < inclLen then inclLen else origLen0)
              in case read src1 (int inclLen) RecordData of
                   (Inl e, src2) \<Rightarrow>
                     (Inl (if e = EOF then RecordDataMissing inclLen else e), src2)
                 | (Inr data, src2) \<Rightarrow>
                     let perSecond = (if pcNano st then 1000000000 else 1000000)
                     in if tsFrac \<ge> perSecond then
                          (Inl (RecordFraction (word_of_nat tsFrac) (word_of_nat perSecond)), src2)
                        else
                          (Inr \<lparr>pkIndex = 0,
                                pkTime = (int tsSec, tsFrac * (1000000000 div perSecond)),
                                pkLinkType = pcLinkType st, pkInterface = 0,
                                pkOrigLen = origLen, pkData = data\<rparr>, src2))"

section \<open>pcapng blocks\<close>

definition blockSectionHeader :: u32 where "blockSectionHeader = 0x0A0D0D0A"
definition blockInterfaceDesc :: u32 where "blockInterfaceDesc = 0x00000001"
definition blockSimplePacket :: u32 where "blockSimplePacket = 0x00000003"
definition blockEnhancedPacket :: u32 where "blockEnhancedPacket = 0x00000006"
definition byteOrderMagic :: u32 where "byteOrderMagic = 0x1A2B3C4D"
definition optEndOfOpt :: u16 where "optEndOfOpt = 0"
definition optIfName :: u16 where "optIfName = 2"
definition optIfTsResol :: u16 where "optIfTsResol = 9"

record ngInterface =
  ifLinkType :: u16
  ifSnapLen :: u32
  ifName :: bytes
  ifPerSecond :: u64

record ngState =
  ngBo :: "byte_order option"
  ngMajor :: u16
  ngMinor :: u16
  ngInterfaces :: "ngInterface list"

definition empty_ngState :: ngState where
  "empty_ngState = \<lparr>ngBo = None, ngMajor = 0, ngMinor = 0, ngInterfaces = []\<rparr>"

function parseOptions ::
  "byte_order \<Rightarrow> bytes \<Rightarrow> (u16 \<times> bytes) list \<Rightarrow> pcap_error + (u16 \<times> bytes) list" where
  "parseOptions bo b out =
    (if b = [] then Inr out
     else if length b < 4 then Inl (OptionTail (length b))
     else
       let code = bo_u16 bo (subslice b 0 2);
           len = unat (bo_u16 bo (subslice b 2 4))
       in if code = optEndOfOpt \<and> len = 0 then Inr out
          else if 4 + align4 len > length b then Inl (OptionOverrun code len (length b - 4))
          else parseOptions bo (drop (4 + align4 len) b)
                 (out @ [(code, subslice b 4 (4 + len))]))"
  by pat_completeness auto
termination
  by (relation "measure (\<lambda>(bo, b, out). length b)") auto

declare parseOptions.simps [simp del]

definition tsResolution :: "byte \<Rightarrow> pcap_error + u64" where
  "tsResolution v =
    (let exp = v AND 0x7F
     in if v AND 0x80 \<noteq> 0 then
          (if exp > 63 then Inl (TsResolBase2 exp) else Inr (push_bit (unat exp) 1))
        else if exp > 19 then Inl (TsResolBase10 exp)
        else Inr (10 ^ unat exp))"

definition readSHB :: "ngState \<Rightarrow> byte_order \<Rightarrow> bytes \<Rightarrow> pcap_error option \<times> ngState" where
  "readSHB s bo body =
    (if length body < 16 then (Some (SHBShort (length body)), s)
     else
       let s1 = s\<lparr>ngBo := Some bo, ngMajor := bo_u16 bo (subslice body 4 6),
                  ngMinor := bo_u16 bo (subslice body 6 8)\<rparr>
       in if ngMajor s1 \<noteq> 1 then (Some (BadNgVersion (ngMajor s1) (ngMinor s1)), s1)
          else (None, s1\<lparr>ngInterfaces := []\<rparr>))"

text \<open>The option loop of \<^verbatim>\<open>readIDB\<close>.\<close>

fun apply_if_options :: "ngInterface \<Rightarrow> (u16 \<times> bytes) list \<Rightarrow> pcap_error + ngInterface" where
  "apply_if_options iface [] = Inr iface"
| "apply_if_options iface ((code, value) # os) =
    (if code = optIfTsResol then
       (if length value \<noteq> 1 then Inl (TsResolSize (length value))
        else case tsResolution (value ! 0) of
               Inl e \<Rightarrow> Inl e
             | Inr per \<Rightarrow> apply_if_options (iface\<lparr>ifPerSecond := per\<rparr>) os)
     else if code = optIfName then apply_if_options (iface\<lparr>ifName := value\<rparr>) os
     else apply_if_options iface os)"

definition readIDB :: "ngState \<Rightarrow> byte_order \<Rightarrow> bytes \<Rightarrow> pcap_error option \<times> ngState" where
  "readIDB s bo body =
    (if length body < 8 then (Some (IDBShort (length body)), s)
     else
       let iface = \<lparr>ifLinkType = bo_u16 bo (subslice body 0 2),
                    ifSnapLen = bo_u32 bo (subslice body 4 8),
                    ifName = [], ifPerSecond = 1000000\<rparr>
       in case parseOptions bo (drop 8 body) [] of
            Inl e \<Rightarrow> (Some e, s)
          | Inr opts \<Rightarrow>
              (case apply_if_options iface opts of
                 Inl e \<Rightarrow> (Some e, s)
               | Inr iface' \<Rightarrow>
                   if length (ngInterfaces s) \<ge> 2 ^ 16 then (Some TooManyInterfaces, s)
                   else (None, s\<lparr>ngInterfaces := ngInterfaces s @ [iface']\<rparr>)))"

definition readEPB :: "ngState \<Rightarrow> byte_order \<Rightarrow> bytes \<Rightarrow> pcap_error + packet" where
  "readEPB s bo body =
    (if length body < 20 then Inl (EPBShort (length body))
     else
       let ifaceID = unat (bo_u32 bo (subslice body 0 4))
       in if ifaceID \<ge> length (ngInterfaces s) then
            Inl (EPBInterface ifaceID (length (ngInterfaces s)))
          else
            let iface = ngInterfaces s ! ifaceID;
                ticks = push_bit 32 (ucast (bo_u32 bo (subslice body 4 8)))
                          OR ucast (bo_u32 bo (subslice body 8 12));
                capLen = unat (bo_u32 bo (subslice body 12 16));
                origLen = unat (bo_u32 bo (subslice body 16 20))
            in if capLen > MaxPacketLen then Inl (EPBCapLen capLen)
               else if 20 + capLen > length body then Inl (EPBOverrun capLen (length body - 20))
               else case timestampFrom ticks (ifPerSecond iface) of
                      Inl e \<Rightarrow> Inl e
                    | Inr ts \<Rightarrow>
                        Inr \<lparr>pkIndex = 0, pkTime = ts, pkLinkType = ifLinkType iface,
                             pkInterface = ifaceID,
                             pkOrigLen = (if origLen < capLen then capLen else origLen),
                             pkData = subslice body 20 (20 + capLen)\<rparr>)"

definition readSPB :: "ngState \<Rightarrow> byte_order \<Rightarrow> bytes \<Rightarrow> pcap_error + packet" where
  "readSPB s bo body =
    (if length body < 4 then Inl (SPBShort (length body))
     else if ngInterfaces s = [] then Inl SPBNoInterface
     else
       let iface = ngInterfaces s ! 0;
           origLen = unat (bo_u32 bo (subslice body 0 4))
       in if origLen > MaxPacketLen then Inl (SPBOrigLen origLen)
          else
            let capLen = (if ifSnapLen iface > 0 \<and> origLen > unat (ifSnapLen iface)
                          then unat (ifSnapLen iface) else origLen)
            in if 4 + capLen > length body then Inl (SPBOverrun capLen (length body - 4))
               else Inr \<lparr>pkIndex = 0, pkTime = zero_time, pkLinkType = ifLinkType iface,
                         pkInterface = 0, pkOrigLen = origLen,
                         pkData = subslice body 4 (4 + capLen)\<rparr>)"

text \<open>One turn of the block loop of \<^verbatim>\<open>nextNG\<close> either ends the call or asks for another turn.\<close>

datatype ng_outcome = Stop "pcap_error + packet" bytes ngState | Again bytes ngState

text \<open>The part of a turn after the byte order is settled; \<^verbatim>\<open>head\<close> is the byte-order magic a
  Section Header Block has already given up.\<close>

definition ng_block ::
  "ngState \<Rightarrow> bytes \<Rightarrow> bool \<Rightarrow> byte_order \<Rightarrow> bytes \<Rightarrow> bytes \<Rightarrow> bytes \<Rightarrow> ng_outcome" where
  "ng_block s raw isSHB bo head lenRaw src =
    (let total = unat (bo_u32 bo lenRaw)
     in if total < 12 \<or> total mod 4 \<noteq> 0 then Stop (Inl (ImpossibleLength raw total)) src s
        else if total > MaxBlockLen then Stop (Inl (BlockOverLimit raw total)) src s
        else case read src (int total - 12 - int (length head)) BlockBody of
          (Inl e, src1) \<Rightarrow> Stop (Inl (unexpected e)) src1 s
        | (Inr body0, src1) \<Rightarrow>
            (case read src1 4 BlockTrailer of
               (Inl e, src2) \<Rightarrow> Stop (Inl (unexpected e)) src2 s
             | (Inr trailer, src2) \<Rightarrow>
                 let body = head @ body0;
                     got = unat (bo_u32 bo trailer);
                     btype = (if isSHB then blockSectionHeader else bo_u32 bo raw)
                 in if got \<noteq> total then Stop (Inl (TrailerMismatch raw got total)) src2 s
                    else if btype = blockSectionHeader then
                      (case readSHB s bo body of
                         (Some e, s') \<Rightarrow> Stop (Inl e) src2 s'
                       | (None, s') \<Rightarrow> Again src2 s')
                    else if btype = blockInterfaceDesc then
                      (case readIDB s bo body of
                         (Some e, s') \<Rightarrow> Stop (Inl e) src2 s'
                       | (None, s') \<Rightarrow> Again src2 s')
                    else if btype = blockEnhancedPacket then Stop (readEPB s bo body) src2 s
                    else if btype = blockSimplePacket then Stop (readSPB s bo body) src2 s
                    else Again src2 s))"

definition ng_step :: "ngState \<Rightarrow> bytes \<Rightarrow> ng_outcome" where
  "ng_step s src =
    (case read src 4 BlockType of
       (Inl e, src1) \<Rightarrow> Stop (Inl e) src1 s
     | (Inr raw, src1) \<Rightarrow>
         if raw = [0x0A, 0x0D, 0x0D, 0x0A] then
           (case read src1 4 BlockLength of
              (Inl e, src2) \<Rightarrow> Stop (Inl (unexpected e)) src2 s
            | (Inr lenRaw, src2) \<Rightarrow>
                (case read src2 4 OrderMagic of
                   (Inl e, src3) \<Rightarrow> Stop (Inl (unexpected e)) src3 s
                 | (Inr head, src3) \<Rightarrow>
                     if le_u32 head = byteOrderMagic then
                       ng_block s raw True LittleEndian head lenRaw src3
                     else if be_u32 head = byteOrderMagic then
                       ng_block s raw True BigEndian head lenRaw src3
                     else Stop (Inl (BadOrderMagic head)) src3 s))
         else
           (case ngBo s of
              None \<Rightarrow> Stop (Inl (FirstBlockNotSHB raw)) src1 s
            | Some bo \<Rightarrow>
                (case read src1 4 BlockLength of
                   (Inl e, src2) \<Rightarrow> Stop (Inl (unexpected e)) src2 s
                 | (Inr lenRaw, src2) \<Rightarrow> ng_block s raw False bo [] lenRaw src2)))"

lemma read_src: "read src n w = (r, src') \<Longrightarrow> length src' \<le> length src"
  by (auto simp: read_def split: if_splits)

lemma read_Inr:
  assumes "read src n w = (Inr b, src')"
  shows "src = b @ src'" "int (length b) = n" "n \<le> int MaxBlockLen"
  using assms by (auto simp: read_def split: if_splits)

lemma read_Inr_shrinks: "read src n w = (Inr b, src') \<Longrightarrow> 0 < n \<Longrightarrow> length src' < length src"
  using read_Inr [of src n w b src'] by auto

lemma ng_block_src:
  "ng_block s raw isSHB bo head lenRaw src = Again src' s' \<Longrightarrow> length src' \<le> length src"
  "ng_block s raw isSHB bo head lenRaw src = Stop r src' s' \<Longrightarrow> length src' \<le> length src"
  by (auto simp: ng_block_def Let_def split: if_splits prod.splits sum.splits option.splits
      dest!: read_src)

lemma ng_step_src:
  "ng_step s src = Again src' s' \<Longrightarrow> length src' < length src"
  "ng_step s src = Stop (Inr p) src' s' \<Longrightarrow> length src' < length src"
  by (fastforce simp: ng_step_def split: if_splits prod.splits sum.splits option.splits
      dest: read_Inr_shrinks read_src ng_block_src)+

function nextNG :: "ngState \<Rightarrow> bytes \<Rightarrow> (pcap_error + packet) \<times> bytes \<times> ngState" where
  "nextNG s src =
    (case ng_step s src of
       Stop r src' s' \<Rightarrow> (r, src', s')
     | Again src' s' \<Rightarrow> nextNG s' src')"
  by pat_completeness auto
termination
  by (relation "measure (\<lambda>(s, src). length src)") (auto dest: ng_step_src)

declare nextNG.simps [simp del]

section \<open>The reader\<close>

text \<open>The detected format and the state that goes with it.\<close>

datatype format_state = FormatPcapng ngState | FormatPcap pcState

record reader =
  rdSrc :: bytes
  rdFormat :: format_state
  rdIndex :: nat
  rdSticky :: "pcap_error option"

definition NewReader :: "bytes \<Rightarrow> pcap_error + reader" where
  "NewReader src =
    (if length src < 4 then Inl (TooShortToBeCapture (length src))
     else if take 4 src = [0x0A, 0x0D, 0x0D, 0x0A] then
       Inr \<lparr>rdSrc = src, rdFormat = FormatPcapng empty_ngState, rdIndex = 0, rdSticky = None\<rparr>
     else
       case readPcapHeader src of
         (Inl e, rest) \<Rightarrow> Inl e
       | (Inr st, rest) \<Rightarrow>
           Inr \<lparr>rdSrc = rest, rdFormat = FormatPcap st, rdIndex = 0, rdSticky = None\<rparr>)"

text \<open>\<^verbatim>\<open>Next\<close>: the format's own reader, then the latch on the first error and the running index.\<close>

definition read_one :: "format_state \<Rightarrow> bytes \<Rightarrow> (pcap_error + packet) \<times> bytes \<times> format_state" where
  "read_one fmt src =
    (case fmt of
       FormatPcapng s \<Rightarrow> (case nextNG s src of (r, src', s') \<Rightarrow> (r, src', FormatPcapng s'))
     | FormatPcap st \<Rightarrow> (case nextPcap st src of (r, src') \<Rightarrow> (r, src', FormatPcap st)))"

definition Next :: "reader \<Rightarrow> (pcap_error + packet) \<times> reader" where
  "Next r =
    (case rdSticky r of
       Some e \<Rightarrow> (Inl e, r)
     | None \<Rightarrow>
         (case read_one (rdFormat r) (rdSrc r) of
            (Inl e, src', fmt') \<Rightarrow> (Inl e, r\<lparr>rdSrc := src', rdFormat := fmt', rdSticky := Some e\<rparr>)
          | (Inr p, src', fmt') \<Rightarrow>
              (Inr (p\<lparr>pkIndex := rdIndex r + 1\<rparr>),
               r\<lparr>rdSrc := src', rdFormat := fmt', rdIndex := rdIndex r + 1\<rparr>)))"

lemma nextNG_src: "nextNG s src = (Inr p, src', s') \<Longrightarrow> length src' < length src"
proof (induction s src rule: nextNG.induct)
  case (1 s src)
  then show ?case
    by (cases "ng_step s src") (fastforce simp: nextNG.simps [of s src] dest: ng_step_src)+
qed

lemma nextPcap_src:
  assumes "nextPcap st src = (Inr p, src')"
  shows "length src' < length src"
proof -
  obtain r1 src1 where r1: "read src (int pcapRecordHeaderLen) RecordHeader = (r1, src1)"
    by fastforce
  with assms obtain hdr where hdr: "r1 = Inr hdr" by (cases r1) (auto simp: nextPcap_def)
  let ?n = "int (unat (bo_u32 (pcBo st) (subslice hdr 8 12)))"
  obtain r2 src2 where r2: "read src1 ?n RecordData = (r2, src2)" by fastforce
  have "src' = src2"
    using assms r1 hdr r2 by (auto simp: nextPcap_def Let_def split: if_splits sum.splits)
  moreover have "length src1 < length src"
    using read_Inr_shrinks [of src "int pcapRecordHeaderLen" RecordHeader hdr src1] r1 hdr
    by (simp add: pcapRecordHeaderLen_def)
  ultimately show ?thesis using read_src [OF r2] by simp
qed

lemma read_one_src: "read_one fmt src = (Inr p, src', fmt') \<Longrightarrow> length src' < length src"
  by (cases fmt) (auto simp: read_one_def split: prod.splits dest: nextNG_src nextPcap_src)

lemma Next_Inr:
  assumes "Next r = (Inr p, r')"
  obtains q src' fmt' where "rdSticky r = None"
    "read_one (rdFormat r) (rdSrc r) = (Inr q, src', fmt')"
    "p = q\<lparr>pkIndex := rdIndex r + 1\<rparr>"
    "r' = r\<lparr>rdSrc := src', rdFormat := fmt', rdIndex := rdIndex r + 1\<rparr>"
proof -
  have st: "rdSticky r = None" using assms by (cases "rdSticky r") (auto simp: Next_def)
  obtain x src' fmt' where ro: "read_one (rdFormat r) (rdSrc r) = (x, src', fmt')"
    by (cases "read_one (rdFormat r) (rdSrc r)") auto
  show thesis
    using assms st ro that by (cases x) (auto simp: Next_def)
qed

lemma Next_src: "Next r = (Inr p, r') \<Longrightarrow> length (rdSrc r') < length (rdSrc r)"
  by (erule Next_Inr) (simp add: read_one_src)

function read_all_loop :: "reader \<Rightarrow> packet list \<Rightarrow> packet list \<times> pcap_error option" where
  "read_all_loop r out =
    (case Next r of
       (Inl e, r') \<Rightarrow> (out, if e = EOF then None else Some e)
     | (Inr p, r') \<Rightarrow> read_all_loop r' (out @ [p]))"
  by pat_completeness auto
termination
  by (relation "measure (\<lambda>(r, out). length (rdSrc r))") (auto intro: Next_src [OF sym])

declare read_all_loop.simps [simp del]

definition ReadAll :: "reader \<Rightarrow> packet list \<times> pcap_error option" where
  "ReadAll r = read_all_loop r []"

section \<open>The writer\<close>

definition magicMicro :: u32 where "magicMicro = 0xA1B2C3D4"

fun snap_loop :: "u32 \<Rightarrow> packet list \<Rightarrow> u32" where
  "snap_loop m [] = m"
| "snap_loop m (p # ps) =
    (let n = word_of_nat (length (pkData p)) in snap_loop (if n > m then n else m) ps)"

definition SnapLen :: "packet list \<Rightarrow> u32" where
  "SnapLen pkts = (let m = snap_loop 0 pkts in if m = 0 then 65535 else m)"

datatype write_error = LinkTypeMismatch nat u16 u16

text \<open>The bytes written, and the error that stopped the writing, if any.\<close>

fun write_records :: "u16 \<Rightarrow> packet list \<Rightarrow> bytes \<times> write_error option" where
  "write_records linkType [] = ([], None)"
| "write_records linkType (p # ps) =
    (if pkLinkType p \<noteq> linkType then
       ([], Some (LinkTypeMismatch (pkIndex p) (pkLinkType p) linkType))
     else
       let rec = put_le32 (word_of_int (fst (pkTime p)))
                   @ put_le32 (word_of_nat (snd (pkTime p) div 1000))
                   @ put_le32 (word_of_nat (length (pkData p)))
                   @ put_le32 (word_of_nat (pkOrigLen p));
           (out, err) = write_records linkType ps
       in (rec @ pkData p @ out, err))"

definition WriteLegacy :: "u16 \<Rightarrow> packet list \<Rightarrow> bytes \<times> write_error option" where
  "WriteLegacy linkType pkts =
    (let hdr = put_le32 magicMicro @ put_le16 2 @ put_le16 4 @ replicate 8 0
                 @ put_le32 (SnapLen pkts) @ put_le32 (ucast linkType);
         (out, err) = write_records linkType pkts
     in (hdr @ out, err))"

section \<open>Where packets come from\<close>

text \<open>What holds of a packet read from \<^verbatim>\<open>src\<close>: its bytes lie contiguously in the file, there are no
  more of them than the frame had on the wire, and never more than the limit.\<close>

definition packet_from :: "bytes \<Rightarrow> packet \<Rightarrow> bool" where
  "packet_from src p \<longleftrightarrow> sublist (pkData p) src \<and> length (pkData p) \<le> pkOrigLen p
     \<and> length (pkData p) \<le> MaxPacketLen"

lemma packet_from_mono: "packet_from src p \<Longrightarrow> sublist src src' \<Longrightarrow> packet_from src' p"
  unfolding packet_from_def using sublist_order.order_trans by blast

lemma sublist_subslice: "sublist (subslice b i j) b"
  unfolding subslice_def using sublist_drop sublist_take sublist_order.order_trans by blast

lemma read_suffix: "read src n w = (r, src') \<Longrightarrow> suffix src' src"
  by (auto simp: read_def suffix_drop split: if_splits)

lemma ng_block_Again_suffix:
  "ng_block s raw isSHB bo head lenRaw src = Again src' s' \<Longrightarrow> suffix src' src"
  by (auto simp: ng_block_def Let_def split: if_splits prod.splits sum.splits option.splits
      dest!: read_suffix intro: suffix_order.trans)

lemma readEPB_from: "readEPB s bo body = Inr p \<Longrightarrow> packet_from body p"
  by (auto simp: readEPB_def Let_def packet_from_def sublist_subslice
      split: if_splits sum.splits)

lemma readSPB_from: "readSPB s bo body = Inr p \<Longrightarrow> packet_from body p"
  by (auto simp: readSPB_def Let_def packet_from_def sublist_subslice split: if_splits)

lemma ng_block_packet:
  assumes "ng_block s raw isSHB bo head lenRaw src = Stop (Inr p) src' s'"
    and "isSHB \<or> head = []"
  shows "packet_from src p \<and> suffix src' src"
proof -
  let ?total = "unat (bo_u32 bo lenRaw)"
  obtain r1 src1 where r1: "read src (int ?total - 12 - int (length head)) BlockBody = (r1, src1)"
    by fastforce
  from assms r1 obtain body0 where body0: "r1 = Inr body0"
    by (cases r1) (auto simp: ng_block_def Let_def split: if_splits)
  obtain r2 src2 where r2: "read src1 4 BlockTrailer = (r2, src2)" by fastforce
  from assms r1 body0 r2 have "(readEPB s bo (head @ body0) = Inr p \<or> readSPB s bo (head @ body0) = Inr p)
      \<and> \<not> isSHB \<and> src' = src2"
    by (auto simp: ng_block_def Let_def split: if_splits sum.splits prod.splits option.splits)
  then have "packet_from body0 p" "src' = src2"
    using assms(2) readEPB_from readSPB_from by force+
  moreover have "src = body0 @ src1" using read_Inr(1) r1 body0 by blast
  ultimately show ?thesis
    using read_suffix [OF r2] by (auto intro: packet_from_mono suffix_appendI)
qed

text \<open>Every turn either fails while reading the block's own framing or is the block's turn.\<close>

lemma ng_step_via_block:
  obtains
    (Fail) e srcx where "ng_step s src = Stop (Inl e) srcx s"
  | (Block) raw isSHB bo head lenRaw srcx where
      "ng_step s src = ng_block s raw isSHB bo head lenRaw srcx" "isSHB \<or> head = []"
      "suffix srcx src"
proof -
  obtain r1 src1 where r1: "read src 4 BlockType = (r1, src1)" by fastforce
  obtain r2 src2 where r2: "read src1 4 BlockLength = (r2, src2)" by fastforce
  obtain r3 src3 where r3: "read src2 4 OrderMagic = (r3, src3)" by fastforce
  have suf: "suffix src2 src" "suffix src3 src"
    using read_suffix r1 r2 r3 suffix_order.trans by blast+
  show thesis
    using r1 r2 r3 suf
    by (cases r1; cases r2; cases r3; cases "ngBo s"; cases "r1 = Inr [0x0A, 0x0D, 0x0D, 0x0A]";
        cases "\<exists>h. r3 = Inr h \<and> le_u32 h = byteOrderMagic";
        cases "\<exists>h. r3 = Inr h \<and> be_u32 h = byteOrderMagic")
       (auto simp: ng_step_def intro: Fail Block)
qed

lemma ng_step_packet:
  assumes "ng_step s src = Stop (Inr p) src' s'"
  shows "packet_from src p \<and> suffix src' src"
proof (cases rule: ng_step_via_block [of s src])
  case (Block raw isSHB bo head lenRaw srcx)
  with assms have "packet_from srcx p \<and> suffix src' srcx" using ng_block_packet by metis
  with Block show ?thesis
    using packet_from_mono suffix_imp_sublist suffix_order.trans by blast
qed (use assms in simp)

lemma ng_step_Again_suffix:
  assumes "ng_step s src = Again src' s'"
  shows "suffix src' src"
proof (cases rule: ng_step_via_block [of s src])
  case (Block raw isSHB bo head lenRaw srcx)
  with assms have "suffix src' srcx" using ng_block_Again_suffix by metis
  with Block show ?thesis using suffix_order.trans by blast
qed (use assms in simp)

lemma nextNG_packet: "nextNG s src = (Inr p, src', s') \<Longrightarrow> packet_from src p \<and> suffix src' src"
proof (induction s src rule: nextNG.induct)
  case (1 s src)
  show ?case
  proof (cases "ng_step s src")
    case (Stop r x y)
    with "1.prems" show ?thesis
      using ng_step_packet by (auto simp: nextNG.simps [of s src])
  next
    case (Again srcx sx)
    with "1.prems" have "packet_from srcx p \<and> suffix src' srcx"
      by (intro "1.IH" [of srcx sx]) (auto simp: nextNG.simps [of s src])
    with ng_step_Again_suffix [OF Again] show ?thesis
      using packet_from_mono suffix_imp_sublist suffix_order.trans by blast
  qed
qed

lemma nextPcap_packet:
  assumes "nextPcap st src = (Inr p, src')"
  shows "packet_from src p \<and> suffix src' src"
proof -
  obtain r1 src1 where r1: "read src (int pcapRecordHeaderLen) RecordHeader = (r1, src1)"
    by fastforce
  with assms obtain hdr where hdr: "r1 = Inr hdr" by (cases r1) (auto simp: nextPcap_def)
  let ?n = "unat (bo_u32 (pcBo st) (subslice hdr 8 12))"
  obtain r2 src2 where r2: "read src1 (int ?n) RecordData = (r2, src2)" by fastforce
  with assms r1 hdr obtain data where data: "r2 = Inr data"
    by (cases r2) (auto simp: nextPcap_def Let_def split: if_splits)
  have p: "pkData p = data" "?n \<le> pkOrigLen p" "?n \<le> MaxPacketLen" "src' = src2"
    using assms r1 hdr r2 data by (auto simp: nextPcap_def Let_def split: if_splits)
  have "suffix src1 src" "suffix src2 src1" using read_suffix r1 r2 by blast+
  moreover have "sublist data src1" "length data = ?n"
  proof -
    have rd: "read src1 (int ?n) RecordData = (Inr data, src2)" using r2 data by simp
    show "sublist data src1" using read_Inr(1) [OF rd] by simp
    show "length data = ?n" using read_Inr(2) [OF rd] by (simp only: of_nat_eq_iff)
  qed
  ultimately show ?thesis
    unfolding packet_from_def p(1)
    using p(2,3,4) suffix_imp_sublist sublist_order.order_trans suffix_order.trans by metis
qed

lemma read_one_packet:
  "read_one fmt src = (Inr p, src', fmt') \<Longrightarrow> packet_from src p \<and> suffix src' src"
  by (cases fmt) (auto simp: read_one_def split: prod.splits dest: nextNG_packet nextPcap_packet)

lemma read_all_loop_acc:
  "read_all_loop r out = (out @ fst (read_all_loop r []), snd (read_all_loop r []))"
proof (induction "length (rdSrc r)" arbitrary: r out rule: less_induct)
  case less
  obtain x r' where nx: "Next r = (x, r')" by fastforce
  show ?case
  proof (cases x)
    case (Inl e)
    with nx show ?thesis by (simp add: read_all_loop.simps [of r])
  next
    case (Inr p)
    note IH = less [OF Next_src [of r p r']]
    show ?thesis
      using nx Inr IH [of "out @ [p]"] IH [of "[p]"] by (simp add: read_all_loop.simps [of r])
  qed
qed

lemma read_all_Inr:
  "Next r = (Inr p, r') \<Longrightarrow> read_all_loop r [] =
    (p # fst (read_all_loop r' []), snd (read_all_loop r' []))"
  using read_all_loop_acc [of r' "[p]"] by (simp add: read_all_loop.simps [of r])

lemma read_all_Inl:
  "Next r = (Inl e, r') \<Longrightarrow> read_all_loop r [] = ([], if e = EOF then None else Some e)"
  by (simp add: read_all_loop.simps [of r])

lemma read_all_packets:
  assumes "read_all_loop r [] = (ps, e)"
  shows "map pkIndex ps = [rdIndex r + 1..<rdIndex r + 1 + length ps] \<and>
    (\<forall>p \<in> set ps. packet_from (rdSrc r) p)"
  using assms
proof (induction "length (rdSrc r)" arbitrary: r ps e rule: less_induct)
  case less
  obtain x r' where nx: "Next r = (x, r')" by fastforce
  show ?case
  proof (cases x)
    case (Inl e)
    with nx less.prems show ?thesis by (simp add: read_all_Inl)
  next
    case (Inr p)
    from Next_Inr [of r p r'] nx Inr obtain q src' fmt' where
      q: "read_one (rdFormat r) (rdSrc r) = (Inr q, src', fmt')"
        "p = q\<lparr>pkIndex := rdIndex r + 1\<rparr>"
        "r' = r\<lparr>rdSrc := src', rdFormat := fmt', rdIndex := rdIndex r + 1\<rparr>" by metis
    obtain qs e' where rest: "read_all_loop r' [] = (qs, e')" by fastforce
    with less.prems nx Inr have ps: "ps = p # qs" by (simp add: read_all_Inr)
    have "length (rdSrc r') < length (rdSrc r)" using nx Inr by (simp add: Next_src)
    note IH = less.hyps [OF this rest]
    have src: "packet_from (rdSrc r) p" "suffix src' (rdSrc r)"
      using read_one_packet [OF q(1)] q(2) by (auto simp: packet_from_def)
    have "packet_from (rdSrc r) x" if "x \<in> set qs" for x
      using IH src(2) that q(3) packet_from_mono suffix_imp_sublist by fastforce
    with IH ps src q show ?thesis by (simp add: upt_conv_Cons del: upt_Suc)
  qed
qed

section \<open>Reading back what was written\<close>

text \<open>A packet the writer can represent: right link type, a second count that fits 32 unsigned bits,
  a valid nanosecond field, no more captured bytes than original length, both within limits.\<close>

definition writable :: "u16 \<Rightarrow> packet \<Rightarrow> bool" where
  "writable lt p \<longleftrightarrow> pkLinkType p = lt \<and> 0 \<le> fst (pkTime p) \<and> fst (pkTime p) < 2 ^ 32
     \<and> snd (pkTime p) < 1000000000 \<and> length (pkData p) \<le> pkOrigLen p \<and> pkOrigLen p < 2 ^ 32
     \<and> length (pkData p) \<le> MaxPacketLen"

text \<open>What survives: times rounded down to the microsecond, indices renumbered, interface 0.\<close>

definition written_back :: "nat \<Rightarrow> packet \<Rightarrow> packet" where
  "written_back i p = p\<lparr>pkIndex := i, pkInterface := 0,
     pkTime := (fst (pkTime p), snd (pkTime p) div 1000 * 1000)\<rparr>"

fun restamp :: "nat \<Rightarrow> packet list \<Rightarrow> packet list" where
  "restamp i [] = []"
| "restamp i (p # ps) = written_back i p # restamp (Suc i) ps"

lemma snap_loop_ge: "m \<le> snap_loop m ps"
  by (induction ps arbitrary: m) (auto simp: Let_def intro: order_trans less_imp_le)

lemma snap_loop_max: "p \<in> set ps \<Longrightarrow> word_of_nat (length (pkData p)) \<le> snap_loop m ps"
  by (induction ps arbitrary: m)
     (auto simp: Let_def not_less intro: order_trans [OF _ snap_loop_ge] less_imp_le)

lemma SnapLen_max:
  assumes "p \<in> set ps" "length (pkData p) \<le> MaxPacketLen"
  shows "length (pkData p) \<le> unat (SnapLen ps)"
proof -
  have len: "length (pkData p) < 4294967296" using assms(2) by (simp add: MaxPacketLen_def)
  have "unat (word_of_nat (length (pkData p)) :: u32) \<le> unat (snap_loop 0 ps)"
    using snap_loop_max [OF assms(1), of 0] by (simp only: word_le_nat_alt)
  then show ?thesis using len by (auto simp: SnapLen_def Let_def)
qed

lemma SnapLen_pos: "0 < SnapLen ps"
  by (simp add: SnapLen_def Let_def word_neq_0_conv)

lemma read_exact: "n = int (length b) \<Longrightarrow> length b \<le> MaxBlockLen \<Longrightarrow> read (b @ r) n w = (Inr b, r)"
  by (auto simp: read_def)

definition legacy_state :: "u32 \<Rightarrow> u16 \<Rightarrow> pcState" where
  "legacy_state snap lt = \<lparr>pcBo = LittleEndian, pcNano = False, pcSnapLen = snap,
     pcLinkType = lt, pcMajor = 2, pcMinor = 4, pcFcsExtras = 0\<rparr>"

lemma nextPcap_written:
  assumes "writable lt p" "length (pkData p) \<le> unat snap"
  shows "nextPcap (legacy_state snap lt)
     ((put_le32 (word_of_int (fst (pkTime p))) @ put_le32 (word_of_nat (snd (pkTime p) div 1000))
        @ put_le32 (word_of_nat (length (pkData p))) @ put_le32 (word_of_nat (pkOrigLen p)))
       @ pkData p @ rest) = (Inr (written_back 0 p), rest)"
    (is "nextPcap ?st (?hdr @ _) = _")
proof -
  note w = assms(1) [unfolded writable_def]
  have rd1: "read (?hdr @ pkData p @ rest) (int pcapRecordHeaderLen) RecordHeader
      = (Inr ?hdr, pkData p @ rest)"
    by (rule read_exact) (simp_all add: pcapRecordHeaderLen_def MaxBlockLen_def)
  have rd2: "read (pkData p @ rest) (int (length (pkData p))) RecordData = (Inr (pkData p), rest)"
    using w by (intro read_exact) (simp_all add: MaxPacketLen_def MaxBlockLen_def)
  have fields: "subslice ?hdr 0 4 = put_le32 (word_of_int (fst (pkTime p)))"
    "subslice ?hdr 4 8 = put_le32 (word_of_nat (snd (pkTime p) div 1000))"
    "subslice ?hdr 8 12 = put_le32 (word_of_nat (length (pkData p)))"
    "subslice ?hdr 12 16 = put_le32 (word_of_nat (pkOrigLen p))"
    by (simp_all add: subslice_def)
  have us: "snd (pkTime p) div 1000 < 1000000"
    using w by (intro less_mult_imp_div_less) simp
  have vals: "unat (word_of_int (fst (pkTime p)) :: u32) = nat (fst (pkTime p))"
    "unat (word_of_nat (snd (pkTime p) div 1000) :: u32) = snd (pkTime p) div 1000"
    "unat (word_of_nat (length (pkData p)) :: u32) = length (pkData p)"
    "unat (word_of_nat (pkOrigLen p) :: u32) = pkOrigLen p"
    using w us by (simp_all add: unsigned_of_int take_bit_int_eq_self unat_of_nat MaxPacketLen_def)
  have get: "le_u32 (put_le32 v) = v" for v using le_u32_put [of v "[]"] by simp
  have st: "pcBo ?st = LittleEndian" "pcNano ?st = False" "pcSnapLen ?st = snap"
    "pcLinkType ?st = lt" by (simp_all add: legacy_state_def)
  show ?thesis
    unfolding nextPcap_def rd1 prod.case sum.case Let_def st bo_u32_def byte_order.case fields get
      vals rd2
    using w us assms(2) by (simp add: rd2 written_back_def)
qed

lemma read_all_written:
  assumes "\<forall>p \<in> set ps. writable lt p \<and> length (pkData p) \<le> unat snap"
    and "rdFormat r = FormatPcap (legacy_state snap lt)" "rdSticky r = None"
    and "rdSrc r = fst (write_records lt ps)"
  shows "read_all_loop r [] = (restamp (rdIndex r + 1) ps, None) \<and> snd (write_records lt ps) = None"
  using assms
proof (induction ps arbitrary: r)
  case Nil
  then have "Next r = (Inl EOF, r\<lparr>rdSrc := [], rdFormat := rdFormat r, rdSticky := Some EOF\<rparr>)"
    by (simp add: Next_def read_one_def nextPcap_def read_def pcapRecordHeaderLen_def
        MaxBlockLen_def)
  then show ?case by (simp add: read_all_Inl)
next
  case (Cons p ps)
  let ?rest = "fst (write_records lt ps)"
  let ?r = "r\<lparr>rdSrc := ?rest, rdFormat := rdFormat r, rdIndex := rdIndex r + 1\<rparr>"
  have p: "writable lt p" "length (pkData p) \<le> unat snap" using Cons.prems(1) by simp_all
  then have "nextPcap (legacy_state snap lt) (rdSrc r) = (Inr (written_back 0 p), ?rest)"
    using nextPcap_written [OF p, of ?rest] Cons.prems(4)
    by (simp add: writable_def Let_def case_prod_beta)
  then have "Next r = (Inr (written_back (rdIndex r + 1) p), ?r)"
    using Cons.prems(2,3) by (simp add: Next_def read_one_def written_back_def)
  moreover have "read_all_loop ?r [] = (restamp (rdIndex ?r + 1) ps, None)
      \<and> snd (write_records lt ps) = None"
    using Cons.prems by (intro Cons.IH) auto
  ultimately show ?case
    using p(1) by (simp add: read_all_Inr writable_def Let_def case_prod_beta)
qed

lemma NewReader_written:
  "NewReader (fst (WriteLegacy lt pkts)) = Inr
     \<lparr>rdSrc = fst (write_records lt pkts), rdFormat = FormatPcap (legacy_state (SnapLen pkts) lt),
      rdIndex = 0, rdSticky = None\<rparr>"
proof -
  let ?hdr = "put_le32 magicMicro @ put_le16 2 @ put_le16 4 @ replicate 8 0
                @ put_le32 (SnapLen pkts) @ put_le32 (ucast lt)"
  let ?src = "?hdr @ fst (write_records lt pkts)"
  have src: "fst (WriteLegacy lt pkts) = ?src" by (simp add: WriteLegacy_def Let_def case_prod_beta)
  have len: "length ?hdr = 24" by simp
  have magic: "put_le32 magicMicro = [0xD4, 0xC3, 0xB2, 0xA1]"
    by (simp add: put_le32_def le_bytes_def be_bytes_four magicMicro_def)
  have hdr: "take 24 ?src = ?hdr" "drop 24 ?src = fst (write_records lt pkts)"
    using len by simp_all
  have fields: "subslice ?hdr 0 4 = put_le32 magicMicro" "subslice ?hdr 4 6 = put_le16 2"
    "subslice ?hdr 6 8 = put_le16 4" "subslice ?hdr 16 20 = put_le32 (SnapLen pkts)"
    "subslice ?hdr 20 24 = put_le32 (ucast lt)"
    by (simp_all add: subslice_def)
  have get: "le_u32 (put_le32 v) = v" "le_u16 (put_le16 w) = w" for v w
    using le_u32_put [of v "[]"] le_u16_put [of w "[]"] by simp_all
  have be: "be_u32 (put_le32 magicMicro) = pcapMagicMicroSwapped"
    unfolding magic by (simp add: be_u32_def pcap_magics)
  have m: "0xFFFF = (mask 16 :: u32)" by (simp add: mask_eq_exp_minus_1)
  have net1: "(ucast ((ucast lt :: u32) AND 0xFFFF) :: u16) = lt"
    unfolding m by (intro bit_word_eqI) (auto simp: bit_simps)
  have net2: "drop_bit 16 (ucast lt :: u32) = 0"
    by (intro bit_word_eqI) (auto simp: bit_simps dest: bit_imp_le_length)
  have "readPcapHeader ?src = (Inr (legacy_state (SnapLen pkts) lt), fst (write_records lt pkts))"
    unfolding readPcapHeader_def pcapFileHeaderLen_def hdr Let_def fields be
    using net1 net2 by (simp add: pcap_magics bo_u16_def bo_u32_def fields get legacy_state_def)
  moreover have "take 4 ?src \<noteq> [0x0A, 0x0D, 0x0D, 0x0A]" by (simp add: magic)
  ultimately show ?thesis unfolding src by (simp add: NewReader_def)
qed

lemma NewReader_suffix: "NewReader src = Inr r \<Longrightarrow> rdIndex r = 0 \<and> suffix (rdSrc r) src"
  by (auto simp: NewReader_def readPcapHeader_def Let_def suffix_drop
      split: if_splits prod.splits sum.splits)

section \<open>Properties\<close>

text \<open>C36: writing packets with WriteLegacy and reading the file back yields the same packets, in the
  same order, renumbered from 1, on interface 0 and with times rounded down to the microsecond; the
  reader reports no error and the writer refuses nothing.\<close>

theorem ReadAll_WriteLegacy:
  assumes "\<forall>p \<in> set pkts. writable lt p"
  shows "\<exists>r. NewReader (fst (WriteLegacy lt pkts)) = Inr r \<and>
    ReadAll r = (restamp 1 pkts, None) \<and> snd (WriteLegacy lt pkts) = None"
proof -
  let ?r = "\<lparr>rdSrc = fst (write_records lt pkts),
      rdFormat = FormatPcap (legacy_state (SnapLen pkts) lt), rdIndex = 0, rdSticky = None\<rparr>"
  have "read_all_loop ?r [] = (restamp (rdIndex ?r + 1) pkts, None)
      \<and> snd (write_records lt pkts) = None"
    by (rule read_all_written) (use assms SnapLen_max in \<open>auto simp: writable_def\<close>)
  then show ?thesis
    using NewReader_written [of lt pkts] by (simp add: ReadAll_def WriteLegacy_def case_prod_beta)
qed

definition sample_packet :: packet where
  "sample_packet = \<lparr>pkIndex = 7, pkTime = (1700000000, 123456789), pkLinkType = 1,
     pkInterface = 3, pkOrigLen = 60, pkData = [0x45, 0, 0, 0x14]\<rparr>"

theorem ReadAll_WriteLegacy_witness:
  "\<exists>r. NewReader (fst (WriteLegacy 1 [sample_packet])) = Inr r \<and>
    ReadAll r = ([\<lparr>pkIndex = 1, pkTime = (1700000000, 123456000), pkLinkType = 1,
       pkInterface = 0, pkOrigLen = 60, pkData = [0x45, 0, 0, 0x14]\<rparr>], None)"
  using ReadAll_WriteLegacy [of "[sample_packet]" 1]
  by (auto simp: writable_def sample_packet_def MaxPacketLen_def written_back_def)

text \<open>Whatever the input bytes, the packets ReadAll returns are numbered consecutively from one,
  and each one's data is a contiguous run of the bytes that were read, no longer than its original
  length and no longer than the packet limit: the reader never invents or reorders capture data
  within a packet.\<close>

lemma ReadAll_packets:
  assumes "NewReader src = Inr r" "ReadAll r = (ps, e)"
  shows "map pkIndex ps = [1..<Suc (length ps)] \<and> (\<forall>p \<in> set ps. packet_from src p)"
proof -
  have r: "rdIndex r = 0" "suffix (rdSrc r) src"
    using assms(1) NewReader_suffix [of src r] by simp_all
  then show ?thesis
    using read_all_packets [of r ps e] assms(2)
    by (auto simp: ReadAll_def simp del: upt_Suc dest: packet_from_mono [OF _ suffix_imp_sublist])
qed

text \<open>A reader that has failed stays failed: after Next reported an error, end of file included,
  every later call reports the same error and leaves the reader as it is, so a truncated file can
  never resume into misaligned data.\<close>

lemma Next_error_latched:
  assumes "Next r = (Inl e, r')"
  shows "Next r' = (Inl e, r')"
  using assms by (auto simp: Next_def split: option.splits prod.splits sum.splits)

end
