(* ===== verification/Netdis_Dissect.thy ===== *)
theory Netdis_Dissect
  imports Netdis_Flow Pcapng
begin

unbundle bit_operations_syntax

text \<open>
  \<^verbatim>\<open>internal/evidence/netdis/dissect.go\<close>: from captured bytes to link, network and
  transport headers.  A Go method that fills fields of its receiver is a function returning the updated
  record; a Go error is \<^verbatim>\<open>Inl\<close>, and the notes (why dissection stopped early) are constructors.
\<close>

section \<open>Constants\<close>

definition LinkTypeNull :: u16 where "LinkTypeNull = 0"
definition LinkTypeEthernet :: u16 where "LinkTypeEthernet = 1"
definition LinkTypeRaw :: u16 where "LinkTypeRaw = 101"
definition LinkTypeLoop :: u16 where "LinkTypeLoop = 108"
definition LinkTypeLinuxSLL :: u16 where "LinkTypeLinuxSLL = 113"
definition LinkTypeIPv4 :: u16 where "LinkTypeIPv4 = 228"
definition LinkTypeIPv6 :: u16 where "LinkTypeIPv6 = 229"
definition LinkTypeSLL2 :: u16 where "LinkTypeSLL2 = 276"

lemmas link_types = LinkTypeNull_def LinkTypeEthernet_def LinkTypeRaw_def LinkTypeLoop_def
  LinkTypeLinuxSLL_def LinkTypeIPv4_def LinkTypeIPv6_def LinkTypeSLL2_def

definition etherTypeIPv4 :: u16 where "etherTypeIPv4 = 0x0800"
definition etherTypeIPv6 :: u16 where "etherTypeIPv6 = 0x86DD"
definition etherTypeVLAN :: u16 where "etherTypeVLAN = 0x8100"
definition etherTypeQinQ :: u16 where "etherTypeQinQ = 0x88A8"
definition etherTypeVLAN9 :: u16 where "etherTypeVLAN9 = 0x9100"

lemmas ether_types = etherTypeIPv4_def etherTypeIPv6_def etherTypeVLAN_def etherTypeQinQ_def
  etherTypeVLAN9_def

definition ipProtoTCP :: byte where "ipProtoTCP = 6"
definition ipProtoUDP :: byte where "ipProtoUDP = 17"

definition FIN :: u16 where "FIN = 1"
definition SYN :: u16 where "SYN = 2"
definition RST :: u16 where "RST = 4"
definition ACK :: u16 where "ACK = 16"

definition ipv6HopByHop :: byte where "ipv6HopByHop = 0"
definition ipv6Routing :: byte where "ipv6Routing = 43"
definition ipv6Fragment :: byte where "ipv6Fragment = 44"
definition ipv6ESP :: byte where "ipv6ESP = 50"
definition ipv6AH :: byte where "ipv6AH = 51"
definition ipv6NoNextHdr :: byte where "ipv6NoNextHdr = 59"
definition ipv6DestOpts :: byte where "ipv6DestOpts = 60"
definition ipv6Mobility :: byte where "ipv6Mobility = 135"

lemmas ip_protos = ipProtoTCP_def ipProtoUDP_def ipv6HopByHop_def ipv6Routing_def ipv6Fragment_def
  ipv6ESP_def ipv6AH_def ipv6NoNextHdr_def ipv6DestOpts_def ipv6Mobility_def

section \<open>Dissected packets\<close>

datatype net_proto = NetNone | NetIPv4 | NetIPv6

record tcpSegment =
  tcSrcPort :: u16
  tcDstPort :: u16
  tcSeq :: u32
  tcAck :: u32
  tcFlags :: u16
  tcWindow :: u16
  tcHeaderLen :: nat
  tcOptions :: bytes
  tcPayload :: bytes

record udpDatagram =
  udSrcPort :: u16
  udDstPort :: u16
  udLength :: nat
  udPayload :: bytes

datatype frame_note =
    NoNote
  | NoteAddressFamily u32
  | NoteIPVersion byte
  | NoteLinkType u16
  | NoteLLC u16
  | NoteEtherType u16
  | NoteIPv4Fragment u16 bool
  | NoteIPv6Fragment u16 bool
  | NoteESP
  | NoteNoNextHeader
  | NoteIPProtocol byte

record frame =
  frIndex :: nat
  frTime :: gotime
  frLinkType :: u16
  frCaptureLen :: nat
  frOrigLen :: nat
  frEtherType :: u16
  frVLANs :: "u16 list"
  frNet :: net_proto
  frSrc :: addr
  frDst :: addr
  frIPProto :: byte
  frTTL :: byte
  frFragmented :: bool
  frFragOffset :: u16
  frTruncated :: bool
  frTCP :: "tcpSegment option"
  frUDP :: "udpDatagram option"
  frNote :: frame_note

definition frame_flow :: "frame \<Rightarrow> flowKey option" where
  "frame_flow f =
    (case frTCP f of
       Some t \<Rightarrow> Some \<lparr>flSrc = Endpoint (frSrc f) (tcSrcPort t), flDst = Endpoint (frDst f) (tcDstPort t)\<rparr>
     | None \<Rightarrow>
         (case frUDP f of
            Some u \<Rightarrow> Some \<lparr>flSrc = Endpoint (frSrc f) (udSrcPort u), flDst = Endpoint (frDst f) (udDstPort u)\<rparr>
          | None \<Rightarrow> None))"

datatype dissect_error =
    ShortLoopback nat
  | EmptyRawIP
  | ShortSLL nat
  | ShortSLL2 nat
  | ShortEthernet nat
  | TruncatedVLAN nat
  | ShortIPv4 nat
  | BadIPv4Version byte
  | IHLTooSmall nat
  | IHLTooLarge nat nat
  | TotalBelowHeader nat nat
  | ShortIPv6 nat
  | BadIPv6Version byte
  | TruncatedExtension byte nat
  | ExtensionTooLong byte nat nat
  | TruncatedAH nat
  | AHTooLong nat nat
  | TruncatedFragmentHeader nat
  | ExtensionChainTooLong
  | ShortTCP nat
  | TCPOffsetTooSmall nat
  | ShortUDP nat
  | FrameError nat dissect_error

section \<open>Link layer\<close>

definition afINET :: u32 where "afINET = 2"

definition isAFINET6 :: "u32 \<Rightarrow> bool" where
  "isAFINET6 fam \<longleftrightarrow> fam \<in> {10, 23, 24, 26, 28, 30}"

definition knownAddressFamily :: "u32 \<Rightarrow> bool" where
  "knownAddressFamily fam \<longleftrightarrow> fam = afINET \<or> isAFINET6 fam"

text \<open>A nil slice ("nothing above the link layer") is \<^verbatim>\<open>None\<close>.\<close>

definition afterEtherType :: "frame \<Rightarrow> bytes \<Rightarrow> frame \<times> bytes option" where
  "afterEtherType f rest =
    (if frEtherType f = etherTypeIPv4 \<or> frEtherType f = etherTypeIPv6 then (f, Some rest)
     else if frEtherType f < 1536 then (f\<lparr>frNote := NoteLLC (frEtherType f)\<rparr>, None)
     else (f\<lparr>frNote := NoteEtherType (frEtherType f)\<rparr>, None))"

text \<open>The loop over at most three stacked VLAN tags, the first argument counting the tags left.\<close>

fun vlan_loop :: "nat \<Rightarrow> frame \<Rightarrow> u16 \<Rightarrow> bytes \<Rightarrow> dissect_error + (frame \<times> u16 \<times> bytes)" where
  "vlan_loop 0 f et rest = Inr (f, et, rest)"
| "vlan_loop (Suc n) f et rest =
    (if et \<noteq> etherTypeVLAN \<and> et \<noteq> etherTypeQinQ \<and> et \<noteq> etherTypeVLAN9 then Inr (f, et, rest)
     else if length rest < 4 then Inl (TruncatedVLAN (length rest))
     else vlan_loop n (f\<lparr>frVLANs := frVLANs f @ [be_u16 (subslice rest 0 2) AND 0x0FFF]\<rparr>)
            (be_u16 (subslice rest 2 4)) (drop 4 rest))"

definition decodeEthernet :: "frame \<Rightarrow> bytes \<Rightarrow> dissect_error + (frame \<times> bytes option)" where
  "decodeEthernet f data =
    (if length data < 14 then Inl (ShortEthernet (length data))
     else
       case vlan_loop 3 f (be_u16 (subslice data 12 14)) (drop 14 data) of
         Inl e \<Rightarrow> Inl e
       | Inr (f', et, rest) \<Rightarrow> Inr (afterEtherType (f'\<lparr>frEtherType := et\<rparr>) rest))"

definition decodeLink :: "frame \<Rightarrow> bytes \<Rightarrow> dissect_error + (frame \<times> bytes option)" where
  "decodeLink f data =
    (if frLinkType f = LinkTypeEthernet then decodeEthernet f data
     else if frLinkType f = LinkTypeNull \<or> frLinkType f = LinkTypeLoop then
       (if length data < 4 then Inl (ShortLoopback (length data))
        else
          let fam0 = le_u32 (take 4 data);
              fam = (if frLinkType f = LinkTypeLoop \<or> \<not> knownAddressFamily fam0
                     then be_u32 (take 4 data) else fam0)
          in if fam = afINET then Inr (f\<lparr>frEtherType := etherTypeIPv4\<rparr>, Some (drop 4 data))
             else if isAFINET6 fam then Inr (f\<lparr>frEtherType := etherTypeIPv6\<rparr>, Some (drop 4 data))
             else Inr (f\<lparr>frNote := NoteAddressFamily fam\<rparr>, None))
     else if frLinkType f = LinkTypeRaw \<or> frLinkType f = LinkTypeIPv4 \<or> frLinkType f = LinkTypeIPv6 then
       (if length data = 0 then Inl EmptyRawIP
        else if frLinkType f = LinkTypeIPv4 then Inr (f\<lparr>frEtherType := etherTypeIPv4\<rparr>, Some data)
        else if frLinkType f = LinkTypeIPv6 then Inr (f\<lparr>frEtherType := etherTypeIPv6\<rparr>, Some data)
        else if drop_bit 4 (data ! 0) = 4 then Inr (f\<lparr>frEtherType := etherTypeIPv4\<rparr>, Some data)
        else if drop_bit 4 (data ! 0) = 6 then Inr (f\<lparr>frEtherType := etherTypeIPv6\<rparr>, Some data)
        else Inr (f\<lparr>frNote := NoteIPVersion (drop_bit 4 (data ! 0))\<rparr>, None))
     else if frLinkType f = LinkTypeLinuxSLL then
       (if length data < 16 then Inl (ShortSLL (length data))
        else Inr (afterEtherType (f\<lparr>frEtherType := be_u16 (subslice data 14 16)\<rparr>) (drop 16 data)))
     else if frLinkType f = LinkTypeSLL2 then
       (if length data < 20 then Inl (ShortSLL2 (length data))
        else Inr (afterEtherType (f\<lparr>frEtherType := be_u16 (subslice data 0 2)\<rparr>) (drop 20 data)))
     else Inr (f\<lparr>frNote := NoteLinkType (frLinkType f)\<rparr>, None))"

section \<open>Transport layer\<close>

definition decodeTCP :: "frame \<Rightarrow> bytes \<Rightarrow> dissect_error + frame" where
  "decodeTCP f data =
    (if length data < 20 then Inl (ShortTCP (length data))
     else
       let off0 = unat (drop_bit 4 (data ! 12)) * 4
       in if off0 < 20 then Inl (TCPOffsetTooSmall off0)
          else
            let f1 = (if off0 > length data then f\<lparr>frTruncated := True\<rparr> else f);
                off = (if off0 > length data then length data else off0)
            in Inr (f1\<lparr>frTCP := Some
                 \<lparr>tcSrcPort = be_u16 (subslice data 0 2), tcDstPort = be_u16 (subslice data 2 4),
                  tcSeq = be_u32 (subslice data 4 8), tcAck = be_u32 (subslice data 8 12),
                  tcFlags = ucast (data ! 13) OR push_bit 8 (ucast (data ! 12 AND 0x01)),
                  tcWindow = be_u16 (subslice data 14 16), tcHeaderLen = off,
                  tcOptions = (if off > 20 then subslice data 20 off else []),
                  tcPayload = drop off data\<rparr>\<rparr>))"

definition decodeUDP :: "frame \<Rightarrow> bytes \<Rightarrow> dissect_error + frame" where
  "decodeUDP f data =
    (if length data < 8 then Inl (ShortUDP (length data))
     else
       let len = unat (be_u16 (subslice data 4 6));
           cut = len \<ge> 8 \<and> len < length data;
           end' = (if cut then len else length data);
           f1 = (if \<not> cut \<and> len > length data then f\<lparr>frTruncated := True\<rparr> else f)
       in Inr (f1\<lparr>frUDP := Some
            \<lparr>udSrcPort = be_u16 (subslice data 0 2), udDstPort = be_u16 (subslice data 2 4),
             udLength = len, udPayload = subslice data 8 end'\<rparr>\<rparr>))"

definition decodeTransport :: "frame \<Rightarrow> bytes \<Rightarrow> dissect_error + frame" where
  "decodeTransport f data =
    (if frIPProto f = ipProtoTCP then decodeTCP f data
     else if frIPProto f = ipProtoUDP then decodeUDP f data
     else Inr (f\<lparr>frNote := NoteIPProtocol (frIPProto f)\<rparr>))"

section \<open>Network layer\<close>

definition AddrFrom4 :: "bytes \<Rightarrow> addr" where
  "AddrFrom4 b = IPv4Addr (word_of_nat (be_val b))"

definition AddrFrom16 :: "bytes \<Rightarrow> addr" where
  "AddrFrom16 b = IPv6Addr (word_of_nat (be_val b))"

definition decodeIPv4 :: "frame \<Rightarrow> bytes \<Rightarrow> dissect_error + frame" where
  "decodeIPv4 f data =
    (if length data < 20 then Inl (ShortIPv4 (length data))
     else if drop_bit 4 (data ! 0) \<noteq> 4 then Inl (BadIPv4Version (drop_bit 4 (data ! 0)))
     else
       let ihl = unat (data ! 0 AND 0x0F) * 4;
           total = unat (be_u16 (subslice data 2 4))
       in if ihl < 20 then Inl (IHLTooSmall ihl)
          else if ihl > length data then Inl (IHLTooLarge ihl (length data))
          else if total \<noteq> 0 \<and> total < ihl then Inl (TotalBelowHeader total ihl)
          else
            let frag = be_u16 (subslice data 6 8);
                more = (frag AND 0x2000 \<noteq> 0);
                fragOff = (frag AND 0x1FFF) * 8;
                cut = (total \<noteq> 0 \<and> total < length data);
                f1 = f\<lparr>frNet := NetIPv4, frTTL := data ! 8, frIPProto := data ! 9,
                       frSrc := AddrFrom4 (subslice data 12 16), frDst := AddrFrom4 (subslice data 16 20),
                       frFragOffset := fragOff, frFragmented := more \<or> fragOff > 0\<rparr>;
                end' = (if cut then total else length data);
                f2 = (if \<not> cut \<and> total > length data then f1\<lparr>frTruncated := True\<rparr> else f1)
            in if frFragmented f2 then Inr (f2\<lparr>frNote := NoteIPv4Fragment fragOff more\<rparr>)
               else decodeTransport f2 (subslice data ihl end'))"

text \<open>The walk over the IPv6 extension headers, the first argument counting the headers left.\<close>

fun ipv6_walk :: "nat \<Rightarrow> frame \<Rightarrow> byte \<Rightarrow> bytes \<Rightarrow> dissect_error + frame" where
  "ipv6_walk 0 f nxt rest = Inl ExtensionChainTooLong"
| "ipv6_walk (Suc hops) f nxt rest =
    (if nxt = ipv6HopByHop \<or> nxt = ipv6Routing \<or> nxt = ipv6DestOpts \<or> nxt = ipv6Mobility then
       (if length rest < 8 then Inl (TruncatedExtension nxt (length rest))
        else
          let extLen = (unat (rest ! 1) + 1) * 8
          in if extLen > length rest then Inl (ExtensionTooLong nxt extLen (length rest))
             else ipv6_walk hops f (rest ! 0) (drop extLen rest))
     else if nxt = ipv6AH then
       (if length rest < 8 then Inl (TruncatedAH (length rest))
        else
          let extLen = (unat (rest ! 1) + 2) * 4
          in if extLen > length rest then Inl (AHTooLong extLen (length rest))
             else ipv6_walk hops f (rest ! 0) (drop extLen rest))
     else if nxt = ipv6Fragment then
       (if length rest < 8 then Inl (TruncatedFragmentHeader (length rest))
        else
          let off = be_u16 (subslice rest 2 4);
              fragOff = off AND NOT 0x7;
              more = (off AND 0x1 \<noteq> 0)
          in Inr (f\<lparr>frFragOffset := fragOff, frFragmented := True, frIPProto := rest ! 0,
                    frNote := NoteIPv6Fragment fragOff more\<rparr>))
     else if nxt = ipv6ESP then Inr (f\<lparr>frIPProto := ipv6ESP, frNote := NoteESP\<rparr>)
     else if nxt = ipv6NoNextHdr then Inr (f\<lparr>frIPProto := ipv6NoNextHdr, frNote := NoteNoNextHeader\<rparr>)
     else decodeTransport (f\<lparr>frIPProto := nxt\<rparr>) rest)"

definition decodeIPv6 :: "frame \<Rightarrow> bytes \<Rightarrow> dissect_error + frame" where
  "decodeIPv6 f data =
    (if length data < 40 then Inl (ShortIPv6 (length data))
     else if drop_bit 4 (data ! 0) \<noteq> 6 then Inl (BadIPv6Version (drop_bit 4 (data ! 0)))
     else
       let payloadLen = unat (be_u16 (subslice data 4 6));
           over = 40 + payloadLen > length data;
           f1 = f\<lparr>frNet := NetIPv6, frTTL := data ! 7, frSrc := AddrFrom16 (subslice data 8 24),
                  frDst := AddrFrom16 (subslice data 24 40)\<rparr>;
           f2 = (if over then f1\<lparr>frTruncated := True\<rparr> else f1);
           end' = (if payloadLen = 0 \<or> over then length data else 40 + payloadLen)
       in ipv6_walk 16 f2 (data ! 6) (subslice data 40 end'))"

definition decodeNetwork :: "frame \<Rightarrow> bytes \<Rightarrow> dissect_error + frame" where
  "decodeNetwork f data =
    (if frEtherType f = etherTypeIPv4 then decodeIPv4 f data
     else if frEtherType f = etherTypeIPv6 then decodeIPv6 f data
     else Inr f)"

section \<open>Whole frames\<close>

definition fresh_frame :: "u16 \<Rightarrow> bytes \<Rightarrow> frame" where
  "fresh_frame linkType data =
    \<lparr>frIndex = 0, frTime = zero_time, frLinkType = linkType, frCaptureLen = length data,
     frOrigLen = length data, frEtherType = 0, frVLANs = [], frNet = NetNone, frSrc = InvalidAddr,
     frDst = InvalidAddr, frIPProto = 0, frTTL = 0, frFragmented = False, frFragOffset = 0,
     frTruncated = False, frTCP = None, frUDP = None, frNote = NoNote\<rparr>"

definition Decode :: "u16 \<Rightarrow> bytes \<Rightarrow> dissect_error + frame" where
  "Decode linkType data =
    (case decodeLink (fresh_frame linkType data) data of
       Inl e \<Rightarrow> Inl e
     | Inr (f, None) \<Rightarrow> Inr f
     | Inr (f, Some rest) \<Rightarrow> decodeNetwork f rest)"

definition DecodePacket :: "packet \<Rightarrow> dissect_error + frame" where
  "DecodePacket p =
    (case Decode (pkLinkType p) (pkData p) of
       Inl e \<Rightarrow> Inl (FrameError (pkIndex p) e)
     | Inr f \<Rightarrow>
         let f1 = f\<lparr>frIndex := pkIndex p, frTime := pkTime p, frOrigLen := pkOrigLen p\<rparr>
         in Inr (if packet_truncated p then f1\<lparr>frTruncated := True\<rparr> else f1))"

section \<open>What a dissected segment says about the bytes\<close>

text \<open>The segment is what a run of the given bytes says when it is read as a TCP header followed by
  its payload.\<close>

definition tcp_header_of :: "tcpSegment \<Rightarrow> bytes \<Rightarrow> bool" where
  "tcp_header_of seg b \<longleftrightarrow> 20 \<le> tcHeaderLen seg \<and> tcHeaderLen seg \<le> length b
     \<and> tcHeaderLen seg \<le> unat (drop_bit 4 (b ! 12)) * 4
     \<and> tcSrcPort seg = be_u16 (subslice b 0 2) \<and> tcDstPort seg = be_u16 (subslice b 2 4)
     \<and> tcSeq seg = be_u32 (subslice b 4 8) \<and> tcAck seg = be_u32 (subslice b 8 12)
     \<and> tcOptions seg = subslice b 20 (tcHeaderLen seg) \<and> tcPayload seg = drop (tcHeaderLen seg) b"

definition carries_tcp :: "bytes \<Rightarrow> tcpSegment \<Rightarrow> bool" where
  "carries_tcp data seg \<longleftrightarrow> (\<exists>b. sublist b data \<and> tcp_header_of seg b)"

definition carries_udp :: "bytes \<Rightarrow> udpDatagram \<Rightarrow> bool" where
  "carries_udp data u \<longleftrightarrow> (\<exists>b. sublist b data \<and> 8 \<le> length b
     \<and> udSrcPort u = be_u16 (subslice b 0 2) \<and> udDstPort u = be_u16 (subslice b 2 4)
     \<and> sublist (udPayload u) b \<and> length (udPayload u) + 8 \<le> length b
     \<and> (8 \<le> udLength u \<longrightarrow> length (udPayload u) + 8 \<le> udLength u))"

text \<open>What every stage guarantees of the frame it returns: transport headers come from the bytes it
  was given, at most one of them is present, and a fragment has none.\<close>

definition sound_frame :: "bytes \<Rightarrow> frame \<Rightarrow> bool" where
  "sound_frame data f \<longleftrightarrow>
     (\<forall>seg. frTCP f = Some seg \<longrightarrow> carries_tcp data seg \<and> frUDP f = None \<and> frIPProto f = ipProtoTCP)
     \<and> (\<forall>u. frUDP f = Some u \<longrightarrow> carries_udp data u \<and> frIPProto f = ipProtoUDP)
     \<and> (frFragmented f \<longrightarrow> frTCP f = None \<and> frUDP f = None)"

definition bare_frame :: "frame \<Rightarrow> bool" where
  "bare_frame f \<longleftrightarrow> frTCP f = None \<and> frUDP f = None"

lemma carries_mono:
  "carries_tcp b seg \<Longrightarrow> sublist b data \<Longrightarrow> carries_tcp data seg"
  "carries_udp b u \<Longrightarrow> sublist b data \<Longrightarrow> carries_udp data u"
  unfolding carries_tcp_def carries_udp_def using sublist_order.order_trans by blast+

lemma sound_frame_mono: "sound_frame b f \<Longrightarrow> sublist b data \<Longrightarrow> sound_frame data f"
  unfolding sound_frame_def using carries_mono by blast

lemma sound_bare: "bare_frame f \<Longrightarrow> sound_frame data f"
  by (simp add: bare_frame_def sound_frame_def)

lemma decodeTCP_sound:
  assumes "decodeTCP f data = Inr f'" "bare_frame f" "\<not> frFragmented f" "frIPProto f = ipProtoTCP"
  shows "sound_frame data f'"
proof -
  let ?raw = "unat (drop_bit 4 (data ! 12)) * 4"
  let ?off = "if ?raw > length data then length data else ?raw"
  have len: "20 \<le> length data" "20 \<le> ?raw"
    using assms(1) by (auto simp: decodeTCP_def Let_def split: if_splits)
  have opt: "(if ?off > 20 then subslice data 20 ?off else []) = subslice data 20 ?off"
    using len by (simp add: subslice_def)
  let ?seg = "\<lparr>tcSrcPort = be_u16 (subslice data 0 2), tcDstPort = be_u16 (subslice data 2 4),
      tcSeq = be_u32 (subslice data 4 8), tcAck = be_u32 (subslice data 8 12),
      tcFlags = ucast (data ! 13) OR push_bit 8 (ucast (data ! 12 AND 0x01)),
      tcWindow = be_u16 (subslice data 14 16), tcHeaderLen = ?off,
      tcOptions = subslice data 20 ?off, tcPayload = drop ?off data\<rparr>"
  have f': "f' = (if ?raw > length data then f\<lparr>frTruncated := True\<rparr> else f)\<lparr>frTCP := Some ?seg\<rparr>"
    using assms(1) len opt by (simp add: decodeTCP_def Let_def linorder_not_less [symmetric] split del: if_split)
  moreover have "tcp_header_of ?seg data" using len by (auto simp: tcp_header_of_def)
  ultimately show ?thesis
    using assms by (auto simp: sound_frame_def carries_tcp_def bare_frame_def)
qed

lemma decodeUDP_sound:
  assumes "decodeUDP f data = Inr f'" "bare_frame f" "\<not> frFragmented f" "frIPProto f = ipProtoUDP"
  shows "sound_frame data f'"
proof -
  let ?len = "unat (be_u16 (subslice data 4 6))"
  let ?e = "if ?len \<ge> 8 \<and> ?len < length data then ?len else length data"
  have len: "8 \<le> length data" using assms(1) by (auto simp: decodeUDP_def split: if_splits)
  let ?u = "\<lparr>udSrcPort = be_u16 (subslice data 0 2), udDstPort = be_u16 (subslice data 2 4),
      udLength = ?len, udPayload = subslice data 8 ?e\<rparr>"
  let ?cut = "?len \<ge> 8 \<and> ?len < length data"
  have f': "f' = (if \<not> ?cut \<and> ?len > length data then f\<lparr>frTruncated := True\<rparr> else f)\<lparr>frUDP := Some ?u\<rparr>"
    using assms(1) len by (simp add: decodeUDP_def Let_def split del: if_split)
  have "carries_udp data ?u"
    unfolding carries_udp_def using len sublist_subslice [of data 8 ?e]
    by (intro exI [of _ data]) auto
  with f' assms show ?thesis by (auto simp: sound_frame_def bare_frame_def)
qed

lemma decodeTransport_sound:
  assumes "decodeTransport f data = Inr f'" "bare_frame f" "\<not> frFragmented f"
  shows "sound_frame data f'"
  using assms decodeTCP_sound decodeUDP_sound
  by (auto simp: decodeTransport_def sound_frame_def bare_frame_def split: if_splits)

lemma sublist_drop_le: "sublist (drop n b) b"
  by (simp add: suffix_drop suffix_imp_sublist)

lemma ipv6_walk_step:
  assumes "ipv6_walk (Suc hops) f nxt rest = Inr f'"
  obtains (Walk) k where "ipv6_walk hops f (rest ! 0) (drop k rest) = Inr f'"
  | (Transport) "decodeTransport (f\<lparr>frIPProto := nxt\<rparr>) rest = Inr f'"
  | (Stop) "frTCP f' = frTCP f" "frUDP f' = frUDP f"
  using assms by (auto simp: Let_def split: if_splits)

lemma ipv6_walk_sound:
  assumes "ipv6_walk n f nxt rest = Inr f'" "bare_frame f" "\<not> frFragmented f"
  shows "sound_frame rest f'"
  using assms
proof (induction n arbitrary: nxt rest)
  case (Suc n)
  from Suc.prems(1) show ?case
  proof (cases rule: ipv6_walk_step)
    case (Walk k)
    then show ?thesis
      using Suc.IH Suc.prems(2,3) sublist_drop_le sound_frame_mono by blast
  next
    case Transport
    then show ?thesis using decodeTransport_sound Suc.prems by (simp add: bare_frame_def)
  next
    case Stop
    then show ?thesis using Suc.prems by (simp add: sound_frame_def bare_frame_def)
  qed
qed simp

lemma decodeIPv4_sound:
  assumes "decodeIPv4 f data = Inr f'" "bare_frame f"
  shows "sound_frame data f'"
proof -
  consider (Frag) "frTCP f' = frTCP f" "frUDP f' = frUDP f"
    | (Transport) g i j where "decodeTransport g (subslice data i j) = Inr f'"
        "bare_frame g" "\<not> frFragmented g"
  proof (cases "frTCP f' = frTCP f \<and> frUDP f' = frUDP f")
    case False
    show ?thesis
      using assms False that(2)
      by (auto simp: decodeIPv4_def Let_def bare_frame_def split: if_splits)
  qed (use that in blast)
  then show ?thesis
  proof cases
    case Frag
    then show ?thesis using assms(2) by (simp add: sound_frame_def bare_frame_def)
  next
    case Transport
    then show ?thesis
      using decodeTransport_sound sound_frame_mono sublist_subslice by blast
  qed
qed

lemma decodeIPv6_sound:
  assumes "decodeIPv6 f data = Inr f'" "bare_frame f" "\<not> frFragmented f"
  shows "sound_frame data f'"
proof -
  obtain g nxt i j where "ipv6_walk 16 g nxt (subslice data i j) = Inr f'"
    "bare_frame g" "\<not> frFragmented g"
    using assms by (fastforce simp: decodeIPv6_def Let_def bare_frame_def split: if_splits)
  then show ?thesis using ipv6_walk_sound sound_frame_mono sublist_subslice by blast
qed

definition untouched :: "frame \<Rightarrow> bool" where
  "untouched f \<longleftrightarrow> bare_frame f \<and> \<not> frFragmented f"

lemma untouched_update [simp]:
  "untouched (f\<lparr>frNote := n\<rparr>) = untouched f" "untouched (f\<lparr>frVLANs := v\<rparr>) = untouched f"
  "untouched (f\<lparr>frEtherType := e\<rparr>) = untouched f"
  by (simp_all add: untouched_def bare_frame_def)

lemma vlan_loop_rest:
  "vlan_loop n f et rest = Inr (f', et', rest') \<Longrightarrow> suffix rest' rest \<and> (untouched f \<longrightarrow> untouched f')"
  by (induction n f et rest rule: vlan_loop.induct)
     (auto split: if_splits intro: suffix_drop suffix_order.trans)

lemma afterEtherType_rest:
  "afterEtherType f rest = (f', r) \<Longrightarrow> (r = None \<or> r = Some rest) \<and> (untouched f \<longrightarrow> untouched f')"
  by (auto simp: afterEtherType_def split: if_splits)

lemma decodeLink_rest:
  assumes "decodeLink f data = Inr (f', r)" "untouched f"
  shows "untouched f' \<and> (\<forall>rest. r = Some rest \<longrightarrow> suffix rest data)"
proof (cases "frLinkType f = LinkTypeEthernet")
  case True
  with assms obtain g et rest where g: "vlan_loop 3 f (be_u16 (subslice data 12 14)) (drop 14 data)
      = Inr (g, et, rest)" "afterEtherType (g\<lparr>frEtherType := et\<rparr>) rest = (f', r)"
    by (auto simp: decodeLink_def decodeEthernet_def split: if_splits sum.splits)
  have "suffix rest data"
    using vlan_loop_rest [OF g(1)] suffix_drop suffix_order.trans by blast
  then show ?thesis
    using vlan_loop_rest [OF g(1)] afterEtherType_rest [OF g(2)] assms(2) by auto
next
  case False
  with assms show ?thesis
    by (auto simp: decodeLink_def Let_def suffix_drop split: if_splits
        dest!: afterEtherType_rest)
qed

lemma Decode_sound:
  assumes "Decode linkType data = Inr f"
  shows "sound_frame data f"
proof -
  obtain g r where g: "decodeLink (fresh_frame linkType data) data = Inr (g, r)"
    using assms by (auto simp: Decode_def split: sum.splits)
  have "untouched (fresh_frame linkType data)"
    by (simp add: untouched_def bare_frame_def fresh_frame_def)
  with g have *: "bare_frame g" "\<not> frFragmented g" "r = Some rest \<Longrightarrow> suffix rest data" for rest
    using decodeLink_rest [OF g] by (auto simp: untouched_def)
  show ?thesis
  proof (cases r)
    case None
    with g assms * show ?thesis by (auto simp: Decode_def intro: sound_bare)
  next
    case (Some rest)
    then have "decodeNetwork g rest = Inr f" using g assms by (simp add: Decode_def)
    then have "sound_frame rest f"
      using * decodeIPv4_sound decodeIPv6_sound sound_bare
      by (auto simp: decodeNetwork_def split: if_splits)
    then show ?thesis using *(3) Some sound_frame_mono suffix_imp_sublist by blast
  qed
qed

section \<open>A specification encoder: what a sender puts on the wire\<close>

definition tcp_wire :: "tcpSegment \<Rightarrow> bytes \<Rightarrow> bytes" where
  "tcp_wire seg tail4 =
     (put_be16 (tcSrcPort seg) @ put_be16 (tcDstPort seg) @ put_be32 (tcSeq seg) @ put_be32 (tcAck seg)
     @ [push_bit 4 (word_of_nat (tcHeaderLen seg div 4)) OR ucast (drop_bit 8 (tcFlags seg)),
        ucast (tcFlags seg)]
     @ put_be16 (tcWindow seg) @ tail4) @ tcOptions seg @ tcPayload seg"

definition wf_segment :: "tcpSegment \<Rightarrow> bool" where
  "wf_segment seg \<longleftrightarrow> tcHeaderLen seg = 20 + length (tcOptions seg) \<and> tcHeaderLen seg mod 4 = 0
     \<and> tcHeaderLen seg \<le> 60 \<and> tcFlags seg < 512"

lemma nibble:
  assumes "n < 16" "(x :: byte) < 2"
  shows "unat (drop_bit 4 (push_bit 4 (word_of_nat n) OR x)) = n \<and>
    (push_bit 4 (word_of_nat n) OR x) AND 1 = x"
proof -
  have "n \<in> {0,1,2,3,4,5,6,7,8,9,10,11,12,13,14,15}"
    using assms(1) by (simp only: insert_iff empty_iff) presburger
  moreover have "x = 0 \<or> x = 1"
    using assms(2) by (simp add: word_less_nat_alt word_unat_eq_iff) linarith
  ultimately show ?thesis by (elim disjE insertE emptyE) simp_all
qed

lemma flags_join:
  "(ucast (ucast fl :: byte) :: u16) OR push_bit 8 (ucast (ucast (drop_bit 8 fl) :: byte)) = fl"
  by (rule bit_word_eqI) (auto simp: bit_simps not_less)

lemma flags_high:
  assumes "(fl :: u16) < 512"
  shows "(ucast (drop_bit 8 fl) :: byte) < 2"
proof -
  have "unat fl < 512" using assms by (simp add: word_less_nat_alt)
  then have "unat fl div 256 < 2" by (simp add: less_mult_imp_div_less)
  then show ?thesis
    by (simp add: word_less_nat_alt unsigned_ucast_eq unsigned_take_bit_eq unsigned_drop_bit_eq
        drop_bit_eq_div take_bit_eq_mod unat_div)
qed

lemma decodeTCP_wire:
  assumes "wf_segment seg" "length tail4 = 4"
  shows "decodeTCP f (tcp_wire seg tail4) = Inr (f\<lparr>frTCP := Some seg\<rparr>)"
proof -
  let ?b = "tcp_wire seg tail4"
  let ?x = "ucast (drop_bit 8 (tcFlags seg)) :: byte"
  let ?o = "push_bit 4 (word_of_nat (tcHeaderLen seg div 4)) OR ?x"
  note wf = assms(1) [unfolded wf_segment_def]
  have fl: "?x < 2" "(ucast (ucast (tcFlags seg) :: byte) :: u16) OR push_bit 8 (ucast ?x) = tcFlags seg"
    using flags_high flags_join wf by blast+
  have nb: "unat (drop_bit 4 ?o) = tcHeaderLen seg div 4" "?o AND 1 = ?x"
    using nibble [of "tcHeaderLen seg div 4" ?x] fl(1) wf by auto
  have at: "?b ! 12 = ?o" "?b ! 13 = ucast (tcFlags seg)"
    by (simp_all add: tcp_wire_def nth_append)
  have fields: "subslice ?b 0 2 = put_be16 (tcSrcPort seg)" "subslice ?b 2 4 = put_be16 (tcDstPort seg)"
    "subslice ?b 4 8 = put_be32 (tcSeq seg)" "subslice ?b 8 12 = put_be32 (tcAck seg)"
    "subslice ?b 14 16 = put_be16 (tcWindow seg)"
    by (simp_all add: tcp_wire_def subslice_def)
  have get: "be_u16 (put_be16 v) = v" "be_u32 (put_be32 w) = w" for v w
    using be_u16_put [of v "[]"] be_u32_put [of w "[]"] by simp_all
  have len: "length ?b = tcHeaderLen seg + length (tcPayload seg)"
    using wf assms(2) by (simp add: tcp_wire_def)
  have off: "tcHeaderLen seg div 4 * 4 = tcHeaderLen seg" using wf by auto
  have "\<exists>h. ?b = h @ tcOptions seg @ tcPayload seg \<and> length h = 20"
    unfolding tcp_wire_def by (intro exI conjI, rule refl) (use assms(2) in simp)
  then obtain h where "?b = h @ tcOptions seg @ tcPayload seg" "length h = 20" by blast
  then have body: "drop (tcHeaderLen seg) ?b = tcPayload seg"
    "subslice ?b 20 (tcHeaderLen seg) = tcOptions seg"
    using wf by (simp_all add: subslice_def)
  have cond: "(length ?b < 20) = False" "(tcHeaderLen seg < 20) = False"
    "(length ?b < tcHeaderLen seg) = False"
    unfolding len using wf by simp_all
  have opts: "(if 20 < tcHeaderLen seg then tcOptions seg else []) = tcOptions seg"
    using wf by (cases "tcOptions seg") simp_all
  show ?thesis
    unfolding decodeTCP_def Let_def at fields get nb off cond if_False body fl opts by simp
qed

text \<open>An IPv4 packet without fragmentation, then an Ethernet II frame with trailing padding.  The
  fields the dissector does not read (type of service, identification, checksums, MAC addresses) are
  arbitrary.\<close>

record ip4_header =
  ipTos :: byte
  ipIdent :: bytes
  ipTTL :: byte
  ipChecksum :: bytes
  ipSrcAddr :: u32
  ipDstAddr :: u32
  ipOptions :: bytes

definition wf_ip4 :: "ip4_header \<Rightarrow> bytes \<Rightarrow> bool" where
  "wf_ip4 h payload \<longleftrightarrow> length (ipIdent h) = 2 \<and> length (ipChecksum h) = 2
     \<and> length (ipOptions h) mod 4 = 0 \<and> length (ipOptions h) \<le> 40
     \<and> 20 + length (ipOptions h) + length payload < 65536"

definition ip4_wire :: "ip4_header \<Rightarrow> byte \<Rightarrow> bytes \<Rightarrow> bytes" where
  "ip4_wire h proto payload =
     ([word_of_nat (69 + length (ipOptions h) div 4), ipTos h]
     @ put_be16 (word_of_nat (20 + length (ipOptions h) + length payload)) @ ipIdent h @ put_be16 0x4000
     @ [ipTTL h, proto] @ ipChecksum h @ put_be32 (ipSrcAddr h) @ put_be32 (ipDstAddr h))
     @ ipOptions h @ payload"

lemma version_byte:
  assumes "n \<le> 10"
  shows "drop_bit 4 (word_of_nat (69 + n) :: byte) = 4 \<and>
    unat ((word_of_nat (69 + n) :: byte) AND 0x0F) = 5 + n"
proof -
  have "n \<in> {0,1,2,3,4,5,6,7,8,9,10}"
    using assms by (simp only: insert_iff empty_iff) presburger
  then show ?thesis by (elim insertE emptyE) simp_all
qed

lemma put_be32_addr: "AddrFrom4 (put_be32 w) = IPv4Addr w"
  using unat_u32_less [of w] by (simp add: AddrFrom4_def put_be32_def)

definition ip4_frame :: "frame \<Rightarrow> ip4_header \<Rightarrow> byte \<Rightarrow> frame" where
  "ip4_frame f h proto = f\<lparr>frNet := NetIPv4, frTTL := ipTTL h, frIPProto := proto,
     frSrc := IPv4Addr (ipSrcAddr h), frDst := IPv4Addr (ipDstAddr h), frFragOffset := 0,
     frFragmented := False\<rparr>"

lemma decodeIPv4_wire:
  assumes "wf_ip4 h payload"
  shows "decodeIPv4 f (ip4_wire h proto payload @ padding) = decodeTransport (ip4_frame f h proto) payload"
proof -
  note wf = assms [unfolded wf_ip4_def]
  let ?n = "length (ipOptions h) div 4"
  let ?b = "ip4_wire h proto payload @ padding"
  let ?total = "20 + length (ipOptions h) + length payload"
  have n: "?n \<le> 10" "?n * 4 = length (ipOptions h)" using wf by auto
  have len20: "20 \<le> length ?b" using wf by (simp add: ip4_wire_def)
  have at: "?b ! 0 = word_of_nat (69 + ?n)" "?b ! 8 = ipTTL h" "?b ! 9 = proto"
    using wf by (simp_all add: ip4_wire_def nth_append)
  have fields: "subslice ?b 2 4 = put_be16 (word_of_nat ?total)" "subslice ?b 6 8 = put_be16 0x4000"
    "subslice ?b 12 16 = put_be32 (ipSrcAddr h)" "subslice ?b 16 20 = put_be32 (ipDstAddr h)"
    using wf by (simp_all add: ip4_wire_def subslice_def)
  have get: "be_u16 (put_be16 v) = v" for v
    using be_u16_put [of v "[]"] by simp
  have tot: "unat (word_of_nat ?total :: u16) = ?total"
    using wf unat_u16_of_nat [of ?total] by (simp del: of_nat_add)
  have len: "length ?b = ?total + length padding" using wf by (simp add: ip4_wire_def)
  have ihl: "unat (?b ! 0 AND 0x0F) * 4 = 20 + length (ipOptions h)" "drop_bit 4 (?b ! 0) = 4"
    using version_byte [OF n(1)] n(2) at(1) by simp_all
  have "\<exists>hdr. ?b = (hdr @ ipOptions h @ payload) @ padding \<and> length hdr = 20"
    unfolding ip4_wire_def by (intro exI conjI, rule refl) (use wf in simp)
  then obtain hdr where hdr: "?b = (hdr @ ipOptions h @ payload) @ padding" "length hdr = 20" by blast
  have body: "subslice ?b (20 + length (ipOptions h)) ?total = payload"
    "subslice ?b (20 + length (ipOptions h)) (length ?b) = payload @ padding"
    using hdr(2) unfolding hdr(1) by (simp_all add: subslice_def)
  show ?thesis
    unfolding decodeIPv4_def Let_def ihl fields get tot put_be32_addr
    using len20 len body at by (auto simp: ip4_frame_def)
qed

definition eth_wire :: "bytes \<Rightarrow> u16 \<Rightarrow> bytes \<Rightarrow> bytes" where
  "eth_wire macs et payload = (macs @ put_be16 et) @ payload"

lemma Decode_eth:
  assumes "length macs = 12"
  shows "Decode LinkTypeEthernet (eth_wire macs etherTypeIPv4 rest) =
    decodeIPv4 ((fresh_frame LinkTypeEthernet (eth_wire macs etherTypeIPv4 rest))
      \<lparr>frEtherType := etherTypeIPv4\<rparr>) rest"
proof -
  let ?b = "eth_wire macs etherTypeIPv4 rest"
  have "14 \<le> length ?b" "drop 14 ?b = rest" "subslice ?b 12 14 = put_be16 etherTypeIPv4"
    using assms by (simp_all add: eth_wire_def subslice_def)
  moreover have "be_u16 (put_be16 etherTypeIPv4) = etherTypeIPv4"
    using be_u16_put [of _ "[]"] by simp
  moreover have "frLinkType (fresh_frame LinkTypeEthernet ?b) = LinkTypeEthernet"
    by (simp add: fresh_frame_def)
  moreover have "vlan_loop 3 f etherTypeIPv4 rest = Inr (f, etherTypeIPv4, rest)" for f
    using vlan_loop.simps(2) [of 2] by (simp add: ether_types numeral_3_eq_3)
  ultimately show ?thesis
    by (simp add: Decode_def decodeLink_def decodeEthernet_def afterEtherType_def decodeNetwork_def)
qed

section \<open>Properties\<close>

text \<open>C37: an Ethernet frame carrying an unfragmented IPv4 packet with a TCP segment is dissected into
  exactly that segment, from the addresses in the IP header; bytes after the IP total length (Ethernet
  padding) never become payload, and a packet the capture kept whole is not marked truncated.\<close>

theorem DecodePacket_wire:
  assumes "wf_segment seg" "length tail4 = 4" "length macs = 12" "wf_ip4 h (tcp_wire seg tail4)"
    and "pkLinkType p = LinkTypeEthernet"
    and "pkData p = eth_wire macs etherTypeIPv4 (ip4_wire h ipProtoTCP (tcp_wire seg tail4) @ padding)"
  shows "\<exists>f. DecodePacket p = Inr f \<and> frTCP f = Some seg \<and> frIndex f = pkIndex p \<and>
    frSrc f = IPv4Addr (ipSrcAddr h) \<and> frDst f = IPv4Addr (ipDstAddr h) \<and> \<not> frFragmented f \<and>
    frTruncated f = packet_truncated p"
  using decodeTCP_wire [OF assms(1,2)] assms(5,6) decodeIPv4_wire [OF assms(4)] Decode_eth [OF assms(3)]
  by (auto simp: DecodePacket_def decodeTransport_def ip4_frame_def fresh_frame_def Let_def)

definition sample_segment :: tcpSegment where
  "sample_segment = \<lparr>tcSrcPort = 40000, tcDstPort = 802, tcSeq = 1000, tcAck = 5, tcFlags = 24,
     tcWindow = 512, tcHeaderLen = 24, tcOptions = [1, 1, 1, 0], tcPayload = [0xDE, 0xAD]\<rparr>"

definition sample_ip4 :: ip4_header where
  "sample_ip4 = \<lparr>ipTos = 0, ipIdent = [0, 1], ipTTL = 64, ipChecksum = [0, 0],
     ipSrcAddr = 0x0A000001, ipDstAddr = 0x0A000002, ipOptions = []\<rparr>"

definition sample_capture :: packet where
  "sample_capture = \<lparr>pkIndex = 1, pkTime = zero_time, pkLinkType = LinkTypeEthernet,
     pkInterface = 0, pkOrigLen = 64,
     pkData = eth_wire (replicate 12 0) etherTypeIPv4
       (ip4_wire sample_ip4 ipProtoTCP (tcp_wire sample_segment [0, 0, 0, 0]) @ [0, 0])\<rparr>"

theorem DecodePacket_wire_witness:
  "\<exists>f. DecodePacket sample_capture = Inr f \<and> frTCP f = Some sample_segment \<and> frIndex f = 1 \<and>
    frSrc f = IPv4Addr 0x0A000001 \<and> frDst f = IPv4Addr 0x0A000002 \<and> \<not> frFragmented f"
proof -
  have "wf_segment sample_segment" by (simp add: wf_segment_def sample_segment_def)
  moreover have "wf_ip4 sample_ip4 (tcp_wire sample_segment [0, 0, 0, 0])"
    by (simp add: wf_ip4_def sample_ip4_def tcp_wire_def sample_segment_def)
  ultimately show ?thesis
    using DecodePacket_wire [of sample_segment "[0, 0, 0, 0]" "replicate 12 0" sample_ip4
        sample_capture "[0, 0]"]
    by (simp add: sample_capture_def) (auto simp: sample_ip4_def)
qed

text \<open>Whatever the bytes, a dissected TCP or UDP header and its payload come from a contiguous run
  of the captured packet, read at the offsets of the protocol; no frame has both; and an IP fragment
  never yields a transport header, so a fragment can never be fed to reassembly as a segment.\<close>

lemma DecodePacket_sound:
  assumes "DecodePacket p = Inr f"
  shows "sound_frame (pkData p) f \<and> frIndex f = pkIndex p"
proof -
  obtain g where "Decode (pkLinkType p) (pkData p) = Inr g"
    using assms by (auto simp: DecodePacket_def split: sum.splits)
  then show ?thesis
    using Decode_sound assms
    by (auto simp: DecodePacket_def sound_frame_def Let_def split: if_splits)
qed

end
