(* ===== verification/Go_Prelude.thy ===== *)
theory Go_Prelude
  imports Bytes_Prelude
begin

text \<open>
  The two routines of Go's \<^verbatim>\<open>sort\<close> package the evidence engine calls, and the
  arithmetic of sequence numbers.  \<^verbatim>\<open>sort.Search\<close> is the binary search of the standard library,
  written out; \<^verbatim>\<open>sort.Slice\<close> on pairwise different keys has one possible result, the sorted list.
\<close>

section \<open>Binary search\<close>

function search_loop :: "(nat \<Rightarrow> bool) \<Rightarrow> nat \<Rightarrow> nat \<Rightarrow> nat" where
  "search_loop f i j =
    (if i < j then
       let h = (i + j) div 2
       in if \<not> f h then search_loop f (h + 1) j else search_loop f i h
     else i)"
  by pat_completeness auto
termination by (relation "measure (\<lambda>(f, i, j). j - i)") auto

declare search_loop.simps [simp del]

definition search :: "nat \<Rightarrow> (nat \<Rightarrow> bool) \<Rightarrow> nat" where
  "search n f = search_loop f 0 n"

text \<open>On a predicate that stays true once it is true, the search returns the least index where it
  holds, or \<^verbatim>\<open>n\<close>.\<close>

lemma search_loop_le: "i \<le> j \<Longrightarrow> search_loop f i j \<le> j"
proof (induction f i j rule: search_loop.induct)
  case (1 f i j)
  have "i < j \<Longrightarrow> i \<le> (i + j) div 2" "i < j \<Longrightarrow> (i + j) div 2 \<le> j" by simp_all
  with "1.IH" "1.prems" show ?case
    by (subst search_loop.simps) (auto simp: Let_def intro: order_trans [of _ "(i + j) div 2"])
qed

lemma search_le: "search n f \<le> n"
  by (simp add: search_def search_loop_le)

lemma search_loop_least:
  assumes "\<forall>a b. a \<le> b \<longrightarrow> b < n \<longrightarrow> f a \<longrightarrow> f b" "i \<le> j" "j \<le> n"
    "\<forall>h < i. \<not> f h" "\<forall>h. j \<le> h \<longrightarrow> h < n \<longrightarrow> f h"
  shows "(\<forall>h < search_loop f i j. \<not> f h) \<and> (\<forall>h. search_loop f i j \<le> h \<longrightarrow> h < n \<longrightarrow> f h)"
  using assms
proof (induction f i j rule: search_loop.induct)
  case (1 f i j)
  let ?h = "(i + j) div 2"
  show ?case
  proof (cases "i < j")
    case False
    with "1.prems" have ij: "i = j" by simp
    then have "search_loop f i j = j" by (subst search_loop.simps) simp
    with ij "1.prems" show ?thesis by simp
  next
    case ij: True
    then have h: "?h < n" "i \<le> ?h" "?h < j" using "1.prems"(3) by auto
    show ?thesis
    proof (cases "f ?h")
      case False
      have nf: "\<forall>x < ?h + 1. \<not> f x"
        using "1.prems"(1) h(1) False by (auto simp: less_Suc_eq_le)
      have eq: "search_loop f i j = search_loop f (?h + 1) j"
        using ij False by (simp add: search_loop.simps [of f i j] Let_def)
      have le: "?h + 1 \<le> j" using h(3) by simp
      show ?thesis
        unfolding eq by (rule "1.IH"(1) [OF ij refl False "1.prems"(1) le "1.prems"(3) nf "1.prems"(5)])
    next
      case True
      have up: "\<forall>x. ?h \<le> x \<longrightarrow> x < n \<longrightarrow> f x" using "1.prems"(1) True by blast
      have eq: "search_loop f i j = search_loop f i ?h"
        using ij True by (simp add: search_loop.simps [of f i j] Let_def)
      have le: "?h \<le> n" using h(1) by simp
      have nn: "\<not> \<not> f ?h" using True by blast
      show ?thesis
        unfolding eq by (rule "1.IH"(2) [OF ij refl nn "1.prems"(1) h(2) le "1.prems"(4) up])
    qed
  qed
qed

lemma search_least:
  assumes "\<And>a b. a \<le> b \<Longrightarrow> b < n \<Longrightarrow> f a \<Longrightarrow> f b"
  shows "h < search n f \<Longrightarrow> \<not> f h" "search n f \<le> h \<Longrightarrow> h < n \<Longrightarrow> f h"
  using search_loop_least [of n f 0 n] assms by (simp_all add: search_def)

text \<open>The index found satisfies the predicate whatever the predicate is; and two facts determine it.\<close>

lemma search_loop_hit: "i \<le> j \<Longrightarrow> search_loop f i j = j \<or> f (search_loop f i j)"
proof (induction f i j rule: search_loop.induct)
  case (1 f i j)
  have "i < j \<Longrightarrow> i \<le> (i + j) div 2" by simp
  with "1.IH" "1.prems" show ?case
    by (subst (1 2) search_loop.simps) (auto simp: Let_def)
qed

lemma search_hit: "search n f < n \<Longrightarrow> f (search n f)"
  using search_loop_hit [of 0 n f] by (auto simp: search_def)

lemma search_eqI:
  assumes "k \<le> n" "\<And>h. h < k \<Longrightarrow> \<not> f h" "\<And>h. k \<le> h \<Longrightarrow> h < n \<Longrightarrow> f h"
  shows "search n f = k"
proof -
  have mono: "\<forall>a b. a \<le> b \<longrightarrow> b < n \<longrightarrow> f a \<longrightarrow> f b"
    using assms(2,3) by (meson leI le_trans)
  have least: "\<forall>h < search n f. \<not> f h"
    using search_loop_least [of n f 0 n] mono by (simp add: search_def)
  have "\<not> search n f < k" using search_hit [of n f] assms(1,2) by (meson less_le_trans)
  moreover have "\<not> k < search n f"
    using least assms(3) [of k] search_le [of n f] by (meson le_refl less_le_trans)
  ultimately show ?thesis by simp
qed

section \<open>Sorting by a key\<close>

lemma sorted_wrt_sym_insort:
  assumes "\<And>a b. R a b \<Longrightarrow> R b a"
  shows "sorted_wrt R (insort_key f x xs) \<longleftrightarrow> sorted_wrt R (x # xs)"
  using assms by (induction xs) (auto simp: set_insort_key)

lemma sorted_wrt_sym_sort:
  assumes "\<And>a b. R a b \<Longrightarrow> R b a"
  shows "sorted_wrt R (sort_key f xs) \<longleftrightarrow> sorted_wrt R xs"
  using sorted_wrt_sym_insort [of R, OF assms] by (induction xs) auto

lemma sum_list_insort_key:
  fixes g :: "'a \<Rightarrow> 'b :: comm_monoid_add"
  shows "sum_list (map g (insort_key f x xs)) = g x + sum_list (map g xs)"
  by (induction xs) (auto simp: add.left_commute)

lemma sum_list_sort_key:
  fixes g :: "'a \<Rightarrow> 'b :: comm_monoid_add"
  shows "sum_list (map g (sort_key f xs)) = sum_list (map g xs)"
  by (induction xs) (auto simp: sum_list_insort_key)

section \<open>Random draws\<close>

text \<open>A seeded generator of \<^verbatim>\<open>math/rand\<close>, as the operations the code calls on it; its algorithm is not
  modelled.\<close>

type_synonym i64 = "64 word"

record 'g generator =
  gnSource :: "i64 \<Rightarrow> 'g"
  gnInt63n :: "'g \<Rightarrow> int \<Rightarrow> int \<times> 'g"
  gnInt31n :: "'g \<Rightarrow> nat \<Rightarrow> nat \<times> 'g"

text \<open>The documented behaviour of the generator: a draw below a positive bound stays in its range.\<close>

definition gen_ok :: "'g generator \<Rightarrow> bool" where
  "gen_ok gen \<longleftrightarrow> (\<forall>g n. 0 < n \<longrightarrow> 0 \<le> fst (gnInt63n gen g n) \<and> fst (gnInt63n gen g n) < n) \<and>
     (\<forall>g n. 0 < n \<longrightarrow> fst (gnInt31n gen g n) < n)"

text \<open>A generator for the witnesses: it counts up.\<close>

definition counting :: "nat generator" where
  "counting = \<lparr>gnSource = unat, gnInt63n = (\<lambda>g n. (int g mod n, Suc g)), gnInt31n = (\<lambda>g n. (g mod n, Suc g))\<rparr>"

lemma gen_ok_counting: "gen_ok counting"
  by (simp add: gen_ok_def counting_def)

end
