(* ===== verification/Netdis_Reassembly.thy ===== *)
theory Netdis_Reassembly
  imports Netdis_Dissect Go_Prelude
begin

text \<open>
  \<^verbatim>\<open>internal/evidence/netdis/reassembly.go\<close>: TCP reassembly.  Stream offsets, lengths and
  frame indices are natural numbers, the arguments the code lets go negative are integers, and sequence
  numbers are 32-bit words.  The \<^verbatim>\<open>Assembler\<close> shares its \<^verbatim>\<open>*Stream\<close> values between a map by endpoint
  pair, a list in first-seen order and a map by frame; here the list is the store and both maps hold
  positions in it.
\<close>

section \<open>Delivered bytes and the frames they came in\<close>

record overlap =
  ovOffset :: nat
  ovLength :: nat
  ovPacket :: nat
  ovKeptPacket :: nat
  ovConflict :: bool
  ovAlreadyGone :: bool

record run =
  rnStart :: nat
  rnPacket :: nat

record streamBytes =
  sbData :: bytes
  sbRuns :: "run list"

datatype range_error = OutsideStream int int nat

definition sb_len :: "streamBytes \<Rightarrow> nat" where "sb_len sb = length (sbData sb)"

definition Range :: "streamBytes \<Rightarrow> int \<Rightarrow> int \<Rightarrow> range_error + bytes" where
  "Range sb start end' =
    (if start < 0 \<or> end' < start \<or> end' > int (length (sbData sb))
     then Inl (OutsideStream start end' (length (sbData sb)))
     else Inr (subslice (sbData sb) (nat start) (nat end')))"

definition OffsetToPacket :: "streamBytes \<Rightarrow> int \<Rightarrow> nat" where
  "OffsetToPacket sb off =
    (if off < 0 \<or> off \<ge> int (length (sbData sb)) \<or> sbRuns sb = [] then 0
     else
       let i = search (length (sbRuns sb)) (\<lambda>i. int (rnStart (sbRuns sb ! i)) > off)
       in if i = 0 then 0 else rnPacket (sbRuns sb ! (i - 1)))"

function packets_loop :: "streamBytes \<Rightarrow> int \<Rightarrow> int \<Rightarrow> nat list \<Rightarrow> nat list" where
  "packets_loop sb end' off out =
    (if off < end' then
       let pkt = OffsetToPacket sb off
       in if pkt = 0 then out
          else
            let out1 = (if out = [] \<or> last out \<noteq> pkt then out @ [pkt] else out);
                i = search (length (sbRuns sb)) (\<lambda>i. int (rnStart (sbRuns sb ! i)) > off)
            in if i \<ge> length (sbRuns sb) then out1
               else packets_loop sb end' (int (rnStart (sbRuns sb ! i))) out1
     else out)"
  by pat_completeness auto
termination
proof (relation "measure (\<lambda>(sb, end', off, out). nat (end' - off))", goal_cases)
  case (2 sb end' off out pkt out1 i)
  then have "int (rnStart (sbRuns sb ! i)) > off"
    using search_hit [of "length (sbRuns sb)" "\<lambda>i. int (rnStart (sbRuns sb ! i)) > off"] by auto
  with 2 show ?case by auto
qed simp

declare packets_loop.simps [simp del]

definition PacketsFor :: "streamBytes \<Rightarrow> int \<Rightarrow> int \<Rightarrow> nat list" where
  "PacketsFor sb start end' =
    packets_loop sb (min end' (int (length (sbData sb)))) (max start 0) []"

definition sb_append :: "streamBytes \<Rightarrow> bytes \<Rightarrow> nat \<Rightarrow> streamBytes" where
  "sb_append sb data pkt =
    (if length data = 0 then sb
     else
       let runs = (if sbRuns sb = [] \<or> rnPacket (last (sbRuns sb)) \<noteq> pkt
                   then sbRuns sb @ [\<lparr>rnStart = length (sbData sb), rnPacket = pkt\<rparr>] else sbRuns sb)
       in \<lparr>sbData = sbData sb @ data, sbRuns = runs\<rparr>)"

section \<open>Pending segments\<close>

record pending =
  pnStart :: nat
  pnData :: bytes
  pnPacket :: nat

definition pnEnd :: "pending \<Rightarrow> nat" where "pnEnd p = pnStart p + length (pnData p)"

definition subtract :: "pending \<Rightarrow> pending \<Rightarrow> pending option \<times> pending option \<times> overlap option" where
  "subtract p held =
    (let lo = max (pnStart p) (pnStart held);
         hi = min (pnEnd p) (pnEnd held)
     in if lo \<ge> hi then (Some p, None, None)
        else
          let pOff = lo - pnStart p;
              hOff = lo - pnStart held;
              ov = \<lparr>ovOffset = lo, ovLength = hi - lo, ovPacket = pnPacket p, ovKeptPacket = pnPacket held,
                    ovConflict = (subslice (pnData p) pOff (pOff + hi - lo)
                                  \<noteq> subslice (pnData held) hOff (hOff + hi - lo)),
                    ovAlreadyGone = False\<rparr>;
              left = (if pnStart p < lo
                      then Some \<lparr>pnStart = pnStart p, pnData = take (lo - pnStart p) (pnData p),
                                 pnPacket = pnPacket p\<rparr> else None);
              right = (if pnEnd p > hi
                       then Some \<lparr>pnStart = hi, pnData = drop (hi - pnStart p) (pnData p),
                                  pnPacket = pnPacket p\<rparr> else None)
          in (left, right, Some ov))"

definition option_list :: "'a option \<Rightarrow> 'a list" where
  "option_list x = (case x of None \<Rightarrow> [] | Some y \<Rightarrow> [y])"

text \<open>The two nested loops of \<^verbatim>\<open>insert\<close>: every piece against one held segment, then against the
  next, stopping when no piece is left.\<close>

fun cut_one :: "pending \<Rightarrow> pending list \<Rightarrow> pending list \<times> overlap list" where
  "cut_one held [] = ([], [])"
| "cut_one held (p # ps) =
    (case subtract p held of (left, right, ov) \<Rightarrow>
     case cut_one held ps of (ps', ovs) \<Rightarrow>
       (option_list left @ option_list right @ ps', option_list ov @ ovs))"

fun cut_all :: "pending list \<Rightarrow> pending list \<Rightarrow> pending list \<times> overlap list" where
  "cut_all [] pieces = (pieces, [])"
| "cut_all (held # hs) pieces =
    (case cut_one held pieces of (nxt, ovs) \<Rightarrow>
       if nxt = [] then (nxt, ovs)
       else case cut_all hs nxt of (ps, ovs') \<Rightarrow> (ps, ovs @ ovs'))"

section \<open>One direction of a conversation\<close>

record direction =
  drFlow :: flowKey
  drBytes :: streamBytes
  drGen :: nat
  drSYNSeen :: bool
  drFINSeen :: bool
  drRSTSeen :: bool
  drMidStream :: bool
  drSegments :: nat
  drRetransmits :: nat
  drOutOfOrder :: nat
  drDroppedOOO :: nat
  drOutOfWindow :: nat
  drOverlaps :: "overlap list"
  drFirstPacket :: nat
  drLastPacket :: nat
  drPendingBytes :: int
  drPendingSegs :: "pending list"
  drExpectSeq :: u32
  drHaveExpect :: bool
  drMaxPendingCap :: int

definition HasConflictingOverlap :: "direction \<Rightarrow> bool" where
  "HasConflictingOverlap d \<longleftrightarrow> list_ex ovConflict (drOverlaps d)"

definition Complete :: "direction \<Rightarrow> bool" where
  "Complete d \<longleftrightarrow> length (drPendingSegs d) = 0"

definition PendingGap :: "direction \<Rightarrow> int" where "PendingGap d = drPendingBytes d"

function flush :: "direction \<Rightarrow> direction" where
  "flush d =
    (case drPendingSegs d of
       [] \<Rightarrow> d
     | p # ps \<Rightarrow>
         if pnStart p = sb_len (drBytes d) then
           flush (d\<lparr>drPendingSegs := ps, drPendingBytes := drPendingBytes d - int (length (pnData p)),
                    drBytes := sb_append (drBytes d) (pnData p) (pnPacket p),
                    drExpectSeq := drExpectSeq d + word_of_nat (length (pnData p))\<rparr>)
         else d)"
  by pat_completeness auto
termination by (relation "measure (\<lambda>d. length (drPendingSegs d))") auto

declare flush.simps [simp del]

fun buffer_pieces :: "direction \<Rightarrow> pending list \<Rightarrow> direction" where
  "buffer_pieces d [] = d"
| "buffer_pieces d (p # ps) =
    (if drPendingBytes d + int (length (pnData p)) > drMaxPendingCap d
     then buffer_pieces (d\<lparr>drDroppedOOO := drDroppedOOO d + 1\<rparr>) ps
     else buffer_pieces (d\<lparr>drPendingSegs := drPendingSegs d @ [p],
                           drPendingBytes := drPendingBytes d + int (length (pnData p))\<rparr>) ps)"

text \<open>The second half of \<^verbatim>\<open>insert\<close>: what is left of the segment beyond the delivered bytes is cut
  against the buffered segments, buffered, and flushed.\<close>

definition insert_beyond :: "direction \<Rightarrow> nat \<Rightarrow> bytes \<Rightarrow> nat \<Rightarrow> direction" where
  "insert_beyond d start data pkt =
    (let outOfOrder = start > sb_len (drBytes d);
         (pieces, ovs) = cut_all (drPendingSegs d) [\<lparr>pnStart = start, pnData = data, pnPacket = pkt\<rparr>];
         d1 = d\<lparr>drOverlaps := drOverlaps d @ ovs\<rparr>
     in if pieces = [] then d1\<lparr>drRetransmits := drRetransmits d + 1\<rparr>
        else
          let d2 = (if outOfOrder then d1\<lparr>drOutOfOrder := drOutOfOrder d + 1\<rparr> else d1);
              d3 = buffer_pieces d2 pieces
          in flush (d3\<lparr>drPendingSegs := sort_key pnStart (drPendingSegs d3)\<rparr>))"

text \<open>The first half, for a start that is not negative: the part overlapping delivered bytes is
  recorded and cut off.\<close>

definition insert_at :: "direction \<Rightarrow> nat \<Rightarrow> bytes \<Rightarrow> nat \<Rightarrow> direction" where
  "insert_at d start data pkt =
    (let delivered = sb_len (drBytes d)
     in if start < delivered then
          let n = min (delivered - start) (length data);
              old = subslice (sbData (drBytes d)) start (start + n);
              d1 = d\<lparr>drOverlaps := drOverlaps d @
                     [\<lparr>ovOffset = start, ovLength = n, ovPacket = pkt,
                       ovKeptPacket = OffsetToPacket (drBytes d) (int start),
                       ovConflict = (old \<noteq> take n data), ovAlreadyGone = True\<rparr>]\<rparr>
          in if n = length data then d1\<lparr>drRetransmits := drRetransmits d + 1\<rparr>
             else insert_beyond d1 delivered (drop n data) pkt
        else insert_beyond d start data pkt)"

definition dir_insert :: "direction \<Rightarrow> int \<Rightarrow> bytes \<Rightarrow> nat \<Rightarrow> direction" where
  "dir_insert d start data pkt =
    (if start < 0 then
       if start + int (length data) \<le> 0 then d\<lparr>drRetransmits := drRetransmits d + 1\<rparr>
       else insert_at d 0 (drop (nat (- start)) data) pkt
     else insert_at d (nat start) data pkt)"

definition seqDelta :: "u32 \<Rightarrow> u32 \<Rightarrow> int" where "seqDelta s base = sint (s - base)"

definition maxSeqJump :: int where "maxSeqJump = 2 ^ 30"

definition note_flags :: "direction \<Rightarrow> tcpSegment \<Rightarrow> nat \<Rightarrow> direction" where
  "note_flags d seg idx =
    (let d1 = d\<lparr>drFirstPacket := (if drFirstPacket d = 0 then idx else drFirstPacket d),
                drLastPacket := idx,
                drRSTSeen := drRSTSeen d \<or> tcFlags seg AND RST \<noteq> 0,
                drFINSeen := drFINSeen d \<or> tcFlags seg AND FIN \<noteq> 0\<rparr>
     in if tcFlags seg AND SYN \<noteq> 0 then
          (if drHaveExpect d1 then d1\<lparr>drSYNSeen := True\<rparr>
           else d1\<lparr>drExpectSeq := tcSeq seg + 1, drHaveExpect := True, drSYNSeen := True\<rparr>)
        else d1)"

definition anchor_stream :: "direction \<Rightarrow> tcpSegment \<Rightarrow> direction" where
  "anchor_stream d seg =
    (if drHaveExpect d then d
     else d\<lparr>drExpectSeq := tcSeq seg, drHaveExpect := True, drMidStream := True\<rparr>)"

definition dir_add :: "direction \<Rightarrow> tcpSegment \<Rightarrow> nat \<Rightarrow> direction" where
  "dir_add d seg idx =
    (let d1 = note_flags d seg idx
     in if length (tcPayload seg) = 0 then d1
        else
          let d3 = anchor_stream (d1\<lparr>drSegments := drSegments d1 + 1\<rparr>) seg;
              delta = seqDelta (tcSeq seg) (drExpectSeq d3);
              start = int (sb_len (drBytes d3)) + delta
          in if delta > maxSeqJump \<or> delta < - maxSeqJump
             then d3\<lparr>drOutOfWindow := drOutOfWindow d3 + 1\<rparr>
             else dir_insert d3 start (tcPayload seg) idx)"

section \<open>The assembler\<close>

record stream =
  stKey :: streamKey
  stGen :: nat
  stDirs :: "direction list"
  stFirst :: nat
  stLast :: nat
  stSynSeen :: bool
  stSynSeq :: u32

record assembler =
  asCurrent :: "streamKey \<rightharpoonup> nat"
  asAll :: "stream list"
  asOwner :: "nat \<rightharpoonup> nat"
  asMaxPending :: int

definition DefaultMaxPending :: int where "DefaultMaxPending = 8 * 2 ^ 20"

definition InstanceKey :: "stream \<Rightarrow> streamKey \<times> nat" where
  "InstanceKey s = (stKey s, stGen s)"

definition stream_dir :: "stream \<Rightarrow> endpoint \<Rightarrow> direction" where
  "stream_dir s src = (if src = skA (stKey s) then stDirs s ! 0 else stDirs s ! 1)"

definition ByFlow :: "stream \<Rightarrow> flowKey \<Rightarrow> direction" where
  "ByFlow s f = stDirs s ! DirIndex (stKey s) f"

definition NewAssembler :: assembler where
  "NewAssembler = \<lparr>asCurrent = Map.empty, asAll = [], asOwner = Map.empty, asMaxPending = 0\<rparr>"

definition maxPending :: "assembler \<Rightarrow> int" where
  "maxPending a = (if asMaxPending a > 0 then asMaxPending a else DefaultMaxPending)"

definition new_direction :: "flowKey \<Rightarrow> nat \<Rightarrow> int \<Rightarrow> direction" where
  "new_direction flow gen cap =
    \<lparr>drFlow = flow, drBytes = \<lparr>sbData = [], sbRuns = []\<rparr>, drGen = gen, drSYNSeen = False,
     drFINSeen = False, drRSTSeen = False, drMidStream = False, drSegments = 0, drRetransmits = 0,
     drOutOfOrder = 0, drDroppedOOO = 0, drOutOfWindow = 0, drOverlaps = [], drFirstPacket = 0,
     drLastPacket = 0, drPendingBytes = 0, drPendingSegs = [], drExpectSeq = 0, drHaveExpect = False,
     drMaxPendingCap = cap\<rparr>"

definition new_stream :: "streamKey \<Rightarrow> nat \<Rightarrow> int \<Rightarrow> nat \<Rightarrow> stream" where
  "new_stream key gen cap idx =
    \<lparr>stKey = key, stGen = gen,
     stDirs = [new_direction (Flow key 0) gen cap, new_direction (Flow key 1) gen cap],
     stFirst = idx, stLast = 0, stSynSeen = False, stSynSeq = 0\<rparr>"

definition bare_syn :: "tcpSegment \<Rightarrow> bool" where
  "bare_syn seg \<longleftrightarrow> tcFlags seg AND SYN \<noteq> 0 \<and> tcFlags seg AND ACK = 0"

text \<open>The part of \<^verbatim>\<open>AddFrame\<close> that finds the conversation, or opens a new generation of it.\<close>

definition find_stream :: "assembler \<Rightarrow> streamKey \<Rightarrow> tcpSegment \<Rightarrow> nat \<Rightarrow> assembler \<times> nat" where
  "find_stream a key seg idx =
    (let open_new = (\<lambda>gen.
           (a\<lparr>asCurrent := (asCurrent a)(key \<mapsto> length (asAll a)),
              asAll := asAll a @ [new_stream key gen (maxPending a) idx]\<rparr>, length (asAll a)))
     in case asCurrent a key of
          None \<Rightarrow> open_new 0
        | Some i \<Rightarrow>
            let st = asAll a ! i
            in if bare_syn seg \<and> stSynSeen st \<and> tcSeq seg \<noteq> stSynSeq st
               then open_new (stGen st + 1) else (a, i))"

definition stream_add :: "stream \<Rightarrow> flowKey \<Rightarrow> tcpSegment \<Rightarrow> nat \<Rightarrow> stream" where
  "stream_add st flow seg idx =
    (let st1 = (if bare_syn seg \<and> \<not> stSynSeen st
                then st\<lparr>stSynSeen := True, stSynSeq := tcSeq seg\<rparr> else st);
         j = DirIndex (stKey st) flow
     in st1\<lparr>stLast := idx, stDirs := (stDirs st1)[j := dir_add (stDirs st1 ! j) seg idx]\<rparr>)"

definition AddFrame :: "assembler \<Rightarrow> frame \<Rightarrow> assembler" where
  "AddFrame a f =
    (case frTCP f of
       None \<Rightarrow> a
     | Some seg \<Rightarrow>
         if frFragmented f then a
         else
           case frame_flow f of
             None \<Rightarrow> a
           | Some flow \<Rightarrow>
               (case find_stream a (Stream flow) seg (frIndex f) of
                  (a1, i) \<Rightarrow>
                    a1\<lparr>asOwner := (asOwner a1)(frIndex f \<mapsto> i),
                       asAll := (asAll a1)[i := stream_add (asAll a1 ! i) flow seg (frIndex f)]\<rparr>))"

definition AddPacket :: "assembler \<Rightarrow> packet \<Rightarrow> (dissect_error + frame) \<times> assembler" where
  "AddPacket a p =
    (case DecodePacket p of
       Inl e \<Rightarrow> (Inl e, a)
     | Inr f \<Rightarrow> (Inr f, AddFrame a f))"

definition stream_lookup :: "assembler \<Rightarrow> streamKey \<Rightarrow> stream option" where
  "stream_lookup a k = map_option (\<lambda>i. asAll a ! i) (asCurrent a k)"

definition StreamFor :: "assembler \<Rightarrow> nat \<Rightarrow> stream option" where
  "StreamFor a idx = map_option (\<lambda>i. asAll a ! i) (asOwner a idx)"

definition FindPort :: "assembler \<Rightarrow> u16 \<Rightarrow> stream list" where
  "FindPort a port = filter (\<lambda>st. epPort (skA (stKey st)) = port \<or> epPort (skB (stKey st)) = port) (asAll a)"

section \<open>Cells: what has been claimed, by whom\<close>

text \<open>The abstract state of a direction is a set of cells: an offset, the byte claimed for it and the
  frame that claimed it.  It is what reassembly is about; runs, buffers and sort orders are not.\<close>

type_synonym cell = "nat \<times> byte \<times> nat"

definition cells_of :: "nat \<Rightarrow> bytes \<Rightarrow> nat \<Rightarrow> cell set" where
  "cells_of start data pkt = (\<lambda>i. (start + i, data ! i, pkt)) ` {..<length data}"

definition pend_cells :: "pending \<Rightarrow> cell set" where
  "pend_cells p = cells_of (pnStart p) (pnData p) (pnPacket p)"

definition list_cells :: "pending list \<Rightarrow> cell set" where
  "list_cells ps = (\<Union>p \<in> set ps. pend_cells p)"

definition sb_cells :: "streamBytes \<Rightarrow> cell set" where
  "sb_cells sb = (\<lambda>i. (i, sbData sb ! i, OffsetToPacket sb (int i))) ` {..<length (sbData sb)}"

definition dir_cells :: "direction \<Rightarrow> cell set" where
  "dir_cells d = sb_cells (drBytes d) \<union> list_cells (drPendingSegs d)"

definition span :: "pending \<Rightarrow> nat set" where "span p = {pnStart p..<pnEnd p}"

named_theorems cell_simps

lemma list_cells_simps [cell_simps]:
  "list_cells [] = {}" "list_cells (p # ps) = pend_cells p \<union> list_cells ps"
  "list_cells (ps @ qs) = list_cells ps \<union> list_cells qs"
  by (auto simp: list_cells_def)

lemma list_cells_sort [cell_simps]: "list_cells (sort_key f ps) = list_cells ps"
  by (simp add: list_cells_def)

lemma cells_of_iff [cell_simps]:
  "(o', b, k) \<in> cells_of start data pkt \<longleftrightarrow>
     start \<le> o' \<and> o' < start + length data \<and> b = data ! (o' - start) \<and> k = pkt"
proof
  assume r: "start \<le> o' \<and> o' < start + length data \<and> b = data ! (o' - start) \<and> k = pkt"
  then have "(o', b, k) = (\<lambda>i. (start + i, data ! i, pkt)) (o' - start)" by simp
  moreover have "o' - start \<in> {..<length data}" using r by auto
  ultimately show "(o', b, k) \<in> cells_of start data pkt" unfolding cells_of_def by blast
qed (auto simp: cells_of_def)

lemma sb_cells_iff [cell_simps]:
  "(o', b, k) \<in> sb_cells sb \<longleftrightarrow>
     o' < length (sbData sb) \<and> b = sbData sb ! o' \<and> k = OffsetToPacket sb (int o')"
  by (auto simp: sb_cells_def)

lemma fst_pend_cells [cell_simps]: "fst ` pend_cells p = span p"
  by (simp add: pend_cells_def span_def pnEnd_def cells_of_def image_image lessThan_atLeast0 add.commute)

lemma fst_list_cells [cell_simps]: "fst ` list_cells ps = (\<Union>p \<in> set ps. span p)"
  by (simp add: list_cells_def image_UN cell_simps)

lemma fst_sb_cells [cell_simps]: "fst ` sb_cells sb = {..<length (sbData sb)}"
  by (auto simp: sb_cells_def image_image)

lemma cells_of_take: "n \<le> length data \<Longrightarrow>
    cells_of start (take n data) pkt = {c \<in> cells_of start data pkt. fst c < start + n}"
  by (auto simp: cell_simps)

lemma cells_of_drop: "n \<le> length data \<Longrightarrow>
    cells_of (start + n) (drop n data) pkt = {c \<in> cells_of start data pkt. start + n \<le> fst c}"
  by (auto simp: cell_simps)

section \<open>The offset map\<close>

definition sb_ok :: "streamBytes \<Rightarrow> bool" where
  "sb_ok sb \<longleftrightarrow> sorted_wrt (<) (map rnStart (sbRuns sb)) \<and> (sbRuns sb = [] \<longleftrightarrow> sbData sb = [])
     \<and> (sbRuns sb \<noteq> [] \<longrightarrow> rnStart (hd (sbRuns sb)) = 0)
     \<and> (\<forall>r \<in> set (sbRuns sb). rnStart r < length (sbData sb) \<and> rnPacket r \<noteq> 0)"

abbreviation runs_upto :: "streamBytes \<Rightarrow> nat \<Rightarrow> run list" where
  "runs_upto sb off \<equiv> takeWhile (\<lambda>r. rnStart r \<le> off) (sbRuns sb)"

lemma search_runs:
  assumes "sorted_wrt (<) (map rnStart rs)"
  shows "search (length rs) (\<lambda>i. int (rnStart (rs ! i)) > int off) =
    length (takeWhile (\<lambda>r. rnStart r \<le> off) rs)" (is "_ = length ?t")
proof (rule search_eqI)
  show "length ?t \<le> length rs" by (rule length_takeWhile_le)
  fix h
  show "h < length ?t \<Longrightarrow> \<not> int (rnStart (rs ! h)) > int off"
    using nth_mem [of h ?t] takeWhile_nth [of h _ rs] by (metis not_le of_nat_le_iff set_takeWhileD)
  assume h: "length ?t \<le> h" "h < length rs"
  then have lt: "length ?t < length rs" by simp
  have "off < rnStart (rs ! length ?t)" using nth_length_takeWhile [OF lt] by simp
  also have "\<dots> \<le> rnStart (rs ! h)"
    using assms h by (cases "length ?t < h") (auto simp: sorted_wrt_iff_nth_less intro: less_imp_le)
  finally show "int (rnStart (rs ! h)) > int off" by simp
qed

lemma runs_upto_nonempty: "sb_ok sb \<Longrightarrow> off < length (sbData sb) \<Longrightarrow> runs_upto sb off \<noteq> []"
  by (cases "sbRuns sb") (auto simp: sb_ok_def)

lemma OffsetToPacket_last:
  assumes "sb_ok sb" "off < length (sbData sb)"
  shows "OffsetToPacket sb (int off) = rnPacket (last (runs_upto sb off))"
proof -
  let ?t = "runs_upto sb off"
  have ne: "?t \<noteq> []" using runs_upto_nonempty assms by simp
  have "sbRuns sb ! (length ?t - 1) = last ?t"
    using ne by (simp add: last_conv_nth takeWhile_nth)
  moreover have "sbRuns sb \<noteq> []" using ne by auto
  ultimately show ?thesis
    using assms ne search_runs [of "sbRuns sb" off]
    by (simp add: OffsetToPacket_def sb_ok_def Let_def)
qed

lemma OffsetToPacket_pos:
  assumes "sb_ok sb" "off < length (sbData sb)"
  shows "OffsetToPacket sb (int off) \<noteq> 0"
proof -
  have "last (runs_upto sb off) \<in> set (sbRuns sb)"
    using runs_upto_nonempty [OF assms] last_in_set set_takeWhileD by metis
  then show ?thesis using OffsetToPacket_last [OF assms] assms(1) by (simp add: sb_ok_def)
qed

lemma sb_append_ok: "sb_ok sb \<Longrightarrow> pkt \<noteq> 0 \<Longrightarrow> sb_ok (sb_append sb data pkt)"
  by (auto simp: sb_ok_def sb_append_def sorted_wrt_append Let_def)

lemma sb_append_data [simp]: "sbData (sb_append sb data pkt) = sbData sb @ data"
  by (simp add: sb_append_def Let_def)

lemma takeWhile_none_append: "\<forall>x \<in> set ys. \<not> P x \<Longrightarrow> takeWhile P (xs @ ys) = takeWhile P xs"
  by (induction xs) (auto simp: takeWhile_eq_Nil_iff)

lemma sb_append_runs: "\<exists>ext. sbRuns (sb_append sb data pkt) = sbRuns sb @ ext \<and>
    (\<forall>r \<in> set ext. rnStart r = length (sbData sb))"
  by (auto simp: sb_append_def Let_def)

lemma sb_append_last: "data \<noteq> [] \<Longrightarrow> sbRuns (sb_append sb data pkt) \<noteq> [] \<and>
    rnPacket (last (sbRuns (sb_append sb data pkt))) = pkt"
  by (auto simp: sb_append_def Let_def)

lemma OffsetToPacket_append:
  assumes "sb_ok sb" "pkt \<noteq> 0" "off < length (sbData sb) + length data"
  shows "OffsetToPacket (sb_append sb data pkt) (int off) =
    (if off < length (sbData sb) then OffsetToPacket sb (int off) else pkt)"
proof -
  let ?sb = "sb_append sb data pkt"
  obtain ext where ext: "sbRuns ?sb = sbRuns sb @ ext"
    "\<forall>r \<in> set ext. rnStart r = length (sbData sb)" using sb_append_runs by blast
  have last: "OffsetToPacket ?sb (int off) = rnPacket (last (runs_upto ?sb off))"
    using OffsetToPacket_last [OF sb_append_ok] assms by simp
  show ?thesis
  proof (cases "off < length (sbData sb)")
    case True
    then have "runs_upto ?sb off = runs_upto sb off"
      unfolding ext(1) using ext(2) by (intro takeWhile_none_append) auto
    then show ?thesis using last True OffsetToPacket_last assms(1) by simp
  next
    case False
    then have "data \<noteq> []" using assms(3) by auto
    moreover have all: "runs_upto ?sb off = sbRuns ?sb"
      using assms(1) ext False by (auto simp: takeWhile_eq_all_conv sb_ok_def)
    ultimately show ?thesis using last [unfolded all] False sb_append_last by simp
  qed
qed

lemma sb_append_cells [cell_simps]:
  assumes "sb_ok sb" "pkt \<noteq> 0"
  shows "sb_cells (sb_append sb data pkt) = sb_cells sb \<union> cells_of (length (sbData sb)) data pkt"
proof (rule set_eqI)
  fix c :: cell
  obtain o' b k where c: "c = (o', b, k)" by (cases c)
  show "c \<in> sb_cells (sb_append sb data pkt) \<longleftrightarrow>
      c \<in> sb_cells sb \<union> cells_of (length (sbData sb)) data pkt"
    using OffsetToPacket_append [OF assms, of o' data]
    by (cases "o' < length (sbData sb)") (auto simp: c cell_simps nth_append)
qed

section \<open>Cutting a segment\<close>

definition total :: "pending list \<Rightarrow> nat" where
  "total ps = sum_list (map (\<lambda>p. length (pnData p)) ps)"

lemma total_simps [simp]:
  "total [] = 0" "total (p # ps) = length (pnData p) + total ps" "total (ps @ qs) = total ps + total qs"
  "total (sort_key f ps) = total ps"
  by (simp_all add: total_def sum_list_sort_key)

definition apart :: "pending \<Rightarrow> pending \<Rightarrow> bool" where
  "apart p q \<longleftrightarrow> span p \<inter> span q = {}"

definition pend_ok :: "nat \<Rightarrow> pending list \<Rightarrow> bool" where
  "pend_ok n ps \<longleftrightarrow> (\<forall>p \<in> set ps. pnData p \<noteq> [] \<and> n \<le> pnStart p \<and> pnPacket p \<noteq> 0) \<and> sorted_wrt apart ps"

lemma subtract_parts:
  assumes "subtract p h = (l, r, ov)" "q \<in> set (option_list l @ option_list r)" "pnData p \<noteq> []"
  shows "pnData q \<noteq> [] \<and> span q \<subseteq> span p - span h \<and> pnPacket q = pnPacket p \<and> pnStart p \<le> pnStart q"
  using assms
  by (auto simp: subtract_def Let_def option_list_def span_def pnEnd_def split: if_splits)

lemma subtract_apart:
  assumes "subtract p h = (l, r, ov)"
  shows "sorted_wrt apart (option_list l @ option_list r)"
    and "total (option_list l @ option_list r) \<le> length (pnData p)"
  using assms
  by (auto simp: subtract_def Let_def option_list_def apart_def span_def pnEnd_def split: if_splits)

lemma subtract_cells:
  assumes "subtract p h = (l, r, ov)"
  shows "list_cells (option_list l @ option_list r) = {c \<in> pend_cells p. fst c \<notin> span h}"
  using assms
  by (auto simp: subtract_def Let_def option_list_def pend_cells_def span_def pnEnd_def cell_simps
      split: if_splits)

lemma cut_one_parts:
  assumes "cut_one h ps = (qs, ovs)" "pend_ok n ps"
  shows "pend_ok n qs \<and> list_cells qs = {c \<in> list_cells ps. fst c \<notin> span h} \<and> total qs \<le> total ps
    \<and> (\<forall>q \<in> set qs. \<exists>p \<in> set ps. span q \<subseteq> span p - span h)"
  using assms
proof (induction h ps arbitrary: qs ovs rule: cut_one.induct)
  case (1 h)
  then show ?case by (simp add: cell_simps)
next
  case (2 h p ps)
  obtain l r ov where s: "subtract p h = (l, r, ov)" by (metis prod_cases3)
  obtain qs' ovs' where c: "cut_one h ps = (qs', ovs')" by fastforce
  have ok: "pend_ok n ps" "pnData p \<noteq> []" "n \<le> pnStart p" "pnPacket p \<noteq> 0"
    "\<forall>q \<in> set ps. span p \<inter> span q = {}"
    using "2.prems"(2) by (auto simp: pend_ok_def apart_def)
  note IH = "2.IH" [OF s [symmetric] refl c ok(1)]
  let ?lr = "option_list l @ option_list r"
  have qs: "qs = ?lr @ qs'" using "2.prems"(1) s c by simp
  have lr: "\<forall>q \<in> set ?lr. pnData q \<noteq> [] \<and> span q \<subseteq> span p - span h \<and> pnPacket q = pnPacket p
      \<and> n \<le> pnStart q"
    using subtract_parts [OF s _ ok(2)] ok(3) le_trans by blast
  have "apart a b" if "a \<in> set ?lr" "b \<in> set qs'" for a b
    using that lr IH ok(5) unfolding apart_def by blast
  then have "sorted_wrt apart qs"
    using subtract_apart(1) [OF s] IH by (simp add: qs sorted_wrt_append pend_ok_def del: append_assoc)
  moreover have "\<forall>q \<in> set qs. pnData q \<noteq> [] \<and> n \<le> pnStart q \<and> pnPacket q \<noteq> 0"
    using lr IH ok by (auto simp: qs pend_ok_def)
  moreover have "list_cells qs = {c \<in> list_cells (p # ps). fst c \<notin> span h}"
    using subtract_cells [OF s] IH unfolding qs by (auto simp: cell_simps)
  moreover have "total qs \<le> total (p # ps)"
    using subtract_apart(2) [OF s] IH by (simp add: qs)
  moreover have "\<forall>q \<in> set qs. \<exists>p' \<in> set (p # ps). span q \<subseteq> span p' - span h"
    using lr IH by (auto simp: qs)
  ultimately show ?case by (simp add: pend_ok_def)
qed

lemma cut_all_parts:
  assumes "cut_all hs ps = (qs, ovs)" "pend_ok n ps"
  shows "pend_ok n qs \<and> list_cells qs = {c \<in> list_cells ps. fst c \<notin> fst ` list_cells hs} \<and>
    total qs \<le> total ps"
  using assms
proof (induction hs ps arbitrary: qs ovs rule: cut_all.induct)
  case (1 ps)
  then show ?case by (simp add: cell_simps)
next
  case (2 h hs ps)
  obtain ns ovs1 where c: "cut_one h ps = (ns, ovs1)" by fastforce
  note one = cut_one_parts [OF c "2.prems"(2)]
  have fst_h: "fst ` list_cells (h # hs) = span h \<union> fst ` list_cells hs"
    by (simp add: cell_simps image_Un)
  show ?case
  proof (cases "ns = []")
    case True
    then have "{c \<in> list_cells ps. fst c \<notin> span h} = {}" using one by (simp add: cell_simps)
    then show ?thesis using True "2.prems" c one unfolding fst_h by (auto simp: cell_simps)
  next
    case False
    obtain qs' ovs2 where c2: "cut_all hs ns = (qs', ovs2)" by fastforce
    have "qs = qs'" using "2.prems"(1) c c2 False by simp
    then show ?thesis
      using "2.IH" [OF c [symmetric] False c2] one unfolding fst_h by auto
  qed
qed

section \<open>Buffering and flushing\<close>

lemma buffer_pieces_fit:
  "drPendingBytes d + int (total ps) \<le> drMaxPendingCap d \<Longrightarrow>
   buffer_pieces d ps = d\<lparr>drPendingSegs := drPendingSegs d @ ps,
     drPendingBytes := drPendingBytes d + int (total ps)\<rparr>"
  by (induction d ps rule: buffer_pieces.induct) auto

lemma buffer_pieces_kept:
  "\<exists>ks n. buffer_pieces d ps = d\<lparr>drPendingSegs := drPendingSegs d @ ks,
       drPendingBytes := drPendingBytes d + int (total ks), drDroppedOOO := n\<rparr> \<and> subseq ks ps \<and>
     (drPendingBytes d \<le> drMaxPendingCap d \<longrightarrow> drPendingBytes d + int (total ks) \<le> drMaxPendingCap d)"
proof (induction d ps rule: buffer_pieces.induct)
  case (1 d)
  show ?case by (intro exI [of _ "[]"] exI [of _ "drDroppedOOO d"]) simp
next
  case (2 d p ps)
  show ?case
  proof (cases "drPendingBytes d + int (length (pnData p)) > drMaxPendingCap d")
    case True
    obtain ks n where "buffer_pieces (d\<lparr>drDroppedOOO := drDroppedOOO d + 1\<rparr>) ps =
        d\<lparr>drPendingSegs := drPendingSegs d @ ks, drPendingBytes := drPendingBytes d + int (total ks),
          drDroppedOOO := n\<rparr>" "subseq ks ps"
      "drPendingBytes d \<le> drMaxPendingCap d \<longrightarrow> drPendingBytes d + int (total ks) \<le> drMaxPendingCap d"
      using "2.IH"(1) [OF True] by auto
    with True show ?thesis by (intro exI [of _ ks] exI [of _ n]) auto
  next
    case False
    obtain ks n where "buffer_pieces (d\<lparr>drPendingSegs := drPendingSegs d @ [p],
          drPendingBytes := drPendingBytes d + int (length (pnData p))\<rparr>) ps =
        d\<lparr>drPendingSegs := drPendingSegs d @ [p] @ ks,
          drPendingBytes := drPendingBytes d + int (length (pnData p)) + int (total ks),
          drDroppedOOO := n\<rparr>" "subseq ks ps"
      "drPendingBytes d + int (length (pnData p)) + int (total ks) \<le> drMaxPendingCap d"
      using "2.IH"(2) [OF False] False by auto
    with False show ?thesis by (intro exI [of _ "p # ks"] exI [of _ n]) (auto simp: algebra_simps)
  qed
qed

lemma pend_ok_append:
  "pend_ok n (ps @ qs) \<longleftrightarrow> pend_ok n ps \<and> pend_ok n qs \<and> (\<forall>p \<in> set ps. \<forall>q \<in> set qs. apart p q)"
  by (auto simp: pend_ok_def sorted_wrt_append)

lemma subseq_keeps: "subseq ks ps \<Longrightarrow> set ks \<subseteq> set ps \<and> (sorted_wrt R ps \<longrightarrow> sorted_wrt R ks)"
  by (induction rule: list_emb.induct) auto

lemma total_subseq: "subseq ks ps \<Longrightarrow> total ks \<le> total ps"
  by (induction rule: list_emb.induct) auto

lemma pend_ok_subseq: "subseq ks ps \<Longrightarrow> pend_ok n ps \<Longrightarrow> pend_ok n ks"
  using subseq_keeps [of ks ps apart] by (auto simp: pend_ok_def)

lemma pend_ok_sort: "pend_ok n (sort_key f ps) \<longleftrightarrow> pend_ok n ps"
  using sorted_wrt_sym_sort [of apart f ps] by (auto simp: pend_ok_def apart_def)

definition ordered :: "pending list \<Rightarrow> bool" where
  "ordered ps \<longleftrightarrow> sorted_wrt (\<lambda>p q. pnEnd p \<le> pnStart q) ps"

lemma ordered_sort: "pend_ok n ps \<Longrightarrow> ordered (sort_key pnStart ps)"
proof -
  assume "pend_ok n ps"
  then have ok: "pend_ok n (sort_key pnStart ps)" by (simp add: pend_ok_sort)
  have "sorted_wrt (\<lambda>p q. pnStart p \<le> pnStart q) qs \<Longrightarrow> pend_ok n qs \<Longrightarrow> ordered qs" for qs
  proof (induction qs)
    case (Cons q qs)
    have "pnEnd q \<le> pnStart r" if "r \<in> set qs" for r
    proof -
      have "pnData r \<noteq> []" "pnStart q \<le> pnStart r" "span q \<inter> span r = {}"
        using Cons.prems that by (auto simp: pend_ok_def apart_def)
      then have "pnStart r \<in> span r" "pnStart r \<notin> span q" by (auto simp: span_def pnEnd_def)
      with \<open>pnStart q \<le> pnStart r\<close> show ?thesis by (simp add: span_def)
    qed
    moreover have "ordered qs" using Cons by (simp add: pend_ok_def)
    ultimately show ?case by (simp add: ordered_def)
  qed (simp add: ordered_def)
  moreover have "sorted_wrt (\<lambda>p q. pnStart p \<le> pnStart q) (sort_key pnStart ps)"
    using sorted_sort_key [of pnStart ps] by (simp add: sorted_map)
  ultimately show ?thesis using ok by blast
qed

text \<open>What holds before a flush, and what the flush makes of it.\<close>

definition flush_pre :: "direction \<Rightarrow> bool" where
  "flush_pre d \<longleftrightarrow> sb_ok (drBytes d) \<and> pend_ok (sb_len (drBytes d)) (drPendingSegs d)
     \<and> ordered (drPendingSegs d) \<and> drPendingBytes d = int (total (drPendingSegs d))
     \<and> drPendingBytes d \<le> drMaxPendingCap d"

definition dir_ok :: "direction \<Rightarrow> bool" where
  "dir_ok d \<longleftrightarrow> flush_pre d \<and> (\<forall>p \<in> set (drPendingSegs d). sb_len (drBytes d) < pnStart p)"

definition flush_step :: "direction \<Rightarrow> pending \<Rightarrow> pending list \<Rightarrow> direction" where
  "flush_step d p ps = d\<lparr>drPendingSegs := ps, drPendingBytes := drPendingBytes d - int (length (pnData p)),
     drBytes := sb_append (drBytes d) (pnData p) (pnPacket p),
     drExpectSeq := drExpectSeq d + word_of_nat (length (pnData p))\<rparr>"

lemma flush_unfold:
  "flush d = (case drPendingSegs d of [] \<Rightarrow> d
     | p # ps \<Rightarrow> if pnStart p = sb_len (drBytes d) then flush (flush_step d p ps) else d)"
  unfolding flush_step_def by (rule flush.simps)

lemma flush_step_pre:
  assumes "flush_pre d" "drPendingSegs d = p # ps" "pnStart p = sb_len (drBytes d)"
  shows "flush_pre (flush_step d p ps)" "dir_cells (flush_step d p ps) = dir_cells d"
proof -
  have p: "pnData p \<noteq> []" "pnPacket p \<noteq> 0" "\<forall>q \<in> set ps. pnEnd p \<le> pnStart q" "sb_ok (drBytes d)"
    using assms by (auto simp: flush_pre_def pend_ok_def ordered_def)
  have e: "sb_len (sb_append (drBytes d) (pnData p) (pnPacket p)) = pnEnd p"
    using assms(3) by (simp add: sb_len_def pnEnd_def)
  show "flush_pre (flush_step d p ps)"
    using assms p sb_append_ok [OF p(4,2)] unfolding flush_pre_def flush_step_def
    by (simp add: e pend_ok_def ordered_def)
  show "dir_cells (flush_step d p ps) = dir_cells d"
    using sb_append_cells [OF p(4,2)] assms(2,3)
    by (auto simp: dir_cells_def flush_step_def cell_simps pend_cells_def sb_len_def)
qed

lemma flush_props:
  assumes "flush_pre d"
  shows "dir_ok (flush d) \<and> dir_cells (flush d) = dir_cells d"
  using assms
proof (induction d rule: flush.induct)
  case (1 d)
  show ?case
  proof (cases "drPendingSegs d")
    case Nil
    then show ?thesis using 1(2) by (simp add: flush_unfold [of d] dir_ok_def)
  next
    case (Cons p ps)
    show ?thesis
    proof (cases "pnStart p = sb_len (drBytes d)")
      case True
      have "flush d = flush (flush_step d p ps)" using Cons True by (simp add: flush_unfold [of d])
      then show ?thesis
        using 1(1) [OF Cons True] flush_step_pre [OF 1(2) Cons True] by (simp add: flush_step_def)
    next
      case False
      have "sb_len (drBytes d) < pnStart q" if "q \<in> set (p # ps)" for q
        using that 1(2) Cons False
        by (auto simp: flush_pre_def pend_ok_def ordered_def pnEnd_def dest!: bspec)
      then show ?thesis using 1(2) Cons False by (simp add: flush_unfold [of d] dir_ok_def)
    qed
  qed
qed

lemma flush_keeps:
  "drOverlaps (flush d) = drOverlaps d \<and> drDroppedOOO (flush d) = drDroppedOOO d \<and>
   drRetransmits (flush d) = drRetransmits d \<and> drOutOfOrder (flush d) = drOutOfOrder d \<and>
   drMaxPendingCap (flush d) = drMaxPendingCap d \<and> drHaveExpect (flush d) = drHaveExpect d \<and>
   drFlow (flush d) = drFlow d \<and> drGen (flush d) = drGen d \<and>
   drPendingBytes (flush d) \<le> drPendingBytes d \<and>
   drExpectSeq (flush d) - word_of_nat (sb_len (drBytes (flush d))) =
     drExpectSeq d - word_of_nat (sb_len (drBytes d)) \<and>
   prefix (sbData (drBytes d)) (sbData (drBytes (flush d)))"
proof (induction d rule: flush.induct)
  case (1 d)
  show ?case
  proof (cases "\<exists>p ps. drPendingSegs d = p # ps \<and> pnStart p = sb_len (drBytes d)")
    case True
    then obtain p ps where p: "drPendingSegs d = p # ps" "pnStart p = sb_len (drBytes d)" by blast
    then have "flush d = flush (flush_step d p ps)" by (simp add: flush_unfold [of d])
    then show ?thesis
      using 1 [OF p] by (auto simp: flush_step_def sb_len_def dest: append_prefixD)
  next
    case False
    then have "flush d = d" by (auto simp: flush_unfold [of d] split: list.splits)
    then show ?thesis by simp
  qed
qed

section \<open>Conflicts\<close>

text \<open>Two claims clash when they give one offset different bytes.\<close>

definition clash :: "cell set \<Rightarrow> cell set \<Rightarrow> bool" where
  "clash C D \<longleftrightarrow> (\<exists>o' b k b' k'. (o', b, k) \<in> C \<and> (o', b', k') \<in> D \<and> b \<noteq> b')"

lemma clash_Un [simp]:
  "clash (A \<union> B) D \<longleftrightarrow> clash A D \<or> clash B D" "clash A (C \<union> D) \<longleftrightarrow> clash A C \<or> clash A D"
  "\<not> clash {} D" "\<not> clash C {}"
  unfolding clash_def by blast+

lemma subslice_differ:
  assumes "i + n \<le> length xs" "j + n \<le> length ys"
  shows "subslice xs i (i + n) \<noteq> subslice ys j (j + n) \<longleftrightarrow> (\<exists>m < n. xs ! (i + m) \<noteq> ys ! (j + m))"
  using assms by (auto simp: list_eq_iff_nth_eq nth_subslice)

lemma cells_clash:
  assumes "lo < hi" "lo = max s t" "hi = min (s + length xs) (t + length ys)"
  shows "clash (cells_of s xs k) (cells_of t ys k') \<longleftrightarrow>
    subslice xs (lo - s) (lo - s + (hi - lo)) \<noteq> subslice ys (lo - t) (lo - t + (hi - lo))"
proof -
  have "clash (cells_of s xs k) (cells_of t ys k') \<longleftrightarrow>
      (\<exists>o'. lo \<le> o' \<and> o' < hi \<and> xs ! (o' - s) \<noteq> ys ! (o' - t))"
    using assms by (auto simp: clash_def cell_simps)
  also have "\<dots> \<longleftrightarrow> (\<exists>m < hi - lo. xs ! (lo - s + m) \<noteq> ys ! (lo - t + m))"
  proof
    assume "\<exists>o'. lo \<le> o' \<and> o' < hi \<and> xs ! (o' - s) \<noteq> ys ! (o' - t)"
    then obtain o' where "lo \<le> o'" "o' < hi" "xs ! (o' - s) \<noteq> ys ! (o' - t)" by blast
    then show "\<exists>m < hi - lo. xs ! (lo - s + m) \<noteq> ys ! (lo - t + m)"
      using assms by (intro exI [of _ "o' - lo"]) auto
  next
    assume "\<exists>m < hi - lo. xs ! (lo - s + m) \<noteq> ys ! (lo - t + m)"
    then obtain m where "m < hi - lo" "xs ! (lo - s + m) \<noteq> ys ! (lo - t + m)" by blast
    moreover have "lo + m - s = lo - s + m" "lo + m - t = lo - t + m" using assms by auto
    ultimately show "\<exists>o'. lo \<le> o' \<and> o' < hi \<and> xs ! (o' - s) \<noteq> ys ! (o' - t)"
      by (intro exI [of _ "lo + m"]) auto
  qed
  also have "\<dots> \<longleftrightarrow> subslice xs (lo - s) (lo - s + (hi - lo)) \<noteq> subslice ys (lo - t) (lo - t + (hi - lo))"
    using assms by (intro subslice_differ [symmetric]) auto
  finally show ?thesis .
qed

lemma no_overlap_no_clash: "fst ` C \<inter> fst ` D = {} \<Longrightarrow> \<not> clash C D"
  unfolding clash_def by force

lemma subtract_conflict:
  assumes "subtract p h = (l, r, ov)"
  shows "list_ex ovConflict (option_list ov) \<longleftrightarrow> clash (pend_cells p) (pend_cells h)"
proof -
  define lo where "lo = max (pnStart p) (pnStart h)"
  define hi where "hi = min (pnEnd p) (pnEnd h)"
  note s = assms [unfolded subtract_def Let_def, folded lo_def hi_def]
  show ?thesis
  proof (cases "lo < hi")
    case True
    have "lo - k + hi - lo = lo - k + (hi - lo)" for k using True by simp
    then have "list_ex ovConflict (option_list ov) \<longleftrightarrow>
        subslice (pnData p) (lo - pnStart p) (lo - pnStart p + (hi - lo)) \<noteq>
        subslice (pnData h) (lo - pnStart h) (lo - pnStart h + (hi - lo))"
      using s True by (auto simp: option_list_def)
    then show ?thesis
      unfolding pend_cells_def
      using cells_clash [OF True lo_def hi_def [unfolded pnEnd_def]] by blast
  next
    case False
    then have "span p \<inter> span h = {}" by (auto simp: span_def lo_def hi_def)
    then show ?thesis
      using s False no_overlap_no_clash [of "pend_cells p" "pend_cells h"]
      by (simp add: option_list_def cell_simps)
  qed
qed

lemma cut_one_conflict:
  "cut_one h ps = (qs, ovs) \<Longrightarrow> list_ex ovConflict ovs \<longleftrightarrow> clash (list_cells ps) (pend_cells h)"
proof (induction h ps arbitrary: qs ovs rule: cut_one.induct)
  case (2 h p ps)
  obtain l r ov where s: "subtract p h = (l, r, ov)" by (metis prod_cases3)
  obtain qs' ovs' where c: "cut_one h ps = (qs', ovs')" by fastforce
  show ?case
    using "2.prems" "2.IH" [OF s [symmetric] refl c] s c subtract_conflict [OF s]
    by (auto simp: cell_simps)
qed (simp add: cell_simps)

lemma clash_outside:
  assumes "\<And>c. c \<in> D \<Longrightarrow> fst c \<notin> A"
  shows "clash {c \<in> C. fst c \<notin> A} D \<longleftrightarrow> clash C D"
  using assms unfolding clash_def by fastforce

lemma cut_all_conflict:
  "cut_all hs ps = (qs, ovs) \<Longrightarrow> sorted_wrt apart hs \<Longrightarrow> pend_ok n ps \<Longrightarrow>
   list_ex ovConflict ovs \<longleftrightarrow> clash (list_cells ps) (list_cells hs)"
proof (induction hs ps arbitrary: qs ovs rule: cut_all.induct)
  case (2 h hs ps)
  obtain ns ovs1 where c: "cut_one h ps = (ns, ovs1)" by fastforce
  note one = cut_one_parts [OF c "2.prems"(3)] and conf = cut_one_conflict [OF c]
  have "fst x \<notin> span h" if "x \<in> list_cells hs" for x
    using that "2.prems"(2) fst_list_cells [of hs] by (fastforce simp: apart_def)
  then have out: "clash (list_cells ns) (list_cells hs) = clash (list_cells ps) (list_cells hs)"
    using one clash_outside [of "list_cells hs" "span h" "list_cells ps"] by simp
  show ?case
  proof (cases "ns = []")
    case True
    then show ?thesis using "2.prems"(1) c conf out by (simp add: cell_simps)
  next
    case False
    obtain qs' ovs2 where c2: "cut_all hs ns = (qs', ovs2)" by fastforce
    have "ovs = ovs1 @ ovs2" using "2.prems"(1) c c2 False by simp
    moreover have "list_ex ovConflict ovs2 \<longleftrightarrow> clash (list_cells ns) (list_cells hs)"
      using "2.IH" [OF c [symmetric] False c2] "2.prems"(2) one by simp
    ultimately show ?thesis using conf out by (simp add: cell_simps)
  qed
qed (simp add: cell_simps)

section \<open>Inserting a segment\<close>

text \<open>What an insertion promises: the invariant, nothing delivered is ever changed, sequence tracking
  in step, conflicts reported exactly when bytes clash, and first writer wins.\<close>

definition insert_spec :: "direction \<Rightarrow> cell set \<Rightarrow> nat \<Rightarrow> direction \<Rightarrow> bool" where
  "insert_spec d new n d' \<longleftrightarrow> dir_ok d' \<and> prefix (sbData (drBytes d)) (sbData (drBytes d'))
     \<and> drExpectSeq d' - word_of_nat (sb_len (drBytes d')) = drExpectSeq d - word_of_nat (sb_len (drBytes d))
     \<and> drMaxPendingCap d' = drMaxPendingCap d \<and> drHaveExpect d' = drHaveExpect d
     \<and> drFlow d' = drFlow d \<and> drGen d' = drGen d \<and> drPendingBytes d' \<le> drPendingBytes d + int n
     \<and> (HasConflictingOverlap d' \<longleftrightarrow> HasConflictingOverlap d \<or> clash new (dir_cells d))
     \<and> dir_cells d \<subseteq> dir_cells d'
     \<and> dir_cells d' \<subseteq> dir_cells d \<union> {c \<in> new. fst c \<notin> fst ` dir_cells d}
     \<and> (drPendingBytes d + int n \<le> drMaxPendingCap d \<longrightarrow>
          dir_cells d' = dir_cells d \<union> {c \<in> new. fst c \<notin> fst ` dir_cells d}
          \<and> drDroppedOOO d' = drDroppedOOO d)"

lemma insert_specD:
  assumes "insert_spec d new n d'"
  shows "dir_ok d'" "prefix (sbData (drBytes d)) (sbData (drBytes d'))"
    "drExpectSeq d' - word_of_nat (sb_len (drBytes d')) = drExpectSeq d - word_of_nat (sb_len (drBytes d))"
    "drMaxPendingCap d' = drMaxPendingCap d" "drHaveExpect d' = drHaveExpect d"
    "drFlow d' = drFlow d" "drGen d' = drGen d" "drPendingBytes d' \<le> drPendingBytes d + int n"
    "HasConflictingOverlap d' \<longleftrightarrow> HasConflictingOverlap d \<or> clash new (dir_cells d)"
    "dir_cells d \<subseteq> dir_cells d'"
    "dir_cells d' \<subseteq> dir_cells d \<union> {c \<in> new. fst c \<notin> fst ` dir_cells d}"
    "drPendingBytes d + int n \<le> drMaxPendingCap d \<Longrightarrow>
       dir_cells d' = dir_cells d \<union> {c \<in> new. fst c \<notin> fst ` dir_cells d}"
    "drPendingBytes d + int n \<le> drMaxPendingCap d \<Longrightarrow> drDroppedOOO d' = drDroppedOOO d"
  using assms [unfolded insert_spec_def] by argo+

lemma dir_ok_frontier:
  assumes "dir_ok d"
  shows "o' < sb_len (drBytes d) \<Longrightarrow> o' \<in> fst ` dir_cells d" "sb_len (drBytes d) \<notin> fst ` dir_cells d"
proof -
  show "o' < sb_len (drBytes d) \<Longrightarrow> o' \<in> fst ` dir_cells d"
    by (auto simp: dir_cells_def image_Un cell_simps sb_len_def)
  show "sb_len (drBytes d) \<notin> fst ` dir_cells d"
    using assms by (auto simp: dir_cells_def image_Un cell_simps sb_len_def dir_ok_def span_def
        simp del: image_iff dest!: bspec)
qed

lemma pend_ok_single: "data \<noteq> [] \<Longrightarrow> n \<le> start \<Longrightarrow> pkt \<noteq> 0 \<Longrightarrow>
    pend_ok n [\<lparr>pnStart = start, pnData = data, pnPacket = pkt\<rparr>]"
  by (simp add: pend_ok_def)

lemma insert_beyond_spec:
  assumes "dir_ok d" "sb_len (drBytes d) \<le> start" "data \<noteq> []" "pkt \<noteq> 0"
  shows "insert_spec d (cells_of start data pkt) (length data) (insert_beyond d start data pkt)"
proof -
  let ?new = "cells_of start data pkt"
  let ?p = "\<lparr>pnStart = start, pnData = data, pnPacket = pkt\<rparr>"
  obtain ps ovs where cut: "cut_all (drPendingSegs d) [?p] = (ps, ovs)" by fastforce
  have ok: "pend_ok (sb_len (drBytes d)) [?p]" using assms by (simp add: pend_ok_single)
  have segs: "pend_ok (sb_len (drBytes d)) (drPendingSegs d)"
    using assms(1) by (simp add: dir_ok_def flush_pre_def)
  have single: "list_cells [?p] = ?new" by (simp add: cell_simps pend_cells_def)
  note parts = cut_all_parts [OF cut ok, unfolded single]
  have conf: "list_ex ovConflict ovs \<longleftrightarrow> clash ?new (list_cells (drPendingSegs d))"
    using cut_all_conflict [OF cut _ ok] segs unfolding single pend_ok_def by simp
  have nosb: "fst c \<notin> fst ` sb_cells (drBytes d)" if "c \<in> ?new" for c
    using that assms(2) by (cases c) (auto simp: cell_simps sb_len_def)
  then have "\<not> clash ?new (sb_cells (drBytes d))" by (intro no_overlap_no_clash) blast
  then have conf': "list_ex ovConflict ovs \<longleftrightarrow> clash ?new (dir_cells d)"
    using conf by (simp add: dir_cells_def)
  have fresh: "list_cells ps = {c \<in> ?new. fst c \<notin> fst ` dir_cells d}"
    using parts nosb by (auto simp: dir_cells_def image_Un)
  show ?thesis
  proof (cases "ps = []")
    case True
    then have none: "{c \<in> ?new. fst c \<notin> fst ` dir_cells d} = {}" using fresh by (simp only: cell_simps)
    have "insert_beyond d start data pkt =
        d\<lparr>drOverlaps := drOverlaps d @ ovs, drRetransmits := drRetransmits d + 1\<rparr>"
      using cut True by (simp add: insert_beyond_def Let_def)
    then show ?thesis
      using assms(1) conf' unfolding insert_spec_def none
      by (simp add: dir_ok_def flush_pre_def dir_cells_def HasConflictingOverlap_def)
  next
    case False
    let ?d2 = "if start > sb_len (drBytes d)
      then d\<lparr>drOverlaps := drOverlaps d @ ovs, drOutOfOrder := drOutOfOrder d + 1\<rparr>
      else d\<lparr>drOverlaps := drOverlaps d @ ovs\<rparr>"
    let ?d3 = "buffer_pieces ?d2 ps"
    let ?d4 = "?d3\<lparr>drPendingSegs := sort_key pnStart (drPendingSegs ?d3)\<rparr>"
    have eq: "insert_beyond d start data pkt = flush ?d4"
      using cut False by (simp add: insert_beyond_def Let_def)
    obtain ks n where ks: "?d3 = ?d2\<lparr>drPendingSegs := drPendingSegs ?d2 @ ks,
        drPendingBytes := drPendingBytes ?d2 + int (total ks), drDroppedOOO := n\<rparr>" "subseq ks ps"
      "drPendingBytes ?d2 \<le> drMaxPendingCap ?d2 \<longrightarrow>
         drPendingBytes ?d2 + int (total ks) \<le> drMaxPendingCap ?d2"
      using buffer_pieces_kept by blast
    have kcells: "list_cells ks \<subseteq> list_cells ps"
      using subseq_keeps [OF ks(2)] by (auto simp: list_cells_def)
    have away: "apart p q" if "p \<in> set (drPendingSegs d)" "q \<in> set ks" for p q
    proof -
      have "span q \<subseteq> fst ` list_cells ps"
        using that(2) subseq_keeps [OF ks(2)] by (auto simp: fst_list_cells)
      moreover have "span p \<subseteq> fst ` list_cells (drPendingSegs d)"
        using that(1) by (auto simp: fst_list_cells)
      ultimately show ?thesis using parts unfolding apart_def by fastforce
    qed
    have "pend_ok (sb_len (drBytes d)) (drPendingSegs d @ ks)"
      using segs pend_ok_subseq [OF ks(2)] parts away by (simp add: pend_ok_append)
    then have pre: "flush_pre ?d4"
      using assms(1) ks(1,3) ordered_sort by (simp add: flush_pre_def dir_ok_def pend_ok_sort)
    have cells4: "dir_cells ?d4 = dir_cells d \<union> list_cells ks"
      using ks(1) by (auto simp: dir_cells_def cell_simps)
    have fit: "drPendingBytes d + int (length data) \<le> drMaxPendingCap d \<Longrightarrow>
        list_cells ks = list_cells ps \<and> drDroppedOOO ?d3 = drDroppedOOO d"
    proof -
      assume "drPendingBytes d + int (length data) \<le> drMaxPendingCap d"
      then have "drPendingBytes ?d2 + int (total ps) \<le> drMaxPendingCap ?d2"
        using parts by simp
      note b = this [THEN buffer_pieces_fit]
      have "drPendingSegs ?d3 = drPendingSegs ?d2 @ ps" "drDroppedOOO ?d3 = drDroppedOOO d"
        unfolding b by simp_all
      moreover have "drPendingSegs ?d3 = drPendingSegs ?d2 @ ks" unfolding ks(1) by simp
      ultimately show ?thesis by simp
    qed
    have same: "drBytes ?d4 = drBytes d" "drExpectSeq ?d4 = drExpectSeq d"
      "drMaxPendingCap ?d4 = drMaxPendingCap d" "drHaveExpect ?d4 = drHaveExpect d"
      "drFlow ?d4 = drFlow d" "drGen ?d4 = drGen d" "drDroppedOOO ?d4 = drDroppedOOO ?d3"
      "drOverlaps ?d4 = drOverlaps d @ ovs"
      using ks(1) by simp_all
    note k = flush_keeps [of ?d4, unfolded same] and p = flush_props [OF pre, unfolded cells4]
    have conf5: "HasConflictingOverlap (flush ?d4) \<longleftrightarrow> HasConflictingOverlap d \<or> clash ?new (dir_cells d)"
      using k conf' by (simp only: HasConflictingOverlap_def list_ex_append)
    have sub: "list_cells ks \<subseteq> {c \<in> ?new. fst c \<notin> fst ` dir_cells d}"
      using kcells fresh by (simp only:)
    have full: "drPendingBytes d + int (length data) \<le> drMaxPendingCap d \<Longrightarrow>
        dir_cells (flush ?d4) = dir_cells d \<union> {c \<in> ?new. fst c \<notin> fst ` dir_cells d} \<and>
        drDroppedOOO (flush ?d4) = drDroppedOOO d"
      using fit k p fresh by (simp only:)
    have bytes: "drPendingBytes (flush ?d4) \<le> drPendingBytes d + int (length data)"
    proof -
      have "total ks \<le> length data" using total_subseq [OF ks(2)] parts by simp
      moreover have "drPendingBytes ?d4 = drPendingBytes d + int (total ks)" using ks(1) by simp
      ultimately show ?thesis using k by linarith
    qed
    show ?thesis
      unfolding eq insert_spec_def conf5 using k p sub full bytes by (intro conjI impI) (blast+)
  qed
qed

definition seg_cells :: "int \<Rightarrow> bytes \<Rightarrow> nat \<Rightarrow> cell set" where
  "seg_cells start data pkt =
    {(o', b, k). start \<le> int o' \<and> int o' < start + int (length data) \<and> b = data ! nat (int o' - start)
       \<and> k = pkt}"

lemma seg_cells_nonneg: "seg_cells (int start) data pkt = cells_of start data pkt"
  by (auto simp: seg_cells_def cell_simps nat_diff_distrib')

lemma seg_cells_negative:
  assumes "start < 0" "0 < start + int (length data)"
  shows "seg_cells start data pkt = cells_of 0 (drop (nat (- start)) data) pkt"
proof (rule set_eqI)
  fix c :: cell
  obtain o' b k where c: "c = (o', b, k)" by (cases c)
  have "nat (int o' - start) = nat (- start) + o'" using assms(1) by simp
  then show "c \<in> seg_cells start data pkt \<longleftrightarrow> c \<in> cells_of 0 (drop (nat (- start)) data) pkt"
    using assms by (auto simp: c seg_cells_def cell_simps)
qed

lemma insert_spec_nothing:
  assumes "dir_ok d" "dir_ok d'" "drBytes d' = drBytes d" "drPendingSegs d' = drPendingSegs d"
    "drExpectSeq d' = drExpectSeq d" "drMaxPendingCap d' = drMaxPendingCap d"
    "drHaveExpect d' = drHaveExpect d" "drFlow d' = drFlow d" "drGen d' = drGen d"
    "drDroppedOOO d' = drDroppedOOO d" "drPendingBytes d' = drPendingBytes d"
    "HasConflictingOverlap d' \<longleftrightarrow> HasConflictingOverlap d \<or> clash new (dir_cells d)"
    "{c \<in> new. fst c \<notin> fst ` dir_cells d} = {}"
  shows "insert_spec d new n d'"
proof -
  have "dir_cells d' = dir_cells d" using assms by (simp add: dir_cells_def)
  then show ?thesis using assms unfolding insert_spec_def assms(13) by simp
qed

lemma pending_beyond:
  "dir_ok d \<Longrightarrow> c \<in> list_cells (drPendingSegs d) \<Longrightarrow> sb_len (drBytes d) < fst c"
  by (cases c) (auto simp: dir_ok_def list_cells_def pend_cells_def cell_simps dest!: bspec)

lemma insert_at_spec:
  assumes "dir_ok d" "data \<noteq> []" "pkt \<noteq> 0"
  shows "insert_spec d (cells_of start data pkt) (length data) (insert_at d start data pkt)"
proof (cases "start < sb_len (drBytes d)")
  case False
  then show ?thesis using insert_beyond_spec [OF assms(1) _ assms(2,3)] by (simp add: insert_at_def)
next
  case True
  let ?len = "sb_len (drBytes d)"
  let ?n = "min (?len - start) (length data)"
  let ?new = "cells_of start data pkt"
  define ov where "ov = \<lparr>ovOffset = start, ovLength = ?n, ovPacket = pkt,
      ovKeptPacket = OffsetToPacket (drBytes d) (int start),
      ovConflict = (subslice (sbData (drBytes d)) start (start + ?n) \<noteq> take ?n data), ovAlreadyGone = True\<rparr>"
  define d1 where "d1 = d\<lparr>drOverlaps := drOverlaps d @ [ov]\<rparr>"
  have cells1: "dir_cells d1 = dir_cells d" by (simp add: d1_def dir_cells_def)
  have ok1: "dir_ok d1" using assms(1) by (simp add: d1_def dir_ok_def flush_pre_def)
  have eq: "insert_at d start data pkt =
      (if ?n = length data then d1\<lparr>drRetransmits := drRetransmits d1 + 1\<rparr>
       else insert_beyond d1 ?len (drop ?n data) pkt)"
    using True by (simp add: insert_at_def Let_def d1_def ov_def)
  have sbc: "sb_cells (drBytes d) = (\<lambda>i. (i, sbData (drBytes d) ! i, OffsetToPacket (drBytes d) (int i))) ` {..<?len}"
    by (simp add: sb_cells_def sb_len_def)
  have "clash ?new (sb_cells (drBytes d)) \<longleftrightarrow> (\<exists>m < ?n. data ! m \<noteq> sbData (drBytes d) ! (start + m))"
  proof
    assume "clash ?new (sb_cells (drBytes d))"
    then obtain o' where "start \<le> o'" "o' < start + length data" "o' < ?len"
      "data ! (o' - start) \<noteq> sbData (drBytes d) ! o'"
      by (auto simp: clash_def cell_simps sb_len_def)
    then show "\<exists>m < ?n. data ! m \<noteq> sbData (drBytes d) ! (start + m)"
      by (intro exI [of _ "o' - start"]) auto
  next
    assume "\<exists>m < ?n. data ! m \<noteq> sbData (drBytes d) ! (start + m)"
    then obtain m where "m < ?n" "data ! m \<noteq> sbData (drBytes d) ! (start + m)" by blast
    then have "(start + m, data ! m, pkt) \<in> ?new"
      "(start + m, sbData (drBytes d) ! (start + m), OffsetToPacket (drBytes d) (int (start + m)))
        \<in> sb_cells (drBytes d)"
      by (auto simp: cell_simps sb_len_def)
    with \<open>data ! m \<noteq> _\<close> show "clash ?new (sb_cells (drBytes d))" unfolding clash_def by blast
  qed
  also have "\<dots> \<longleftrightarrow> subslice (sbData (drBytes d)) start (start + ?n) \<noteq> take ?n data"
    using subslice_differ [of start ?n "sbData (drBytes d)" 0 data] True
    by (auto simp: sb_len_def subslice_def)
  finally have conf1: "HasConflictingOverlap d1 \<longleftrightarrow> HasConflictingOverlap d \<or> clash ?new (sb_cells (drBytes d))"
    by (auto simp: HasConflictingOverlap_def d1_def ov_def)
  show ?thesis
  proof (cases "?n = length data")
    case n: True
    have low: "fst c < ?len" if "c \<in> ?new" for c
      using that n True by (cases c) (auto simp: cell_simps min_def split: if_splits)
    then have "{c \<in> ?new. fst c \<notin> fst ` dir_cells d} = {}"
      using dir_ok_frontier(1) [OF assms(1)] by blast
    moreover have "\<not> clash ?new (list_cells (drPendingSegs d))"
      using low pending_beyond [OF assms(1)] by (intro no_overlap_no_clash) fastforce
    then have "HasConflictingOverlap d1 \<longleftrightarrow> HasConflictingOverlap d \<or> clash ?new (dir_cells d)"
      using conf1 by (simp add: dir_cells_def)
    ultimately show ?thesis
      unfolding eq using n assms(1) ok1
      by (intro insert_spec_nothing)
         (simp_all add: d1_def dir_ok_def flush_pre_def HasConflictingOverlap_def)
  next
    case n: False
    then have n': "?n = ?len - start" "start + ?n = ?len" "?n \<le> length data" "drop ?n data \<noteq> []"
      using True by auto
    let ?hi = "cells_of ?len (drop ?n data) pkt"
    have hi: "?hi = {c \<in> ?new. ?len \<le> fst c}"
      using cells_of_drop [OF n'(3), of start pkt] n'(2) by simp
    have fr: "\<forall>x. x \<notin> fst ` dir_cells d \<longrightarrow> ?len \<le> x"
      using dir_ok_frontier(1) [OF assms(1)] by (meson leI)
    have fresh: "{c \<in> ?hi. fst c \<notin> fst ` dir_cells d} = {c \<in> ?new. fst c \<notin> fst ` dir_cells d}"
      unfolding hi using fr by blast
    have "\<not> clash ?hi (sb_cells (drBytes d))"
      by (intro no_overlap_no_clash) (auto simp: hi sbc)
    moreover have "clash ?hi (list_cells (drPendingSegs d)) = clash ?new (list_cells (drPendingSegs d))"
      using clash_outside [of "list_cells (drPendingSegs d)" "{..<?len}" ?new]
        pending_beyond [OF assms(1)] unfolding hi by (fastforce simp: not_less)
    ultimately have conf2: "HasConflictingOverlap d1 \<or> clash ?hi (dir_cells d1) \<longleftrightarrow>
        HasConflictingOverlap d \<or> clash ?new (dir_cells d)"
      unfolding conf1 cells1 unfolding dir_cells_def by auto
    have spec: "insert_spec d1 ?hi (length (drop ?n data)) (insert_beyond d1 ?len (drop ?n data) pkt)"
      by (rule insert_beyond_spec [OF ok1 _ n'(4) assms(3)]) (simp add: d1_def)
    have same: "drBytes d1 = drBytes d" "drExpectSeq d1 = drExpectSeq d" "drGen d1 = drGen d"
      "drMaxPendingCap d1 = drMaxPendingCap d" "drHaveExpect d1 = drHaveExpect d"
      "drFlow d1 = drFlow d" "drPendingBytes d1 = drPendingBytes d" "drDroppedOOO d1 = drDroppedOOO d"
      by (simp_all add: d1_def)
    show ?thesis
      using spec conf2 unfolding insert_spec_def cells1 fresh eq if_not_P [OF n] same by simp
  qed
qed

lemma dir_insert_spec:
  assumes "dir_ok d" "data \<noteq> []" "pkt \<noteq> 0"
  shows "insert_spec d (seg_cells start data pkt) (length data) (dir_insert d start data pkt)"
proof (cases "start < 0")
  case False
  then have "seg_cells start data pkt = cells_of (nat start) data pkt"
    using seg_cells_nonneg [of "nat start" data pkt] by simp
  then show ?thesis using insert_at_spec [OF assms] False by (simp add: dir_insert_def)
next
  case neg: True
  show ?thesis
  proof (cases "start + int (length data) \<le> 0")
    case True
    then have "seg_cells start data pkt = {}" by (auto simp: seg_cells_def)
    then show ?thesis
      using neg True assms(1)
      by (intro insert_spec_nothing)
         (simp_all add: dir_insert_def dir_ok_def flush_pre_def HasConflictingOverlap_def)
  next
    case False
    let ?data = "drop (nat (- start)) data"
    have "?data \<noteq> []" using False neg by simp
    then have "insert_spec d (seg_cells start data pkt) (length ?data) (dir_insert d start data pkt)"
      using insert_at_spec [OF assms(1) _ assms(3), of ?data 0] neg False
        seg_cells_negative [OF neg, of data pkt]
      by (simp add: dir_insert_def)
    moreover have "length ?data \<le> length data" by simp
    ultimately show ?thesis unfolding insert_spec_def by auto
  qed
qed

section \<open>Segments of one stream\<close>

definition agree :: "(nat \<Rightarrow> byte) \<Rightarrow> cell set \<Rightarrow> bool" where
  "agree S C \<longleftrightarrow> (\<forall>(o', b, k) \<in> C. b = S o')"

lemma agree_Un [simp]: "agree S (A \<union> B) \<longleftrightarrow> agree S A \<and> agree S B"
  unfolding agree_def by blast

lemma agree_subset: "agree S B \<Longrightarrow> A \<subseteq> B \<Longrightarrow> agree S A"
  by (auto simp: agree_def)

lemma agree_filter: "agree S C \<Longrightarrow> agree S {c \<in> C. P c}"
  by (auto simp: agree_def)

lemma fst_first_writer: "fst ` (A \<union> {c \<in> B. fst c \<notin> fst ` A}) = fst ` A \<union> fst ` B"
proof -
  have "fst ` {c \<in> B. fst c \<notin> X} = fst ` B - X" for X by auto
  then show ?thesis by (simp add: image_Un)
qed

lemma agree_no_clash: "agree S A \<Longrightarrow> agree S B \<Longrightarrow> \<not> clash A B"
  by (force simp: agree_def clash_def)

text \<open>What has been delivered is determined by the cells: everything below the first unclaimed
  offset.\<close>

lemma delivered_cells:
  assumes "dir_ok d" "agree S (dir_cells d)" "{..<n} \<subseteq> fst ` dir_cells d"
  shows "n \<le> sb_len (drBytes d) \<and> take n (sbData (drBytes d)) = map S [0..<n]"
proof -
  have le: "n \<le> sb_len (drBytes d)"
    using dir_ok_frontier(2) [OF assms(1)] assms(3) by (meson lessThan_iff not_le subsetD)
  have "sbData (drBytes d) ! i = S i" if "i < sb_len (drBytes d)" for i
  proof -
    have "(i, sbData (drBytes d) ! i, OffsetToPacket (drBytes d) (int i)) \<in> dir_cells d"
      using that by (simp add: dir_cells_def cell_simps sb_len_def)
    then show ?thesis using assms(2) by (auto simp: agree_def)
  qed
  with le show ?thesis by (simp add: sb_len_def list_eq_iff_nth_eq)
qed

lemma dir_cells_new [simp]: "dir_cells (new_direction flow gen cap) = {}"
  by (simp add: dir_cells_def new_direction_def sb_cells_def cell_simps)

lemma dir_ok_new: "0 \<le> cap \<Longrightarrow> dir_ok (new_direction flow gen cap)"
  by (simp add: dir_ok_def flush_pre_def new_direction_def sb_ok_def sb_len_def pend_ok_def ordered_def)

type_synonym segment = "int \<times> bytes \<times> nat"

definition insert_all :: "segment list \<Rightarrow> direction \<Rightarrow> direction" where
  "insert_all segs d = fold (\<lambda>(start, data, pkt) d. dir_insert d start data pkt) segs d"

definition segment_cells :: "segment \<Rightarrow> cell set" where
  "segment_cells = (\<lambda>(start, data, pkt). seg_cells start data pkt)"

definition segment_ok :: "segment \<Rightarrow> bool" where
  "segment_ok = (\<lambda>(start, data, pkt). data \<noteq> [] \<and> pkt \<noteq> 0)"

definition segments_total :: "segment list \<Rightarrow> nat" where
  "segments_total segs = sum_list (map (\<lambda>(start, data, pkt). length data) segs)"

lemma insert_all_agree:
  assumes "dir_ok d" "agree S (dir_cells d)" "\<forall>s \<in> set segs. segment_ok s \<and> agree S (segment_cells s)"
    "drPendingBytes d + int (segments_total segs) \<le> drMaxPendingCap d"
  shows "dir_ok (insert_all segs d) \<and> agree S (dir_cells (insert_all segs d)) \<and>
    fst ` dir_cells (insert_all segs d) = fst ` dir_cells d \<union> fst ` (\<Union>s \<in> set segs. segment_cells s) \<and>
    (HasConflictingOverlap (insert_all segs d) \<longleftrightarrow> HasConflictingOverlap d) \<and>
    drDroppedOOO (insert_all segs d) = drDroppedOOO d"
  using assms
proof (induction segs arbitrary: d)
  case (Cons s segs)
  obtain start data pkt where s: "s = (start, data, pkt)" by (cases s)
  let ?d = "dir_insert d start data pkt"
  have new: "data \<noteq> []" "pkt \<noteq> 0" "agree S (seg_cells start data pkt)"
    using Cons.prems(3) by (auto simp: s segment_ok_def segment_cells_def)
  have fits: "drPendingBytes d + int (length data) \<le> drMaxPendingCap d"
    using Cons.prems(4) by (simp add: s segments_total_def)
  note spec = insert_specD [OF dir_insert_spec [OF Cons.prems(1) new(1,2), of start]]
  have cells: "dir_cells ?d = dir_cells d \<union> {c \<in> seg_cells start data pkt. fst c \<notin> fst ` dir_cells d}"
    "drDroppedOOO ?d = drDroppedOOO d"
    by (rule spec(12) [OF fits], rule spec(13) [OF fits])
  have ag: "agree S (dir_cells ?d)"
    unfolding cells(1) agree_Un using Cons.prems(2) agree_filter [OF new(3)] by simp
  have noconf: "HasConflictingOverlap ?d \<longleftrightarrow> HasConflictingOverlap d"
    using spec(9) agree_no_clash [OF new(3) Cons.prems(2)] by simp
  have fst_cells: "fst ` dir_cells ?d = fst ` dir_cells d \<union> fst ` seg_cells start data pkt"
    unfolding cells(1) by (rule fst_first_writer)
  have "drPendingBytes ?d + int (segments_total segs) \<le> drMaxPendingCap ?d"
  proof -
    show ?thesis using spec(4,8) Cons.prems(4) by (simp add: s segments_total_def)
  qed
  then have "dir_ok (insert_all segs ?d) \<and> agree S (dir_cells (insert_all segs ?d)) \<and>
    fst ` dir_cells (insert_all segs ?d) = fst ` dir_cells ?d \<union> fst ` (\<Union>s \<in> set segs. segment_cells s) \<and>
    (HasConflictingOverlap (insert_all segs ?d) \<longleftrightarrow> HasConflictingOverlap ?d) \<and>
    drDroppedOOO (insert_all segs ?d) = drDroppedOOO ?d"
    using Cons.prems(3) spec(1) by (intro Cons.IH ag) simp_all
  moreover have "insert_all (s # segs) d = insert_all segs ?d" by (simp add: insert_all_def s)
  ultimately show ?case
    using fst_cells noconf cells(2) by (simp add: s segment_cells_def image_Un Un_assoc)
qed (simp add: insert_all_def)

section \<open>Sequence numbers\<close>

lemma seqDelta_offset:
  assumes "\<bar>x\<bar> \<le> 2 ^ 30"
  shows "seqDelta (b + word_of_int x) b = x"
  using assms by (simp add: seqDelta_def signed_take_bit_int_eq_self sint_sbintrunc' )

lemma note_flags_fields:
  "drBytes (note_flags d seg idx) = drBytes d" "drPendingSegs (note_flags d seg idx) = drPendingSegs d"
  "drPendingBytes (note_flags d seg idx) = drPendingBytes d"
  "drMaxPendingCap (note_flags d seg idx) = drMaxPendingCap d"
  "drOverlaps (note_flags d seg idx) = drOverlaps d"
  "drFlow (note_flags d seg idx) = drFlow d" "drGen (note_flags d seg idx) = drGen d"
  "drDroppedOOO (note_flags d seg idx) = drDroppedOOO d"
  "drHaveExpect d \<Longrightarrow> drHaveExpect (note_flags d seg idx) \<and> drExpectSeq (note_flags d seg idx) = drExpectSeq d"
  by (simp_all add: note_flags_def Let_def)

lemma note_flags_same:
  "dir_cells (note_flags d seg idx) = dir_cells d" "dir_ok (note_flags d seg idx) = dir_ok d"
  by (simp_all add: dir_cells_def dir_ok_def flush_pre_def note_flags_fields)

text \<open>Every packet keeps the invariant, and never takes back a delivered byte.\<close>

lemma dir_add_cases:
  obtains (Nothing) n m where "dir_add d seg idx = (note_flags d seg idx)\<lparr>drSegments := n, drOutOfWindow := m\<rparr>"
  | (Late) e m where "dir_add d seg idx = e\<lparr>drOutOfWindow := m\<rparr>" "drBytes e = drBytes d"
      "dir_ok e = dir_ok d" "drFlow e = drFlow d" "drGen e = drGen d"
  | (Insert) e start where "dir_add d seg idx = dir_insert e start (tcPayload seg) idx"
      "drBytes e = drBytes d" "dir_ok e = dir_ok d" "drFlow e = drFlow d" "drGen e = drGen d"
      "tcPayload seg \<noteq> []"
proof -
  let ?d1 = "note_flags d seg idx"
  let ?d3 = "anchor_stream (?d1\<lparr>drSegments := drSegments ?d1 + 1\<rparr>) seg"
  let ?delta = "seqDelta (tcSeq seg) (drExpectSeq ?d3)"
  have same: "drBytes ?d3 = drBytes d" "dir_ok ?d3 = dir_ok d" "drFlow ?d3 = drFlow d" "drGen ?d3 = drGen d"
    by (simp_all add: anchor_stream_def note_flags_fields dir_ok_def flush_pre_def)
  show thesis
  proof (cases "tcPayload seg = []")
    case True
    then show ?thesis using Nothing [where n = "drSegments ?d1" and m = "drOutOfWindow ?d1"]
      by (simp add: dir_add_def Let_def)
  next
    case False
    then show ?thesis
      using Late [where e = ?d3, OF _ same] Insert [where e = ?d3, OF _ same False]
      by (cases "?delta > maxSeqJump \<or> ?delta < - maxSeqJump") (simp_all add: dir_add_def Let_def)
  qed
qed

lemma dir_add_ok:
  assumes "dir_ok d" "idx \<noteq> 0"
  shows "dir_ok (dir_add d seg idx) \<and> prefix (sbData (drBytes d)) (sbData (drBytes (dir_add d seg idx)))
    \<and> drFlow (dir_add d seg idx) = drFlow d \<and> drGen (dir_add d seg idx) = drGen d"
proof (cases rule: dir_add_cases [of d seg idx])
  case (Nothing n m)
  then show ?thesis using assms(1)
    by (simp add: note_flags_fields dir_ok_def flush_pre_def)
next
  case (Late d3 m)
  then show ?thesis using assms(1) by (simp add: dir_ok_def flush_pre_def)
next
  case (Insert d3 start)
  then show ?thesis
    using insert_specD(1,2,6,7) [OF dir_insert_spec [of d3 "tcPayload seg" idx start]] assms by simp
qed

section \<open>The assembler\<close>

definition stream_ok :: "stream \<Rightarrow> bool" where
  "stream_ok st \<longleftrightarrow> length (stDirs st) = 2 \<and> (\<forall>j < 2. dir_ok (stDirs st ! j) \<and>
     drFlow (stDirs st ! j) = Flow (stKey st) j \<and> drGen (stDirs st ! j) = stGen st)"

text \<open>Connection identities are unique, the current generation of a pair is its newest, and every map
  points into the store.\<close>

definition asm_ok :: "assembler \<Rightarrow> bool" where
  "asm_ok a \<longleftrightarrow> (\<forall>st \<in> set (asAll a). stream_ok st \<and> asCurrent a (stKey st) \<noteq> None)
     \<and> distinct (map InstanceKey (asAll a))
     \<and> (\<forall>k i. asCurrent a k = Some i \<longrightarrow> i < length (asAll a) \<and> stKey (asAll a ! i) = k \<and>
          (\<forall>st \<in> set (asAll a). stKey st = k \<longrightarrow> stGen st \<le> stGen (asAll a ! i)))
     \<and> (\<forall>idx i. asOwner a idx = Some i \<longrightarrow> i < length (asAll a))"

inductive asm_reach :: "assembler \<Rightarrow> bool" where
  start: "asm_reach (NewAssembler\<lparr>asMaxPending := m\<rparr>)"
| frame: "asm_reach a \<Longrightarrow> frIndex f \<noteq> 0 \<Longrightarrow> asm_reach (AddFrame a f)"

lemma maxPending_pos: "0 < maxPending a"
  by (simp add: maxPending_def DefaultMaxPending_def)

lemma new_stream_ok: "stream_ok (new_stream key gen (maxPending a) idx)"
  using maxPending_pos [of a]
  by (auto simp: stream_ok_def new_stream_def less_2_cases_iff intro!: dir_ok_new)
     (simp_all add: new_direction_def)

lemma stream_add_ok:
  assumes "stream_ok st" "idx \<noteq> 0"
  shows "stream_ok (stream_add st flow seg idx)" "InstanceKey (stream_add st flow seg idx) = InstanceKey st"
proof -
  let ?j = "DirIndex (stKey st) flow"
  have j: "?j < length (stDirs st)" "?j < 2" using assms(1) DirIndex_less_2 by (simp_all add: stream_ok_def)
  then show "stream_ok (stream_add st flow seg idx)"
    using assms dir_add_ok [OF _ assms(2), of "stDirs st ! ?j" seg]
    by (auto simp: stream_add_def stream_ok_def Let_def nth_list_update)
  show "InstanceKey (stream_add st flow seg idx) = InstanceKey st"
    by (simp add: stream_add_def InstanceKey_def Let_def)
qed

text \<open>Two ways the store changes: a new stream is appended and becomes current, or one stream is
  replaced by another of the same identity.\<close>

lemma asm_okD:
  assumes "asm_ok a"
  shows "st \<in> set (asAll a) \<Longrightarrow> stream_ok st" "st \<in> set (asAll a) \<Longrightarrow> asCurrent a (stKey st) \<noteq> None"
    "distinct (map InstanceKey (asAll a))"
    "asCurrent a k = Some i \<Longrightarrow> i < length (asAll a)"
    "asCurrent a k = Some i \<Longrightarrow> stKey (asAll a ! i) = k"
    "asCurrent a k = Some i \<Longrightarrow> st \<in> set (asAll a) \<Longrightarrow> stKey st = k \<Longrightarrow> stGen st \<le> stGen (asAll a ! i)"
    "asOwner a idx = Some i \<Longrightarrow> i < length (asAll a)"
  using assms unfolding asm_ok_def by blast+

lemma asm_ok_open:
  assumes "asm_ok a" "stream_ok st" "stKey st = key"
    and "\<And>st'. st' \<in> set (asAll a) \<Longrightarrow> stKey st' = key \<Longrightarrow> stGen st' < stGen st"
  shows "asm_ok (a\<lparr>asCurrent := (asCurrent a)(key \<mapsto> length (asAll a)), asAll := asAll a @ [st]\<rparr>)"
proof -
  have "InstanceKey st \<notin> set (map InstanceKey (asAll a))"
    using assms(3,4) by (fastforce simp: InstanceKey_def)
  moreover have "stGen st' \<le> stGen st" if "st' \<in> set (asAll a)" "stKey st' = key" for st'
    using assms(4) [OF that] by simp
  ultimately show ?thesis
    using assms(1-3) unfolding asm_ok_def by (auto simp: nth_append less_Suc_eq)
qed

lemma asm_ok_replace:
  assumes "asm_ok a" "i < length (asAll a)" "stream_ok st" "InstanceKey st = InstanceKey (asAll a ! i)"
  shows "asm_ok (a\<lparr>asOwner := (asOwner a)(idx \<mapsto> i), asAll := (asAll a)[i := st]\<rparr>)"
proof -
  have key: "stKey st = stKey (asAll a ! i)" "stGen st = stGen (asAll a ! i)"
    using assms(4) by (simp_all add: InstanceKey_def)
  have ids: "map InstanceKey ((asAll a)[i := st]) = map InstanceKey (asAll a)"
    using assms(2,4) by (simp add: map_update list_update_same_conv)
  have same: "stKey ((asAll a)[i := st] ! j) = stKey (asAll a ! j)"
    "stGen ((asAll a)[i := st] ! j) = stGen (asAll a ! j)" if "j < length (asAll a)" for j
    using that key by (cases "j = i"; simp)+
  have mem: "\<exists>st0 \<in> set (asAll a). stKey st' = stKey st0 \<and> stGen st' = stGen st0 \<and> (stream_ok st0 \<longrightarrow> stream_ok st')"
    if "st' \<in> set ((asAll a)[i := st])" for st'
    using that key assms(2,3) set_update_subset_insert [of "asAll a" i st] nth_mem by fastforce
  note ok = asm_okD [OF assms(1)]
  let ?a = "a\<lparr>asOwner := (asOwner a)(idx \<mapsto> i), asAll := (asAll a)[i := st]\<rparr>"
  have sel: "asAll ?a = (asAll a)[i := st]" "asCurrent ?a = asCurrent a"
    "asOwner ?a = (asOwner a)(idx \<mapsto> i)" by simp_all
  show ?thesis
    unfolding asm_ok_def sel ids
  proof (intro conjI ballI allI impI)
    show "stream_ok x" if "x \<in> set ((asAll a)[i := st])" for x
      using mem [OF that] ok(1) by blast
    show "asCurrent a (stKey x) \<noteq> None" if "x \<in> set ((asAll a)[i := st])" for x
      using mem [OF that] ok(2) by metis
    show "distinct (map InstanceKey (asAll a))" by (rule ok(3))
    fix k c
    assume c: "asCurrent a k = Some c"
    then show "c < length ((asAll a)[i := st])" using ok(4) by simp
    show "stKey ((asAll a)[i := st] ! c) = k" using same(1) ok(4,5) c by simp
    show "stGen x \<le> stGen ((asAll a)[i := st] ! c)" if "x \<in> set ((asAll a)[i := st])" "stKey x = k" for x
      using mem [OF that(1)] that(2) same(2) [OF ok(4) [OF c]] ok(6) [OF c] by metis
  next
    fix n c
    assume "((asOwner a)(idx \<mapsto> i)) n = Some c"
    then show "c < length ((asAll a)[i := st])"
      using ok(7) assms(2) by (auto split: if_splits)
  qed
qed

lemma find_stream_ok:
  assumes "asm_ok a" "find_stream a key seg idx = (a', i)"
  shows "asm_ok a' \<and> i < length (asAll a') \<and> asOwner a' = asOwner a \<and> stKey (asAll a' ! i) = key"
proof -
  consider (Old) "a' = a" "asCurrent a key = Some i"
    | (New) gen where "a' = a\<lparr>asCurrent := (asCurrent a)(key \<mapsto> length (asAll a)),
          asAll := asAll a @ [new_stream key gen (maxPending a) idx]\<rparr>" "i = length (asAll a)"
        "\<And>st. st \<in> set (asAll a) \<Longrightarrow> stKey st = key \<Longrightarrow> stGen st < gen"
  proof (cases "asCurrent a key")
    case None
    then have "\<And>st. st \<in> set (asAll a) \<Longrightarrow> stKey st \<noteq> key"
      using asm_okD(2) [OF assms(1)] by metis
    moreover have "a' = a\<lparr>asCurrent := (asCurrent a)(key \<mapsto> length (asAll a)),
        asAll := asAll a @ [new_stream key 0 (maxPending a) idx]\<rparr>" "i = length (asAll a)"
      using assms(2) None by (auto simp: find_stream_def Let_def)
    ultimately show ?thesis using New [of 0] by blast
  next
    case (Some c)
    then have newest: "\<And>st. st \<in> set (asAll a) \<Longrightarrow> stKey st = key \<Longrightarrow> stGen st \<le> stGen (asAll a ! c)"
      using asm_okD(6) [OF assms(1)] by blast
    show ?thesis
    proof (cases "bare_syn seg \<and> stSynSeen (asAll a ! c) \<and> tcSeq seg \<noteq> stSynSeq (asAll a ! c)")
      case True
      then have "a' = a\<lparr>asCurrent := (asCurrent a)(key \<mapsto> length (asAll a)),
          asAll := asAll a @ [new_stream key (stGen (asAll a ! c) + 1) (maxPending a) idx]\<rparr>"
        "i = length (asAll a)"
        using assms(2) Some by (auto simp: find_stream_def Let_def)
      moreover have "stGen st < stGen (asAll a ! c) + 1" if "st \<in> set (asAll a)" "stKey st = key" for st
        using newest [OF that] by simp
      ultimately show ?thesis using New by blast
    next
      case False
      then have "find_stream a key seg idx = (a, c)"
        using Some by (simp add: find_stream_def Let_def if_not_P)
      then show ?thesis using assms(2) Some Old by simp
    qed
  qed
  then show ?thesis
  proof cases
    case Old
    then show ?thesis using assms(1) asm_okD(4,5) [OF assms(1) Old(2)] by simp
  next
    case (New gen)
    then show ?thesis
      using asm_ok_open [OF assms(1) new_stream_ok, of key gen a idx key]
      by (simp add: new_stream_def)
  qed
qed

lemma AddFrame_ok:
  assumes "asm_ok a" "frIndex f \<noteq> 0"
  shows "asm_ok (AddFrame a f)"
proof (cases "\<exists>seg flow. frTCP f = Some seg \<and> \<not> frFragmented f \<and> frame_flow f = Some flow")
  case True
  then obtain seg flow where f: "frTCP f = Some seg" "\<not> frFragmented f" "frame_flow f = Some flow" by blast
  obtain a' i where find: "find_stream a (Stream flow) seg (frIndex f) = (a', i)" by fastforce
  note ok = find_stream_ok [OF assms(1) find]
  have "stream_ok (asAll a' ! i)" using ok asm_okD(1) nth_mem by blast
  then show ?thesis
    using f find ok asm_ok_replace stream_add_ok [OF _ assms(2)]
    by (simp add: AddFrame_def fun_upd_def)
qed (use assms(1) in \<open>auto simp: AddFrame_def split: option.splits\<close>)

lemma NewAssembler_ok: "asm_ok (NewAssembler\<lparr>asMaxPending := m\<rparr>)"
  by (simp add: asm_ok_def NewAssembler_def)

lemma asm_reach_ok: "asm_reach a \<Longrightarrow> asm_ok a"
  by (induction rule: asm_reach.induct) (simp_all add: NewAssembler_ok AddFrame_ok)

lemma AddFrame_touches:
  assumes "asm_ok a" "frIndex f \<noteq> 0" "i < length (asAll a)" "j < 2"
  shows "i < length (asAll (AddFrame a f)) \<and>
    (let old = stDirs (asAll a ! i) ! j; new = stDirs (asAll (AddFrame a f) ! i) ! j
     in prefix (sbData (drBytes old)) (sbData (drBytes new)) \<and>
        (frame_flow f \<noteq> Some (drFlow old) \<longrightarrow> new = old))"
proof (cases "\<exists>seg flow. frTCP f = Some seg \<and> \<not> frFragmented f \<and> frame_flow f = Some flow")
  case True
  then obtain seg flow where f: "frTCP f = Some seg" "\<not> frFragmented f" "frame_flow f = Some flow" by blast
  obtain a' c where find: "find_stream a (Stream flow) seg (frIndex f) = (a', c)" by fastforce
  note ok = find_stream_ok [OF assms(1) find]
  have keep: "i < length (asAll a')" "asAll a' ! i = asAll a ! i"
    using find assms(3) by (auto simp: find_stream_def Let_def nth_append split: option.splits if_splits)
  have eq: "asAll (AddFrame a f) = (asAll a')[c := stream_add (asAll a' ! c) flow seg (frIndex f)]"
    using f find by (simp add: AddFrame_def)
  show ?thesis
  proof (cases "i = c")
    case False
    then show ?thesis using keep by (simp add: eq)
  next
    case True
    let ?st = "asAll a ! i" and ?j = "DirIndex (Stream flow) flow"
    have st: "stream_ok ?st" "stKey ?st = Stream flow"
      using ok keep True asm_okD(1) [OF assms(1)] assms(3) nth_mem by simp_all
    have dirs: "stDirs (asAll (AddFrame a f) ! i) =
        (stDirs ?st)[?j := dir_add (stDirs ?st ! ?j) seg (frIndex f)]"
      using keep True st by (simp add: eq stream_add_def Let_def)
    have flow: "drFlow (stDirs ?st ! ?j) = flow"
      using st Flow_of_DirIndex DirIndex_less_2 [of "Stream flow" flow] by (simp add: stream_ok_def)
    show ?thesis
      using st keep True dirs assms(4) flow f(3) dir_add_ok [OF _ assms(2), of "stDirs ?st ! ?j" seg]
      by (cases "j = ?j") (auto simp: stream_ok_def Let_def eq)
  qed
qed (use assms(3) in \<open>auto simp: AddFrame_def split: option.splits\<close>)

section \<open>Facts for the properties\<close>

lemma runs_upto_same:
  assumes "sb_ok sb" "a \<le> b" "\<forall>r \<in> set (sbRuns sb). rnStart r \<le> a \<or> b < rnStart r"
  shows "runs_upto sb a = runs_upto sb b"
  using assms by (intro takeWhile_cong refl) auto

text \<open>The next run found by the loop of \<^verbatim>\<open>PacketsFor\<close>: between the offset and the start of that
  run, the same frame delivered everything.\<close>

lemma next_run:
  assumes "sb_ok sb" "i = search (length (sbRuns sb)) (\<lambda>i. int (rnStart (sbRuns sb ! i)) > int off)"
    and "r \<in> set (sbRuns sb)"
  shows "rnStart r \<le> off \<or> i < length (sbRuns sb) \<and> rnStart (sbRuns sb ! i) \<le> rnStart r"
proof -
  have sorted: "sorted_wrt (<) (map rnStart (sbRuns sb))" using assms(1) by (simp add: sb_ok_def)
  have i: "i = length (runs_upto sb off)" using search_runs [OF sorted] assms(2) by simp
  obtain k where k: "k < length (sbRuns sb)" "r = sbRuns sb ! k" using assms(3) by (auto simp: in_set_conv_nth)
  show ?thesis
  proof (cases "k < i")
    case True
    then have "k < length (runs_upto sb off)" using i by simp
    then have "r \<in> set (runs_upto sb off)"
      using k(2) nth_mem [of k "runs_upto sb off"] by (simp add: takeWhile_nth)
    then show ?thesis using set_takeWhileD by fastforce
  next
    case False
    then have "rnStart (sbRuns sb ! i) \<le> rnStart r"
      using sorted k by (cases "i = k") (auto simp: sorted_wrt_iff_nth_less intro: less_imp_le)
    then show ?thesis using False k(1) by simp
  qed
qed

lemma OffsetToPacket_same:
  assumes "sb_ok sb" "a \<le> b" "b < length (sbData sb)"
    and "\<forall>r \<in> set (sbRuns sb). rnStart r \<le> a \<or> b < rnStart r"
  shows "OffsetToPacket sb (int b) = OffsetToPacket sb (int a)"
  using OffsetToPacket_last assms runs_upto_same [OF assms(1,2,4)] by simp

definition add_packet :: "nat list \<Rightarrow> nat \<Rightarrow> nat list" where
  "add_packet out pkt = (if out = [] \<or> last out \<noteq> pkt then out @ [pkt] else out)"

lemma add_packet_props:
  "set (add_packet out pkt) = insert pkt (set out)"
  "distinct_adj out \<Longrightarrow> distinct_adj (add_packet out pkt)"
  by (auto simp: add_packet_def distinct_adj_append_iff)

lemma image_single: "a \<in> A \<Longrightarrow> \<forall>k \<in> A. f k = c \<Longrightarrow> f ` A = {c}"
  by auto

lemma packets_loop_cover:
  assumes "sb_ok sb" "e \<le> length (sbData sb)" "distinct_adj out"
  shows "set (packets_loop sb (int e) (int off) out) =
      set out \<union> (\<lambda>i. OffsetToPacket sb (int i)) ` {off..<e} \<and>
    distinct_adj (packets_loop sb (int e) (int off) out)"
  using assms(3)
proof (induction "e - off" arbitrary: off out rule: less_induct)
  case less
  let ?P = "\<lambda>i. OffsetToPacket sb (int i)"
  show ?case
  proof (cases "off < e")
    case False
    then show ?thesis using less.prems by (simp add: packets_loop.simps)
  next
    case True
    let ?f = "\<lambda>i. int (rnStart (sbRuns sb ! i)) > int off"
    define i where "i = search (length (sbRuns sb)) ?f"
    have off: "off < length (sbData sb)" using True assms(2) by simp
    then have pos: "?P off \<noteq> 0" using OffsetToPacket_pos [OF assms(1)] by simp
    note nr = next_run [OF assms(1) i_def]
    have unfold: "packets_loop sb (int e) (int off) out =
        (if i \<ge> length (sbRuns sb) then add_packet out (?P off)
         else packets_loop sb (int e) (int (rnStart (sbRuns sb ! i))) (add_packet out (?P off)))"
      using True pos by (simp add: packets_loop.simps [of sb "int e" "int off"] add_packet_def i_def Let_def)
    show ?thesis
    proof (cases "i \<ge> length (sbRuns sb)")
      case last: True
      have same: "?P k = ?P off" if "k \<in> {off..<e}" for k
      proof (rule OffsetToPacket_same [OF assms(1)])
        show "\<forall>r \<in> set (sbRuns sb). rnStart r \<le> off \<or> k < rnStart r"
        proof
          fix r assume "r \<in> set (sbRuns sb)"
          from nr [OF this] last show "rnStart r \<le> off \<or> k < rnStart r" by auto
        qed
      qed (use that assms(2) in auto)
      have "off \<in> {off..<e}" using True by simp
      then have "?P ` {off..<e} = {?P off}" using same by (intro image_single ballI)
      then show ?thesis
        using unfold last less.prems add_packet_props [of out "?P off"] by simp
    next
      case False
      let ?s = "rnStart (sbRuns sb ! i)"
      have gt: "off < ?s" using search_hit [of "length (sbRuns sb)" ?f] False by (simp add: i_def)
      have same: "?P k = ?P off" if "k \<in> {off..<?s}" "k < e" for k
      proof (rule OffsetToPacket_same [OF assms(1)])
        show "\<forall>r \<in> set (sbRuns sb). rnStart r \<le> off \<or> k < rnStart r"
        proof
          fix r assume "r \<in> set (sbRuns sb)"
          from nr [OF this] that(1) show "rnStart r \<le> off \<or> k < rnStart r" by auto
        qed
      qed (use that assms(2) in auto)
      have "{off..<e} = {k. off \<le> k \<and> k < ?s \<and> k < e} \<union> {?s..<e}" using gt by auto
      moreover have "off \<in> {k. off \<le> k \<and> k < ?s \<and> k < e}" using True gt by simp
      then have "?P ` {k. off \<le> k \<and> k < ?s \<and> k < e} = {?P off}"
      proof (rule image_single, intro ballI)
        fix k assume "k \<in> {k. off \<le> k \<and> k < ?s \<and> k < e}"
        then show "?P k = ?P off" by (intro same) simp_all
      qed
      ultimately have split: "?P ` {off..<e} = insert (?P off) (?P ` {?s..<e})"
        by (simp add: image_Un)
      have "e - ?s < e - off" using gt True by simp
      note IH = less.hyps [OF this add_packet_props(2) [OF less.prems]]
      show ?thesis
        unfolding unfold if_not_P [OF False] split using IH add_packet_props(1) [of out] by simp
    qed
  qed
qed

lemma cut_all_apart: "\<forall>h \<in> set hs. apart p h \<Longrightarrow> pnData p \<noteq> [] \<Longrightarrow> \<forall>h \<in> set hs. pnData h \<noteq> [] \<Longrightarrow>
    cut_all hs [p] = ([p], [])"
proof (induction hs)
  case (Cons h hs)
  have "span p \<inter> span h = {}" using Cons.prems(1) by (simp add: apart_def)
  then have "max (pnStart p) (pnStart h) \<ge> min (pnEnd p) (pnEnd h)"
    by (auto simp: span_def)
  then have "subtract p h = (Some p, None, None)" by (simp add: subtract_def Let_def)
  then show ?case using Cons by (simp add: option_list_def)
qed simp

section \<open>Properties\<close>

definition sample_flow :: flowKey where
  "sample_flow = \<lparr>flSrc = Endpoint (IPv4Addr 1) 40000, flDst = Endpoint (IPv4Addr 2) 802\<rparr>"

definition empty_dir :: direction where "empty_dir = new_direction sample_flow 0 1000"

lemma empty_dir_simps [simp]:
  "dir_ok empty_dir" "dir_cells empty_dir = {}" "drPendingBytes empty_dir = 0"
  "drMaxPendingCap empty_dir = 1000" "sb_len (drBytes empty_dir) = 0" "drDroppedOOO empty_dir = 0"
  "drPendingSegs empty_dir = []" "sbData (drBytes empty_dir) = []"
  unfolding empty_dir_def by (simp_all add: dir_ok_new) (simp_all add: new_direction_def sb_len_def)

lemma empty_dir_conflict [simp]: "\<not> HasConflictingOverlap empty_dir"
  by (simp add: empty_dir_def new_direction_def HasConflictingOverlap_def)

lemma cells_of_list [simp]:
  "cells_of start [] pkt = {}"
  "cells_of start (x # xs) pkt = insert (start, x, pkt) (cells_of (Suc start) xs pkt)"
  unfolding cells_of_def by (simp, simp add: lessThan_Suc_eq_insert_0 image_image)

lemma seg_cells_numeral [simp]:
  "seg_cells 0 data pkt = cells_of 0 data pkt"
  "seg_cells (numeral n) data pkt = cells_of (numeral n) data pkt"
  using seg_cells_nonneg [of 0] seg_cells_nonneg [of "numeral n"] by simp_all

lemma insert_all_delivers:
  assumes "0 \<le> cap" "int (segments_total segs) \<le> cap"
    and "\<forall>s \<in> set segs. segment_ok s \<and> agree S (segment_cells s)"
    and "{..<n} \<subseteq> fst ` (\<Union>s \<in> set segs. segment_cells s)"
  shows "let d = insert_all segs (new_direction flow gen cap)
    in n \<le> sb_len (drBytes d) \<and> take n (sbData (drBytes d)) = map S [0..<n] \<and>
       \<not> HasConflictingOverlap d \<and> drDroppedOOO d = 0"
proof -
  let ?d0 = "new_direction flow gen cap"
  have d0: "agree S (dir_cells ?d0)" "drPendingBytes ?d0 = 0" "drMaxPendingCap ?d0 = cap"
    "\<not> HasConflictingOverlap ?d0" "drDroppedOOO ?d0 = 0"
    by (simp_all add: agree_def) (simp_all add: new_direction_def HasConflictingOverlap_def)
  note run = insert_all_agree [OF dir_ok_new [OF assms(1)] d0(1) assms(3)]
  have "dir_ok (insert_all segs ?d0) \<and> agree S (dir_cells (insert_all segs ?d0)) \<and>
    fst ` dir_cells (insert_all segs ?d0) = fst ` dir_cells ?d0 \<union> fst ` (\<Union>s \<in> set segs. segment_cells s) \<and>
    (HasConflictingOverlap (insert_all segs ?d0) \<longleftrightarrow> HasConflictingOverlap ?d0) \<and>
    drDroppedOOO (insert_all segs ?d0) = drDroppedOOO ?d0"
    by (rule run) (use d0 assms(2) in simp)
  then show ?thesis
    using delivered_cells [of "insert_all segs ?d0" S n] assms(4) d0 by (simp add: Let_def)
qed

text \<open>C2: reassembly is complete and independent of arrival order.  Segments that agree with one byte
  stream, in any order, overlapping and repeated as they may be, and covering its first n bytes, leave
  a direction that has delivered those n bytes, reports no conflicting overlap and has dropped
  nothing, provided the pending buffer could hold them all.\<close>

theorem insert_all_complete:
  assumes "0 \<le> cap" "int (segments_total segs) \<le> cap"
    and "\<forall>s \<in> set segs. segment_ok s \<and> agree S (segment_cells s)"
    and "{..<n} \<subseteq> fst ` (\<Union>s \<in> set segs. segment_cells s)"
  shows "let d = insert_all segs (new_direction flow gen cap)
    in n \<le> sb_len (drBytes d) \<and> take n (sbData (drBytes d)) = map S [0..<n] \<and>
       \<not> HasConflictingOverlap d \<and> drDroppedOOO d = 0"
  by (rule insert_all_delivers [OF assms])

theorem insert_all_complete_witness:
  "let d = insert_all [(2, [12, 13], 5), (0, [10, 11, 12], 7)] (new_direction sample_flow 0 100)
   in 4 \<le> sb_len (drBytes d) \<and> take 4 (sbData (drBytes d)) = map (\<lambda>i. word_of_nat (10 + i)) [0..<4] \<and>
      \<not> HasConflictingOverlap d \<and> drDroppedOOO d = 0"
proof (rule insert_all_complete)
  let ?segs = "[(2, [12, 13], 5), (0, [10, 11, 12], 7)] :: segment list"
  show "\<forall>s \<in> set ?segs. segment_ok s \<and> agree (\<lambda>i. word_of_nat (10 + i)) (segment_cells s)"
    by (simp add: segment_ok_def segment_cells_def agree_def)
  have "{..<4 :: nat} \<subseteq> {0, 1, 2, 3}" by auto
  then show "{..<4} \<subseteq> fst ` (\<Union>s \<in> set ?segs. segment_cells s)"
    by (simp add: segment_cells_def) blast
qed (simp_all add: segments_total_def)

text \<open>C13: an insertion refines the abstract rule "first writer wins": with room in the pending buffer,
  the claims afterwards are those before plus exactly the bytes of the new segment at offsets nobody
  had claimed, each attributed to the new frame, and nothing is dropped.  With or without room, what
  was claimed stays claimed and delivered bytes are only ever extended.\<close>

theorem dir_insert_first_writer:
  assumes "dir_ok d" "data \<noteq> []" "pkt \<noteq> 0"
  shows "dir_cells d \<subseteq> dir_cells (dir_insert d start data pkt) \<and>
    prefix (sbData (drBytes d)) (sbData (drBytes (dir_insert d start data pkt))) \<and>
    (drPendingBytes d + int (length data) > drMaxPendingCap d \<or>
     dir_cells (dir_insert d start data pkt) =
       dir_cells d \<union> {c \<in> seg_cells start data pkt. fst c \<notin> fst ` dir_cells d} \<and>
     drDroppedOOO (dir_insert d start data pkt) = drDroppedOOO d)"
  using insert_specD(2,10,12,13) [OF dir_insert_spec [OF assms, of start]] by (meson not_le)

theorem dir_insert_first_writer_witness:
  "dir_cells (dir_insert empty_dir 3 [1, 2] 9) = {(3, 1, 9), (4, 2, 9)} \<and>
   drDroppedOOO (dir_insert empty_dir 3 [1, 2] 9) = 0"
  using dir_insert_first_writer [of empty_dir "[1, 2]" 9 3] by auto

text \<open>Conflict detection is sound and complete: inserting a segment marks a conflicting overlap
  exactly when one of its bytes differs from the byte already claimed for that offset, delivered or
  still buffered; identical retransmissions never raise it.\<close>

lemma dir_insert_conflict:
  assumes "dir_ok d" "data \<noteq> []" "pkt \<noteq> 0"
  shows "HasConflictingOverlap (dir_insert d start data pkt) \<longleftrightarrow>
    HasConflictingOverlap d \<or> clash (seg_cells start data pkt) (dir_cells d)"
  by (rule insert_specD(9) [OF dir_insert_spec [OF assms]])

text \<open>Sequence arithmetic is exact modulo 2^32: in a direction whose expected sequence number is an
  anchor plus the bytes delivered, a segment numbered anchor plus off lands at stream offset off, for
  every off within 2^30 of the delivered length, however often the sequence space has wrapped; and the
  expected number keeps tracking the delivered length.\<close>

lemma dir_add_offset:
  assumes "dir_ok d" "drHaveExpect d" "drExpectSeq d = anchor + word_of_nat (sb_len (drBytes d))"
    and "tcSeq seg = anchor + word_of_int off" "\<bar>off - int (sb_len (drBytes d))\<bar> \<le> 2 ^ 30"
    and "tcPayload seg \<noteq> []" "idx \<noteq> 0"
    and "drPendingBytes d + int (length (tcPayload seg)) \<le> drMaxPendingCap d"
  shows "dir_cells (dir_add d seg idx) =
      dir_cells d \<union> {c \<in> seg_cells off (tcPayload seg) idx. fst c \<notin> fst ` dir_cells d} \<and>
    drExpectSeq (dir_add d seg idx) = anchor + word_of_nat (sb_len (drBytes (dir_add d seg idx)))"
proof -
  let ?d1 = "note_flags d seg idx"
  let ?d2 = "?d1\<lparr>drSegments := drSegments ?d1 + 1\<rparr>"
  let ?x = "off - int (sb_len (drBytes d))"
  have same: "drBytes ?d2 = drBytes d" "drExpectSeq ?d2 = drExpectSeq d" "drHaveExpect ?d1"
    "dir_cells ?d2 = dir_cells d" "dir_ok ?d2" "drPendingBytes ?d2 = drPendingBytes d"
    "drMaxPendingCap ?d2 = drMaxPendingCap d"
    using assms(1,2) note_flags_same [of d seg idx]
    by (simp_all add: note_flags_fields dir_cells_def dir_ok_def flush_pre_def)
  have "tcSeq seg = drExpectSeq ?d2 + word_of_int ?x"
    using assms(3,4) same(2) by simp
  then have delta: "seqDelta (tcSeq seg) (drExpectSeq ?d2) = ?x"
    using seqDelta_offset [OF assms(5)] by simp
  have eq: "dir_add d seg idx = dir_insert ?d2 off (tcPayload seg) idx"
    using delta assms(5,6) same(1,3)
    by (simp add: dir_add_def Let_def anchor_stream_def maxSeqJump_def)
  note spec = insert_specD [OF dir_insert_spec [OF same(5) assms(6,7), of off], unfolded same]
  show ?thesis
    unfolding eq using spec(12) [OF assms(8)] spec(3) assms(3) by (simp add: algebra_simps)
qed

definition wrapped_dir :: direction where
  "wrapped_dir = empty_dir\<lparr>drHaveExpect := True, drExpectSeq := 0xFFFFFFFF\<rparr>"

text \<open>The frames cited for a byte range are exactly the frames that delivered its bytes, listed
  without adjacent repetition.\<close>

lemma PacketsFor_cover:
  assumes "sb_ok sb" "0 \<le> start" "end' \<le> int (length (sbData sb))"
  shows "set (PacketsFor sb start end') = (\<lambda>i. OffsetToPacket sb (int i)) ` {nat start..<nat end'} \<and>
    distinct_adj (PacketsFor sb start end')"
  using packets_loop_cover [OF assms(1), of "nat end'" "[]" "nat start"] assms(2,3)
  by (cases "0 \<le> end'") (simp_all add: PacketsFor_def packets_loop.simps [of sb end'] max_def min_def)

text \<open>C14: every assembler reachable by feeding frames keeps its invariant: connection identities
  (endpoint pair and generation) are unique, the current generation of a pair is its newest, every
  direction carries its own flow and generation, its run map covers exactly the delivered bytes, and
  its buffered segments are disjoint, in order, beyond the delivered bytes and within the buffer.\<close>

theorem asm_reach_invariant:
  assumes "asm_reach a"
  shows "asm_ok a"
  by (rule asm_reach_ok [OF assms])

theorem asm_reach_invariant_witness:
  "asm_ok (AddFrame (NewAssembler\<lparr>asMaxPending := 64\<rparr>) ((fresh_frame 1 [])\<lparr>frIndex := 1, frTCP := Some sample_segment\<rparr>))"
  by (rule asm_reach_invariant, rule asm_reach.frame, rule asm_reach.start) simp

text \<open>Feeding a frame changes at most the direction whose flow the frame has; every other direction
  of every conversation is untouched, no conversation disappears, and delivered bytes only grow.\<close>

lemma AddFrame_isolation:
  assumes "asm_reach a" "frIndex f \<noteq> 0" "i < length (asAll a)" "j < 2"
  shows "i < length (asAll (AddFrame a f)) \<and>
    (let old = stDirs (asAll a ! i) ! j; new = stDirs (asAll (AddFrame a f) ! i) ! j
     in prefix (sbData (drBytes old)) (sbData (drBytes new)) \<and>
        (frame_flow f \<noteq> Some (drFlow old) \<longrightarrow> new = old))"
  by (rule AddFrame_touches [OF asm_reach_ok [OF assms(1)] assms(2-)])

text \<open>Data carried by the SYN itself is placed one byte too early: the stream of a direction opened
  by a SYN with payload lacks the first payload byte, although the SYN consumes one sequence number and
  the payload starts at the next.\<close>

lemma SYN_payload_loses_first_byte:
  assumes "tcFlags seg AND SYN \<noteq> 0" "tcPayload seg = b # bs" "bs \<noteq> []" "idx \<noteq> 0" "int (length bs) \<le> cap"
  shows "sbData (drBytes (dir_add (new_direction flow gen cap) seg idx)) = bs"
proof -
  let ?fresh = "new_direction flow gen cap"
  let ?d = "(note_flags ?fresh seg idx)\<lparr>drSegments := 1\<rparr>"
  have d: "drBytes ?d = \<lparr>sbData = [], sbRuns = []\<rparr>" "drPendingSegs ?d = []" "drHaveExpect ?d"
    "drExpectSeq ?d = tcSeq seg + 1" "drPendingBytes ?d = 0" "drMaxPendingCap ?d = cap"
    using assms(1) by (simp_all add: note_flags_def new_direction_def Let_def)
  have "seqDelta (tcSeq seg) (tcSeq seg + 1) = -1" by (simp add: seqDelta_def)
  moreover have "drSegments (note_flags ?fresh seg idx) = 0"
    by (simp add: note_flags_def new_direction_def Let_def)
  then have eqd: "(note_flags ?fresh seg idx)\<lparr>drSegments := drSegments (note_flags ?fresh seg idx) + 1\<rparr> = ?d"
    by simp
  ultimately have "dir_add ?fresh seg idx = dir_insert ?d (-1) (b # bs) idx"
    unfolding dir_add_def Let_def eqd anchor_stream_def assms(2) using d
    by (simp add: maxSeqJump_def sb_len_def)
  also have "\<dots> = insert_at ?d 0 bs idx"
    using assms(3) by (cases bs) (simp_all add: dir_insert_def)
  also have "\<dots> = insert_beyond ?d 0 bs idx" using d(1) by (simp add: insert_at_def sb_len_def)
  finally have eq: "dir_add ?fresh seg idx = insert_beyond ?d 0 bs idx" .
  show ?thesis
    unfolding eq using assms(3,5) d
    by (simp add: insert_beyond_def Let_def sb_len_def flush.simps sb_append_def)
qed

text \<open>The pending limit also applies to the segment everything is waiting for: when the buffer has
  no room for it, a segment that starts exactly at the delivered length is counted as dropped and
  nothing is delivered, although flushing it would have freed the buffer.\<close>

lemma full_buffer_drops_next_segment:
  assumes "dir_ok d" "data \<noteq> []" "drPendingBytes d + int (length data) > drMaxPendingCap d"
    and "\<forall>p \<in> set (drPendingSegs d). sb_len (drBytes d) + length data \<le> pnStart p"
  shows "dir_insert d (int (sb_len (drBytes d))) data pkt = d\<lparr>drDroppedOOO := drDroppedOOO d + 1\<rparr>"
proof -
  let ?p = "\<lparr>pnStart = sb_len (drBytes d), pnData = data, pnPacket = pkt\<rparr>"
  have pend: "pend_ok (sb_len (drBytes d)) (drPendingSegs d)" "ordered (drPendingSegs d)"
    using assms(1) by (simp_all add: dir_ok_def flush_pre_def)
  have "cut_all (drPendingSegs d) [?p] = ([?p], [])"
    using assms(2,4) pend by (intro cut_all_apart) (auto simp: apart_def span_def pnEnd_def pend_ok_def)
  moreover have "sort_key pnStart (drPendingSegs d) = drPendingSegs d"
  proof -
    have "sorted (map pnStart (drPendingSegs d))"
      using pend(2) unfolding ordered_def sorted_map
      by (rule sorted_wrt_mono_rel [rotated]) (simp add: pnEnd_def)
    then show ?thesis by (rule sort_key_id_if_sorted)
  qed
  moreover have "flush (d\<lparr>drDroppedOOO := n\<rparr>) = d\<lparr>drDroppedOOO := n\<rparr>" for n
    using assms(1) by (cases "drPendingSegs d") (auto simp: flush.simps [of "d\<lparr>drDroppedOOO := n\<rparr>"] dir_ok_def)
  ultimately show ?thesis
    using assms(2,3) by (simp add: dir_insert_def insert_at_def insert_beyond_def Let_def)
qed

end
