(* ===== verification/Tls_Record.thy ===== *)
theory Tls_Record
  imports Tls_Cursor Netdis_Reassembly
begin

text \<open>
  \<^verbatim>\<open>internal/evidence/tlsdis/record.go\<close>: the record layer of one direction and its
  split into alerts, ChangeCipherSpec and application data.  The interface \<^verbatim>\<open>OffsetMapper\<close> is a
  locale; the reassembled stream of \<^verbatim>\<open>netdis\<close> is its interpretation.  A nil mapper is \<^verbatim>\<open>None\<close>.
\<close>

section \<open>Records\<close>

definition ContentChangeCipherSpec :: byte where "ContentChangeCipherSpec = 20"
definition ContentAlert :: byte where "ContentAlert = 21"
definition ContentHandshake :: byte where "ContentHandshake = 22"
definition ContentApplicationData :: byte where "ContentApplicationData = 23"
definition ContentHeartbeat :: byte where "ContentHeartbeat = 24"

lemmas content_types = ContentChangeCipherSpec_def ContentAlert_def ContentHandshake_def
  ContentApplicationData_def ContentHeartbeat_def

definition MaxRecordFragment :: nat where "MaxRecordFragment = 2 ^ 14 + 2048"

type_synonym mapper = "nat \<Rightarrow> nat \<Rightarrow> nat list"

record tlsRecord =
  rcIndex :: nat
  rcOffset :: nat
  rcType :: byte
  rcVersion :: u16
  rcLength :: nat
  rcFragment :: bytes
  rcPackets :: "nat list"

definition record_end :: "tlsRecord \<Rightarrow> nat" where "record_end r = rcOffset r + 5 + rcLength r"

record recordStream =
  rsRecords :: "tlsRecord list"
  rsTrailing :: nat
  rsNeed :: nat

definition map_packets :: "mapper option \<Rightarrow> nat \<Rightarrow> nat \<Rightarrow> nat list" where
  "map_packets m start end' = (case m of None \<Rightarrow> [] | Some f \<Rightarrow> f start end')"

definition parse_record :: "mapper option \<Rightarrow> bytes \<Rightarrow> nat \<Rightarrow> nat \<Rightarrow> tlsRecord" where
  "parse_record m data off idx =
    (let len = unat (be_u16 (subslice data (off + 3) (off + 5)))
     in \<lparr>rcIndex = idx, rcOffset = off, rcType = data ! off,
         rcVersion = be_u16 (subslice data (off + 1) (off + 3)), rcLength = len,
         rcFragment = subslice data (off + 5) (off + 5 + len),
         rcPackets = map_packets m off (off + 5 + len)\<rparr>)"

function records_loop :: "mapper option \<Rightarrow> bytes \<Rightarrow> nat \<Rightarrow> tlsRecord list \<Rightarrow> recordStream \<times> tls_error option" where
  "records_loop m data off recs =
    (if length data - off < 5 then
       (\<lparr>rsRecords = recs, rsTrailing = length data - off,
         rsNeed = (if length data - off > 0 then 5 - (length data - off) else 0)\<rparr>, None)
     else
       let r = parse_record m data off (length recs);
           stop = (\<lambda>e. (\<lparr>rsRecords = recs, rsTrailing = 0, rsNeed = 0\<rparr>, Some e))
       in if rcType r < ContentChangeCipherSpec \<or> rcType r > ContentHeartbeat
          then stop (NotTLSRecord off (rcType r))
          else if drop_bit 8 (rcVersion r) \<noteq> 0x03 then stop (NotTLSVersion off (rcVersion r))
          else if rcLength r > MaxRecordFragment then stop (FragmentTooLong off (rcLength r))
          else if length data - off - 5 < rcLength r then
            (\<lparr>rsRecords = recs, rsTrailing = length data - off,
              rsNeed = 5 + rcLength r - (length data - off)\<rparr>, None)
          else records_loop m data (off + 5 + rcLength r) (recs @ [r]))"
  by pat_completeness auto
termination by (relation "measure (\<lambda>(m, data, off, recs). length data - off)") auto

declare records_loop.simps [simp del]

definition ParseRecords :: "bytes \<Rightarrow> mapper option \<Rightarrow> recordStream \<times> tls_error option" where
  "ParseRecords data m = records_loop m data 0 []"

section \<open>Alerts and the encryption boundary\<close>

record alert =
  alLevel :: byte
  alDescription :: byte
  alEncrypted :: bool
  alRecord :: nat
  alOffset :: nat
  alPackets :: "nat list"

definition Fatal :: "alert \<Rightarrow> bool" where
  "Fatal a \<longleftrightarrow> \<not> alEncrypted a \<and> alLevel a = 2"

fun alert_pairs :: "tlsRecord \<Rightarrow> nat \<Rightarrow> bytes \<Rightarrow> alert list" where
  "alert_pairs r i (l # d # bs) =
    \<lparr>alLevel = l, alDescription = d, alEncrypted = False, alRecord = rcIndex r,
     alOffset = rcOffset r + 5 + i, alPackets = rcPackets r\<rparr> # alert_pairs r (i + 2) bs"
| "alert_pairs r i _ = []"

definition sealed_alert :: "tlsRecord \<Rightarrow> alert" where
  "sealed_alert r = \<lparr>alLevel = 0, alDescription = 0, alEncrypted = True, alRecord = rcIndex r,
     alOffset = rcOffset r + 5, alPackets = rcPackets r\<rparr>"

record classified =
  clCCS :: "nat list"
  clAlerts :: "alert list"
  clAppData :: "nat list"

fun classify_loop :: "bool \<Rightarrow> tlsRecord list \<Rightarrow> classified \<Rightarrow> classified" where
  "classify_loop encrypted [] d = d"
| "classify_loop encrypted (r # rs) d =
    (if rcType r = ContentChangeCipherSpec then
       classify_loop True rs (d\<lparr>clCCS := clCCS d @ [rcIndex r]\<rparr>)
     else if rcType r = ContentApplicationData then
       classify_loop encrypted rs (d\<lparr>clAppData := clAppData d @ [rcIndex r]\<rparr>)
     else if rcType r = ContentAlert then
       classify_loop encrypted rs
         (d\<lparr>clAlerts := clAlerts d @
            (if encrypted then [sealed_alert r] else alert_pairs r 0 (rcFragment r))\<rparr>)
     else classify_loop encrypted rs d)"

definition classify :: "tlsRecord list \<Rightarrow> classified" where
  "classify recs = classify_loop False recs \<lparr>clCCS = [], clAlerts = [], clAppData = []\<rparr>"

definition FatalAlert :: "classified \<Rightarrow> alert option" where
  "FatalAlert d = find Fatal (clAlerts d)"

definition PlainAlerts :: "classified \<Rightarrow> alert list" where
  "PlainAlerts d = filter (\<lambda>a. \<not> alEncrypted a) (clAlerts d)"

definition EncryptedAlerts :: "classified \<Rightarrow> alert list" where
  "EncryptedAlerts d = filter alEncrypted (clAlerts d)"

record fragment =
  fgData :: bytes
  fgRecord :: int
  fgPackets :: "nat list"

definition HandshakeFragments :: "tlsRecord list \<Rightarrow> classified \<Rightarrow> fragment list" where
  "HandshakeFragments recs d =
    (let before = (case clCCS d of [] \<Rightarrow> recs | stop # _ \<Rightarrow> takeWhile (\<lambda>r. \<not> rcIndex r \<ge> stop) recs)
     in map (\<lambda>r. \<lparr>fgData = rcFragment r, fgRecord = int (rcIndex r), fgPackets = rcPackets r\<rparr>)
          (filter (\<lambda>r. rcType r = ContentHandshake) before))"

section \<open>Records tile the stream\<close>

definition record_wire :: "tlsRecord \<Rightarrow> bytes" where
  "record_wire r = ([rcType r] @ put_be16 (rcVersion r) @ put_be16 (word_of_nat (rcLength r))) @ rcFragment r"

definition record_ok :: "tlsRecord \<Rightarrow> bool" where
  "record_ok r \<longleftrightarrow> ContentChangeCipherSpec \<le> rcType r \<and> rcType r \<le> ContentHeartbeat
     \<and> drop_bit 8 (rcVersion r) = 0x03 \<and> rcLength r \<le> MaxRecordFragment
     \<and> length (rcFragment r) = rcLength r"

text \<open>The records stand one after the other from the given offset and position on.\<close>

fun chained :: "mapper option \<Rightarrow> nat \<Rightarrow> nat \<Rightarrow> tlsRecord list \<Rightarrow> bool" where
  "chained m off idx [] = True"
| "chained m off idx (r # rs) \<longleftrightarrow> record_ok r \<and> rcOffset r = off \<and> rcIndex r = idx
     \<and> rcPackets r = map_packets m off (record_end r) \<and> chained m (record_end r) (Suc idx) rs"

lemma parse_record_wire:
  assumes "off + 5 + rcLength (parse_record m data off idx) \<le> length data"
  shows "subslice data off (off + 5 + rcLength (parse_record m data off idx)) =
    record_wire (parse_record m data off idx)"
proof -
  let ?r = "parse_record m data off idx"
  have len: "off + 5 \<le> length data" "rcLength ?r < 65536"
    using assms unat_u16_less by (auto simp: parse_record_def Let_def)
  have "subslice data off (off + 5 + rcLength ?r) =
      subslice data off (off + 1) @ subslice data (off + 1) (off + 3) @ subslice data (off + 3) (off + 5)
      @ subslice data (off + 5) (off + 5 + rcLength ?r)"
    using assms by (simp add: subslice_append_adjacent)
  also have "subslice data off (off + 1) = [rcType ?r]"
    using len by (simp add: parse_record_def Let_def subslice_single)
  also have "subslice data (off + 1) (off + 3) = put_be16 (rcVersion ?r)"
    using len by (simp add: parse_record_def Let_def put_be_u16)
  also have "subslice data (off + 3) (off + 5) = put_be16 (word_of_nat (rcLength ?r))"
    using len by (simp add: parse_record_def Let_def put_be_u16)
  also have "subslice data (off + 5) (off + 5 + rcLength ?r) = rcFragment ?r"
    by (simp add: parse_record_def Let_def)
  finally show ?thesis by (simp add: record_wire_def)
qed

fun chain_end :: "nat \<Rightarrow> tlsRecord list \<Rightarrow> nat" where
  "chain_end off [] = off"
| "chain_end off (r # rs) = chain_end (record_end r) rs"

lemma chained_append:
  "chained m off idx (rs @ [r]) \<longleftrightarrow> chained m off idx rs \<and> chained m (chain_end off rs) (idx + length rs) [r]"
  by (induction m off idx rs rule: chained.induct) auto

lemma chain_end_append [simp]: "chain_end off (rs @ [r]) = record_end r"
  by (induction off rs rule: chain_end.induct) auto

lemma length_record_wire: "record_ok r \<Longrightarrow> length (record_wire r) = 5 + rcLength r"
  by (simp add: record_wire_def record_ok_def)

lemma concat_records_length:
  "chained m off idx rs \<Longrightarrow> off + length (concat (map record_wire rs)) = chain_end off rs"
  by (induction m off idx rs rule: chained.induct) (auto simp: length_record_wire record_end_def)

text \<open>One step of the loop accepts a record, or the loop stops here.\<close>

definition accepts :: "mapper option \<Rightarrow> bytes \<Rightarrow> nat \<Rightarrow> nat \<Rightarrow> bool" where
  "accepts m data off idx \<longleftrightarrow>
     (let r = parse_record m data off idx
      in 5 \<le> length data - off \<and> ContentChangeCipherSpec \<le> rcType r \<and> rcType r \<le> ContentHeartbeat \<and>
         drop_bit 8 (rcVersion r) = 0x03 \<and> rcLength r \<le> MaxRecordFragment \<and> rcLength r \<le> length data - off - 5)"

lemma records_loop_accept:
  assumes "accepts m data off (length recs)"
  shows "records_loop m data off recs = records_loop m data
    (record_end (parse_record m data off (length recs))) (recs @ [parse_record m data off (length recs)])"
proof -
  let ?r = "parse_record m data off (length recs)"
  have c: "(length data - off < 5) = False"
    "(rcType ?r < ContentChangeCipherSpec \<or> rcType ?r > ContentHeartbeat) = False"
    "(drop_bit 8 (rcVersion ?r) \<noteq> 0x03) = False" "(rcLength ?r > MaxRecordFragment) = False"
    "(length data - off - 5 < rcLength ?r) = False"
    using assms by (auto simp: accepts_def Let_def)
  have "record_end ?r = off + 5 + rcLength ?r"
    by (simp add: record_end_def parse_record_def Let_def)
  then show ?thesis
    unfolding records_loop.simps [of m data off recs] Let_def c if_False by (simp only:)
qed

lemma records_loop_stop:
  "\<not> accepts m data off (length recs) \<Longrightarrow> \<exists>t n e. records_loop m data off recs =
     (\<lparr>rsRecords = recs, rsTrailing = t, rsNeed = n\<rparr>, e) \<and>
     (e = None \<longrightarrow> t = length data - off \<and> (n = 0 \<longleftrightarrow> t = 0))"
  by (auto simp: records_loop.simps [of m data off recs] accepts_def Let_def not_less not_le)

lemma accepts_record:
  assumes "accepts m data off idx"
  shows "record_ok (parse_record m data off idx)"
    "record_end (parse_record m data off idx) \<le> length data"
    "chained m off idx [parse_record m data off idx]"
    "record_wire (parse_record m data off idx) = subslice data off (record_end (parse_record m data off idx))"
proof -
  let ?r = "parse_record m data off idx"
  have fit: "off + 5 + rcLength ?r \<le> length data"
    using assms by (auto simp: accepts_def Let_def)
  have off: "rcOffset ?r = off" by (simp add: parse_record_def Let_def)
  show "record_end ?r \<le> length data" using fit off by (simp add: record_end_def)
  have "length (rcFragment ?r) = rcLength ?r"
    using fit by (simp add: parse_record_def Let_def)
  then show ok: "record_ok ?r" using assms by (simp add: accepts_def Let_def record_ok_def)
  show "chained m off idx [?r]"
    using ok by (simp add: off record_end_def) (simp add: parse_record_def Let_def)
  show "record_wire ?r = subslice data off (record_end ?r)"
    using parse_record_wire [OF fit] by (simp add: record_end_def off)
qed

lemma records_loop_tile:
  assumes "records_loop m data off recs = (rs, e)" "chained m 0 0 recs" "chain_end 0 recs = off"
    "concat (map record_wire recs) = take off data" "off \<le> length data"
  shows "chained m 0 0 (rsRecords rs) \<and>
    (let stop = chain_end 0 (rsRecords rs)
     in stop \<le> length data \<and> concat (map record_wire (rsRecords rs)) = take stop data \<and>
        (e = None \<longrightarrow> stop + rsTrailing rs = length data \<and> (rsNeed rs = 0 \<longleftrightarrow> rsTrailing rs = 0)))"
  using assms
proof (induction "length data - off" arbitrary: off recs rule: less_induct)
  case less
  show ?case
  proof (cases "accepts m data off (length recs)")
    case True
    let ?r = "parse_record m data off (length recs)"
    note r = accepts_record [OF True]
    have "take (record_end ?r) data = take off data @ subslice data off (record_end ?r)"
      using r(2,3) by (simp add: subslice_def record_end_def take_add [symmetric] add.assoc)
    then have wire: "concat (map record_wire (recs @ [?r])) = take (record_end ?r) data"
      using r(4) less.prems(4) by simp
    have gt: "off < record_end ?r" using r(3) by (simp add: record_end_def)
    have "length data - record_end ?r < length data - off" using gt r(2) by simp
    then show ?thesis
    proof (rule less.hyps)
      show "records_loop m data (record_end ?r) (recs @ [?r]) = (rs, e)"
        using less.prems(1) records_loop_accept [OF True] by simp
      show "chained m 0 0 (recs @ [?r])" using r(3) less.prems(2,3) by (simp add: chained_append)
    qed (use wire r(2) in simp_all)
  next
    case False
    from records_loop_stop [OF False] less.prems show ?thesis by (auto simp: Let_def)
  qed
qed

lemma ParseRecords_tile:
  assumes "ParseRecords data m = (rs, e)"
  shows "chained m 0 0 (rsRecords rs) \<and>
    (let stop = chain_end 0 (rsRecords rs)
     in stop \<le> length data \<and> concat (map record_wire (rsRecords rs)) = take stop data \<and>
        (e = None \<longrightarrow> stop + rsTrailing rs = length data \<and> (rsNeed rs = 0 \<longleftrightarrow> rsTrailing rs = 0)))"
  using assms by (intro records_loop_tile [of m data 0 "[]"]) (simp_all add: ParseRecords_def)

lemma be_u16_of_put: "be_u16 (put_be16 w) = w"
  using be_u16_put [of w "[]"] by simp

lemma parse_record_at:
  assumes "record_ok r" "rcOffset r = off" "rcIndex r = idx" "rcPackets r = map_packets m off (record_end r)"
    "off + 5 + rcLength r \<le> length data" "subslice data off (off + 5 + rcLength r) = record_wire r"
  shows "parse_record m data off idx = r"
proof -
  have len: "rcLength r < 65536" "length (rcFragment r) = rcLength r"
    using assms(1) by (auto simp: record_ok_def MaxRecordFragment_def)
  have part: "subslice data (off + i) (off + j) = subslice (record_wire r) i j"
    if "i \<le> j" "j \<le> 5 + rcLength r" for i j
  proof -
    have "subslice (subslice data off (off + 5 + rcLength r)) i j = subslice data (off + i) (off + j)"
      using that by (simp add: subslice_subslice add.commute add.left_commute)
    then show ?thesis using assms(6) by simp
  qed
  have "subslice data off (off + 1) = [data ! off]" using assms(5) by (simp add: subslice_single)
  moreover have "subslice (record_wire r) 0 1 = [rcType r]" by (simp add: record_wire_def subslice_def)
  ultimately have ty: "data ! off = rcType r" using part [of 0 1] by simp
  have ver: "be_u16 (subslice data (off + 1) (off + 3)) = rcVersion r"
    using part [of 1 3] by (simp add: record_wire_def subslice_def be_u16_of_put)
  have ln: "unat (be_u16 (subslice data (off + 3) (off + 5))) = rcLength r"
    using part [of 3 5] len by (simp add: record_wire_def subslice_def be_u16_of_put)
  have fr: "subslice data (off + 5) (off + 5 + rcLength r) = rcFragment r"
    using part [of 5 "5 + rcLength r"] len by (simp add: record_wire_def subslice_def add.assoc)
  show ?thesis
    using assms(2-4) ty ver ln fr by (simp add: parse_record_def Let_def record_end_def)
qed

lemma records_loop_wire:
  assumes "chained m off (length recs) rs" "off + length (concat (map record_wire rs)) \<le> length data"
    "subslice data off (off + length (concat (map record_wire rs))) = concat (map record_wire rs)"
  shows "records_loop m data off recs = records_loop m data (chain_end off rs) (recs @ rs)"
  using assms
proof (induction rs arbitrary: off recs)
  case (Cons r rs)
  let ?tail = "concat (map record_wire rs)"
  have ok: "record_ok r" "rcOffset r = off" "rcIndex r = length recs"
    "rcPackets r = map_packets m off (record_end r)"
    "chained m (record_end r) (length (recs @ [r])) rs"
    using Cons.prems(1) by simp_all
  have e: "record_end r = off + length (record_wire r)" "length (record_wire r) = 5 + rcLength r"
    using ok(1,2) by (simp_all add: record_end_def length_record_wire)
  have fit: "off + 5 + rcLength r \<le> length data" using Cons.prems(2) e by simp
  have split: "subslice data off (record_end r) = record_wire r"
    "subslice data (record_end r) (record_end r + length ?tail) = ?tail"
  proof -
    have "subslice data off (record_end r) @ subslice data (record_end r) (record_end r + length ?tail) =
        record_wire r @ ?tail"
      using Cons.prems(3) e by (simp add: subslice_append_adjacent add.assoc)
    moreover have "length (subslice data off (record_end r)) = length (record_wire r)"
      using fit e by simp
    ultimately show "subslice data off (record_end r) = record_wire r"
      "subslice data (record_end r) (record_end r + length ?tail) = ?tail" by simp_all
  qed
  have p: "parse_record m data off (length recs) = r"
    by (rule parse_record_at) (use ok fit split(1) e in \<open>simp_all add: add.assoc\<close>)
  have "accepts m data off (length recs)"
    using ok(1) fit unfolding accepts_def Let_def p by (auto simp: record_ok_def)
  from records_loop_accept [OF this, unfolded p]
  have "records_loop m data off recs = records_loop m data (record_end r) (recs @ [r])" .
  also have "\<dots> = records_loop m data (chain_end (record_end r) rs) ((recs @ [r]) @ rs)"
    by (rule Cons.IH) (use ok(5) split(2) Cons.prems(2) e in \<open>simp_all add: add.assoc\<close>)
  finally show ?case by simp
qed simp

section \<open>The mapper interface\<close>

text \<open>What the record layer relies on when it asks which frames carried a range: asking for a range in
  two parts cites the same frames.  \<^verbatim>\<open>ok\<close> is the provider's own invariant and \<^verbatim>\<open>size\<close> how many bytes
  it can resolve.\<close>

locale offset_mapper =
  fixes packets_for :: "'m \<Rightarrow> nat \<Rightarrow> nat \<Rightarrow> nat list"
    and ok :: "'m \<Rightarrow> bool"
    and size :: "'m \<Rightarrow> nat"
  assumes split_range: "ok m \<Longrightarrow> start \<le> mid \<Longrightarrow> mid \<le> stop \<Longrightarrow> stop \<le> size m \<Longrightarrow>
      set (packets_for m start stop) = set (packets_for m start mid) \<union> set (packets_for m mid stop)"
    and cited: "ok m \<Longrightarrow> start < stop \<Longrightarrow> stop \<le> size m \<Longrightarrow> packets_for m start stop \<noteq> []"
    and empty_range: "packets_for m off off = []"
begin

lemma chained_packets:
  assumes "chained (Some (packets_for m)) off idx rs" "ok m" "chain_end off rs \<le> size m"
  shows "(\<Union>r \<in> set rs. set (rcPackets r)) = set (packets_for m off (chain_end off rs))
    \<and> (\<forall>r \<in> set rs. rcPackets r \<noteq> [])"
  using assms
proof (induction rs arbitrary: off idx)
  case (Cons r rs)
  let ?e = "record_end r" and ?f = "chain_end (record_end r) rs"
  have r: "rcOffset r = off" "rcPackets r = packets_for m off ?e" "chained (Some (packets_for m)) ?e (Suc idx) rs"
    using Cons.prems(1) by (simp_all add: map_packets_def)
  have "off < ?e" by (simp add: record_end_def r(1))
  moreover have "?e \<le> ?f" using concat_records_length [OF r(3)] by simp
  moreover have "?f \<le> size m" using Cons.prems(3) by simp
  ultimately have "set (packets_for m off ?f) = set (packets_for m off ?e) \<union> set (packets_for m ?e ?f)"
    "packets_for m off ?e \<noteq> []"
    using split_range [OF Cons.prems(2), of off ?e ?f] cited [OF Cons.prems(2), of off ?e] by simp_all
  with Cons.IH [OF r(3) Cons.prems(2)] \<open>?f \<le> size m\<close> r(2) show ?case by auto
qed (simp add: empty_range)

end

text \<open>A reassembled stream is a mapper: its run map splits ranges because each offset has one frame.\<close>

definition stream_packets :: "streamBytes \<Rightarrow> mapper" where
  "stream_packets sb start stop = PacketsFor sb (int start) (int stop)"

lemma stream_packets_set:
  "sb_ok sb \<Longrightarrow> stop \<le> sb_len sb \<Longrightarrow>
   set (stream_packets sb start stop) = (\<lambda>i. OffsetToPacket sb (int i)) ` {start..<stop}"
  using packets_loop_cover [of sb stop "[]" start]
  by (simp add: stream_packets_def PacketsFor_def sb_len_def min_def)

interpretation sbm: offset_mapper stream_packets sb_ok sb_len
proof
  fix m start mid stop
  assume "sb_ok m" "start \<le> mid" "mid \<le> stop" "stop \<le> sb_len m"
  moreover from this have "{start..<stop} = {start..<mid} \<union> {mid..<stop}" by auto
  ultimately show "set (stream_packets m start stop) =
      set (stream_packets m start mid) \<union> set (stream_packets m mid stop)"
    by (simp add: stream_packets_set image_Un)
next
  fix m start stop
  assume *: "sb_ok m" "start < stop" "stop \<le> sb_len m"
  then have "OffsetToPacket m (int start) \<in> set (stream_packets m start stop)"
    by (simp add: stream_packets_set)
  then show "stream_packets m start stop \<noteq> []" by auto
next
  show "stream_packets m off off = []" for m off
    by (simp add: stream_packets_def PacketsFor_def packets_loop.simps)
qed

section \<open>The encryption boundary\<close>

lemma alert_pairs_plain: "a \<in> set (alert_pairs r i bs) \<Longrightarrow> \<not> alEncrypted a \<and> alRecord a = rcIndex r"
  by (induction r i bs rule: alert_pairs.induct) auto

lemma alert_pairs_length: "length (alert_pairs r i bs) = length bs div 2"
  by (induction r i bs rule: alert_pairs.induct) auto

definition alerts_of :: "bool \<Rightarrow> tlsRecord \<Rightarrow> alert list" where
  "alerts_of enc r =
    (if rcType r \<noteq> ContentAlert then [] else if enc then [sealed_alert r] else alert_pairs r 0 (rcFragment r))"

abbreviation is_ccs :: "tlsRecord \<Rightarrow> bool" where
  "is_ccs r \<equiv> rcType r = ContentChangeCipherSpec"

lemma upt_shift: "[0..<Suc n] = 0 # map Suc [0..<n]"
  by (simp add: upt_conv_Cons map_Suc_upt del: upt_Suc)

lemma ex_shift: "(\<exists>j < Suc i. P ((x # xs) ! j)) \<longleftrightarrow> P x \<or> (\<exists>j < i. P (xs ! j))"
  by (auto simp: less_Suc_eq_0_disj)

lemma classify_loop_alerts:
  "clAlerts (classify_loop enc rs d) = clAlerts d @
     concat (map (\<lambda>i. alerts_of (enc \<or> (\<exists>j < i. is_ccs (rs ! j))) (rs ! i)) [0..<length rs])"
proof (induction rs arbitrary: enc d)
  case (Cons r rs)
  have "concat (map (\<lambda>i. alerts_of (enc \<or> (\<exists>j < i. is_ccs ((r # rs) ! j))) ((r # rs) ! i)) [0..<Suc (length rs)])
    = alerts_of enc r @ concat (map (\<lambda>i. alerts_of ((enc \<or> is_ccs r) \<or> (\<exists>j < i. is_ccs (rs ! j))) (rs ! i))
        [0..<length rs])"
    unfolding upt_shift by (simp add: ex_shift [of _ is_ccs] comp_def disj_assoc)
  note split = this
  have "\<exists>d'. classify_loop enc (r # rs) d = classify_loop (enc \<or> is_ccs r) rs d' \<and>
      clAlerts d' = clAlerts d @ alerts_of enc r"
    by (cases "is_ccs r"; cases "rcType r = ContentAlert"; cases "rcType r = ContentApplicationData"; cases enc)
       (simp_all add: alerts_of_def content_types, (rule exI, rule conjI, rule refl, simp)+)
  then obtain d' where d': "classify_loop enc (r # rs) d = classify_loop (enc \<or> is_ccs r) rs d'"
    "clAlerts d' = clAlerts d @ alerts_of enc r" by blast
  show ?case
    unfolding d'(1) length_Cons split Cons.IH d'(2) by (simp only: append_assoc)
qed simp

lemma classify_loop_indices:
  "clCCS (classify_loop enc rs d) = clCCS d @ map rcIndex (filter is_ccs rs) \<and>
   clAppData (classify_loop enc rs d) =
     clAppData d @ map rcIndex (filter (\<lambda>r. rcType r = ContentApplicationData) rs)"
  by (induction enc rs d rule: classify_loop.induct) (auto simp: content_types)

lemma chained_index: "chained m off idx rs \<Longrightarrow> i < length rs \<Longrightarrow> rcIndex (rs ! i) = idx + i"
proof (induction rs arbitrary: off idx i)
  case (Cons r rs)
  then show ?case by (cases i) auto
qed simp

text \<open>On a chained record list the fragments kept are exactly those of the records before the first
  ChangeCipherSpec.\<close>

lemma takeWhile_before:
  assumes "chained m off idx rs"
  shows "(case map rcIndex (filter is_ccs rs) of [] \<Rightarrow> rs
      | stop # _ \<Rightarrow> takeWhile (\<lambda>r. \<not> rcIndex r \<ge> stop) rs) = takeWhile (\<lambda>r. \<not> is_ccs r) rs"
  using assms
proof (induction rs arbitrary: off idx)
  case (Cons r rs)
  show ?case
  proof (cases "is_ccs r")
    case False
    have tail: "chained m (record_end r) (Suc idx) rs" "rcIndex r = idx" using Cons.prems by simp_all
    show ?thesis
    proof (cases "filter is_ccs rs")
      case Nil
      then show ?thesis using Cons.IH [OF tail(1)] False by simp
    next
      case f: (Cons c cs)
      then have "c \<in> set rs" by (metis filter_is_subset list.set_intros(1) subsetD)
      then obtain i where "i < length rs" "c = rs ! i" by (auto simp: in_set_conv_nth)
      then have "rcIndex r < rcIndex c" using chained_index [OF tail(1)] tail(2) by simp
      then show ?thesis using Cons.IH [OF tail(1)] False f by simp
    qed
  qed simp
qed simp

section \<open>Properties\<close>

text \<open>The records found tile the stream from its first byte: they are contiguous, numbered from
  zero, each re-encodes to exactly its bytes, and without an error what is not covered is counted as
  trailing, with a need exactly when there is something trailing.\<close>

lemma ParseRecords_tiles:
  assumes "ParseRecords data m = (rs, e)"
  shows "chained m 0 0 (rsRecords rs) \<and>
    (let stop = chain_end 0 (rsRecords rs)
     in stop \<le> length data \<and> concat (map record_wire (rsRecords rs)) = take stop data \<and>
        (e = None \<longrightarrow> stop + rsTrailing rs = length data \<and> (rsNeed rs = 0 \<longleftrightarrow> rsTrailing rs = 0)))"
  by (rule ParseRecords_tile [OF assms])

definition sample_alert_record :: tlsRecord where
  "sample_alert_record = \<lparr>rcIndex = 0, rcOffset = 0, rcType = 21, rcVersion = 0x0303, rcLength = 2,
     rcFragment = [2, 40], rcPackets = []\<rparr>"

lemma sample_alert_chained: "chained None 0 0 [sample_alert_record]"
  by (simp add: sample_alert_record_def record_ok_def content_types MaxRecordFragment_def map_packets_def)

text \<open>A stream that is the encoding of well-formed records, followed by at most four more bytes, is
  parsed back into exactly those records, with those bytes as the trailing part.\<close>

lemma ParseRecords_roundtrip:
  assumes "chained m 0 0 recs" "length tail' < 5"
  shows "ParseRecords (concat (map record_wire recs) @ tail') m =
    (\<lparr>rsRecords = recs, rsTrailing = length tail',
      rsNeed = (if tail' = [] then 0 else 5 - length tail')\<rparr>, None)"
proof -
  let ?w = "concat (map record_wire recs)"
  have e: "length ?w = chain_end 0 recs" using concat_records_length [OF assms(1)] by simp
  have "records_loop m (?w @ tail') 0 [] = records_loop m (?w @ tail') (chain_end 0 recs) ([] @ recs)"
    using assms(1) by (intro records_loop_wire) (simp_all add: subslice_def)
  also have "\<dots> = (\<lparr>rsRecords = recs, rsTrailing = length tail',
      rsNeed = (if tail' = [] then 0 else 5 - length tail')\<rparr>, None)"
    using e assms(2) by (subst records_loop.simps) (simp add: e [symmetric])
  finally show ?thesis by (simp add: ParseRecords_def)
qed

text \<open>Over a reassembled TCP stream, the frames cited by the records of a parse are, together,
  exactly the frames cited for the whole range they cover, and every record cites at least one frame:
  no frame that carried record bytes goes uncited and no other frame is cited.\<close>

lemma ParseRecords_frames:
  assumes "sb_ok sb" "ParseRecords (sbData sb) (Some (stream_packets sb)) = (rs, e)"
  shows "(\<Union>r \<in> set (rsRecords rs). set (rcPackets r)) =
      set (stream_packets sb 0 (chain_end 0 (rsRecords rs))) \<and>
    (\<forall>r \<in> set (rsRecords rs). rcPackets r \<noteq> [])"
  using ParseRecords_tile [OF assms(2)] assms(1)
  by (intro sbm.chained_packets) (auto simp: Let_def sb_len_def)

definition sample_stream :: streamBytes where
  "sample_stream = \<lparr>sbData = [21, 3, 3, 0, 2, 2, 40], sbRuns = [\<lparr>rnStart = 0, rnPacket = 5\<rparr>]\<rparr>"

text \<open>Alerts are decoded exactly up to the encryption boundary: the alerts of a direction are, record
  by record, the decoded two-byte alerts of the alert records before the first ChangeCipherSpec, and one
  opaque entry with zero level and description for each alert record after it, so no ciphertext byte is
  ever reported as an alert and none is silently dropped.\<close>

lemma classify_alerts:
  "clAlerts (classify recs) =
     concat (map (\<lambda>i. alerts_of (\<exists>j < i. is_ccs (recs ! j)) (recs ! i)) [0..<length recs]) \<and>
   clCCS (classify recs) = map rcIndex (filter is_ccs recs) \<and>
   clAppData (classify recs) = map rcIndex (filter (\<lambda>r. rcType r = ContentApplicationData) recs)"
  using classify_loop_alerts [of False recs] classify_loop_indices [of False recs]
  by (simp add: classify_def)

text \<open>The plaintext handshake ends at the first ChangeCipherSpec: on parsed records the handshake
  fragments are exactly the handshake records that precede it, in order.\<close>

lemma HandshakeFragments_boundary:
  assumes "ParseRecords data m = (rs, e)"
  shows "HandshakeFragments (rsRecords rs) (classify (rsRecords rs)) =
    map (\<lambda>r. \<lparr>fgData = rcFragment r, fgRecord = int (rcIndex r), fgPackets = rcPackets r\<rparr>)
      (filter (\<lambda>r. rcType r = ContentHandshake) (takeWhile (\<lambda>r. \<not> is_ccs r) (rsRecords rs)))"
proof -
  have "chained m 0 0 (rsRecords rs)" using ParseRecords_tile [OF assms] by blast
  from takeWhile_before [OF this] show ?thesis
    using classify_loop_indices [of False "rsRecords rs"]
    by (simp add: HandshakeFragments_def classify_def)
qed

end
