(* ===== verification/Tls_Handshake.thy ===== *)
theory Tls_Handshake
  imports Tls_Record
begin

unbundle bit_operations_syntax

text \<open>
  \<^verbatim>\<open>internal/evidence/tlsdis/handshake.go\<close>: the handshake byte stream layered over the
  records, its messages and their bodies, and \<^verbatim>\<open>ParseDirection\<close> of \<^verbatim>\<open>record.go\<close>, which puts record layer
  and handshake together.  The certificate summary (\<^verbatim>\<open>ParseCertInfo\<close> over \<^verbatim>\<open>crypto/x509\<close>) is an argument
  \<^verbatim>\<open>pci\<close>.  A nil slice is the empty list, a nil pointer \<^verbatim>\<open>None\<close>.
\<close>

section \<open>Message bodies\<close>

definition HandshakeClientHello :: byte where "HandshakeClientHello = 1"
definition HandshakeServerHello :: byte where "HandshakeServerHello = 2"
definition HandshakeNewSessionTicket :: byte where "HandshakeNewSessionTicket = 4"
definition HandshakeEncryptedExtensions :: byte where "HandshakeEncryptedExtensions = 8"
definition HandshakeCertificate :: byte where "HandshakeCertificate = 11"
definition HandshakeCertificateRequest :: byte where "HandshakeCertificateRequest = 13"
definition HandshakeServerHelloDone :: byte where "HandshakeServerHelloDone = 14"
definition HandshakeKeyUpdate :: byte where "HandshakeKeyUpdate = 24"

lemmas handshake_types = HandshakeClientHello_def HandshakeServerHello_def
  HandshakeNewSessionTicket_def HandshakeEncryptedExtensions_def HandshakeCertificate_def
  HandshakeCertificateRequest_def HandshakeServerHelloDone_def HandshakeKeyUpdate_def

definition MaxHandshakeMessage :: nat where "MaxHandshakeMessage = 2 ^ 20"

definition ExtServerName :: u16 where "ExtServerName = 0"
definition ExtMaxFragmentLength :: u16 where "ExtMaxFragmentLength = 1"
definition ExtSupportedGroups :: u16 where "ExtSupportedGroups = 10"
definition ExtECPointFormats :: u16 where "ExtECPointFormats = 11"
definition ExtSignatureAlgorithms :: u16 where "ExtSignatureAlgorithms = 13"
definition ExtALPN :: u16 where "ExtALPN = 16"
definition ExtSessionTicket :: u16 where "ExtSessionTicket = 35"
definition ExtSupportedVersions :: u16 where "ExtSupportedVersions = 43"
definition ExtPSKKeyExchangeModes :: u16 where "ExtPSKKeyExchangeModes = 45"
definition ExtKeyShare :: u16 where "ExtKeyShare = 51"
definition ExtRenegotiationInfo :: u16 where "ExtRenegotiationInfo = 65281"

lemmas ext_types = ExtServerName_def ExtMaxFragmentLength_def ExtSupportedGroups_def
  ExtECPointFormats_def ExtSignatureAlgorithms_def ExtALPN_def ExtSessionTicket_def
  ExtSupportedVersions_def ExtPSKKeyExchangeModes_def ExtKeyShare_def ExtRenegotiationInfo_def

definition helloRetryRequestRandom :: bytes where
  "helloRetryRequestRandom =
    [0xCF, 0x21, 0xAD, 0x74, 0xE5, 0x9A, 0x61, 0x11, 0xBE, 0x1D, 0x8C, 0x02, 0x1E, 0x65, 0xB8, 0x91,
     0xC2, 0xA2, 0x11, 0x16, 0x7A, 0xBB, 0x8C, 0x5E, 0x07, 0x9E, 0x09, 0xE2, 0xC8, 0xA8, 0x33, 0x9C]"

definition IsGREASE :: "u16 \<Rightarrow> bool" where
  "IsGREASE v \<longleftrightarrow> v AND 0x0F0F = 0x0A0A \<and> (ucast (drop_bit 8 v) :: byte) = ucast v"

text \<open>A reader run on a whole byte string, its error ignored; and \<^verbatim>\<open>copy\<close> into a fixed array.\<close>

definition read_from :: "'a tls_reader \<Rightarrow> bytes \<Rightarrow> 'a" where
  "read_from m data = fst (run_state m (newCursor data))"

definition array32 :: "bytes \<Rightarrow> bytes" where "array32 v = take 32 (v @ replicate 32 0)"

record clientHello =
  chLegacyVersion :: u16
  chRandom :: bytes
  chSessionID :: bytes
  chCipherSuites :: "u16 list"
  chCompressionMethods :: bytes
  chExtensions :: "extension list"
  chSupportedVersions :: "u16 list"
  chSupportedGroups :: "u16 list"
  chECPointFormats :: bytes
  chSignatureAlgorithms :: "u16 list"
  chMaxFragmentLength :: "byte option"
  chRenegotiationInfo :: bytes
  chHasRenegotiationInfo :: bool
  chSessionTicket :: bytes
  chHasSessionTicket :: bool
  chServerNames :: "bytes list"
  chALPN :: "bytes list"
  chKeyShares :: "keyShare list"
  chPSKKeyExchangeModes :: bytes

definition OffersSuite :: "clientHello \<Rightarrow> u16 \<Rightarrow> bool" where
  "OffersSuite ch i \<longleftrightarrow> list_ex (\<lambda>s. s = i) (chCipherSuites ch)"

fun max_version_loop :: "u16 \<Rightarrow> u16 list \<Rightarrow> u16" where
  "max_version_loop best [] = best"
| "max_version_loop best (v # vs) =
    (if IsGREASE v then max_version_loop best vs
     else if v > best then max_version_loop v vs else max_version_loop best vs)"

definition MaxVersion :: "clientHello \<Rightarrow> u16" where
  "MaxVersion ch = max_version_loop (chLegacyVersion ch) (chSupportedVersions ch)"

definition decode_client_extension :: "clientHello \<Rightarrow> extension \<Rightarrow> clientHello" where
  "decode_client_extension ch e =
    (let t = exType e; data = exData e
     in if t = ExtSupportedVersions then
          ch\<lparr>chSupportedVersions := chSupportedVersions ch @
              u16_pairs (read_from (vector8 ''supported_versions'') data)\<rparr>
        else if t = ExtSupportedGroups then
          ch\<lparr>chSupportedGroups := read_from (u16List ''supported_groups'') data\<rparr>
        else if t = ExtECPointFormats then
          ch\<lparr>chECPointFormats := read_from (vector8 ''ec_point_formats'') data\<rparr>
        else if t = ExtSignatureAlgorithms then
          ch\<lparr>chSignatureAlgorithms := read_from (u16List ''signature_algorithms'') data\<rparr>
        else if t = ExtMaxFragmentLength then
          (if length data = 1 then ch\<lparr>chMaxFragmentLength := Some (data ! 0)\<rparr> else ch)
        else if t = ExtRenegotiationInfo then
          ch\<lparr>chHasRenegotiationInfo := True,
             chRenegotiationInfo := read_from (vector8 ''renegotiation_info'') data\<rparr>
        else if t = ExtSessionTicket then ch\<lparr>chHasSessionTicket := True, chSessionTicket := data\<rparr>
        else if t = ExtServerName then ch\<lparr>chServerNames := parseServerNameList data\<rparr>
        else if t = ExtALPN then ch\<lparr>chALPN := parseALPN data\<rparr>
        else if t = ExtKeyShare then ch\<lparr>chKeyShares := parseClientKeyShares data\<rparr>
        else if t = ExtPSKKeyExchangeModes then
          ch\<lparr>chPSKKeyExchangeModes := read_from (vector8 ''psk_key_exchange_modes'') data\<rparr>
        else ch)"

definition decodeClientExtensions :: "clientHello \<Rightarrow> clientHello" where
  "decodeClientExtensions ch = foldl decode_client_extension ch (chExtensions ch)"

definition extensions_unless_end :: "string \<Rightarrow> extension list tls_reader" where
  "extensions_unless_end what = do { e \<leftarrow> at_end;
     if e then State_Monad.return [] else parseExtensionsCursor what }"

definition client_hello_fields :: "clientHello tls_reader" where
  "client_hello_fields = do {
     lv \<leftarrow> u16 ''client_hello.legacy_version'';
     rnd \<leftarrow> take_bytes 32 ''client_hello.random'';
     sid \<leftarrow> vector8 ''client_hello.session_id'';
     suites \<leftarrow> u16List ''client_hello.cipher_suites'';
     comp \<leftarrow> vector8 ''client_hello.compression_methods'';
     exts \<leftarrow> extensions_unless_end ''client_hello.extensions'';
     State_Monad.return \<lparr>chLegacyVersion = lv, chRandom = array32 rnd, chSessionID = sid,
       chCipherSuites = suites, chCompressionMethods = comp, chExtensions = exts,
       chSupportedVersions = [], chSupportedGroups = [], chECPointFormats = [],
       chSignatureAlgorithms = [], chMaxFragmentLength = None, chRenegotiationInfo = [],
       chHasRenegotiationInfo = False, chSessionTicket = [], chHasSessionTicket = False,
       chServerNames = [], chALPN = [], chKeyShares = [], chPSKKeyExchangeModes = []\<rparr> }"

definition parseClientHello :: "bytes \<Rightarrow> clientHello \<times> tls_error option" where
  "parseClientHello body =
    (case run_state client_hello_fields (newCursor body) of (ch, c) \<Rightarrow>
       (case cuErr c of
          Some e \<Rightarrow> (ch, Some e)
        | None \<Rightarrow>
            if chCipherSuites ch = [] then (ch, Some NoCipherSuites)
            else if chCompressionMethods ch = [] then (ch, Some NoCompressionMethods)
            else (decodeClientExtensions ch, None)))"

record serverHello =
  shLegacyVersion :: u16
  shRandom :: bytes
  shSessionID :: bytes
  shCipherSuite :: u16
  shCompressionMethod :: byte
  shExtensions :: "extension list"
  shSupportedVersion :: u16
  shKeyShareGroup :: u16
  shHasKeyShare :: bool
  shIsHelloRetryRequest :: bool
  shRenegotiationInfo :: bytes
  shHasRenegotiationInfo :: bool
  shHasSessionTicket :: bool
  shMaxFragmentLength :: "byte option"
  shECPointFormats :: bytes
  shALPN :: "bytes list"

definition NegotiatedVersion :: "serverHello \<Rightarrow> u16" where
  "NegotiatedVersion sh = (if shSupportedVersion sh \<noteq> 0 then shSupportedVersion sh else shLegacyVersion sh)"

definition decode_server_extension :: "serverHello \<Rightarrow> extension \<Rightarrow> serverHello" where
  "decode_server_extension sh e =
    (let t = exType e; data = exData e
     in if t = ExtSupportedVersions then sh\<lparr>shSupportedVersion := read_from (u16 ''supported_versions'') data\<rparr>
        else if t = ExtKeyShare then
          sh\<lparr>shHasKeyShare := True, shKeyShareGroup := read_from (u16 ''key_share.group'') data\<rparr>
        else if t = ExtRenegotiationInfo then
          sh\<lparr>shHasRenegotiationInfo := True,
             shRenegotiationInfo := read_from (vector8 ''renegotiation_info'') data\<rparr>
        else if t = ExtSessionTicket then sh\<lparr>shHasSessionTicket := True\<rparr>
        else if t = ExtMaxFragmentLength then
          (if length data = 1 then sh\<lparr>shMaxFragmentLength := Some (data ! 0)\<rparr> else sh)
        else if t = ExtECPointFormats then
          sh\<lparr>shECPointFormats := read_from (vector8 ''ec_point_formats'') data\<rparr>
        else if t = ExtALPN then sh\<lparr>shALPN := parseALPN data\<rparr>
        else sh)"

definition server_hello_fields :: "serverHello tls_reader" where
  "server_hello_fields = do {
     lv \<leftarrow> u16 ''server_hello.legacy_version'';
     rnd \<leftarrow> take_bytes 32 ''server_hello.random'';
     sid \<leftarrow> vector8 ''server_hello.session_id'';
     suite \<leftarrow> u16 ''server_hello.cipher_suite'';
     comp \<leftarrow> u8 ''server_hello.compression_method'';
     exts \<leftarrow> extensions_unless_end ''server_hello.extensions'';
     State_Monad.return \<lparr>shLegacyVersion = lv, shRandom = array32 rnd, shSessionID = sid,
       shCipherSuite = suite, shCompressionMethod = comp, shExtensions = exts,
       shSupportedVersion = 0, shKeyShareGroup = 0, shHasKeyShare = False,
       shIsHelloRetryRequest = False, shRenegotiationInfo = [], shHasRenegotiationInfo = False,
       shHasSessionTicket = False, shMaxFragmentLength = None, shECPointFormats = [], shALPN = []\<rparr> }"

definition parseServerHello :: "bytes \<Rightarrow> serverHello \<times> tls_error option" where
  "parseServerHello body =
    (case run_state server_hello_fields (newCursor body) of (sh, c) \<Rightarrow>
       (case cuErr c of
          Some e \<Rightarrow> (sh, Some e)
        | None \<Rightarrow>
            (foldl decode_server_extension
               (sh\<lparr>shIsHelloRetryRequest := (shRandom sh = helloRetryRequestRandom)\<rparr>) (shExtensions sh), None)))"

text \<open>What \<^verbatim>\<open>ParseCertInfo\<close> returns for an entry: a summary, an error text, or both.\<close>

type_synonym 'i cert_parser = "bytes \<Rightarrow> 'i option \<times> string option"

record 'i certEntry =
  ceDER :: bytes
  ceExtensions :: "extension list"
  ceInfo :: "'i option"
  ceErr :: "string option"

record 'i certificate =
  crRequestContext :: bytes
  crTLS13 :: bool
  crEntries :: "'i certEntry list"

definition Leaf :: "'i certificate \<Rightarrow> 'i certEntry option" where
  "Leaf c = (case crEntries c of [] \<Rightarrow> None | e # _ \<Rightarrow> Some e)"

definition DERChain :: "'i certificate \<Rightarrow> bytes list" where
  "DERChain c = map ceDER (crEntries c)"

definition looksLikeTLS13Certificate :: "bytes \<Rightarrow> bool" where
  "looksLikeTLS13Certificate body =
    (if 3 \<le> length body \<and> be_val (subslice body 0 3) = length body - 3 then False
     else if 4 \<le> length body then
       let ctxLen = unat (body ! 0)
       in 1 + ctxLen + 3 \<le> length body \<and>
          int (be_val (subslice body (1 + ctxLen) (4 + ctxLen))) = int (length body) - 4 - int ctxLen
     else False)"

definition cert_item :: "'i cert_parser \<Rightarrow> bool \<Rightarrow> 'i certEntry tls_reader" where
  "cert_item pci tls13 = do {
     der \<leftarrow> vector24 ''certificate.cert_data'';
     exts \<leftarrow> (if tls13 then parseExtensionsCursor ''certificate.extensions'' else State_Monad.return []);
     State_Monad.return \<lparr>ceDER = der, ceExtensions = exts, ceInfo = fst (pci der), ceErr = snd (pci der)\<rparr> }"

definition parseCertificate :: "'i cert_parser \<Rightarrow> bytes \<Rightarrow> bool \<Rightarrow> 'i certificate \<times> tls_error option" where
  "parseCertificate pci body opt =
    (let tls13 = opt \<or> looksLikeTLS13Certificate body
     in case run_state (do {
            ctx \<leftarrow> (if tls13 then vector8 ''certificate.certificate_request_context''
                     else State_Monad.return []);
            lst \<leftarrow> vector24 ''certificate.certificate_list'';
            State_Monad.return (ctx, lst) }) (newCursor body) of
          ((ctx, lst), c) \<Rightarrow>
            (case cuErr c of
               Some e \<Rightarrow> (\<lparr>crRequestContext = ctx, crTLS13 = tls13, crEntries = []\<rparr>, Some e)
             | None \<Rightarrow>
                 (case items (cert_item pci tls13) lst of
                    (es, ie) \<Rightarrow>
                      (\<lparr>crRequestContext = ctx, crTLS13 = tls13, crEntries = es\<rparr>,
                       case ie of Some e \<Rightarrow> Some e
                       | None \<Rightarrow> if es = [] \<and> length lst \<noteq> 0 then Some (NoCertificates (length lst)) else None))))"

record certificateRequest =
  cqTLS13 :: bool
  cqCertificateTypes :: bytes
  cqSignatureAlgorithms :: "u16 list"
  cqCertificateAuthorities :: "bytes list"
  cqRequestContext :: bytes
  cqExtensions :: "extension list"

definition looksLikeTLS13CertificateRequest :: "bytes \<Rightarrow> bool" where
  "looksLikeTLS13CertificateRequest body =
    (case run_state (do { _ \<leftarrow> vector8 ''certificate_types''; _ \<leftarrow> vector16 ''signature_algorithms'';
        vector16 ''certificate_authorities'' }) (newCursor body) of
       (_, c) \<Rightarrow> cuErr c \<noteq> None \<or> cu_remaining c \<noteq> 0)"

definition cert_request13 :: "bytes \<Rightarrow> certificateRequest \<times> tls_error option" where
  "cert_request13 body =
    (case run_state (do { ctx \<leftarrow> vector8 ''certificate_request.context'';
          exts \<leftarrow> parseExtensionsCursor ''certificate_request.extensions'';
          State_Monad.return (ctx, exts) }) (newCursor body) of
       ((ctx, exts), c) \<Rightarrow>
         (let cr = \<lparr>cqTLS13 = True, cqCertificateTypes = [], cqSignatureAlgorithms = [],
                    cqCertificateAuthorities = [], cqRequestContext = ctx, cqExtensions = exts\<rparr>
          in case cuErr c of
               Some e \<Rightarrow> (cr, Some e)
             | None \<Rightarrow>
                 (foldl (\<lambda>cr e. if exType e = ExtSignatureAlgorithms
                    then cr\<lparr>cqSignatureAlgorithms := read_from (u16List ''signature_algorithms'') (exData e)\<rparr>
                    else cr) cr exts, None)))"

definition cert_request12 :: "bytes \<Rightarrow> certificateRequest \<times> tls_error option" where
  "cert_request12 body =
    (case run_state (do { types \<leftarrow> vector8 ''certificate_request.certificate_types'';
          sigs \<leftarrow> u16List ''certificate_request.supported_signature_algorithms'';
          cas \<leftarrow> vector16 ''certificate_request.certificate_authorities'';
          State_Monad.return (types, sigs, cas) }) (newCursor body) of
       ((types, sigs, cas), c) \<Rightarrow>
         (let cr = \<lparr>cqTLS13 = False, cqCertificateTypes = types, cqSignatureAlgorithms = sigs,
                    cqCertificateAuthorities = [], cqRequestContext = [], cqExtensions = []\<rparr>
          in case cuErr c of
               Some e \<Rightarrow> (cr, Some e)
             | None \<Rightarrow>
                 (case items (vector16 ''certificate_request.distinguished_name'') cas of
                    (dns, ie) \<Rightarrow> (cr\<lparr>cqCertificateAuthorities := dns\<rparr>, ie))))"

definition parseCertificateRequest :: "bytes \<Rightarrow> bool \<Rightarrow> certificateRequest \<times> tls_error option" where
  "parseCertificateRequest body opt =
    (if opt \<or> looksLikeTLS13CertificateRequest body then cert_request13 body else cert_request12 body)"

record newSessionTicket =
  nsTLS13 :: bool
  nsLifetimeHint :: u32
  nsAgeAdd :: u32
  nsNonce :: bytes
  nsTicket :: bytes
  nsExtensions :: "extension list"

definition ticket12 :: "bytes \<Rightarrow> newSessionTicket \<times> tls_error option" where
  "ticket12 body =
    (case run_state (do { hint \<leftarrow> u32 ''new_session_ticket.ticket_lifetime_hint'';
          tk \<leftarrow> vector16 ''new_session_ticket.ticket'';
          State_Monad.return \<lparr>nsTLS13 = False, nsLifetimeHint = hint, nsAgeAdd = 0, nsNonce = [],
            nsTicket = tk, nsExtensions = []\<rparr> }) (newCursor body) of
       (t, c) \<Rightarrow>
         (case cuErr c of
            Some e \<Rightarrow> (t, Some e)
          | None \<Rightarrow> if cu_remaining c \<noteq> 0 then (t, Some (TicketTrailing (cu_remaining c))) else (t, None)))"

definition ticket13 :: "bytes \<Rightarrow> newSessionTicket \<times> tls_error option" where
  "ticket13 body =
    (case run_state (do { life \<leftarrow> u32 ''new_session_ticket.ticket_lifetime'';
          age \<leftarrow> u32 ''new_session_ticket.ticket_age_add'';
          nonce \<leftarrow> vector8 ''new_session_ticket.ticket_nonce'';
          tk \<leftarrow> vector16 ''new_session_ticket.ticket'';
          exts \<leftarrow> parseExtensionsCursor ''new_session_ticket.extensions'';
          State_Monad.return \<lparr>nsTLS13 = True, nsLifetimeHint = life, nsAgeAdd = age, nsNonce = nonce,
            nsTicket = tk, nsExtensions = exts\<rparr> }) (newCursor body) of
       (t, c) \<Rightarrow> (t, cuErr c))"

definition parseNewSessionTicket :: "bytes \<Rightarrow> bool \<Rightarrow> newSessionTicket \<times> tls_error option" where
  "parseNewSessionTicket body opt =
    (if opt then ticket13 body
     else case ticket12 body of (t, None) \<Rightarrow> (t, None) | _ \<Rightarrow> ticket13 body)"

section \<open>Messages of the coalesced stream\<close>

record 'i handshakeMessage =
  hmType :: byte
  hmOffset :: nat
  hmLength :: nat
  hmRaw :: bytes
  hmBody :: bytes
  hmRecords :: "int list"
  hmPackets :: "nat list"
  hmClientHello :: "clientHello option"
  hmServerHello :: "serverHello option"
  hmCertificate :: "'i certificate option"
  hmCertificateRequest :: "certificateRequest option"
  hmNewSessionTicket :: "newSessionTicket option"
  hmKeyUpdate :: "byte option"
  hmParseError :: "tls_error option"

record hsSpan =
  spStart :: nat
  spEnd :: nat
  spRecord :: int
  spPackets :: "nat list"

record 'i handshakeStream =
  hsMessages :: "'i handshakeMessage list"
  hsBuffer :: bytes
  hsTruncated :: bool
  hsNeed :: nat
  hsErrors :: "(byte \<times> nat \<times> tls_error) list"
  hsSpans :: "hsSpan list"

definition parseBody :: "'i cert_parser \<Rightarrow> bool \<Rightarrow> 'i handshakeMessage \<Rightarrow> 'i handshakeMessage \<times> tls_error option" where
  "parseBody pci opt m =
    (let t = hmType m; body = hmBody m
     in if t = HandshakeClientHello then
          (case parseClientHello body of (x, e) \<Rightarrow> (m\<lparr>hmClientHello := Some x\<rparr>, e))
        else if t = HandshakeServerHello then
          (case parseServerHello body of (x, e) \<Rightarrow> (m\<lparr>hmServerHello := Some x\<rparr>, e))
        else if t = HandshakeCertificate then
          (case parseCertificate pci body opt of (x, e) \<Rightarrow> (m\<lparr>hmCertificate := Some x\<rparr>, e))
        else if t = HandshakeCertificateRequest then
          (case parseCertificateRequest body opt of (x, e) \<Rightarrow> (m\<lparr>hmCertificateRequest := Some x\<rparr>, e))
        else if t = HandshakeNewSessionTicket then
          (case parseNewSessionTicket body opt of (x, e) \<Rightarrow> (m\<lparr>hmNewSessionTicket := Some x\<rparr>, e))
        else if t = HandshakeKeyUpdate then
          (if length body \<noteq> 1 then (m, Some (BadKeyUpdate (length body)))
           else (m\<lparr>hmKeyUpdate := Some (body ! 0)\<rparr>, None))
        else if t = HandshakeServerHelloDone then
          (if length body \<noteq> 0 then (m, Some (BadHelloDone (length body))) else (m, None))
        else if t = HandshakeEncryptedExtensions then
          (m, cuErr (snd (run_state (vector16 ''encrypted_extensions'') (newCursor body))))
        else (m, None))"

fun coalesce :: "fragment list \<Rightarrow> bytes \<times> hsSpan list \<Rightarrow> bytes \<times> hsSpan list" where
  "coalesce [] acc = acc"
| "coalesce (f # fs) (buf, spans) =
    (if length (fgData f) = 0 then coalesce fs (buf, spans)
     else coalesce fs (buf @ fgData f, spans @ [\<lparr>spStart = length buf,
            spEnd = length buf + length (fgData f), spRecord = fgRecord f, spPackets = fgPackets f\<rparr>]))"

definition add_new :: "'a list \<Rightarrow> 'a \<Rightarrow> 'a list" where
  "add_new xs x = (if x \<in> set xs then xs else xs @ [x])"

fun provenance_loop :: "nat \<Rightarrow> nat \<Rightarrow> hsSpan list \<Rightarrow> int list \<times> nat list \<Rightarrow> int list \<times> nat list" where
  "provenance_loop start end' [] acc = acc"
| "provenance_loop start end' (s # ss) (recs, pkts) =
    (if spEnd s \<le> start \<or> spStart s \<ge> end' then provenance_loop start end' ss (recs, pkts)
     else provenance_loop start end' ss
       (if spRecord s \<ge> 0 then add_new recs (spRecord s) else recs, foldl add_new pkts (spPackets s)))"

definition provenance :: "hsSpan list \<Rightarrow> nat \<Rightarrow> nat \<Rightarrow> int list \<times> nat list" where
  "provenance spans start end' = provenance_loop start end' spans ([], [])"

definition message_at :: "bytes \<Rightarrow> hsSpan list \<Rightarrow> nat \<Rightarrow> 'i handshakeMessage" where
  "message_at buf spans off =
    (let len = be_val (subslice buf (off + 1) (off + 4));
         prov = provenance spans off (off + 4 + len)
     in \<lparr>hmType = buf ! off, hmOffset = off, hmLength = len,
         hmRaw = subslice buf off (off + 4 + len), hmBody = subslice buf (off + 4) (off + 4 + len),
         hmRecords = fst prov, hmPackets = snd prov, hmClientHello = None, hmServerHello = None,
         hmCertificate = None, hmCertificateRequest = None, hmNewSessionTicket = None,
         hmKeyUpdate = None, hmParseError = None\<rparr>)"

function messages_loop ::
  "'i cert_parser \<Rightarrow> bool \<Rightarrow> nat \<Rightarrow> 'i handshakeStream \<Rightarrow> 'i handshakeStream \<times> tls_error option" where
  "messages_loop pci opt off h =
    (let left = length (hsBuffer h) - off
     in if left < 4 then
          ((if left > 0 then h\<lparr>hsTruncated := True, hsNeed := 4 - left\<rparr> else h), None)
        else
          let msg0 = message_at (hsBuffer h) (hsSpans h) off
          in if hmLength msg0 > MaxHandshakeMessage then
               (let e = MessageTooLong (hmType msg0) off (hmLength msg0)
                in (h\<lparr>hsErrors := hsErrors h @ [(hmType msg0, off, e)]\<rparr>, Some e))
             else if left - 4 < hmLength msg0 then
               (h\<lparr>hsTruncated := True, hsNeed := 4 + hmLength msg0 - left\<rparr>, None)
             else
               (case parseBody pci opt msg0 of
                  (msg, be) \<Rightarrow>
                    messages_loop pci opt (off + 4 + hmLength msg0)
                      (h\<lparr>hsMessages := hsMessages h @ [msg\<lparr>hmParseError := be\<rparr>],
                         hsErrors := hsErrors h @ (case be of None \<Rightarrow> [] | Some e \<Rightarrow> [(hmType msg0, off, e)])\<rparr>)))"
  by pat_completeness auto
termination
  by (relation "measure (\<lambda>(pci, opt, off, h). length (hsBuffer h) - off)") auto

declare messages_loop.simps [simp del]

definition ParseHandshake :: "'i cert_parser \<Rightarrow> fragment list \<Rightarrow> bool \<Rightarrow> 'i handshakeStream \<times> tls_error option" where
  "ParseHandshake pci frags opt =
    (case coalesce frags ([], []) of (buf, spans) \<Rightarrow>
       messages_loop pci opt 0 \<lparr>hsMessages = [], hsBuffer = buf, hsTruncated = False, hsNeed = 0,
         hsErrors = [], hsSpans = spans\<rparr>)"

definition Find :: "'i handshakeStream \<Rightarrow> byte \<Rightarrow> 'i handshakeMessage option" where
  "Find h t = find (\<lambda>m. hmType m = t) (hsMessages h)"

definition Types :: "'i handshakeStream \<Rightarrow> byte list" where
  "Types h = map hmType (hsMessages h)"

record 'i tlsDirection =
  tdStream :: recordStream
  tdHandshake :: "'i handshakeStream"
  tdClassified :: classified

definition ParseDirection :: "'i cert_parser \<Rightarrow> bytes \<Rightarrow> mapper option \<Rightarrow> 'i tlsDirection \<times> tls_error option" where
  "ParseDirection pci data m =
    (case ParseRecords data m of (rs, e) \<Rightarrow>
       (let cl = classify (rsRecords rs)
        in case ParseHandshake pci (HandshakeFragments (rsRecords rs) cl) False of
             (hs, he) \<Rightarrow>
               (\<lparr>tdStream = rs, tdHandshake = hs, tdClassified = cl\<rparr>,
                case e of Some x \<Rightarrow> Some x | None \<Rightarrow> he)))"

section \<open>The loop over the messages\<close>

definition msg_len :: "bytes \<Rightarrow> nat \<Rightarrow> nat" where
  "msg_len buf off = be_val (subslice buf (off + 1) (off + 4))"

definition fits :: "bytes \<Rightarrow> nat \<Rightarrow> bool" where
  "fits buf off \<longleftrightarrow> 4 \<le> length buf - off \<and> msg_len buf off \<le> MaxHandshakeMessage
     \<and> msg_len buf off \<le> length buf - off - 4"

definition push_message :: "'i cert_parser \<Rightarrow> bool \<Rightarrow> nat \<Rightarrow> 'i handshakeStream \<Rightarrow> 'i handshakeStream" where
  "push_message pci opt off h =
    (let m = message_at (hsBuffer h) (hsSpans h) off; r = parseBody pci opt m
     in h\<lparr>hsMessages := hsMessages h @ [(fst r)\<lparr>hmParseError := snd r\<rparr>],
          hsErrors := hsErrors h @ (case snd r of None \<Rightarrow> [] | Some e \<Rightarrow> [(hsBuffer h ! off, off, e)])\<rparr>)"

lemma message_at_simps [simp]:
  "hmLength (message_at buf spans off) = msg_len buf off" "hmType (message_at buf spans off) = buf ! off"
  by (simp_all add: message_at_def msg_len_def Let_def)

lemma messages_loop_accept:
  assumes "fits (hsBuffer h) off"
  shows "messages_loop pci opt off h =
    messages_loop pci opt (off + 4 + msg_len (hsBuffer h) off) (push_message pci opt off h)"
proof -
  let ?l = "msg_len (hsBuffer h) off"
  have c: "(length (hsBuffer h) - off < 4) = False" "(?l > MaxHandshakeMessage) = False"
    "(length (hsBuffer h) - off - 4 < ?l) = False"
    using assms by (auto simp: fits_def)
  show ?thesis
    unfolding messages_loop.simps [of pci opt off h] Let_def c if_False message_at_simps
    by (simp add: push_message_def Let_def case_prod_beta)
qed

lemma messages_loop_stop:
  assumes "\<not> fits (hsBuffer h) off"
  shows "messages_loop pci opt off h =
    (let left = length (hsBuffer h) - off
     in if left < 4 then ((if left > 0 then h\<lparr>hsTruncated := True, hsNeed := 4 - left\<rparr> else h), None)
        else if msg_len (hsBuffer h) off > MaxHandshakeMessage then
          (h\<lparr>hsErrors := hsErrors h @ [(hsBuffer h ! off, off,
               MessageTooLong (hsBuffer h ! off) off (msg_len (hsBuffer h) off))]\<rparr>,
           Some (MessageTooLong (hsBuffer h ! off) off (msg_len (hsBuffer h) off)))
        else (h\<lparr>hsTruncated := True, hsNeed := 4 + msg_len (hsBuffer h) off - left\<rparr>, None))"
  using assms by (auto simp: messages_loop.simps [of pci opt off h] fits_def Let_def not_less not_le)

lemma messages_stop_messages:
  "\<not> fits (hsBuffer h) off \<Longrightarrow> hsMessages (fst (messages_loop pci opt off h)) = hsMessages h"
  by (simp add: messages_loop_stop Let_def)

text \<open>What an accepted message preserves holds where the loop stops.\<close>

lemma messages_loop_invariant:
  assumes "P off h"
    and step: "\<And>off h. P off h \<Longrightarrow> fits (hsBuffer h) off \<Longrightarrow>
      P (off + 4 + msg_len (hsBuffer h) off) (push_message pci opt off h)"
  shows "\<exists>off' h'. P off' h' \<and> \<not> fits (hsBuffer h') off' \<and>
    messages_loop pci opt off h = messages_loop pci opt off' h'"
  using assms(1)
proof (induction "length (hsBuffer h) - off" arbitrary: off h rule: less_induct)
  case less
  show ?case
  proof (cases "fits (hsBuffer h) off")
    case True
    let ?off = "off + 4 + msg_len (hsBuffer h) off" and ?h = "push_message pci opt off h"
    have "hsBuffer ?h = hsBuffer h" by (simp add: push_message_def Let_def)
    then have "length (hsBuffer ?h) - ?off < length (hsBuffer h) - off"
      using True by (auto simp: fits_def)
    from less.hyps [OF this step [OF less.prems True]] show ?thesis
      using messages_loop_accept [OF True] by metis
  qed (use less.prems in blast)
qed

text \<open>Decoding a body only fills in the decoded parts.\<close>

definition header_of :: "'i handshakeMessage \<Rightarrow> byte \<times> nat \<times> nat \<times> bytes \<times> bytes \<times> int list \<times> nat list" where
  "header_of m = (hmType m, hmOffset m, hmLength m, hmRaw m, hmBody m, hmRecords m, hmPackets m)"

definition header_at :: "bytes \<Rightarrow> hsSpan list \<Rightarrow> nat \<Rightarrow> byte \<times> nat \<times> nat \<times> bytes \<times> bytes \<times> int list \<times> nat list" where
  "header_at buf spans off =
    (buf ! off, off, msg_len buf off, subslice buf off (off + 4 + msg_len buf off),
     subslice buf (off + 4) (off + 4 + msg_len buf off),
     provenance spans off (off + 4 + msg_len buf off))"

lemma header_of_message_at: "header_of (message_at buf spans off) = header_at buf spans off"
  by (simp add: header_of_def header_at_def message_at_def msg_len_def Let_def)

lemma header_of_update [simp]:
  "header_of (m\<lparr>hmClientHello := ch\<rparr>) = header_of m" "header_of (m\<lparr>hmServerHello := sh\<rparr>) = header_of m"
  "header_of (m\<lparr>hmCertificate := ct\<rparr>) = header_of m"
  "header_of (m\<lparr>hmCertificateRequest := cq\<rparr>) = header_of m"
  "header_of (m\<lparr>hmNewSessionTicket := ns\<rparr>) = header_of m" "header_of (m\<lparr>hmKeyUpdate := ku\<rparr>) = header_of m"
  "header_of (m\<lparr>hmParseError := e\<rparr>) = header_of m"
  by (simp_all add: header_of_def)

lemma header_of_parseBody: "header_of (fst (parseBody pci opt m)) = header_of m"
  by (simp add: parseBody_def Let_def case_prod_beta if_distrib [of fst] if_distrib [of header_of]
      cong: if_cong split del: if_split)

lemmas parsed_header = header_of_parseBody [unfolded header_of_def prod.inject]

lemma push_message_simps [simp]:
  "hsBuffer (push_message pci opt off h) = hsBuffer h"
  "hsSpans (push_message pci opt off h) = hsSpans h"
  "hsTruncated (push_message pci opt off h) = hsTruncated h"
  "hsNeed (push_message pci opt off h) = hsNeed h"
  "map header_of (hsMessages (push_message pci opt off h)) =
     map header_of (hsMessages h) @ [header_at (hsBuffer h) (hsSpans h) off]"
  by (simp_all add: push_message_def Let_def header_of_parseBody header_of_message_at)

lemma coalesce_buffer: "fst (coalesce fs (buf, spans)) = buf @ concat (map fgData fs)"
  by (induction fs "(buf, spans)" arbitrary: buf spans rule: coalesce.induct) auto

section \<open>Messages tile the stream\<close>

definition hs_wire :: "byte \<Rightarrow> bytes \<Rightarrow> bytes" where "hs_wire t body = t # vec24 body"

text \<open>The messages stand one after the other from the given offset on, each within its bound.\<close>

fun hs_chained :: "nat \<Rightarrow> 'i handshakeMessage list \<Rightarrow> bool" where
  "hs_chained off [] = True"
| "hs_chained off (m # ms) \<longleftrightarrow> hmOffset m = off \<and> hmRaw m = hs_wire (hmType m) (hmBody m)
     \<and> length (hmBody m) = hmLength m \<and> hmLength m \<le> MaxHandshakeMessage
     \<and> hs_chained (off + length (hmRaw m)) ms"

lemma hs_chained_append:
  "hs_chained off (ms @ [m]) \<longleftrightarrow> hs_chained off ms \<and> hs_chained (off + length (concat (map hmRaw ms))) [m]"
  by (induction off ms rule: hs_chained.induct) (auto simp: add.assoc)

lemma fits_wire:
  assumes "fits buf off"
  shows "subslice buf off (off + 4 + msg_len buf off) =
    hs_wire (buf ! off) (subslice buf (off + 4) (off + 4 + msg_len buf off))"
proof -
  let ?n = "msg_len buf off"
  have le: "off + 4 + ?n \<le> length buf" "off < length buf" using assms by (auto simp: fits_def)
  have "subslice buf off (off + 4 + ?n) =
      subslice buf off (off + 1) @ subslice buf (off + 1) (off + 4) @ subslice buf (off + 4) (off + 4 + ?n)"
    using le by (simp add: subslice_append_adjacent)
  also have "subslice buf off (off + 1) = [buf ! off]" using le by (simp add: subslice_single)
  also have "subslice buf (off + 1) (off + 4) = be_bytes 3 ?n"
    unfolding msg_len_def using le by (intro be_bytes_be_val_length [symmetric]) simp
  finally show ?thesis using le by (simp add: hs_wire_def vec24_def)
qed

lemma push_message_chained:
  assumes "fits (hsBuffer h) off" "off \<le> length (hsBuffer h)" "hs_chained 0 (hsMessages h)"
    "concat (map hmRaw (hsMessages h)) = take off (hsBuffer h)"
  shows "hs_chained 0 (hsMessages (push_message pci opt off h))"
    "concat (map hmRaw (hsMessages (push_message pci opt off h))) =
       take (off + 4 + msg_len (hsBuffer h) off) (hsBuffer h)"
proof -
  let ?n = "msg_len (hsBuffer h) off" and ?b = "hsBuffer h"
  have le: "off + 4 + ?n \<le> length ?b" using assms(1) by (auto simp: fits_def)
  have len: "length (concat (map hmRaw (hsMessages h))) = off" using assms(2,4) by simp
  obtain m where m: "hsMessages (push_message pci opt off h) = hsMessages h @ [m]"
    "header_of m = header_at ?b (hsSpans h) off"
    by (rule that) (auto simp: push_message_def Let_def header_of_parseBody header_of_message_at)
  have f: "hmType m = ?b ! off" "hmOffset m = off" "hmLength m = ?n"
    "hmRaw m = subslice ?b off (off + 4 + ?n)" "hmBody m = subslice ?b (off + 4) (off + 4 + ?n)"
    using m(2) by (simp_all add: header_of_def header_at_def)
  show "hs_chained 0 (hsMessages (push_message pci opt off h))"
    using assms(1,3) f le fits_wire [OF assms(1)] len
    by (simp add: m(1) hs_chained_append fits_def)
  have "take (off + 4 + ?n) ?b = take off ?b @ subslice ?b off (off + 4 + ?n)"
    by (simp add: subslice_def take_add add.assoc)
  then show "concat (map hmRaw (hsMessages (push_message pci opt off h))) = take (off + 4 + ?n) ?b"
    using assms(4) f by (simp add: m(1))
qed

lemma ParseHandshake_unfold:
  "ParseHandshake pci frags opt = messages_loop pci opt 0 \<lparr>hsMessages = [],
     hsBuffer = concat (map fgData frags), hsTruncated = False, hsNeed = 0, hsErrors = [],
     hsSpans = snd (coalesce frags ([], []))\<rparr>"
  using coalesce_buffer [of frags "[]" "[]"]
  by (cases "coalesce frags ([], [])") (simp add: ParseHandshake_def)

text \<open>The handshake messages found tile the coalesced handshake bytes from the first byte: each has
  the exact bytes, offset and length its header announces and stays within the size bound.  Without an
  error the direction is marked truncated exactly when bytes are left over, and then a positive number of
  further bytes is asked for; the only error is an announced length above the bound, at the offset where
  the parse stopped.\<close>

lemma ParseHandshake_tiles:
  assumes "ParseHandshake pci frags opt = (h, e)"
  shows "hsBuffer h = concat (map fgData frags) \<and> hs_chained 0 (hsMessages h) \<and>
    (let stop = length (concat (map hmRaw (hsMessages h)))
     in concat (map hmRaw (hsMessages h)) = take stop (hsBuffer h) \<and>
        (case e of
           None \<Rightarrow> hsTruncated h = (stop < length (hsBuffer h)) \<and> (0 < hsNeed h) = hsTruncated h
         | Some x \<Rightarrow> \<not> hsTruncated h \<and> MaxHandshakeMessage < msg_len (hsBuffer h) stop \<and>
             x = MessageTooLong (hsBuffer h ! stop) stop (msg_len (hsBuffer h) stop)))"
proof -
  let ?h = "\<lparr>hsMessages = [], hsBuffer = concat (map fgData frags), hsTruncated = False, hsNeed = 0,
    hsErrors = [], hsSpans = snd (coalesce frags ([], []))\<rparr> :: 'a handshakeStream"
  let ?P = "\<lambda>off g. hsBuffer g = concat (map fgData frags) \<and> off \<le> length (hsBuffer g) \<and>
    \<not> hsTruncated g \<and> hsNeed g = 0 \<and> hs_chained 0 (hsMessages g) \<and>
    concat (map hmRaw (hsMessages g)) = take off (hsBuffer g)"
  have "\<exists>off g. ?P off g \<and> \<not> fits (hsBuffer g) off \<and>
      messages_loop pci opt 0 ?h = messages_loop pci opt off g"
  proof (rule messages_loop_invariant)
    fix off and g :: "'a handshakeStream"
    assume P: "?P off g" and f: "fits (hsBuffer g) off"
    have "off + 4 + msg_len (hsBuffer g) off \<le> length (hsBuffer g)" using f by (auto simp: fits_def)
    then show "?P (off + 4 + msg_len (hsBuffer g) off) (push_message pci opt off g)"
      using P push_message_chained [OF f] by simp
  qed simp
  then obtain off g where g: "?P off g" "\<not> fits (hsBuffer g) off" and "messages_loop pci opt off g = (h, e)"
    using assms unfolding ParseHandshake_unfold by metis
  then have he: "(h, e) = messages_loop pci opt off g" by simp
  have "off \<le> length (hsBuffer g)" using g(1) by argo
  then have "length (take off (hsBuffer g)) = off" by simp
  then have "length (concat (map hmRaw (hsMessages g))) = off" using g(1) by argo
  then show ?thesis
    using g he unfolding messages_loop_stop [OF g(2)]
    by (auto simp: Let_def fits_def not_le not_less split: if_splits)
qed

definition no_cert_info :: "unit cert_parser" where "no_cert_info der = (None, None)"

definition sample_fragments :: "fragment list" where
  "sample_fragments = [\<lparr>fgData = [14, 0], fgRecord = 0, fgPackets = [3]\<rparr>,
     \<lparr>fgData = [0, 0, 20], fgRecord = 1, fgPackets = [4, 5]\<rparr>]"

section \<open>The split into records does not matter\<close>

text \<open>What is left of a message and of a stream when the citations are dropped.\<close>

definition uncited :: "'i handshakeMessage \<Rightarrow> 'i handshakeMessage" where
  "uncited m = m\<lparr>hmRecords := [], hmPackets := []\<rparr>"

definition uncited_stream :: "'i handshakeStream \<Rightarrow> 'i handshakeStream" where
  "uncited_stream h = h\<lparr>hsMessages := map uncited (hsMessages h), hsSpans := []\<rparr>"

lemma uncited_message_at: "uncited (message_at buf spans off) = message_at buf [] off"
  by (simp add: uncited_def message_at_def provenance_def Let_def)

lemma uncited_fields:
  "uncited (m\<lparr>hmClientHello := ch\<rparr>) = (uncited m)\<lparr>hmClientHello := ch\<rparr>"
  "uncited (m\<lparr>hmServerHello := sh\<rparr>) = (uncited m)\<lparr>hmServerHello := sh\<rparr>"
  "uncited (m\<lparr>hmCertificate := ct\<rparr>) = (uncited m)\<lparr>hmCertificate := ct\<rparr>"
  "uncited (m\<lparr>hmCertificateRequest := cq\<rparr>) = (uncited m)\<lparr>hmCertificateRequest := cq\<rparr>"
  "uncited (m\<lparr>hmNewSessionTicket := ns\<rparr>) = (uncited m)\<lparr>hmNewSessionTicket := ns\<rparr>"
  "uncited (m\<lparr>hmKeyUpdate := ku\<rparr>) = (uncited m)\<lparr>hmKeyUpdate := ku\<rparr>"
  "uncited (m\<lparr>hmParseError := e\<rparr>) = (uncited m)\<lparr>hmParseError := e\<rparr>"
  "hmType (uncited m) = hmType m" "hmBody (uncited m) = hmBody m"
  by (simp_all add: uncited_def)

lemma parseBody_uncited:
  "parseBody pci opt (uncited m) = apfst uncited (parseBody pci opt m)"
  by (simp add: parseBody_def Let_def case_prod_beta if_distrib [of "apfst uncited"] uncited_fields
      cong: if_cong split del: if_split)

lemma push_message_uncited:
  "push_message pci opt off (uncited_stream h) = uncited_stream (push_message pci opt off h)"
proof -
  have "parseBody pci opt (message_at (hsBuffer h) [] off) =
      apfst uncited (parseBody pci opt (message_at (hsBuffer h) (hsSpans h) off))"
    by (simp add: parseBody_uncited [symmetric] uncited_message_at)
  then show ?thesis by (simp add: push_message_def uncited_stream_def Let_def uncited_fields split: option.split)
qed

lemma messages_loop_uncited:
  "messages_loop pci opt off (uncited_stream h) = apfst uncited_stream (messages_loop pci opt off h)"
proof (induction "length (hsBuffer h) - off" arbitrary: off h rule: less_induct)
  case less
  have b: "hsBuffer (uncited_stream h) = hsBuffer h" by (simp add: uncited_stream_def)
  show ?case
  proof (cases "fits (hsBuffer h) off")
    case True
    let ?off = "off + 4 + msg_len (hsBuffer h) off" and ?h = "push_message pci opt off h"
    have "length (hsBuffer ?h) - ?off < length (hsBuffer h) - off" using True by (auto simp: fits_def)
    from less.hyps [OF this] show ?thesis
      using True b by (simp add: messages_loop_accept push_message_uncited)
  next
    case False
    then show ?thesis
      using b by (simp add: messages_loop_stop Let_def) (simp add: uncited_stream_def)
  qed
qed

text \<open>C16: how the handshake bytes were split into records has no effect on what is parsed: two fragment
  lists with the same concatenated data give the same messages, with the same decoded bodies and offsets,
  the same truncation state and the same errors; only the cited records and packets may differ.\<close>

theorem ParseHandshake_refragment:
  assumes "concat (map fgData f1) = concat (map fgData f2)"
  shows "apfst uncited_stream (ParseHandshake pci f1 opt) = apfst uncited_stream (ParseHandshake pci f2 opt)"
  using assms unfolding ParseHandshake_unfold
  by (simp add: messages_loop_uncited [symmetric]) (simp add: uncited_stream_def)

theorem ParseHandshake_refragment_witness:
  "apfst uncited_stream (ParseHandshake no_cert_info sample_fragments False) =
   apfst uncited_stream (ParseHandshake no_cert_info
     [\<lparr>fgData = [14, 0, 0, 0, 20], fgRecord = 7, fgPackets = [9]\<rparr>] False)"
  by (rule ParseHandshake_refragment) (simp add: sample_fragments_def)

section \<open>The frames cited do not matter to what is parsed\<close>

definition unplaced :: "tlsRecord \<Rightarrow> tlsRecord" where
  "unplaced r = r\<lparr>rcPackets := []\<rparr>"

lemma unplaced_fields [simp]:
  "rcType (unplaced r) = rcType r" "rcIndex (unplaced r) = rcIndex r" "rcLength (unplaced r) = rcLength r"
  "rcVersion (unplaced r) = rcVersion r" "rcFragment (unplaced r) = rcFragment r" "rcPackets (unplaced r) = []"
  by (simp_all add: unplaced_def)

lemma unplaced_parse_record: "unplaced (parse_record m data off i) = parse_record None data off i"
  by (simp add: parse_record_def map_packets_def unplaced_def Let_def)

definition unplaced_stream :: "recordStream \<Rightarrow> recordStream" where
  "unplaced_stream rs = rs\<lparr>rsRecords := map unplaced (rsRecords rs)\<rparr>"

lemma records_loop_unplaced:
  "apfst unplaced_stream (records_loop m data off recs) = records_loop None data off (map unplaced recs)"
proof (induction "length data - off" arbitrary: off recs rule: less_induct)
  case less
  let ?r = "parse_record m data off (length recs)" and ?rn = "parse_record None data off (length recs)"
  have same: "rcType ?rn = rcType ?r" "rcVersion ?rn = rcVersion ?r" "rcLength ?rn = rcLength ?r"
    by (simp_all add: parse_record_def Let_def)
  have acc: "accepts None data off (length recs) = accepts m data off (length recs)"
    by (simp add: accepts_def Let_def parse_record_def)
  show ?case
  proof (cases "accepts m data off (length recs)")
    case True
    moreover have "record_end ?rn = record_end ?r" by (simp add: record_end_def parse_record_def Let_def)
    moreover have "length data - record_end ?r < length data - off"
      using True by (auto simp: accepts_def Let_def record_end_def parse_record_def)
    ultimately show ?thesis
      using less [of "record_end ?r" "recs @ [?r]"] acc
        records_loop_accept [of m data off recs] records_loop_accept [of None data off "map unplaced recs"]
      by (simp add: unplaced_parse_record)
  next
    case False
    then show ?thesis
      unfolding records_loop.simps [of m data off recs] records_loop.simps [of None data off "map unplaced recs"]
        length_map
      by (auto simp: accepts_def Let_def not_less not_le unplaced_stream_def parse_record_def)
  qed
qed

lemma ParseRecords_unplaced: "apfst unplaced_stream (ParseRecords data m) = ParseRecords data None"
  using records_loop_unplaced [of m data 0 "[]"] by (simp add: ParseRecords_def)

lemma ParseDirection_unplaced:
  "apfst (uncited_stream \<circ> tdHandshake) (ParseDirection pci data m) =
   apfst (uncited_stream \<circ> tdHandshake) (ParseDirection pci data None)"
proof -
  obtain rs e where rs: "ParseRecords data m = (rs, e)" by fastforce
  then have rs0: "ParseRecords data None = (unplaced_stream rs, e)"
    using ParseRecords_unplaced [of data m] by simp
  let ?f = "\<lambda>rs. HandshakeFragments (rsRecords rs) (classify (rsRecords rs))"
  have "map fgData (?f rs) = map fgData (?f (unplaced_stream rs))"
    unfolding HandshakeFragments_boundary [OF rs] HandshakeFragments_boundary [OF rs0]
    by (simp add: unplaced_stream_def takeWhile_map filter_map comp_def)
  then have "apfst uncited_stream (ParseHandshake pci (?f rs) False) =
      apfst uncited_stream (ParseHandshake pci (?f (unplaced_stream rs)) False)"
    unfolding ParseHandshake_unfold by (simp add: messages_loop_uncited [symmetric]) (simp add: uncited_stream_def)
  then show ?thesis
    by (cases "ParseHandshake pci (?f rs) False"; cases "ParseHandshake pci (?f (unplaced_stream rs)) False")
      (simp add: ParseDirection_def rs rs0 Let_def split: option.split)
qed

section \<open>Messages read back\<close>

lemma hs_wire_at:
  assumes "buf = pre @ hs_wire t body @ post" "length body < 2 ^ 24"
  shows "msg_len buf (length pre) = length body"
    "header_at buf spans (length pre) = (t, length pre, length body, hs_wire t body, body,
       provenance spans (length pre) (length pre + 4 + length body))"
proof -
  have sub: "subslice buf (length pre + i) (length pre + j) = subslice (hs_wire t body) i j"
    if "j \<le> 4 + length body" for i j
    using that subslice_append_left [of j "hs_wire t body" post i] unfolding assms(1) subslice_shift
    by (simp add: hs_wire_def vec24_def)
  have h: "subslice (hs_wire t body) 1 4 = be_bytes 3 (length body)"
    by (simp add: hs_wire_def vec24_def subslice_def)
  show len: "msg_len buf (length pre) = length body"
    using sub [of 4 1] h assms(2) by (simp add: msg_len_def)
  have "subslice buf (length pre) (length pre + 4 + length body) = hs_wire t body"
    using sub [of "4 + length body" 0] by (simp add: add.assoc hs_wire_def vec24_def subslice_def)
  moreover have "subslice buf (length pre + 4) (length pre + 4 + length body) = body"
    using sub [of "4 + length body" 4] by (simp add: add.assoc hs_wire_def vec24_def subslice_def)
  moreover have "buf ! length pre = t" using assms(1) by (simp add: hs_wire_def)
  ultimately show "header_at buf spans (length pre) = (t, length pre, length body, hs_wire t body, body,
       provenance spans (length pre) (length pre + 4 + length body))"
    by (simp add: header_at_def len)
qed

lemma messages_loop_reads:
  assumes "hsBuffer h = pre @ concat (map (\<lambda>(t, b). hs_wire t b) ms)"
    "\<forall>(t, b) \<in> set ms. length b \<le> MaxHandshakeMessage"
  shows "\<exists>h'. messages_loop pci opt (length pre) h = (h', None) \<and>
    map (\<lambda>m. (hmType m, hmBody m)) (hsMessages h') = map (\<lambda>m. (hmType m, hmBody m)) (hsMessages h) @ ms \<and>
    hsTruncated h' = hsTruncated h"
  using assms
proof (induction ms arbitrary: pre h)
  case Nil
  then show ?case by (simp add: messages_loop_stop fits_def)
next
  case (Cons p ms)
  obtain t b where p: "p = (t, b)" by fastforce
  let ?h = "push_message pci opt (length pre) h" and ?rest = "concat (map (\<lambda>(t, b). hs_wire t b) ms)"
  have buf: "hsBuffer h = pre @ hs_wire t b @ ?rest" and b: "length b \<le> MaxHandshakeMessage"
    using Cons.prems by (simp_all add: p)
  then have b24: "length b < 2 ^ 24" by (simp add: MaxHandshakeMessage_def)
  note at = hs_wire_at [OF buf b24]
  have "fits (hsBuffer h) (length pre)"
    using b by (simp add: fits_def at) (simp add: buf hs_wire_def vec24_def)
  from messages_loop_accept [OF this] have eq: "messages_loop pci opt (length pre) h =
      messages_loop pci opt (length (pre @ hs_wire t b)) ?h"
    by (simp add: at(1) hs_wire_def vec24_def add.assoc)
  have "map (\<lambda>m. (hmType m, hmBody m)) ms' = map (\<lambda>(t, _, _, _, b, _). (t, b)) (map header_of ms')"
    for ms' :: "'a handshakeMessage list" by (simp add: header_of_def)
  then have "map (\<lambda>m. (hmType m, hmBody m)) (hsMessages ?h) =
      map (\<lambda>m. (hmType m, hmBody m)) (hsMessages h) @ [(t, b)]"
    by (simp only: push_message_simps map_append list.map at(2) prod.case)
  moreover have "hsBuffer ?h = (pre @ hs_wire t b) @ ?rest" by (simp add: buf)
  ultimately show ?case
    using Cons.IH [of ?h "pre @ hs_wire t b"] Cons.prems(2) eq by (simp add: p)
qed

text \<open>C34: handshake messages encoded one after the other are read back, with exactly their types and
  bodies, however the bytes are split into fragments; nothing is left over and there is no error.\<close>

theorem ParseHandshake_roundtrip:
  assumes "concat (map fgData frags) = concat (map (\<lambda>(t, b). hs_wire t b) ms)"
    "\<forall>(t, b) \<in> set ms. length b \<le> MaxHandshakeMessage"
  shows "\<exists>h. ParseHandshake pci frags opt = (h, None) \<and>
    map (\<lambda>m. (hmType m, hmBody m)) (hsMessages h) = ms \<and> \<not> hsTruncated h"
  using messages_loop_reads [of "\<lparr>hsMessages = [], hsBuffer = concat (map fgData frags),
      hsTruncated = False, hsNeed = 0, hsErrors = [], hsSpans = snd (coalesce frags ([], []))\<rparr>" "[]" ms]
    assms unfolding ParseHandshake_unfold by auto

theorem ParseHandshake_roundtrip_witness:
  "\<exists>h. ParseHandshake no_cert_info [\<lparr>fgData = [14, 0], fgRecord = 0, fgPackets = []\<rparr>,
       \<lparr>fgData = [0, 0, 20, 0, 0, 1, 7], fgRecord = 1, fgPackets = []\<rparr>] False = (h, None) \<and>
     map (\<lambda>m. (hmType m, hmBody m)) (hsMessages h) = [(14, []), (20, [7])] \<and> \<not> hsTruncated h"
  by (rule ParseHandshake_roundtrip)
    (simp_all add: hs_wire_def vec24_def MaxHandshakeMessage_def numeral_3_eq_3 be_bytes.simps)

section \<open>Citations\<close>

fun spans_of :: "nat \<Rightarrow> fragment list \<Rightarrow> hsSpan list" where
  "spans_of n [] = []"
| "spans_of n (f # fs) = (if fgData f = [] then spans_of n fs
     else \<lparr>spStart = n, spEnd = n + length (fgData f), spRecord = fgRecord f, spPackets = fgPackets f\<rparr>
       # spans_of (n + length (fgData f)) fs)"

lemma coalesce_spans: "snd (coalesce fs (buf, spans)) = spans @ spans_of (length buf) fs"
  by (induction fs "(buf, spans)" arbitrary: buf spans rule: coalesce.induct) auto

text \<open>Where the data of fragment k stands, and which fragments carry a byte of a range.\<close>

definition frag_start :: "fragment list \<Rightarrow> nat \<Rightarrow> nat" where
  "frag_start fs k = length (concat (map fgData (take k fs)))"

definition carries :: "fragment list \<Rightarrow> nat \<Rightarrow> nat \<Rightarrow> nat \<Rightarrow> bool" where
  "carries fs start end' k \<longleftrightarrow> k < length fs \<and> fgData (fs ! k) \<noteq> [] \<and> frag_start fs k < end' \<and>
     start < frag_start fs k + length (fgData (fs ! k))"

lemma frag_start_Suc: "frag_start (f # fs) (Suc k) = length (fgData f) + frag_start fs k"
  by (simp add: frag_start_def)

definition overlaps :: "nat \<Rightarrow> nat \<Rightarrow> hsSpan \<Rightarrow> bool" where
  "overlaps start end' s \<longleftrightarrow> \<not> (spEnd s \<le> start \<or> spStart s \<ge> end')"

lemma spans_of_overlapping:
  "{s \<in> set (spans_of n fs). overlaps (n + start) (n + end') s} =
   (\<lambda>k. \<lparr>spStart = n + frag_start fs k, spEnd = n + frag_start fs k + length (fgData (fs ! k)),
      spRecord = fgRecord (fs ! k), spPackets = fgPackets (fs ! k)\<rparr>) ` {k. carries fs start end' k}"
proof -
  have *: "set (spans_of n fs) = (\<lambda>k. \<lparr>spStart = n + frag_start fs k,
      spEnd = n + frag_start fs k + length (fgData (fs ! k)), spRecord = fgRecord (fs ! k),
      spPackets = fgPackets (fs ! k)\<rparr>) ` {k. k < length fs \<and> fgData (fs ! k) \<noteq> []}"
  proof (induction fs arbitrary: n)
    case (Cons f fs)
    have split: "{k. k < length (f # fs) \<and> fgData ((f # fs) ! k) \<noteq> []} =
        (if fgData f = [] then {} else {0}) \<union> Suc ` {k. k < length fs \<and> fgData (fs ! k) \<noteq> []}"
      by (auto simp: image_iff less_Suc_eq_0_disj)
    show ?case
      unfolding split image_Un image_image
      by (simp add: Cons frag_start_Suc add.assoc) (simp add: frag_start_def)
  qed simp
  show ?thesis unfolding * by (auto simp: overlaps_def carries_def)
qed

lemma set_add_new [simp]: "set (add_new xs x) = insert x (set xs)"
  by (auto simp: add_new_def)

lemma distinct_add_new [simp]: "distinct (add_new xs x) = distinct xs"
  by (auto simp: add_new_def)

lemma foldl_add_new [simp]:
  "set (foldl add_new xs ys) = set xs \<union> set ys" "distinct (foldl add_new xs ys) = distinct xs"
  by (induction ys arbitrary: xs) auto

lemma provenance_loop_sets:
  "set (fst (provenance_loop a b ss (rs, ps))) =
     set rs \<union> spRecord ` {s \<in> set ss. overlaps a b s \<and> 0 \<le> spRecord s} \<and>
   set (snd (provenance_loop a b ss (rs, ps))) =
     set ps \<union> (\<Union>s \<in> {s \<in> set ss. overlaps a b s}. set (spPackets s)) \<and>
   (distinct rs \<longrightarrow> distinct (fst (provenance_loop a b ss (rs, ps)))) \<and>
   (distinct ps \<longrightarrow> distinct (snd (provenance_loop a b ss (rs, ps))))"
proof (induction ss arbitrary: rs ps)
  case (Cons s ss)
  have set_eq: "{x \<in> set (s # ss). P x} = (if P s then insert s {x \<in> set ss. P x} else {x \<in> set ss. P x})"
    for P by auto
  show ?case
    unfolding set_eq using Cons by (auto simp: overlaps_def)
qed simp

definition cites :: "hsSpan list \<Rightarrow> byte \<times> nat \<times> nat \<times> bytes \<times> bytes \<times> int list \<times> nat list \<Rightarrow> bool" where
  "cites spans = (\<lambda>(ty, off, len, raw, body, prov). prov = provenance spans off (off + length raw))"

lemma ParseHandshake_provenance:
  assumes "ParseHandshake pci frags opt = (h, e)" "m \<in> set (hsMessages h)"
  shows "(hmRecords m, hmPackets m) =
    provenance (spans_of 0 frags) (hmOffset m) (hmOffset m + length (hmRaw m))"
proof -
  let ?h = "\<lparr>hsMessages = [], hsBuffer = concat (map fgData frags), hsTruncated = False, hsNeed = 0,
    hsErrors = [], hsSpans = spans_of 0 frags\<rparr> :: 'a handshakeStream"
  let ?P = "\<lambda>off g. off \<le> length (hsBuffer g) \<and> hsSpans g = spans_of 0 frags
    \<and> list_all (cites (spans_of 0 frags)) (map header_of (hsMessages g))"
  have h0: "ParseHandshake pci frags opt = messages_loop pci opt 0 ?h"
    unfolding ParseHandshake_unfold by (simp add: coalesce_spans)
  have "\<exists>off g. ?P off g \<and> \<not> fits (hsBuffer g) off \<and>
      messages_loop pci opt 0 ?h = messages_loop pci opt off g"
  proof (rule messages_loop_invariant)
    fix off and g :: "'a handshakeStream"
    assume P: "?P off g" and f: "fits (hsBuffer g) off"
    have "off + 4 + msg_len (hsBuffer g) off \<le> length (hsBuffer g)" using f by (auto simp: fits_def)
    moreover from this have "cites (spans_of 0 frags) (header_at (hsBuffer g) (spans_of 0 frags) off)"
      by (simp add: cites_def header_at_def add.assoc)
    ultimately show "?P (off + 4 + msg_len (hsBuffer g) off) (push_message pci opt off g)"
      using P by simp
  qed simp
  then obtain off g where P: "?P off g" and stop: "\<not> fits (hsBuffer g) off"
    and "messages_loop pci opt 0 ?h = messages_loop pci opt off g" by blast
  then have g: "messages_loop pci opt off g = (h, e)" using assms(1) unfolding h0 by simp
  have "hsMessages h = hsMessages g"
    using messages_stop_messages [OF stop, of pci opt] unfolding g by simp
  then have "m \<in> set (hsMessages g)" using assms(2) by simp
  then have "header_of m \<in> set (map header_of (hsMessages g))" by simp
  then have "cites (spans_of 0 frags) (header_of m)" using P unfolding list_all_iff by blast
  then show ?thesis by (simp add: cites_def header_of_def)
qed

text \<open>C15: a message cites exactly the records and packets that carried it: the packets are those of the
  fragments that hold at least one of its bytes, header included, and the records those of them that have
  a record number, each listed once.\<close>

theorem ParseHandshake_citations:
  assumes "ParseHandshake pci frags opt = (h, e)" "m \<in> set (hsMessages h)"
  shows "let ks = {k. carries frags (hmOffset m) (hmOffset m + length (hmRaw m)) k}
    in set (hmRecords m) = {r. 0 \<le> r \<and> (\<exists>k \<in> ks. r = fgRecord (frags ! k))} \<and>
       set (hmPackets m) = (\<Union>k \<in> ks. set (fgPackets (frags ! k))) \<and>
       distinct (hmRecords m) \<and> distinct (hmPackets m)"
proof -
  let ?a = "hmOffset m" and ?b = "hmOffset m + length (hmRaw m)" and ?ss = "spans_of 0 frags"
  have pr: "hmRecords m = fst (provenance_loop ?a ?b ?ss ([], []))"
    "hmPackets m = snd (provenance_loop ?a ?b ?ss ([], []))"
    using ParseHandshake_provenance [OF assms] unfolding provenance_def by (metis fst_conv, metis snd_conv)
  have ov: "{s \<in> set ?ss. overlaps ?a ?b s} = (\<lambda>k. \<lparr>spStart = frag_start frags k,
      spEnd = frag_start frags k + length (fgData (frags ! k)), spRecord = fgRecord (frags ! k),
      spPackets = fgPackets (frags ! k)\<rparr>) ` {k. carries frags ?a ?b k}"
    using spans_of_overlapping [of 0 frags ?a ?b] by simp
  have rec: "spRecord ` {s \<in> set ?ss. overlaps ?a ?b s \<and> 0 \<le> spRecord s} =
      {r. 0 \<le> r \<and> r \<in> spRecord ` {s \<in> set ?ss. overlaps ?a ?b s}}" by auto
  note sets = provenance_loop_sets [of ?a ?b ?ss "[]" "[]"]
  show ?thesis
    unfolding Let_def pr using sets unfolding rec ov by (auto simp: image_iff)
qed

theorem ParseHandshake_citations_witness:
  "\<exists>h e m. ParseHandshake no_cert_info sample_fragments False = (h, e) \<and> m \<in> set (hsMessages h) \<and>
     set (hmRecords m) = {0, 1} \<and> set (hmPackets m) = {3, 4, 5}"
proof -
  let ?h = "\<lparr>hsMessages = [], hsBuffer = [14, 0, 0, 0, 20], hsTruncated = False, hsNeed = 0, hsErrors = [],
    hsSpans = spans_of 0 sample_fragments\<rparr> :: unit handshakeStream"
  obtain h e where he: "ParseHandshake no_cert_info sample_fragments False = (h, e)" by fastforce
  have l: "msg_len [14, 0, 0, 0, 20] 0 = 0"
    by (simp add: msg_len_def subslice_def)
  let ?g = "push_message no_cert_info False 0 ?h"
  have "ParseHandshake no_cert_info sample_fragments False = messages_loop no_cert_info False 0 ?h"
    unfolding ParseHandshake_unfold by (simp add: sample_fragments_def coalesce_spans)
  also have "\<dots> = messages_loop no_cert_info False 4 ?g"
    using messages_loop_accept [of ?h 0 no_cert_info False] by (simp add: fits_def l)
  also have "hsMessages (fst \<dots>) = hsMessages ?g"
    by (rule messages_stop_messages) (simp add: fits_def)
  finally have "hsMessages h = hsMessages ?g" by (simp add: he)
  then have "map header_of (hsMessages h) = [header_at [14, 0, 0, 0, 20] (spans_of 0 sample_fragments) 0]"
    by simp
  then obtain m where m: "m \<in> set (hsMessages h)"
    "header_of m = header_at [14, 0, 0, 0, 20] (spans_of 0 sample_fragments) 0" by auto
  then have o: "hmOffset m = 0" "length (hmRaw m) = 4"
    by (auto simp: header_of_def header_at_def l)
  then have ks: "{k. carries sample_fragments (hmOffset m) (hmOffset m + length (hmRaw m)) k} = {0, 1}"
    by (auto simp: carries_def frag_start_def sample_fragments_def less_2_cases_iff)
  have "{r. 0 \<le> r \<and> (\<exists>k \<in> {0, 1}. r = fgRecord (sample_fragments ! k))} = {0, 1}"
    "(\<Union>k \<in> {0, 1}. set (fgPackets (sample_fragments ! k))) = {3, 4, 5}"
    by (auto simp: sample_fragments_def)
  with ParseHandshake_citations [OF he m(1)] have "set (hmRecords m) = {0, 1} \<and> set (hmPackets m) = {3, 4, 5}"
    unfolding Let_def ks by argo
  with he m(1) show ?thesis by blast
qed

section \<open>ClientHello\<close>

lemma reads_last_start:
  "reads_last m bs x \<Longrightarrow> run_state m (newCursor bs) = (x, at_offset bs [])"
  unfolding reads_last_def by (drule spec [of _ "[]"]) (simp add: newCursor_def at_offset_def)

lemma read_from_reads: "reads m bs x \<Longrightarrow> read_from m bs = x"
  using reads_last_start [OF reads_last_I, of m bs x] by (simp add: read_from_def)

text \<open>The encoding of a hello; its extensions are present, possibly as an empty list, or absent.\<close>

definition opt_extensions_wire :: "extension list option \<Rightarrow> bytes" where
  "opt_extensions_wire es = (case es of None \<Rightarrow> [] | Some es \<Rightarrow> vec16 (extensions_wire es))"

definition client_hello_wire ::
  "u16 \<Rightarrow> bytes \<Rightarrow> bytes \<Rightarrow> u16 list \<Rightarrow> bytes \<Rightarrow> extension list option \<Rightarrow> bytes" where
  "client_hello_wire lv rnd sid suites cms es = put_be16 lv @ (rnd @ (vec8 sid @
     (vec16 (concat (map put_be16 suites)) @ (vec8 cms @ opt_extensions_wire es))))"

definition extensions_fit :: "extension list option \<Rightarrow> bool" where
  "extensions_fit es = (case es of None \<Rightarrow> True | Some es \<Rightarrow> length (extensions_wire es) < 65536)"

lemma reads_last_extensions:
  assumes "extensions_fit es"
  shows "reads_last (extensions_unless_end what) (opt_extensions_wire es) (case es of None \<Rightarrow> [] | Some l \<Rightarrow> l)"
proof (cases es)
  case None
  then show ?thesis
    by (simp add: reads_last_def extensions_unless_end_def at_end_def cu_remaining_def at_offset_def
        opt_extensions_wire_def)
next
  case (Some l)
  then have "reads_last (parseExtensionsCursor what) (vec16 (extensions_wire l)) l"
    using assms by (intro reads_last_I reads_parseExtensionsCursor) (simp add: extensions_fit_def)
  then show ?thesis
    by (simp add: reads_last_def extensions_unless_end_def at_end_def cu_remaining_def at_offset_def
        opt_extensions_wire_def Some vec16_def)
qed

lemma reads_last_bind_return:
  "reads_last m bs x \<Longrightarrow> reads_last (m \<bind> (\<lambda>x. State_Monad.return (f x))) bs (f x)"
  by (simp add: reads_last_def)

lemma array32_id [simp]: "length v = 32 \<Longrightarrow> array32 v = v"
  by (simp add: array32_def)

text \<open>Decoding the extensions fills in the decoded fields only.\<close>

definition hello_base :: "clientHello \<Rightarrow> u16 \<times> bytes \<times> bytes \<times> u16 list \<times> bytes \<times> extension list" where
  "hello_base ch = (chLegacyVersion ch, chRandom ch, chSessionID ch, chCipherSuites ch,
     chCompressionMethods ch, chExtensions ch)"

lemma hello_base_step: "hello_base (decode_client_extension ch e) = hello_base ch"
  by (simp add: decode_client_extension_def hello_base_def Let_def)

lemma hello_base_decode: "hello_base (foldl decode_client_extension ch es) = hello_base ch"
  by (induction es arbitrary: ch) (simp_all add: hello_base_step)

definition versions_in :: "extension list \<Rightarrow> u16 list" where
  "versions_in es = concat (map (\<lambda>e. u16_pairs (read_from (vector8 ''supported_versions'') (exData e)))
     (filter (\<lambda>e. exType e = ExtSupportedVersions) es))"

lemma versions_decode:
  "chSupportedVersions (foldl decode_client_extension ch es) = chSupportedVersions ch @ versions_in es"
proof (induction es arbitrary: ch)
  case (Cons e es)
  have "chSupportedVersions (decode_client_extension ch e) = chSupportedVersions ch @ versions_in [e]"
    by (simp add: decode_client_extension_def Let_def versions_in_def)
  then show ?case by (simp add: Cons) (simp add: versions_in_def)
qed (simp add: versions_in_def)

lemma parseClientHello_wire:
  assumes "length rnd = 32" "length sid < 256" "suites \<noteq> []" "2 * length suites < 65536"
    "cms \<noteq> []" "length cms < 256" "extensions_fit es"
  shows "snd (parseClientHello (client_hello_wire lv rnd sid suites cms es)) = None"
    "hello_base (fst (parseClientHello (client_hello_wire lv rnd sid suites cms es))) =
      (lv, rnd, sid, suites, cms, case es of None \<Rightarrow> [] | Some l \<Rightarrow> l)"
    "chSupportedVersions (fst (parseClientHello (client_hello_wire lv rnd sid suites cms es))) =
      versions_in (case es of None \<Rightarrow> [] | Some l \<Rightarrow> l)"
proof -
  obtain ch where ch: "reads_last client_hello_fields (client_hello_wire lv rnd sid suites cms es) ch"
    "hello_base ch = (lv, rnd, sid, suites, cms, case es of None \<Rightarrow> [] | Some l \<Rightarrow> l)"
    "chSupportedVersions ch = []"
  proof (rule that)
    show "reads_last client_hello_fields (client_hello_wire lv rnd sid suites cms es)
      \<lparr>chLegacyVersion = lv, chRandom = array32 rnd, chSessionID = sid,
       chCipherSuites = suites, chCompressionMethods = cms, chExtensions = case es of None \<Rightarrow> [] | Some l \<Rightarrow> l,
       chSupportedVersions = [], chSupportedGroups = [], chECPointFormats = [],
       chSignatureAlgorithms = [], chMaxFragmentLength = None, chRenegotiationInfo = [],
       chHasRenegotiationInfo = False, chSessionTicket = [], chHasSessionTicket = False,
       chServerNames = [], chALPN = [], chKeyShares = [], chPSKKeyExchangeModes = []\<rparr>"
      unfolding client_hello_fields_def client_hello_wire_def
      using assms by (intro reads_last_bind [OF reads_u16] reads_last_bind [OF reads_take]
        reads_last_bind [OF reads_vector8] reads_last_bind [OF reads_u16List]
        reads_last_bind_return reads_last_extensions)
  qed (simp_all add: hello_base_def assms)
  note run = reads_last_start [OF ch(1)]
  have ne: "chCipherSuites ch \<noteq> []" "chCompressionMethods ch \<noteq> []"
    and es: "chExtensions ch = (case es of None \<Rightarrow> [] | Some l \<Rightarrow> l)"
    using ch(2) assms(3,5) by (simp_all add: hello_base_def)
  have res: "parseClientHello (client_hello_wire lv rnd sid suites cms es) = (decodeClientExtensions ch, None)"
    using run ne by (simp add: parseClientHello_def at_offset_def)
  show "snd (parseClientHello (client_hello_wire lv rnd sid suites cms es)) = None"
    by (simp add: res)
  show "hello_base (fst (parseClientHello (client_hello_wire lv rnd sid suites cms es))) =
      (lv, rnd, sid, suites, cms, case es of None \<Rightarrow> [] | Some l \<Rightarrow> l)"
    using ch(2) by (simp add: res decodeClientExtensions_def hello_base_decode)
  show "chSupportedVersions (fst (parseClientHello (client_hello_wire lv rnd sid suites cms es))) =
      versions_in (case es of None \<Rightarrow> [] | Some l \<Rightarrow> l)"
    using ch(3) by (simp add: res decodeClientExtensions_def versions_decode es)
qed

text \<open>A ClientHello body is read back field by field: version, random, session id, cipher suites,
  compression methods and the extensions, in order and byte for byte, whether the extension block is
  absent, empty or not; the parse reports no error and decoding the extensions leaves them as read.\<close>

lemma parseClientHello_roundtrip:
  assumes "length rnd = 32" "length sid < 256" "suites \<noteq> []" "2 * length suites < 65536"
    "cms \<noteq> []" "length cms < 256" "extensions_fit es"
  shows "\<exists>ch. parseClientHello (client_hello_wire lv rnd sid suites cms es) = (ch, None) \<and>
    chLegacyVersion ch = lv \<and> chRandom ch = rnd \<and> chSessionID ch = sid \<and> chCipherSuites ch = suites \<and>
    chCompressionMethods ch = cms \<and> chExtensions ch = (case es of None \<Rightarrow> [] | Some l \<Rightarrow> l) \<and>
    chSupportedVersions ch = versions_in (chExtensions ch)"
  using parseClientHello_wire [OF assms, of lv]
  by (cases "parseClientHello (client_hello_wire lv rnd sid suites cms es)") (simp add: hello_base_def)

section \<open>The version offered\<close>

lemma max_version_loop_Max:
  "max_version_loop best vs = Max (insert best (set (filter (\<lambda>v. \<not> IsGREASE v) vs)))"
proof (induction vs arbitrary: best)
  case (Cons v vs)
  have step: "Max (insert b (insert v A)) = Max (insert (max b v) A)" if "finite A" for A and b :: u16
    using that by (cases "A = {}") (simp_all add: max.assoc)
  have "(if v > best then v else best) = max best v"
    by (cases "v > best") (auto simp: max.absorb1 max.absorb2 less_imp_le not_less dest: leD)
  then show ?case
    using Cons.IH step [of "set (filter (\<lambda>v. \<not> IsGREASE v) vs)" best] by (cases "v > best") simp_all
qed simp

text \<open>The highest version a parsed hello offers is the maximum of the legacy version field and the
  versions of its supported_versions extensions that are not reserved (GREASE) values.  In particular the
  legacy field counts even when supported_versions is present.\<close>

lemma MaxVersion_parsed:
  assumes "length rnd = 32" "length sid < 256" "suites \<noteq> []" "2 * length suites < 65536"
    "cms \<noteq> []" "length cms < 256" "extensions_fit (Some (pre @ e # post))"
    "exType e = ExtSupportedVersions" "exData e = vec8 (concat (map put_be16 vs))" "2 * length vs < 256"
    "\<forall>x \<in> set (pre @ post). exType x \<noteq> ExtSupportedVersions"
  shows "MaxVersion (fst (parseClientHello (client_hello_wire lv rnd sid suites cms (Some (pre @ e # post))))) =
    Max (insert lv (set (filter (\<lambda>v. \<not> IsGREASE v) vs)))"
proof -
  let ?ch = "fst (parseClientHello (client_hello_wire lv rnd sid suites cms (Some (pre @ e # post))))"
  have len: "length (concat (map put_be16 vs)) = 2 * length vs" by (induction vs) simp_all
  then have "length (concat (map put_be16 vs)) < 256" using assms(10) by linarith
  then have "read_from (vector8 ''supported_versions'') (exData e) = concat (map put_be16 vs)"
    unfolding assms(9) by (intro read_from_reads reads_vector8)
  then have "versions_in (pre @ e # post) = vs"
    using assms(8,11) by (simp add: versions_in_def u16_pairs_put filter_empty_conv [THEN iffD2])
  then have "chSupportedVersions ?ch = vs" "chLegacyVersion ?ch = lv"
    using parseClientHello_wire [OF assms(1-7), of lv] by (simp_all add: hello_base_def)
  then show ?thesis by (simp only: MaxVersion_def max_version_loop_Max)
qed

section \<open>Certificates\<close>

text \<open>The two layouts: a bare list of certificates, or a request context and a list in which every
  certificate has its extensions.\<close>

definition certs12_wire :: "bytes list \<Rightarrow> bytes" where
  "certs12_wire ders = vec24 (concat (map vec24 ders))"

definition cert13_wire :: "bytes \<times> extension list \<Rightarrow> bytes" where
  "cert13_wire p = vec24 (fst p) @ vec16 (extensions_wire (snd p))"

definition certs13_wire :: "bytes \<Rightarrow> (bytes \<times> extension list) list \<Rightarrow> bytes" where
  "certs13_wire ctx ps = vec8 ctx @ vec24 (concat (map cert13_wire ps))"

lemma be_val_vec24: "length v < 2 ^ 24 \<Longrightarrow> be_val (subslice (vec24 v @ post) 0 3) = length v"
  by (simp add: vec24_def subslice_def)

lemma length_vec24 [simp]: "length (vec24 v) = 3 + length v"
  by (simp add: vec24_def)

lemma layout12: "length lst < 2 ^ 24 \<Longrightarrow> \<not> looksLikeTLS13Certificate (vec24 lst)"
  using be_val_vec24 [of lst "[]"] by (simp add: looksLikeTLS13Certificate_def)

text \<open>A list that follows a request context is recognised, unless the context length, read as the top
  byte of a list length, accounts for the whole body.\<close>

lemma layout13:
  assumes "length ctx < 256" "length lst < 2 ^ 24"
    "be_val (subslice (vec8 ctx @ vec24 lst) 0 3) \<noteq> length ctx + length lst + 1"
  shows "looksLikeTLS13Certificate (vec8 ctx @ vec24 lst)"
proof -
  let ?b = "vec8 ctx @ vec24 lst"
  have len: "length ?b = 4 + length ctx + length lst" by (simp add: vec8_def)
  have "unat (?b ! 0) = length ctx" using assms(1) by (simp add: vec8_def)
  moreover have "subslice ?b (1 + length ctx) (4 + length ctx) = subslice (vec24 lst) 0 3"
    using subslice_shift [of "vec8 ctx" "vec24 lst" 0 3] by (simp add: vec8_def)
  ultimately show ?thesis
    using assms len be_val_vec24 [OF assms(2), of "[]"]
    by (simp add: looksLikeTLS13Certificate_def Let_def)
qed

lemma no_context_layout13:
  assumes "length lst < 2 ^ 24"
  shows "be_val (subslice (vec8 [] @ vec24 lst) 0 3) \<noteq> length lst + 1"
proof -
  let ?n = "length lst"
  have "subslice (vec8 [] @ vec24 lst) 0 3 = 0 # take 2 (be_bytes 3 ?n)"
    by (simp add: vec8_def vec24_def subslice_def)
  also have "take 2 (be_bytes 3 ?n) = be_bytes 2 (?n div 256)"
    by (simp add: numeral_3_eq_3 numeral_2_eq_2 div_mult2_eq [symmetric])
  also have "be_val (0 # be_bytes 2 (?n div 256)) = ?n div 256 mod 256 ^ 2"
    by simp
  also have "\<dots> < ?n + 1"
    by (meson div_le_dividend le_less_trans less_add_one mod_less_eq_dividend)
  finally show ?thesis by simp
qed

lemma reads_cert12:
  assumes "length der < 2 ^ 24"
  shows "reads (cert_item pci False) (vec24 der)
    \<lparr>ceDER = der, ceExtensions = [], ceInfo = fst (pci der), ceErr = snd (pci der)\<rparr>"
  using reads_bind_return [OF reads_vector24 [OF assms], where f =
    "\<lambda>der. \<lparr>ceDER = der, ceExtensions = [], ceInfo = fst (pci der), ceErr = snd (pci der)\<rparr>"] by (simp add: cert_item_def)

lemma reads_cert13:
  assumes "length der < 2 ^ 24" "length (extensions_wire es) < 65536"
  shows "reads (cert_item pci True) (cert13_wire (der, es))
    \<lparr>ceDER = der, ceExtensions = es, ceInfo = fst (pci der), ceErr = snd (pci der)\<rparr>"
proof -
  have "reads (vector24 w \<bind> (\<lambda>der. parseExtensionsCursor v \<bind> (\<lambda>es. State_Monad.return
      \<lparr>ceDER = der, ceExtensions = es, ceInfo = fst (pci der), ceErr = snd (pci der)\<rparr>)))
    (vec24 der @ vec16 (extensions_wire es))
    \<lparr>ceDER = der, ceExtensions = es, ceInfo = fst (pci der), ceErr = snd (pci der)\<rparr>" for w v
    by (intro reads_bind [OF reads_vector24] reads_bind_return reads_parseExtensionsCursor assms)
  then show ?thesis by (simp add: cert_item_def cert13_wire_def)
qed

lemma parseCertificate_12:
  assumes "length (concat (map vec24 ders)) < 2 ^ 24"
  shows "parseCertificate pci (certs12_wire ders) False =
    (\<lparr>crRequestContext = [], crTLS13 = False, crEntries = map (\<lambda>der. \<lparr>ceDER = der, ceExtensions = [],
       ceInfo = fst (pci der), ceErr = snd (pci der)\<rparr>) ders\<rparr>, None)"
proof -
  let ?lst = "concat (map vec24 ders)"
  let ?entry = "\<lambda>der. \<lparr>ceDER = der, ceExtensions = [], ceInfo = fst (pci der), ceErr = snd (pci der)\<rparr>"
  have "length (vec24 d) \<le> length ?lst" if "d \<in> set ders" for d
    using that by (induction ders) auto
  then have short: "length d < 2 ^ 24" if "d \<in> set ders" for d
    using that assms by fastforce
  have it: "items (cert_item pci False) (concat (map (\<lambda>e. vec24 (ceDER e)) (map ?entry ders))) =
      (map ?entry ders, None)"
  proof (rule items_reads, rule ballI)
    fix e assume "e \<in> set (map ?entry ders)"
    then obtain d where d: "d \<in> set ders" "e = ?entry d" by auto
    have "length (vec24 d) \<noteq> 0" by simp
    then have "vec24 d \<noteq> []" by (metis list.size(3))
    then show "reads (cert_item pci False) (vec24 (ceDER e)) e \<and> vec24 (ceDER e) \<noteq> []"
      using reads_cert12 [OF short [OF d(1)], of pci] d(2) by simp
  qed
  have it: "items (cert_item pci False) ?lst = (map ?entry ders, None)"
    using it by (simp add: comp_def)
  have "reads (vector24 ''certificate.certificate_list'') (vec24 ?lst) ?lst"
    by (rule reads_vector24 [OF assms])
  from reads_last_start [OF reads_last_I [OF this]] show ?thesis
    using layout12 [OF assms] it
    by (auto simp: parseCertificate_def certs12_wire_def Let_def at_offset_def comp_def)
qed

lemma parseCertificate_13:
  assumes "length (concat (map cert13_wire ps)) < 2 ^ 24" "length ctx < 256"
    "\<forall>p \<in> set ps. length (extensions_wire (snd p)) < 65536"
    "looksLikeTLS13Certificate (certs13_wire ctx ps)"
  shows "parseCertificate pci (certs13_wire ctx ps) False =
    (\<lparr>crRequestContext = ctx, crTLS13 = True, crEntries = map (\<lambda>p. \<lparr>ceDER = fst p, ceExtensions = snd p,
       ceInfo = fst (pci (fst p)), ceErr = snd (pci (fst p))\<rparr>) ps\<rparr>, None)"
proof -
  let ?lst = "concat (map cert13_wire ps)"
  let ?entry = "\<lambda>p. \<lparr>ceDER = fst p, ceExtensions = snd p, ceInfo = fst (pci (fst p)), ceErr = snd (pci (fst p))\<rparr>"
  have "length (cert13_wire p) \<le> length ?lst" if "p \<in> set ps" for p
    using that by (induction ps) auto
  then have short: "length (fst p) < 2 ^ 24" if "p \<in> set ps" for p
    using that assms(1) by (fastforce simp: cert13_wire_def)
  have "items (cert_item pci True) (concat (map (\<lambda>e. cert13_wire (ceDER e, ceExtensions e)) (map ?entry ps))) =
      (map ?entry ps, None)"
  proof (rule items_reads, rule ballI)
    fix e assume "e \<in> set (map ?entry ps)"
    then obtain p where p: "p \<in> set ps" "e = ?entry p" by auto
    have "length (cert13_wire p) \<noteq> 0" by (simp add: cert13_wire_def)
    then have "cert13_wire p \<noteq> []" by (metis list.size(3))
    then show "reads (cert_item pci True) (cert13_wire (ceDER e, ceExtensions e)) e \<and>
        cert13_wire (ceDER e, ceExtensions e) \<noteq> []"
      using reads_cert13 [OF short [OF p(1)], of "snd p" pci] assms(3) p by simp
  qed
  then have it: "items (cert_item pci True) ?lst = (map ?entry ps, None)"
    by (simp add: comp_def)
  have "reads (vector8 v \<bind> (\<lambda>ctx. vector24 w \<bind> (\<lambda>lst. State_Monad.return (ctx, lst))))
      (vec8 ctx @ vec24 ?lst) (ctx, ?lst)" for v w
    by (intro reads_bind [OF reads_vector8] reads_bind_return reads_vector24 assms)
  from reads_last_start [OF reads_last_I [OF this]] show ?thesis
    using assms(4) it
    by (auto simp: parseCertificate_def certs13_wire_def Let_def at_offset_def comp_def)
qed

definition sample_chain :: "(bytes \<times> extension list) list" where
  "sample_chain = [([48, 0], []), ([48, 1], [])]"

text \<open>C35: certificate bytes reach the evidence unchanged.  A TLS 1.2 chain, and a TLS 1.3 chain with an
  empty request context and any per-certificate extensions, are each recognised from the bytes alone, and
  the DER byte strings returned are exactly the encoded ones, in order, with no error, whatever the
  certificate summary makes of them.\<close>

theorem parseCertificate_DER_exact:
  assumes "length (concat (map cert13_wire ps)) < 2 ^ 24"
    "\<forall>p \<in> set ps. length (extensions_wire (snd p)) < 65536"
  shows "\<exists>c12 c13. parseCertificate pci (certs12_wire (map fst ps)) False = (c12, None) \<and>
    parseCertificate pci (certs13_wire [] ps) False = (c13, None) \<and>
    DERChain c12 = map fst ps \<and> DERChain c13 = map fst ps \<and> \<not> crTLS13 c12 \<and> crTLS13 c13 \<and>
    map ceExtensions (crEntries c13) = map snd ps"
proof -
  have "length (concat (map vec24 (map fst ps))) \<le> length (concat (map cert13_wire ps))"
    by (induction ps) (simp_all add: cert13_wire_def)
  then have l12: "length (concat (map vec24 (map fst ps))) < 2 ^ 24" using assms(1) by linarith
  have "looksLikeTLS13Certificate (certs13_wire [] ps)"
    unfolding certs13_wire_def using assms(1) no_context_layout13 [OF assms(1)]
    by (intro layout13) simp_all
  from parseCertificate_13 [OF assms(1) _ assms(2) this, of pci] parseCertificate_12 [OF l12, of pci]
  show ?thesis by (simp add: DERChain_def comp_def)
qed

theorem parseCertificate_DER_exact_witness:
  "\<exists>c12 c13. parseCertificate no_cert_info (certs12_wire (map fst sample_chain)) False = (c12, None) \<and>
    parseCertificate no_cert_info (certs13_wire [] sample_chain) False = (c13, None) \<and>
    DERChain c12 = map fst sample_chain \<and> DERChain c13 = map fst sample_chain \<and> \<not> crTLS13 c12 \<and>
    crTLS13 c13 \<and> map ceExtensions (crEntries c13) = map snd sample_chain"
  by (rule parseCertificate_DER_exact)
    (simp_all add: sample_chain_def cert13_wire_def vec16_def extensions_wire_def)

end
