(* ===== verification/Go_Strings.thy ===== *)
theory Go_Strings
  imports Bytes_Prelude
begin

text \<open>
  The functions of Go's \<^verbatim>\<open>strings\<close>, \<^verbatim>\<open>encoding/hex\<close> and \<^verbatim>\<open>fmt\<close> the evidence engine calls.  Text is a list of
  bytes written as characters, as a Go string is.
\<close>

section \<open>Text\<close>

text \<open>The length of the white-space rune at the head of the text, 0 if there is none: the ASCII ones and the
  UTF-8 encodings of the Unicode ones.\<close>

definition char_code :: "char \<Rightarrow> nat" where "char_code c = of_char c"

fun space_len :: "string \<Rightarrow> nat" where
  "space_len (a # b # c # s) =
    (if char_code a \<in> {9..13} \<or> char_code a = 32 then 1
     else if char_code a = 0xC2 \<and> (char_code b = 0x85 \<or> char_code b = 0xA0) then 2
     else if char_code a = 0xE1 \<and> char_code b = 0x9A \<and> char_code c = 0x80 then 3
     else if char_code a = 0xE2 \<and> char_code b = 0x80 \<and> (char_code c \<in> {0x80..0x8A} \<or> char_code c \<in> {0xA8, 0xA9, 0xAF}) then 3
     else if char_code a = 0xE2 \<and> char_code b = 0x81 \<and> char_code c = 0x9F then 3
     else if char_code a = 0xE3 \<and> char_code b = 0x80 \<and> char_code c = 0x80 then 3
     else 0)"
| "space_len [a, b] =
    (if char_code a \<in> {9..13} \<or> char_code a = 32 then 1
     else if char_code a = 0xC2 \<and> (char_code b = 0x85 \<or> char_code b = 0xA0) then 2 else 0)"
| "space_len [a] = (if char_code a \<in> {9..13} \<or> char_code a = 32 then 1 else 0)"
| "space_len [] = 0"

lemma space_len_le: "space_len s \<le> length s"
  by (induction s rule: space_len.induct) auto

lemma space_len_shortens: "0 < space_len s \<Longrightarrow> length s - space_len s < length s"
  using space_len_le [of s] by simp

function trim_left :: "string \<Rightarrow> string" where
  "trim_left s = (if space_len s > 0 then trim_left (drop (space_len s) s) else s)"
  by pat_completeness auto
termination by (relation "measure length") (simp, simp add: space_len_shortens)

declare trim_left.simps [simp del]

fun trim_right :: "string \<Rightarrow> string" where
  "trim_right [] = []"
| "trim_right (c # s) = (if trim_left (c # s) = [] then [] else c # trim_right s)"

definition TrimSpace :: "string \<Rightarrow> string" where "TrimSpace s = trim_right (trim_left s)"

fun split_word :: "string \<Rightarrow> string \<times> string" where
  "split_word [] = ([], [])"
| "split_word (c # s) =
    (if space_len (c # s) > 0 then ([], c # s) else case split_word s of (w, r) \<Rightarrow> (c # w, r))"


lemma trim_left_length: "length (trim_left s) \<le> length s"
  by (induction s rule: trim_left.induct) (subst trim_left.simps, auto intro: le_trans [OF _ diff_le_self])

lemma split_word_length: "split_word s = (w, r) \<Longrightarrow> length s = length w + length r"
  by (induction s arbitrary: w r) (auto split: if_splits prod.splits)

lemma word_list_shortens: "trim_left s = c # t \<Longrightarrow> (w, r) = split_word t \<Longrightarrow> length r < length s"
  using trim_left_length [of s] split_word_length [of t w r] by simp

function word_list :: "string \<Rightarrow> string list" where
  "word_list s =
    (case trim_left s of [] \<Rightarrow> []
     | c # t \<Rightarrow> (case split_word t of (w, r) \<Rightarrow> (c # w) # word_list r))"
  by pat_completeness auto
termination
  by (relation "measure length") (simp, simp add: word_list_shortens)

declare word_list.simps [simp del]

section \<open>Runes\<close>

text \<open>What \<^verbatim>\<open>range\<close> over a string yields: the UTF-8 sequence at the head as a rune with the number of its further
  bytes, and the replacement rune for a byte that starts no valid sequence.\<close>

definition continuation :: "nat \<Rightarrow> bool" where "continuation n \<longleftrightarrow> 0x80 \<le> n \<and> n \<le> 0xBF"

definition decode_rune :: "char \<Rightarrow> string \<Rightarrow> nat \<times> nat" where
  "decode_rune a s =
    (let x = char_code a; n = length s; c = (\<lambda>i. char_code (s ! i))
     in if x < 0x80 then (x, 0)
        else if 0xC2 \<le> x \<and> x \<le> 0xDF \<and> 1 \<le> n \<and> continuation (c 0) then ((x - 0xC0) * 64 + (c 0 - 0x80), 1)
        else if 0xE0 \<le> x \<and> x \<le> 0xEF \<and> 2 \<le> n \<and> (if x = 0xE0 then 0xA0 else 0x80) \<le> c 0 \<and>
            c 0 \<le> (if x = 0xED then 0x9F else 0xBF) \<and> continuation (c 1) then
          ((x - 0xE0) * 4096 + (c 0 - 0x80) * 64 + (c 1 - 0x80), 2)
        else if 0xF0 \<le> x \<and> x \<le> 0xF4 \<and> 3 \<le> n \<and> (if x = 0xF0 then 0x90 else 0x80) \<le> c 0 \<and>
            c 0 \<le> (if x = 0xF4 then 0x8F else 0xBF) \<and> continuation (c 1) \<and> continuation (c 2) then
          ((x - 0xF0) * 262144 + (c 0 - 0x80) * 4096 + (c 1 - 0x80) * 64 + (c 2 - 0x80), 3)
        else (0xFFFD, 0))"

fun runes :: "string \<Rightarrow> nat list" where
  "runes [] = []"
| "runes (a # s) = (case decode_rune a s of (r, k) \<Rightarrow> r # runes (drop k s))"

lemma runes_ASCII: "\<forall>c \<in> set s. char_code c < 0x80 \<Longrightarrow> runes s = map char_code s"
  by (induction s) (simp_all add: decode_rune_def)

text \<open>A two-byte rune, a rune of three bytes, and a byte that starts nothing.\<close>

lemma runes_samples: "runes [CHR 0xC5, CHR 0xBF, CHR ''a''] = [0x17F, 0x61]"
  "runes [CHR 0xE2, CHR 0x84, CHR 0xAA] = [0x212A]" "runes [CHR 0x84, CHR ''b''] = [0xFFFD, 0x62]"
  by (simp_all add: decode_rune_def continuation_def char_code_def)

section \<open>Hexadecimal\<close>

datatype hex_error = InvalidByte char | ErrLength

definition hex_val :: "char \<Rightarrow> nat option" where
  "hex_val c =
    (let n = char_code c
     in if 48 \<le> n \<and> n \<le> 57 then Some (n - 48) else if 97 \<le> n \<and> n \<le> 102 then Some (n - 87)
        else if 65 \<le> n \<and> n \<le> 70 then Some (n - 55) else None)"

definition hex_digit :: "nat \<Rightarrow> char" where
  "hex_digit n = char_of (if n < 10 then 48 + n else 87 + n)"

fun hex_decode :: "string \<Rightarrow> hex_error + bytes" where
  "hex_decode [] = Inr []"
| "hex_decode [a] = Inl (if hex_val a = None then InvalidByte a else ErrLength)"
| "hex_decode (a # b # s) =
    (case hex_val a of None \<Rightarrow> Inl (InvalidByte a)
     | Some x \<Rightarrow> (case hex_val b of None \<Rightarrow> Inl (InvalidByte b)
        | Some y \<Rightarrow> map_sum id (\<lambda>bs. word_of_nat (16 * x + y) # bs) (hex_decode s)))"

definition hex_encode :: "bytes \<Rightarrow> string" where
  "hex_encode bs = concat (map (\<lambda>b. [hex_digit (unat b div 16), hex_digit (unat b mod 16)]) bs)"

definition to_lower :: "char \<Rightarrow> char" where
  "to_lower c = (if 65 \<le> char_code c \<and> char_code c \<le> 90 then char_of (char_code c + 32) else c)"

definition ToLower :: "string \<Rightarrow> string" where "ToLower s = map to_lower s"

definition to_upper :: "char \<Rightarrow> char" where
  "to_upper c = (if 97 \<le> char_code c \<and> char_code c \<le> 122 then char_of (char_code c - 32) else c)"

definition ToUpper :: "string \<Rightarrow> string" where "ToUpper s = map to_upper s"

section \<open>Cutting and numbers\<close>

text \<open>\<^verbatim>\<open>strings.Cut\<close>: the text before and after the first occurrence of the separator.\<close>

fun Cut :: "string \<Rightarrow> string \<Rightarrow> (string \<times> string) option" where
  "Cut sep [] = (if sep = [] then Some ([], []) else None)"
| "Cut sep (c # s) =
    (if take (length sep) (c # s) = sep then Some ([], drop (length sep) (c # s))
     else map_option (apfst (Cons c)) (Cut sep s))"

text \<open>\<^verbatim>\<open>strings.Split\<close> at one character.\<close>

fun split_char :: "char \<Rightarrow> string \<Rightarrow> string list" where
  "split_char x [] = [[]]"
| "split_char x (c # s) =
    (if c = x then [] # split_char x s
     else case split_char x s of [] \<Rightarrow> [[c]] | p # ps \<Rightarrow> (c # p) # ps)"

text \<open>The verb \<^verbatim>\<open>%d\<close> of a number that is not negative.\<close>

fun decimal :: "nat \<Rightarrow> string" where
  "decimal n = (if n < 10 then [char_of (48 + n)] else decimal (n div 10) @ [char_of (48 + n mod 10)])"

declare decimal.simps [simp del]

section \<open>Hexadecimal facts\<close>

lemma char_of_code [simp]: "char_of (char_code c) = c"
  by (simp add: char_code_def)

lemma char_code_char_of: "n < 256 \<Longrightarrow> char_code (char_of n) = n"
  by (simp add: char_code_def of_char_of)

lemma to_lower_upper [simp]: "to_lower (to_upper c) = to_lower c"
proof (cases "97 \<le> char_code c \<and> char_code c \<le> 122")
  case True
  then have "char_code c - 32 < 256" "char_code c - 32 + 32 = char_code c" by linarith+
  then have "char_code (char_of (char_code c - 32)) = char_code c - 32" "char_code c - 32 + 32 = char_code c"
    by (simp_all add: char_code_char_of)
  then show ?thesis using True by (auto simp: to_lower_def to_upper_def)
qed (auto simp: to_upper_def)

lemma ToLower_ToUpper [simp]: "ToLower (ToUpper s) = ToLower s"
  by (simp add: ToLower_def ToUpper_def)

lemma hex_val_lower: "hex_val c = Some x \<Longrightarrow> to_lower c = hex_digit x \<and> x < 16"
proof -
  assume v: "hex_val c = Some x"
  consider "48 \<le> char_code c" "char_code c \<le> 57" "x = char_code c - 48"
    | "97 \<le> char_code c" "char_code c \<le> 102" "x = char_code c - 87"
    | "65 \<le> char_code c" "char_code c \<le> 70" "x = char_code c - 55"
    using v by (auto simp: hex_val_def Let_def split: if_splits)
  then show ?thesis
  proof cases
    case 3
    then have "\<not> x < 10" "x < 16" "87 + x = char_code c + 32" by linarith+
    with 3(1,2) show ?thesis by (simp add: to_lower_def hex_digit_def)
  next
    case 1
    then have "x < 10" "48 + x = char_code c" by linarith+
    with 1(1,2) show ?thesis by (simp add: to_lower_def hex_digit_def)
  next
    case 2
    then have "\<not> x < 10" "x < 16" "87 + x = char_code c" by linarith+
    with 2(1,2) show ?thesis by (simp add: to_lower_def hex_digit_def)
  qed
qed

lemma hex_val_digit [simp]: "n < 16 \<Longrightarrow> hex_val (hex_digit n) = Some n"
  by (simp add: hex_val_def hex_digit_def char_code_char_of)

lemma hex_encode_simps [simp]: "hex_encode [] = []"
  "hex_encode (b # bs) = hex_digit (unat b div 16) # hex_digit (unat b mod 16) # hex_encode bs"
  by (simp_all add: hex_encode_def)

lemma byte_nibbles: "unat b div 16 < 16" for b :: byte
  using unsigned_less [where ?'a = nat, of b] by simp

lemma unat_byte: "n < 256 \<Longrightarrow> unat (word_of_nat n :: byte) = n"
  by (simp add: unsigned_of_nat take_bit_nat_eq_self)

lemma hex_decode_encode: "hex_decode (hex_encode bs) = Inr bs"
  by (induction bs) (simp_all add: byte_nibbles)

lemma hex_encode_decode: "hex_decode s = Inr bs \<Longrightarrow> ToLower s = hex_encode bs"
proof (induction s arbitrary: bs rule: hex_decode.induct)
  case (3 a b s)
  then obtain x y cs where xy: "hex_val a = Some x" "hex_val b = Some y" "hex_decode s = Inr cs"
    "bs = word_of_nat (16 * x + y) # cs"
    by (cases "hex_decode s") (auto split: option.splits)
  then have "x < 16" "y < 16" "to_lower a = hex_digit x" "to_lower b = hex_digit y"
    using hex_val_lower by blast+
  moreover from this have "unat (word_of_nat (16 * x + y) :: byte) = 16 * x + y"
    by (intro unat_byte) simp
  ultimately show ?case using 3(1) [OF xy(1,2)] xy by (simp add: ToLower_def)
qed (simp_all add: ToLower_def)

lemma hex_encode_inj: "hex_encode a = hex_encode b \<longleftrightarrow> a = b"
  by (metis hex_decode_encode sum.inject(2))

section \<open>Facts\<close>

lemma decimal_digits: "set (decimal n) \<subseteq> set ''0123456789''"
proof (induction n rule: decimal.induct)
  case (1 n)
  have d: "char_of (48 + k) \<in> set ''0123456789''" if "k < 10" for k :: nat
  proof -
    have "k \<in> {0, 1, 2, 3, 4, 5, 6, 7, 8, 9}" using that by auto
    then show ?thesis by (elim insertE emptyE) (hypsubst, code_simp)+
  qed
  show ?case
  proof (cases "n < 10")
    case True
    then show ?thesis using d by (subst decimal.simps) simp
  next
    case False
    then show ?thesis using d [of "n mod 10"] 1 by (subst decimal.simps) auto
  qed
qed

definition decimal_value :: "string \<Rightarrow> nat" where
  "decimal_value s = foldl (\<lambda>a c. a * 10 + (char_code c - 48)) 0 s"

lemma decimal_value_decimal [simp]: "decimal_value (decimal n) = n"
proof (induction n rule: decimal.induct)
  case (1 n)
  show ?case
  proof (cases "n < 10")
    case True
    then show ?thesis by (subst decimal.simps) (simp add: decimal_value_def char_code_char_of)
  next
    case False
    then have "decimal_value (decimal (n div 10)) = n div 10" using 1 by simp
    then show ?thesis using False by (subst decimal.simps) (simp add: decimal_value_def char_code_char_of)
  qed
qed

lemma decimal_inj [simp]: "decimal m = decimal n \<longleftrightarrow> m = n"
  by (metis decimal_value_decimal)

lemma Cut_char: "x \<notin> set s \<Longrightarrow> Cut [x] (s @ x # r) = Some (s, r)"
  by (induction s) auto

lemma Cut_char_none: "x \<notin> set s \<Longrightarrow> Cut [x] s = None"
  by (induction s) auto

lemma Cut_parts: "Cut sep s = Some (a, b) \<Longrightarrow> s = a @ sep @ b"
proof (induction s arbitrary: a)
  case (Cons c s)
  then show ?case by (auto split: if_splits) (metis append_take_drop_id)
qed (auto split: if_splits)

lemma split_char_line: "x \<notin> set s \<Longrightarrow> split_char x (s @ x # r) = s # split_char x r"
  by (induction s) (auto split: list.splits)

lemma split_char_concat: "\<forall>l \<in> set ls. x \<notin> set l \<Longrightarrow>
    split_char x (concat (map (\<lambda>l. l @ [x]) ls)) = ls @ [[]]"
  by (induction ls) (simp_all add: split_char_line)

section \<open>Printable text\<close>

definition printable :: "char \<Rightarrow> bool" where "printable c \<longleftrightarrow> 33 \<le> char_code c \<and> char_code c < 127"

lemma char_code_space [simp]: "char_code CHR '' '' = 32"
  by (simp add: char_code_def)

lemma printable_not_space: "printable c \<Longrightarrow> c \<noteq> CHR '' ''"
  by (auto simp: printable_def)

lemma space_len_printable [simp]: "printable c \<Longrightarrow> space_len (c # s) = 0"
  by (cases "c # s" rule: space_len.cases) (auto simp: printable_def)

lemma space_len_space [simp]: "space_len (CHR '' '' # s) = 1"
  by (cases "CHR '' '' # s" rule: space_len.cases) auto

lemma trim_left_printable [simp]: "printable c \<Longrightarrow> trim_left (c # s) = c # s"
  by (simp add: trim_left.simps)

lemma trim_left_space [simp]: "trim_left (CHR '' '' # s) = trim_left s"
  by (subst trim_left.simps) simp

lemma trim_left_Nil [simp]: "trim_left [] = []"
  by (simp add: trim_left.simps)

lemma split_word_printable:
  "\<forall>c \<in> set w. printable c \<Longrightarrow> split_word (w @ CHR '' '' # s) = (w, CHR '' '' # s)"
  "\<forall>c \<in> set w. printable c \<Longrightarrow> split_word w = (w, [])"
  by (induction w) auto

lemma word_list_printable:
  assumes "w \<noteq> []" "\<forall>c \<in> set w. printable c"
  shows "word_list (w @ CHR '' '' # s) = w # word_list s" "word_list w = [w]"
    "word_list (CHR '' '' # s) = word_list s"
proof -
  obtain c v where w: "w = c # v" using assms(1) by (cases w) auto
  show "word_list (CHR '' '' # s) = word_list s" by (simp add: word_list.simps)
  then show "word_list (w @ CHR '' '' # s) = w # word_list s"
    using assms(2) split_word_printable(1) [of v s] by (subst word_list.simps) (simp add: w)
  have "word_list [] = []" by (simp add: word_list.simps)
  then show "word_list w = [w]"
    using assms(2) split_word_printable(2) [of v] by (subst word_list.simps) (simp add: w)
qed

lemma trim_right_printable:
  "\<forall>c \<in> set s. printable c \<or> c = CHR '' '' \<Longrightarrow> s \<noteq> [] \<Longrightarrow> printable (last s) \<Longrightarrow>
   trim_left s \<noteq> [] \<and> trim_right s = s"
proof (induction s)
  case (Cons c s)
  show ?case
  proof (cases "s = []")
    case False
    with Cons have "trim_left s \<noteq> [] \<and> trim_right s = s" by simp
    with Cons.prems(1) show ?thesis by auto
  qed (use Cons.prems in simp)
qed simp

lemma trim_right_nonempty: "trim_left (c # s) \<noteq> [] \<Longrightarrow> trim_right (c # s) \<noteq> []"
  by simp

lemma Cut_prefix: "sep = x # r \<Longrightarrow> x \<notin> set s \<Longrightarrow> Cut sep (s @ sep @ t) = Some (s, t)"
proof (induction s)
  case Nil
  then show ?case by (cases "sep @ t") auto
qed auto

section \<open>Digests\<close>

lemma hex_digit_printable: "n < 16 \<Longrightarrow> printable (hex_digit n)"
  by (auto simp: printable_def hex_digit_def char_code_char_of)

lemma hex_encode_printable: "c \<in> set (hex_encode b) \<Longrightarrow> printable c"
  by (induction b) (use hex_digit_printable byte_nibbles in auto)

lemma hex_encode_not_break: "CHR 0x0A \<notin> set (hex_encode b)" "CHR '' '' \<notin> set (hex_encode b)"
  using hex_encode_printable [of _ b] by (force simp: printable_def char_code_def)+

lemma length_hex_encode: "length (hex_encode b) = 2 * length b"
  by (induction b) simp_all

end
