(* ===== verification/Tls_Names.thy ===== *)
theory Tls_Names
  imports Tls_Handshake Go_Strings
begin

unbundle bit_operations_syntax

text \<open>
  \<^verbatim>\<open>internal/evidence/tlsdis/names.go\<close>: the registry names the evidence reports print.  A \<^verbatim>\<open>map\<close> literal is
  an association list of its entries in source order; \<^verbatim>\<open>fmt.Sprintf\<close> is modelled for the two verbs used,
  \<^verbatim>\<open>%04X\<close> and \<^verbatim>\<open>%d\<close>.  The locale \<open>registry\<close> states what makes a table safe to report through; it is
  interpreted on the four tables of 16-bit codepoints.
\<close>

section \<open>The remaining codepoints\<close>

definition HandshakeHelloRequest :: byte where "HandshakeHelloRequest = 0"
definition HandshakeEndOfEarlyData :: byte where "HandshakeEndOfEarlyData = 5"
definition HandshakeServerKeyExchange :: byte where "HandshakeServerKeyExchange = 12"
definition HandshakeCertificateVerify :: byte where "HandshakeCertificateVerify = 15"
definition HandshakeClientKeyExchange :: byte where "HandshakeClientKeyExchange = 16"
definition HandshakeFinished :: byte where "HandshakeFinished = 20"
definition HandshakeMessageHash :: byte where "HandshakeMessageHash = 254"

definition ExtStatusRequest :: u16 where "ExtStatusRequest = 5"
definition ExtRecordSizeLimit :: u16 where "ExtRecordSizeLimit = 28"
definition ExtPreSharedKey :: u16 where "ExtPreSharedKey = 41"
definition ExtCookie :: u16 where "ExtCookie = 44"

definition SCSVEmptyRenegotiationInfo :: u16 where "SCSVEmptyRenegotiationInfo = 0x00FF"
definition SCSVFallback :: u16 where "SCSVFallback = 0x5600"

definition IsSCSV :: "u16 \<Rightarrow> bool" where
  "IsSCSV v \<longleftrightarrow> v = SCSVEmptyRenegotiationInfo \<or> v = SCSVFallback"

definition VersionTLS10 :: u16 where "VersionTLS10 = 0x0301"
definition VersionTLS11 :: u16 where "VersionTLS11 = 0x0302"
definition VersionTLS12 :: u16 where "VersionTLS12 = 0x0303"
definition VersionTLS13 :: u16 where "VersionTLS13 = 0x0304"

section \<open>The tables\<close>

definition handshakeTypeNames :: "(byte \<times> string) list" where
  "handshakeTypeNames =
    [(HandshakeHelloRequest, ''hello_request''), (HandshakeClientHello, ''client_hello''),
     (HandshakeServerHello, ''server_hello''), (HandshakeNewSessionTicket, ''new_session_ticket''),
     (HandshakeEndOfEarlyData, ''end_of_early_data''), (HandshakeEncryptedExtensions, ''encrypted_extensions''),
     (HandshakeCertificate, ''certificate''), (HandshakeServerKeyExchange, ''server_key_exchange''),
     (HandshakeCertificateRequest, ''certificate_request''), (HandshakeServerHelloDone, ''server_hello_done''),
     (HandshakeCertificateVerify, ''certificate_verify''), (HandshakeClientKeyExchange, ''client_key_exchange''),
     (HandshakeFinished, ''finished''), (HandshakeKeyUpdate, ''key_update''),
     (HandshakeMessageHash, ''message_hash'')]"

definition extensionNames :: "(u16 \<times> string) list" where
  "extensionNames =
    [(0, ''server_name''), (1, ''max_fragment_length''), (2, ''client_certificate_url''), (3, ''trusted_ca_keys''),
     (4, ''truncated_hmac''), (5, ''status_request''), (6, ''user_mapping''), (7, ''client_authz''),
     (8, ''server_authz''), (9, ''cert_type''), (10, ''supported_groups''), (11, ''ec_point_formats''),
     (12, ''srp''), (13, ''signature_algorithms''), (14, ''use_srtp''), (15, ''heartbeat''),
     (16, ''application_layer_protocol_negotiation''), (17, ''status_request_v2''),
     (18, ''signed_certificate_timestamp''), (19, ''client_certificate_type''), (20, ''server_certificate_type''),
     (21, ''padding''), (22, ''encrypt_then_mac''), (23, ''extended_master_secret''), (24, ''token_binding''),
     (25, ''cached_info''), (27, ''compress_certificate''), (28, ''record_size_limit''), (35, ''session_ticket''),
     (41, ''pre_shared_key''), (42, ''early_data''), (43, ''supported_versions''), (44, ''cookie''),
     (45, ''psk_key_exchange_modes''), (47, ''certificate_authorities''), (48, ''oid_filters''),
     (49, ''post_handshake_auth''), (50, ''signature_algorithms_cert''), (51, ''key_share''),
     (17513, ''application_settings''), (65037, ''encrypted_client_hello''), (65281, ''renegotiation_info'')]"

definition alertDescriptions :: "(byte \<times> string) list" where
  "alertDescriptions =
    [(0, ''close_notify''), (10, ''unexpected_message''), (20, ''bad_record_mac''),
     (21, ''decryption_failed_RESERVED''), (22, ''record_overflow''), (30, ''decompression_failure_RESERVED''),
     (40, ''handshake_failure''), (41, ''no_certificate_RESERVED''), (42, ''bad_certificate''),
     (43, ''unsupported_certificate''), (44, ''certificate_revoked''), (45, ''certificate_expired''),
     (46, ''certificate_unknown''), (47, ''illegal_parameter''), (48, ''unknown_ca''), (49, ''access_denied''),
     (50, ''decode_error''), (51, ''decrypt_error''), (60, ''export_restriction_RESERVED''),
     (70, ''protocol_version''), (71, ''insufficient_security''), (80, ''internal_error''),
     (86, ''inappropriate_fallback''), (90, ''user_canceled''), (100, ''no_renegotiation_RESERVED''),
     (109, ''missing_extension''), (110, ''unsupported_extension''), (111, ''certificate_unobtainable_RESERVED''),
     (112, ''unrecognized_name''), (113, ''bad_certificate_status_response''),
     (114, ''bad_certificate_hash_value_RESERVED''), (115, ''unknown_psk_identity''),
     (116, ''certificate_required''), (120, ''no_application_protocol'')]"

definition namedGroups :: "(u16 \<times> string) list" where
  "namedGroups =
    [(1, ''sect163k1''), (2, ''sect163r1''), (3, ''sect163r2''), (4, ''sect193r1''), (5, ''sect193r2''),
     (6, ''sect233k1''), (7, ''sect233r1''), (8, ''sect239k1''), (9, ''sect283k1''), (10, ''sect283r1''),
     (11, ''sect409k1''), (12, ''sect409r1''), (13, ''sect571k1''), (14, ''sect571r1''), (15, ''secp160k1''),
     (16, ''secp160r1''), (17, ''secp160r2''), (18, ''secp192k1''), (19, ''secp192r1''), (20, ''secp224k1''),
     (21, ''secp224r1''), (22, ''secp256k1''), (23, ''secp256r1''), (24, ''secp384r1''), (25, ''secp521r1''),
     (26, ''brainpoolP256r1''), (27, ''brainpoolP384r1''), (28, ''brainpoolP512r1''), (29, ''x25519''),
     (30, ''x448''), (31, ''brainpoolP256r1tls13''), (32, ''brainpoolP384r1tls13''), (33, ''brainpoolP512r1tls13''),
     (256, ''ffdhe2048''), (257, ''ffdhe3072''), (258, ''ffdhe4096''), (259, ''ffdhe6144''), (260, ''ffdhe8192''),
     (512, ''MLKEM512''), (513, ''MLKEM768''), (514, ''MLKEM1024''), (4587, ''SecP256r1MLKEM768''),
     (4588, ''X25519MLKEM768''), (4589, ''SecP384r1MLKEM1024''), (25497, ''X25519Kyber768Draft00'')]"

definition signatureSchemes :: "(u16 \<times> string) list" where
  "signatureSchemes =
    [(0x0201, ''rsa_pkcs1_sha1''), (0x0202, ''dsa_sha1''), (0x0203, ''ecdsa_sha1''), (0x0301, ''rsa_pkcs1_sha224''),
     (0x0303, ''ecdsa_sha224''), (0x0401, ''rsa_pkcs1_sha256''), (0x0402, ''dsa_sha256''),
     (0x0403, ''ecdsa_secp256r1_sha256''), (0x0420, ''rsa_pkcs1_sha256_legacy''), (0x0501, ''rsa_pkcs1_sha384''),
     (0x0502, ''dsa_sha384''), (0x0503, ''ecdsa_secp384r1_sha384''), (0x0520, ''rsa_pkcs1_sha384_legacy''),
     (0x0601, ''rsa_pkcs1_sha512''), (0x0602, ''dsa_sha512''), (0x0603, ''ecdsa_secp521r1_sha512''),
     (0x0620, ''rsa_pkcs1_sha512_legacy''), (0x0708, ''sm2sig_sm3''), (0x0804, ''rsa_pss_rsae_sha256''),
     (0x0805, ''rsa_pss_rsae_sha384''), (0x0806, ''rsa_pss_rsae_sha512''), (0x0807, ''ed25519''),
     (0x0808, ''ed448''), (0x0809, ''rsa_pss_pss_sha256''), (0x080A, ''rsa_pss_pss_sha384''),
     (0x080B, ''rsa_pss_pss_sha512'')]"

definition cipherSuites :: "(u16 \<times> string) list" where
  "cipherSuites =
    [(0x0000, ''TLS_NULL_WITH_NULL_NULL''), (0x0001, ''TLS_RSA_WITH_NULL_MD5''), (0x0002, ''TLS_RSA_WITH_NULL_SHA''),
     (0x0003, ''TLS_RSA_EXPORT_WITH_RC4_40_MD5''), (0x0004, ''TLS_RSA_WITH_RC4_128_MD5''),
     (0x0005, ''TLS_RSA_WITH_RC4_128_SHA''), (0x0006, ''TLS_RSA_EXPORT_WITH_RC2_CBC_40_MD5''),
     (0x0007, ''TLS_RSA_WITH_IDEA_CBC_SHA''), (0x0008, ''TLS_RSA_EXPORT_WITH_DES40_CBC_SHA''),
     (0x0009, ''TLS_RSA_WITH_DES_CBC_SHA''), (0x000A, ''TLS_RSA_WITH_3DES_EDE_CBC_SHA''),
     (0x000B, ''TLS_DH_DSS_EXPORT_WITH_DES40_CBC_SHA''), (0x000C, ''TLS_DH_DSS_WITH_DES_CBC_SHA''),
     (0x000D, ''TLS_DH_DSS_WITH_3DES_EDE_CBC_SHA''), (0x000E, ''TLS_DH_RSA_EXPORT_WITH_DES40_CBC_SHA''),
     (0x000F, ''TLS_DH_RSA_WITH_DES_CBC_SHA''), (0x0010, ''TLS_DH_RSA_WITH_3DES_EDE_CBC_SHA''),
     (0x0011, ''TLS_DHE_DSS_EXPORT_WITH_DES40_CBC_SHA''), (0x0012, ''TLS_DHE_DSS_WITH_DES_CBC_SHA''),
     (0x0013, ''TLS_DHE_DSS_WITH_3DES_EDE_CBC_SHA''), (0x0014, ''TLS_DHE_RSA_EXPORT_WITH_DES40_CBC_SHA''),
     (0x0015, ''TLS_DHE_RSA_WITH_DES_CBC_SHA''), (0x0016, ''TLS_DHE_RSA_WITH_3DES_EDE_CBC_SHA''),
     (0x0017, ''TLS_DH_anon_EXPORT_WITH_RC4_40_MD5''), (0x0018, ''TLS_DH_anon_WITH_RC4_128_MD5''),
     (0x0019, ''TLS_DH_anon_EXPORT_WITH_DES40_CBC_SHA''), (0x001A, ''TLS_DH_anon_WITH_DES_CBC_SHA''),
     (0x001B, ''TLS_DH_anon_WITH_3DES_EDE_CBC_SHA''), (0x002F, ''TLS_RSA_WITH_AES_128_CBC_SHA''),
     (0x0030, ''TLS_DH_DSS_WITH_AES_128_CBC_SHA''), (0x0031, ''TLS_DH_RSA_WITH_AES_128_CBC_SHA''),
     (0x0032, ''TLS_DHE_DSS_WITH_AES_128_CBC_SHA''), (0x0033, ''TLS_DHE_RSA_WITH_AES_128_CBC_SHA''),
     (0x0034, ''TLS_DH_anon_WITH_AES_128_CBC_SHA''), (0x0035, ''TLS_RSA_WITH_AES_256_CBC_SHA''),
     (0x0036, ''TLS_DH_DSS_WITH_AES_256_CBC_SHA''), (0x0037, ''TLS_DH_RSA_WITH_AES_256_CBC_SHA''),
     (0x0038, ''TLS_DHE_DSS_WITH_AES_256_CBC_SHA''), (0x0039, ''TLS_DHE_RSA_WITH_AES_256_CBC_SHA''),
     (0x003A, ''TLS_DH_anon_WITH_AES_256_CBC_SHA''), (0x003B, ''TLS_RSA_WITH_NULL_SHA256''),
     (0x003C, ''TLS_RSA_WITH_AES_128_CBC_SHA256''), (0x003D, ''TLS_RSA_WITH_AES_256_CBC_SHA256''),
     (0x003E, ''TLS_DH_DSS_WITH_AES_128_CBC_SHA256''), (0x003F, ''TLS_DH_RSA_WITH_AES_128_CBC_SHA256''),
     (0x0040, ''TLS_DHE_DSS_WITH_AES_128_CBC_SHA256''), (0x0067, ''TLS_DHE_RSA_WITH_AES_128_CBC_SHA256''),
     (0x0068, ''TLS_DH_DSS_WITH_AES_256_CBC_SHA256''), (0x0069, ''TLS_DH_RSA_WITH_AES_256_CBC_SHA256''),
     (0x006A, ''TLS_DHE_DSS_WITH_AES_256_CBC_SHA256''), (0x006B, ''TLS_DHE_RSA_WITH_AES_256_CBC_SHA256''),
     (0x006C, ''TLS_DH_anon_WITH_AES_128_CBC_SHA256''), (0x006D, ''TLS_DH_anon_WITH_AES_256_CBC_SHA256''),
     (0x009C, ''TLS_RSA_WITH_AES_128_GCM_SHA256''), (0x009D, ''TLS_RSA_WITH_AES_256_GCM_SHA384''),
     (0x009E, ''TLS_DHE_RSA_WITH_AES_128_GCM_SHA256''), (0x009F, ''TLS_DHE_RSA_WITH_AES_256_GCM_SHA384''),
     (0x00A0, ''TLS_DH_RSA_WITH_AES_128_GCM_SHA256''), (0x00A1, ''TLS_DH_RSA_WITH_AES_256_GCM_SHA384''),
     (0x00A2, ''TLS_DHE_DSS_WITH_AES_128_GCM_SHA256''), (0x00A3, ''TLS_DHE_DSS_WITH_AES_256_GCM_SHA384''),
     (0x00A4, ''TLS_DH_DSS_WITH_AES_128_GCM_SHA256''), (0x00A5, ''TLS_DH_DSS_WITH_AES_256_GCM_SHA384''),
     (0x00A6, ''TLS_DH_anon_WITH_AES_128_GCM_SHA256''), (0x00A7, ''TLS_DH_anon_WITH_AES_256_GCM_SHA384''),
     (0x00A8, ''TLS_PSK_WITH_AES_128_GCM_SHA256''), (0x00A9, ''TLS_PSK_WITH_AES_256_GCM_SHA384''),
     (0x00AA, ''TLS_DHE_PSK_WITH_AES_128_GCM_SHA256''), (0x00AB, ''TLS_DHE_PSK_WITH_AES_256_GCM_SHA384''),
     (0x00AC, ''TLS_RSA_PSK_WITH_AES_128_GCM_SHA256''), (0x00AD, ''TLS_RSA_PSK_WITH_AES_256_GCM_SHA384''),
     (0x00AE, ''TLS_PSK_WITH_AES_128_CBC_SHA256''), (0x00AF, ''TLS_PSK_WITH_AES_256_CBC_SHA384''),
     (0x00B0, ''TLS_PSK_WITH_NULL_SHA256''), (0x00B1, ''TLS_PSK_WITH_NULL_SHA384''),
     (0x00B2, ''TLS_DHE_PSK_WITH_AES_128_CBC_SHA256''), (0x00B3, ''TLS_DHE_PSK_WITH_AES_256_CBC_SHA384''),
     (0x00B4, ''TLS_DHE_PSK_WITH_NULL_SHA256''), (0x00B5, ''TLS_DHE_PSK_WITH_NULL_SHA384''),
     (0x00B6, ''TLS_RSA_PSK_WITH_AES_128_CBC_SHA256''), (0x00B7, ''TLS_RSA_PSK_WITH_AES_256_CBC_SHA384''),
     (0x00B8, ''TLS_RSA_PSK_WITH_NULL_SHA256''), (0x00B9, ''TLS_RSA_PSK_WITH_NULL_SHA384''),
     (0x00FF, ''TLS_EMPTY_RENEGOTIATION_INFO_SCSV''), (0x1301, ''TLS_AES_128_GCM_SHA256''),
     (0x1302, ''TLS_AES_256_GCM_SHA384''), (0x1303, ''TLS_CHACHA20_POLY1305_SHA256''),
     (0x1304, ''TLS_AES_128_CCM_SHA256''), (0x1305, ''TLS_AES_128_CCM_8_SHA256''), (0x5600, ''TLS_FALLBACK_SCSV''),
     (0xC001, ''TLS_ECDH_ECDSA_WITH_NULL_SHA''), (0xC002, ''TLS_ECDH_ECDSA_WITH_RC4_128_SHA''),
     (0xC003, ''TLS_ECDH_ECDSA_WITH_3DES_EDE_CBC_SHA''), (0xC004, ''TLS_ECDH_ECDSA_WITH_AES_128_CBC_SHA''),
     (0xC005, ''TLS_ECDH_ECDSA_WITH_AES_256_CBC_SHA''), (0xC006, ''TLS_ECDHE_ECDSA_WITH_NULL_SHA''),
     (0xC007, ''TLS_ECDHE_ECDSA_WITH_RC4_128_SHA''), (0xC008, ''TLS_ECDHE_ECDSA_WITH_3DES_EDE_CBC_SHA''),
     (0xC009, ''TLS_ECDHE_ECDSA_WITH_AES_128_CBC_SHA''), (0xC00A, ''TLS_ECDHE_ECDSA_WITH_AES_256_CBC_SHA''),
     (0xC00B, ''TLS_ECDH_RSA_WITH_NULL_SHA''), (0xC00C, ''TLS_ECDH_RSA_WITH_RC4_128_SHA''),
     (0xC00D, ''TLS_ECDH_RSA_WITH_3DES_EDE_CBC_SHA''), (0xC00E, ''TLS_ECDH_RSA_WITH_AES_128_CBC_SHA''),
     (0xC00F, ''TLS_ECDH_RSA_WITH_AES_256_CBC_SHA''), (0xC010, ''TLS_ECDHE_RSA_WITH_NULL_SHA''),
     (0xC011, ''TLS_ECDHE_RSA_WITH_RC4_128_SHA''), (0xC012, ''TLS_ECDHE_RSA_WITH_3DES_EDE_CBC_SHA''),
     (0xC013, ''TLS_ECDHE_RSA_WITH_AES_128_CBC_SHA''), (0xC014, ''TLS_ECDHE_RSA_WITH_AES_256_CBC_SHA''),
     (0xC015, ''TLS_ECDH_anon_WITH_NULL_SHA''), (0xC016, ''TLS_ECDH_anon_WITH_RC4_128_SHA''),
     (0xC017, ''TLS_ECDH_anon_WITH_3DES_EDE_CBC_SHA''), (0xC018, ''TLS_ECDH_anon_WITH_AES_128_CBC_SHA''),
     (0xC019, ''TLS_ECDH_anon_WITH_AES_256_CBC_SHA''), (0xC023, ''TLS_ECDHE_ECDSA_WITH_AES_128_CBC_SHA256''),
     (0xC024, ''TLS_ECDHE_ECDSA_WITH_AES_256_CBC_SHA384''), (0xC025, ''TLS_ECDH_ECDSA_WITH_AES_128_CBC_SHA256''),
     (0xC026, ''TLS_ECDH_ECDSA_WITH_AES_256_CBC_SHA384''), (0xC027, ''TLS_ECDHE_RSA_WITH_AES_128_CBC_SHA256''),
     (0xC028, ''TLS_ECDHE_RSA_WITH_AES_256_CBC_SHA384''), (0xC029, ''TLS_ECDH_RSA_WITH_AES_128_CBC_SHA256''),
     (0xC02A, ''TLS_ECDH_RSA_WITH_AES_256_CBC_SHA384''), (0xC02B, ''TLS_ECDHE_ECDSA_WITH_AES_128_GCM_SHA256''),
     (0xC02C, ''TLS_ECDHE_ECDSA_WITH_AES_256_GCM_SHA384''), (0xC02D, ''TLS_ECDH_ECDSA_WITH_AES_128_GCM_SHA256''),
     (0xC02E, ''TLS_ECDH_ECDSA_WITH_AES_256_GCM_SHA384''), (0xC02F, ''TLS_ECDHE_RSA_WITH_AES_128_GCM_SHA256''),
     (0xC030, ''TLS_ECDHE_RSA_WITH_AES_256_GCM_SHA384''), (0xC031, ''TLS_ECDH_RSA_WITH_AES_128_GCM_SHA256''),
     (0xC032, ''TLS_ECDH_RSA_WITH_AES_256_GCM_SHA384''), (0xC033, ''TLS_ECDHE_PSK_WITH_RC4_128_SHA''),
     (0xC034, ''TLS_ECDHE_PSK_WITH_3DES_EDE_CBC_SHA''), (0xC035, ''TLS_ECDHE_PSK_WITH_AES_128_CBC_SHA''),
     (0xC036, ''TLS_ECDHE_PSK_WITH_AES_256_CBC_SHA''), (0xC037, ''TLS_ECDHE_PSK_WITH_AES_128_CBC_SHA256''),
     (0xC038, ''TLS_ECDHE_PSK_WITH_AES_256_CBC_SHA384''), (0xC039, ''TLS_ECDHE_PSK_WITH_NULL_SHA''),
     (0xC03A, ''TLS_ECDHE_PSK_WITH_NULL_SHA256''), (0xC03B, ''TLS_ECDHE_PSK_WITH_NULL_SHA384''),
     (0xC09C, ''TLS_RSA_WITH_AES_128_CCM''), (0xC09D, ''TLS_RSA_WITH_AES_256_CCM''),
     (0xC09E, ''TLS_DHE_RSA_WITH_AES_128_CCM''), (0xC09F, ''TLS_DHE_RSA_WITH_AES_256_CCM''),
     (0xC0A0, ''TLS_RSA_WITH_AES_128_CCM_8''), (0xC0A1, ''TLS_RSA_WITH_AES_256_CCM_8''),
     (0xC0A2, ''TLS_DHE_RSA_WITH_AES_128_CCM_8''), (0xC0A3, ''TLS_DHE_RSA_WITH_AES_256_CCM_8''),
     (0xC0A4, ''TLS_PSK_WITH_AES_128_CCM''), (0xC0A5, ''TLS_PSK_WITH_AES_256_CCM''),
     (0xC0A6, ''TLS_DHE_PSK_WITH_AES_128_CCM''), (0xC0A7, ''TLS_DHE_PSK_WITH_AES_256_CCM''),
     (0xC0A8, ''TLS_PSK_WITH_AES_128_CCM_8''), (0xC0A9, ''TLS_PSK_WITH_AES_256_CCM_8''),
     (0xC0AA, ''TLS_PSK_DHE_WITH_AES_128_CCM_8''), (0xC0AB, ''TLS_PSK_DHE_WITH_AES_256_CCM_8''),
     (0xC0AC, ''TLS_ECDHE_ECDSA_WITH_AES_128_CCM''), (0xC0AD, ''TLS_ECDHE_ECDSA_WITH_AES_256_CCM''),
     (0xC0AE, ''TLS_ECDHE_ECDSA_WITH_AES_128_CCM_8''), (0xC0AF, ''TLS_ECDHE_ECDSA_WITH_AES_256_CCM_8''),
     (0xCCA8, ''TLS_ECDHE_RSA_WITH_CHACHA20_POLY1305_SHA256''),
     (0xCCA9, ''TLS_ECDHE_ECDSA_WITH_CHACHA20_POLY1305_SHA256''),
     (0xCCAA, ''TLS_DHE_RSA_WITH_CHACHA20_POLY1305_SHA256''), (0xCCAB, ''TLS_PSK_WITH_CHACHA20_POLY1305_SHA256''),
     (0xCCAC, ''TLS_ECDHE_PSK_WITH_CHACHA20_POLY1305_SHA256''),
     (0xCCAD, ''TLS_DHE_PSK_WITH_CHACHA20_POLY1305_SHA256''),
     (0xCCAE, ''TLS_RSA_PSK_WITH_CHACHA20_POLY1305_SHA256''), (0xD001, ''TLS_ECDHE_PSK_WITH_AES_128_GCM_SHA256''),
     (0xD002, ''TLS_ECDHE_PSK_WITH_AES_256_GCM_SHA384''), (0xD003, ''TLS_ECDHE_PSK_WITH_AES_128_CCM_8_SHA256''),
     (0xD005, ''TLS_ECDHE_PSK_WITH_AES_128_CCM_SHA256'')]"

section \<open>Names\<close>

text \<open>\<^verbatim>\<open>%X\<close> of one nibble, \<^verbatim>\<open>%04X\<close> of a 16-bit word, \<^verbatim>\<open>%d\<close> of a byte.\<close>

definition hex_upper :: "nat \<Rightarrow> char" where
  "hex_upper n = char_of (if n < 10 then 48 + n else 55 + n)"

definition hex4 :: "u16 \<Rightarrow> string" where
  "hex4 v = map (\<lambda>k. hex_upper (unat v div 16 ^ k mod 16)) [3, 2, 1, 0]"

definition grease_name :: "u16 \<Rightarrow> string" where "grease_name v = ''GREASE(0x'' @ hex4 v @ '')''"
definition unknown_name :: "u16 \<Rightarrow> string" where "unknown_name v = ''UNKNOWN(0x'' @ hex4 v @ '')''"
definition unknown_byte :: "byte \<Rightarrow> string" where "unknown_byte b = ''UNKNOWN('' @ decimal (unat b) @ '')''"

text \<open>The lookup the four functions over 16-bit codepoints spell out: the table, then GREASE, then unknown.\<close>

definition codepoint_name :: "(u16 \<times> string) list \<Rightarrow> u16 \<Rightarrow> string" where
  "codepoint_name table v =
    (case map_of table v of Some n \<Rightarrow> n
     | None \<Rightarrow> if IsGREASE v then grease_name v else unknown_name v)"

definition CipherSuiteName :: "u16 \<Rightarrow> string" where "CipherSuiteName = codepoint_name cipherSuites"
definition NamedGroupName :: "u16 \<Rightarrow> string" where "NamedGroupName = codepoint_name namedGroups"
definition SignatureSchemeName :: "u16 \<Rightarrow> string" where "SignatureSchemeName = codepoint_name signatureSchemes"
definition ExtensionName :: "u16 \<Rightarrow> string" where "ExtensionName = codepoint_name extensionNames"

definition KnownCipherSuite :: "u16 \<Rightarrow> bool" where
  "KnownCipherSuite v \<longleftrightarrow> map_of cipherSuites v \<noteq> None"

definition CipherSuiteNames :: "u16 list \<Rightarrow> string list" where "CipherSuiteNames ids = map CipherSuiteName ids"

definition VersionName :: "u16 \<Rightarrow> string" where
  "VersionName v =
    (if v = 0x0300 then ''SSL 3.0'' else if v = 0x0301 then ''TLS 1.0'' else if v = 0x0302 then ''TLS 1.1''
     else if v = 0x0303 then ''TLS 1.2'' else if v = 0x0304 then ''TLS 1.3'' else if v = 0xFEFF then ''DTLS 1.0''
     else if v = 0xFEFD then ''DTLS 1.2'' else if v = 0xFEFC then ''DTLS 1.3''
     else if IsGREASE v then grease_name v else unknown_name v)"

definition AlertLevelName :: "byte \<Rightarrow> string" where
  "AlertLevelName l = (if l = 1 then ''warning'' else if l = 2 then ''fatal'' else unknown_byte l)"

definition AlertDescriptionName :: "byte \<Rightarrow> string" where
  "AlertDescriptionName d = (case map_of alertDescriptions d of Some n \<Rightarrow> n | None \<Rightarrow> unknown_byte d)"

definition HandshakeTypeName :: "byte \<Rightarrow> string" where
  "HandshakeTypeName t = (case map_of handshakeTypeNames t of Some n \<Rightarrow> n | None \<Rightarrow> unknown_byte t)"

definition ContentTypeName :: "byte \<Rightarrow> string" where
  "ContentTypeName t =
    (if t = ContentChangeCipherSpec then ''change_cipher_spec'' else if t = ContentAlert then ''alert''
     else if t = ContentHandshake then ''handshake'' else if t = ContentApplicationData then ''application_data''
     else if t = ContentHeartbeat then ''heartbeat'' else unknown_byte t)"

definition CompressionMethodName :: "byte \<Rightarrow> string" where
  "CompressionMethodName m =
    (if m = 0 then ''null'' else if m = 1 then ''DEFLATE'' else if m = 64 then ''LZS'' else unknown_byte m)"

definition ECPointFormatName :: "byte \<Rightarrow> string" where
  "ECPointFormatName f =
    (if f = 0 then ''uncompressed'' else if f = 1 then ''ansiX962_compressed_prime''
     else if f = 2 then ''ansiX962_compressed_char2'' else unknown_byte f)"

definition PSKKeyExchangeModeName :: "byte \<Rightarrow> string" where
  "PSKKeyExchangeModeName m = (if m = 0 then ''psk_ke'' else if m = 1 then ''psk_dhe_ke'' else unknown_byte m)"

definition MaxFragmentLengthBytes :: "byte \<Rightarrow> nat option" where
  "MaxFragmentLengthBytes c = (if 1 \<le> c \<and> c \<le> 4 then Some (2 ^ (8 + unat c)) else None)"

section \<open>Naming loses nothing\<close>

lemma hex_upper_inj: "m < 16 \<Longrightarrow> n < 16 \<Longrightarrow> hex_upper m = hex_upper n \<longleftrightarrow> m = n"
  by (auto simp: hex_upper_def char_of_eq_iff take_bit_nat_eq_self split: if_splits)

lemma nibble_step: "m div 16 = n div 16 \<Longrightarrow> m mod 16 = n mod 16 \<Longrightarrow> m = n" for m n :: nat
  by (metis div_mult_mod_eq)

lemma nibbles_inj:
  fixes m n :: nat
  assumes "m < 65536" "n < 65536" "m div 4096 mod 16 = n div 4096 mod 16" "m div 256 mod 16 = n div 256 mod 16"
    "m div 16 mod 16 = n div 16 mod 16" "m mod 16 = n mod 16"
  shows "m = n"
  using assms
  by (intro nibble_step [of m] nibble_step [of "m div 16"] nibble_step [of "m div 16 div 16"])
    (simp_all add: div_less_iff_less_mult flip: div_mult2_eq)

lemma hex4_inj: "hex4 v = hex4 w \<longleftrightarrow> v = w"
proof
  assume "hex4 v = hex4 w"
  then have "map hex_upper (map (\<lambda>k. unat v div 16 ^ k mod 16) [3, 2, 1, 0]) =
      map hex_upper (map (\<lambda>k. unat w div 16 ^ k mod 16) [3, 2, 1, 0])" by (simp only: hex4_def map_map comp_def)
  then have "map (\<lambda>k. unat v div 16 ^ k mod 16) [3, 2, 1, 0] = map (\<lambda>k. unat w div 16 ^ k mod 16) [3, 2, 1, 0]"
    by (rule map_inj_on) (auto simp: inj_on_def hex_upper_inj)
  then have "unat v = unat w" by - (rule nibbles_inj [OF unat_u16_less unat_u16_less], simp_all)
  then show "v = w" by (rule unsigned_word_eqI)
qed simp

lemma fallback_inj:
  "grease_name v = grease_name w \<longleftrightarrow> v = w" "unknown_name v = unknown_name w \<longleftrightarrow> v = w"
  "grease_name v \<noteq> unknown_name w" "unknown_name w \<noteq> grease_name v"
  by (simp_all add: grease_name_def unknown_name_def hex4_inj)

text \<open>A name the fallbacks could produce.\<close>

definition reserved_name :: "string \<Rightarrow> bool" where
  "reserved_name n \<longleftrightarrow> take 9 n = ''GREASE(0x'' \<or> take 10 n = ''UNKNOWN(0x''"

lemma reserved_fallback: "reserved_name (grease_name v)" "reserved_name (unknown_name v)"
  by (simp_all add: reserved_name_def grease_name_def unknown_name_def)

locale registry =
  fixes table :: "(u16 \<times> string) list"
  assumes distinct_names: "distinct (map snd table)"
    and plain_names: "list_all (\<lambda>n. \<not> reserved_name n) (map snd table)"
begin

lemma in_table: "map_of table v = Some n \<Longrightarrow> (v, n) \<in> set table \<and> \<not> reserved_name n"
  using plain_names by (force simp: list_all_iff dest: map_of_SomeD)

lemma reserved_iff: "reserved_name (codepoint_name table v) \<longleftrightarrow> map_of table v = None"
  using in_table [of v] reserved_fallback by (auto simp: codepoint_name_def split: option.splits)

lemma name_inj: "codepoint_name table v = codepoint_name table w \<longleftrightarrow> v = w"
proof
  assume eq: "codepoint_name table v = codepoint_name table w"
  then have same: "map_of table v = None \<longleftrightarrow> map_of table w = None" using reserved_iff by metis
  show "v = w"
  proof (cases "map_of table v")
    case None
    with same eq show ?thesis by (auto simp: codepoint_name_def fallback_inj split: if_splits)
  next
    case (Some n)
    with same eq have "(v, n) \<in> set table" "(w, n) \<in> set table"
      using in_table by (auto simp: codepoint_name_def split: option.splits)
    with distinct_names show ?thesis unfolding distinct_map inj_on_def by fastforce
  qed
qed simp

end

text \<open>The cipher suite table is too long to compare its names pairwise; they are told apart by a weighted sum of
  their characters.\<close>

fun name_sum :: "nat \<Rightarrow> string \<Rightarrow> nat" where
  "name_sum h [] = h"
| "name_sum h (c # s) = name_sum (h * 2 + of_char c) s"

lemma suite_chars:
  "of_char (CHR 0x30) = (48 :: nat)"
  "of_char (CHR 0x31) = (49 :: nat)"
  "of_char (CHR 0x32) = (50 :: nat)"
  "of_char (CHR 0x33) = (51 :: nat)"
  "of_char (CHR 0x34) = (52 :: nat)"
  "of_char (CHR 0x35) = (53 :: nat)"
  "of_char (CHR 0x36) = (54 :: nat)"
  "of_char (CHR 0x38) = (56 :: nat)"
  "of_char (CHR 0x41) = (65 :: nat)"
  "of_char (CHR 0x42) = (66 :: nat)"
  "of_char (CHR 0x43) = (67 :: nat)"
  "of_char (CHR 0x44) = (68 :: nat)"
  "of_char (CHR 0x45) = (69 :: nat)"
  "of_char (CHR 0x46) = (70 :: nat)"
  "of_char (CHR 0x47) = (71 :: nat)"
  "of_char (CHR 0x48) = (72 :: nat)"
  "of_char (CHR 0x49) = (73 :: nat)"
  "of_char (CHR 0x4B) = (75 :: nat)"
  "of_char (CHR 0x4C) = (76 :: nat)"
  "of_char (CHR 0x4D) = (77 :: nat)"
  "of_char (CHR 0x4E) = (78 :: nat)"
  "of_char (CHR 0x4F) = (79 :: nat)"
  "of_char (CHR 0x50) = (80 :: nat)"
  "of_char (CHR 0x52) = (82 :: nat)"
  "of_char (CHR 0x53) = (83 :: nat)"
  "of_char (CHR 0x54) = (84 :: nat)"
  "of_char (CHR 0x55) = (85 :: nat)"
  "of_char (CHR 0x56) = (86 :: nat)"
  "of_char (CHR 0x57) = (87 :: nat)"
  "of_char (CHR 0x58) = (88 :: nat)"
  "of_char (CHR 0x59) = (89 :: nat)"
  "of_char (CHR 0x5F) = (95 :: nat)"
  "of_char (CHR 0x61) = (97 :: nat)"
  "of_char (CHR 0x6E) = (110 :: nat)"
  "of_char (CHR 0x6F) = (111 :: nat)"
  by simp_all

lemma distinct_suites: "distinct (map snd cipherSuites)"
proof -
  have "distinct (map (name_sum 0) (map snd cipherSuites))" by (simp add: cipherSuites_def suite_chars)
  then show ?thesis unfolding distinct_map [of "name_sum 0"] by simp
qed

interpretation suites: registry cipherSuites
  by unfold_locales (rule distinct_suites, simp add: cipherSuites_def reserved_name_def)

interpretation groups: registry namedGroups
  by unfold_locales code_simp+

interpretation schemes: registry signatureSchemes
  by unfold_locales code_simp+

interpretation extension_types: registry extensionNames
  by unfold_locales code_simp+

text \<open>Reporting through the registry loses nothing: two lists of cipher suites have the same names only if
  they are the same codepoints in the same order, listed, GREASE or unknown; and a codepoint is in the registry
  exactly when its name is not one of the hexadecimal fallbacks.\<close>

lemma CipherSuiteNames_lossless:
  "(CipherSuiteNames ids = CipherSuiteNames ids' \<longleftrightarrow> ids = ids') \<and>
   (KnownCipherSuite v \<longleftrightarrow> \<not> reserved_name (CipherSuiteName v))"
proof -
  have "inj CipherSuiteName" by (rule injI) (simp add: CipherSuiteName_def suites.name_inj)
  then show ?thesis
    by (simp add: CipherSuiteNames_def inj_map_eq_map KnownCipherSuite_def CipherSuiteName_def suites.reserved_iff)
qed

end
