(* ===== verification/Aead.thy ===== *)
theory Aead
  imports Bytes_Prelude
begin

unbundle bit_operations_syntax

text \<open>
  \<^verbatim>\<open>internal/evidence/aead\<close>: the two authenticated ciphers the evidence engine implements itself,
  CCM over a 128-bit block cipher (\<^verbatim>\<open>ccm.go\<close>) and ChaCha20-Poly1305 (\<^verbatim>\<open>chacha20poly1305.go\<close>).  The
  interface \<^verbatim>\<open>cipher.AEAD\<close> is a locale, interpreted on both.  The block cipher is a parameter; its output
  goes into a 16-byte array as in the code.  A panic is \<^verbatim>\<open>None\<close>; \<^verbatim>\<open>math/big\<close> integers are naturals.
\<close>

section \<open>The contracts\<close>

datatype aead_error = BlockSizeError nat | NonceSizeError nat | TagSizeError nat | KeySizeError nat
  | NonceLengthError nat nat | ShortError nat nat | LongError | ErrOpen

text \<open>A keystream cipher: running it twice is the identity.\<close>

definition xor_bytes :: "bytes \<Rightarrow> bytes \<Rightarrow> bytes" where
  "xor_bytes as bs = map2 (XOR) as bs"

lemma length_xor_bytes [simp]: "length (xor_bytes as bs) = min (length as) (length bs)"
  by (simp add: xor_bytes_def)

lemma nth_xor_bytes [simp]: "i < length as \<Longrightarrow> i < length bs \<Longrightarrow> xor_bytes as bs ! i = as ! i XOR bs ! i"
  by (simp add: xor_bytes_def)

text \<open>The loop both counter modes run: one keystream block per \<open>w\<close> bytes of input.\<close>

function xor_loop :: "nat \<Rightarrow> (nat \<Rightarrow> bytes) \<Rightarrow> bytes \<Rightarrow> nat \<Rightarrow> bytes" where
  "xor_loop w ks src off =
    (if off < length src \<and> 0 < w then
       xor_bytes (subslice src off (off + w)) (ks (off div w)) @ xor_loop w ks src (off + w)
     else [])"
  by pat_completeness auto
termination by (relation "measure (\<lambda>(w, ks, src, off). length src - off)") auto

declare xor_loop.simps [simp del]

lemma length_xor_loop:
  "0 < w \<Longrightarrow> (\<And>i. length (ks i) = w) \<Longrightarrow> length (xor_loop w ks src off) = length src - off"
proof (induction w ks src off rule: xor_loop.induct)
  case (1 w ks src off)
  then show ?case by (subst xor_loop.simps) auto
qed

lemma nth_xor_loop:
  "0 < w \<Longrightarrow> (\<And>i. length (ks i) = w) \<Longrightarrow> off + i < length src \<Longrightarrow> w dvd off \<Longrightarrow>
   xor_loop w ks src off ! i = src ! (off + i) XOR ks ((off + i) div w) ! ((off + i) mod w)"
proof (induction w ks src off arbitrary: i rule: xor_loop.induct)
  case (1 w ks src off)
  let ?b = "xor_bytes (subslice src off (off + w)) (ks (off div w))"
  have off: "off < length src" using 1(4) by simp
  have step: "xor_loop w ks src off = ?b @ xor_loop w ks src (off + w)"
    using off 1(2) by (subst xor_loop.simps) simp
  have lb: "length ?b = min w (length src - off)" using 1(3) by simp
  show ?case
  proof (cases "i < w")
    case True
    moreover have "(off + i) div w = off div w" "(off + i) mod w = i"
      using 1(2,5) True by (auto simp: dvd_def)
    moreover have "i < length src - off" using 1(4) by simp
    ultimately show ?thesis using 1(2,3,4) by (simp add: step nth_append nth_subslice)
  next
    case False
    have eq: "off + w + (i - w) = off + i" using False by simp
    have "xor_loop w ks src (off + w) ! (i - w) =
        src ! (off + w + (i - w)) XOR ks ((off + w + (i - w)) div w) ! ((off + w + (i - w)) mod w)"
      using 1(2,4,5) off False by (intro 1(1)) (auto simp: 1(3))
    moreover have "length ?b = w" using 1(4) False lb by simp
    ultimately show ?thesis using False unfolding eq by (simp only: step nth_append) simp
  qed
qed

locale keystream =
  fixes run :: "'k \<Rightarrow> bytes \<Rightarrow> bytes" and stream :: "'k \<Rightarrow> nat \<Rightarrow> byte"
  assumes length_run: "length (run k src) = length src"
    and nth_run: "i < length src \<Longrightarrow> run k src ! i = src ! i XOR stream k i"
begin

lemma run_run: "run k (run k src) = src"
  by (rule nth_equalityI) (simp_all add: length_run nth_run xor.assoc)

lemma run_inj: "run k a = run k b \<Longrightarrow> a = b"
  using run_run by metis

end

text \<open>Authenticated encryption as its users see it: what \<^verbatim>\<open>Seal\<close> appends can be opened with the same nonce
  and additional data, and nothing else can be opened.\<close>

locale aead =
  fixes wf :: "'k \<Rightarrow> bool" and seal :: "'k \<Rightarrow> bytes \<Rightarrow> bytes \<Rightarrow> bytes \<Rightarrow> bytes \<Rightarrow> bytes option"
    and opn :: "'k \<Rightarrow> bytes \<Rightarrow> bytes \<Rightarrow> bytes \<Rightarrow> bytes \<Rightarrow> aead_error + bytes" and overhead :: "'k \<Rightarrow> nat"
  assumes seal_appends: "wf k \<Longrightarrow> seal k dst nonce p aad = Some out \<Longrightarrow>
      \<exists>c. out = dst @ c \<and> seal k [] nonce p aad = Some c \<and> length c = length p + overhead k"
    and opn_seal: "wf k \<Longrightarrow> seal k [] nonce p aad = Some c \<Longrightarrow> opn k dst nonce c aad = Inr (dst @ p)"
    and opn_only: "wf k \<Longrightarrow> opn k dst nonce c aad = Inr out \<Longrightarrow>
      \<exists>p. out = dst @ p \<and> seal k [] nonce p aad = Some c"
begin

lemma opens_iff: "wf k \<Longrightarrow> opn k [] nonce c aad = Inr p \<longleftrightarrow> seal k [] nonce p aad = Some c"
  using opn_seal [of k nonce p aad c "[]"] opn_only [of k "[]" nonce c aad p] by auto

lemma opn_iff:
  "wf k \<Longrightarrow> opn k dst nonce c aad = Inr out \<longleftrightarrow> (\<exists>p. out = dst @ p \<and> seal k [] nonce p aad = Some c)"
  using opn_seal opn_only by metis

lemma tampered: "wf k \<Longrightarrow> seal k [] nonce p aad = Some c \<Longrightarrow> c' \<noteq> c \<Longrightarrow> opn k [] nonce c' aad \<noteq> Inr p"
  by (simp add: opens_iff)

lemma seal_inj: "wf k \<Longrightarrow> seal k [] nonce p aad = Some c \<Longrightarrow> seal k [] nonce q aad = Some c \<Longrightarrow> p = q"
  using opens_iff by (metis sum.inject(2))

end

section \<open>CCM\<close>

definition array16 :: "bytes \<Rightarrow> bytes" where "array16 v = take 16 (v @ replicate 16 0)"

lemma length_array16 [simp]: "length (array16 v) = 16"
  by (simp add: array16_def)

record ccm =
  ccBlock :: "bytes \<Rightarrow> bytes"
  ccNonce :: nat
  ccTag :: nat

definition NewCCM :: "nat \<Rightarrow> (bytes \<Rightarrow> bytes) \<Rightarrow> nat \<Rightarrow> nat \<Rightarrow> aead_error + ccm" where
  "NewCCM blockSize block nonceSize tagSize =
    (if blockSize \<noteq> 16 then Inl (BlockSizeError (blockSize * 8))
     else if nonceSize < 7 \<or> nonceSize > 13 then Inl (NonceSizeError nonceSize)
     else if tagSize \<notin> {4, 6, 8, 10, 12, 14, 16} then Inl (TagSizeError tagSize)
     else Inr \<lparr>ccBlock = block, ccNonce = nonceSize, ccTag = tagSize\<rparr>)"

definition maxPlaintext :: "ccm \<Rightarrow> nat" where
  "maxPlaintext c = (let q = 15 - ccNonce c in if q \<ge> 8 then 2 ^ 64 - 1 else 2 ^ (8 * q) - 1)"

definition Encrypt :: "ccm \<Rightarrow> bytes \<Rightarrow> bytes" where "Encrypt c b = array16 (ccBlock c b)"

definition counterBlock :: "ccm \<Rightarrow> bytes \<Rightarrow> nat \<Rightarrow> bytes" where
  "counterBlock c nonce i =
    (let q = 15 - ccNonce c in [word_of_nat (q - 1)] @ nonce @ be_bytes q i)"

definition ctr :: "ccm \<Rightarrow> bytes \<Rightarrow> bytes \<Rightarrow> nat \<Rightarrow> bytes" where
  "ctr c src nonce start = xor_loop 16 (\<lambda>i. Encrypt c (counterBlock c nonce (start + i))) src 0"

text \<open>The running MAC state: the chaining value, the block being filled and how far it is filled.\<close>

fun feed :: "ccm \<Rightarrow> bytes \<Rightarrow> bytes \<times> bytes \<times> nat \<Rightarrow> bytes \<times> bytes \<times> nat" where
  "feed c [] st = st"
| "feed c (v # vs) (x, blk, filled) =
    (let blk' = blk[filled := v]
     in if filled + 1 = 16 then feed c vs (Encrypt c (xor_bytes x blk'), replicate 16 0, 0)
        else feed c vs (x, blk', filled + 1))"

definition macBlocks :: "ccm \<Rightarrow> bytes \<Rightarrow> bytes \<Rightarrow> bytes \<Rightarrow> bytes" where
  "macBlocks c x pre data =
    (case feed c data (feed c pre (x, replicate 16 0, 0)) of
       (x', blk, filled) \<Rightarrow>
         if filled > 0
         then Encrypt c (xor_bytes x' (map (\<lambda>i. if i < filled then blk ! i else 0) [0..<16]))
         else x')"

definition aad_header :: "nat \<Rightarrow> bytes" where
  "aad_header a =
    (if a < 2 ^ 16 - 2 ^ 8 then be_bytes 2 a
     else if a \<le> 2 ^ 32 - 1 then [0xFF, 0xFE] @ be_bytes 4 a
     else [0xFF, 0xFF] @ be_bytes 8 a)"

definition ccm_b0 :: "ccm \<Rightarrow> bytes \<Rightarrow> nat \<Rightarrow> nat \<Rightarrow> bytes" where
  "ccm_b0 c nonce n alen =
    (let q = 15 - ccNonce c; adata = (if alen > 0 then 1 else 0) :: byte
     in [push_bit 6 adata OR push_bit 3 (word_of_nat ((ccTag c - 2) div 2)) OR word_of_nat (q - 1)]
        @ nonce @ be_bytes q n)"

definition cbcMAC :: "ccm \<Rightarrow> bytes \<Rightarrow> bytes \<Rightarrow> bytes \<Rightarrow> bytes" where
  "cbcMAC c nonce p aad =
    (let x = Encrypt c (ccm_b0 c nonce (length p) (length aad));
         x' = (if length aad > 0 then macBlocks c x (aad_header (length aad)) aad else x)
     in macBlocks c x' [] p)"

definition ccm_Seal :: "ccm \<Rightarrow> bytes \<Rightarrow> bytes \<Rightarrow> bytes \<Rightarrow> bytes \<Rightarrow> bytes option" where
  "ccm_Seal c dst nonce p aad =
    (if length nonce \<noteq> ccNonce c then None
     else if length p > maxPlaintext c then None
     else let tag = cbcMAC c nonce p aad; s0 = Encrypt c (counterBlock c nonce 0)
          in Some (dst @ ctr c p nonce 1 @ take (ccTag c) (xor_bytes tag s0)))"

definition ccm_Open :: "ccm \<Rightarrow> bytes \<Rightarrow> bytes \<Rightarrow> bytes \<Rightarrow> bytes \<Rightarrow> aead_error + bytes" where
  "ccm_Open c dst nonce ct aad =
    (if length nonce \<noteq> ccNonce c then Inl (NonceLengthError (length nonce) (ccNonce c))
     else if length ct < ccTag c then Inl (ShortError (length ct) (ccTag c))
     else
       let body = take (length ct - ccTag c) ct; wantTag = drop (length ct - ccTag c) ct
       in if length body > maxPlaintext c then Inl LongError
          else
            let s0 = Encrypt c (counterBlock c nonce 0); p = ctr c body nonce 1;
                tag = xor_bytes (cbcMAC c nonce p aad) s0
            in if take (ccTag c) tag \<noteq> wantTag then Inl ErrOpen else Inr (dst @ p))"

section \<open>CCM facts\<close>

lemma length_Encrypt [simp]: "length (Encrypt c b) = 16"
  by (simp add: Encrypt_def)

interpretation ccm_stream: keystream
  "\<lambda>(c, nonce, start) src. ctr c src nonce start"
  "\<lambda>(c, nonce, start) i. Encrypt c (counterBlock c nonce (start + i div 16)) ! (i mod 16)"
  by unfold_locales (auto simp: ctr_def length_xor_loop nth_xor_loop)

lemma ctr_ctr [simp]: "ctr c (ctr c src nonce start) nonce start = src"
  using ccm_stream.run_run [of "(c, nonce, start)"] by simp

text \<open>The reference of the MAC: the message cut into 16-byte blocks, the last one padded with zeros.\<close>

fun padded16 :: "bytes \<Rightarrow> bytes list" where
  "padded16 [] = []"
| "padded16 (v # vs) = array16 (v # vs) # padded16 (drop 15 vs)"

definition mac_step :: "ccm \<Rightarrow> bytes \<Rightarrow> bytes \<Rightarrow> bytes" where
  "mac_step c blk x = Encrypt c (xor_bytes x blk)"

lemma padded16_append: "length b = 16 \<Longrightarrow> padded16 (b @ r) = b # padded16 r"
  by (cases b) (simp_all add: array16_def)

lemma feed_append: "feed c (as @ bs) st = feed c bs (feed c as st)"
  by (induction c as st rule: feed.induct) (simp_all add: Let_def)

lemma feed_padded16:
  "length p < 16 \<Longrightarrow>
   (case feed c bs (x, p @ replicate (16 - length p) 0, length p) of
      (x', blk, filled) \<Rightarrow>
        if filled > 0 then Encrypt c (xor_bytes x' (map (\<lambda>i. if i < filled then blk ! i else 0) [0..<16])) else x')
   = fold (mac_step c) (padded16 (p @ bs)) x"
proof (induction bs arbitrary: p x)
  case Nil
  have "map (\<lambda>i. if i < length p then (p @ replicate (16 - length p) 0) ! i else 0) [0..<16] = array16 p"
    using Nil by (intro nth_equalityI) (auto simp: array16_def nth_append)
  moreover have "drop 15 (tl p) = []" "padded16 p = (if p = [] then [] else array16 p # padded16 (drop 15 (tl p)))"
    using Nil by (simp, cases p) simp_all
  ultimately show ?case by (simp add: mac_step_def)
next
  case (Cons v vs)
  have upd: "(p @ replicate (16 - length p) 0)[length p := v] = (p @ [v]) @ replicate (16 - length (p @ [v])) 0"
    using Cons.prems by (cases "16 - length p") (auto simp: list_update_append)
  show ?case
  proof (cases "length p = 15")
    case True
    have "padded16 (p @ v # vs) = (p @ [v]) # padded16 vs"
      using padded16_append [of "p @ [v]" vs] True by simp
    moreover have "(p @ [0])[15 := v] = p @ [v]" using True by (simp add: list_update_append)
    ultimately show ?thesis using Cons.IH [of "[]"] True by (simp add: mac_step_def)
  next
    case False
    with Cons.IH [of "p @ [v]" x] Cons.prems show ?thesis by (simp add: upd)
  qed
qed

lemma macBlocks_padded16: "macBlocks c x pre data = fold (mac_step c) (padded16 (pre @ data)) x"
  using feed_padded16 [of "[]" c "pre @ data" x] by (simp add: macBlocks_def feed_append)

lemma length_fold_mac: "length x = 16 \<Longrightarrow> length (fold (mac_step c) bs x) = 16"
  by (induction bs arbitrary: x) (simp_all add: mac_step_def)

lemma length_macBlocks: "length x = 16 \<Longrightarrow> length (macBlocks c x pre data) = 16"
  by (simp add: macBlocks_padded16 length_fold_mac)

lemma length_ctr [simp]: "length (ctr c src nonce start) = length src"
  using ccm_stream.length_run [of "(c, nonce, start)"] by simp

definition ccm_wf :: "ccm \<Rightarrow> bool" where
  "ccm_wf c \<longleftrightarrow> 7 \<le> ccNonce c \<and> ccNonce c \<le> 13 \<and> ccTag c \<in> {4, 6, 8, 10, 12, 14, 16}"

lemma NewCCM_wf: "NewCCM bs block n t = Inr c \<Longrightarrow> ccm_wf c"
  by (auto simp: NewCCM_def ccm_wf_def split: if_splits)


lemma ccm_Seal_length: "ccm_wf c \<Longrightarrow> ccm_Seal c [] nonce p aad = Some ct \<Longrightarrow> length ct = length p + ccTag c"
  by (auto simp: ccm_Seal_def Let_def cbcMAC_def ccm_wf_def length_macBlocks split: if_splits)

lemma ccm_Open_Seal:
  assumes "ccm_wf c" "ccm_Seal c [] nonce p aad = Some ct"
  shows "ccm_Open c dst nonce ct aad = Inr (dst @ p)"
proof -
  let ?t = "take (ccTag c) (xor_bytes (cbcMAC c nonce p aad) (Encrypt c (counterBlock c nonce 0)))"
  have ok: "length nonce = ccNonce c" "length p \<le> maxPlaintext c" "ct = ctr c p nonce 1 @ ?t"
    using assms(2) by (auto simp: ccm_Seal_def Let_def split: if_splits)
  moreover have "length ct = length p + ccTag c" by (rule ccm_Seal_length [OF assms])
  ultimately show ?thesis by (simp add: ccm_Open_def Let_def)
qed

lemma ccm_Open_only:
  assumes "ccm_wf c" "ccm_Open c dst nonce ct aad = Inr out"
  shows "\<exists>p. out = dst @ p \<and> ccm_Seal c [] nonce p aad = Some ct"
proof -
  let ?body = "take (length ct - ccTag c) ct" and ?want = "drop (length ct - ccTag c) ct"
  let ?p = "ctr c ?body nonce 1"
  have "length nonce = ccNonce c" "length ?body \<le> maxPlaintext c" "out = dst @ ?p"
    "take (ccTag c) (xor_bytes (cbcMAC c nonce ?p aad) (Encrypt c (counterBlock c nonce 0))) = ?want"
    using assms(2) by (auto simp: ccm_Open_def Let_def split: if_splits)
  then have "ccm_Seal c [] nonce ?p aad = Some ct" by (simp add: ccm_Seal_def Let_def)
  with \<open>out = dst @ ?p\<close> show ?thesis by blast
qed

lemma ccm_Seal_appends:
  "ccm_wf c \<Longrightarrow> ccm_Seal c dst nonce p aad = Some out \<Longrightarrow>
    \<exists>ct. out = dst @ ct \<and> ccm_Seal c [] nonce p aad = Some ct \<and> length ct = length p + ccTag c"
  by (auto simp: ccm_Seal_def Let_def cbcMAC_def ccm_wf_def length_macBlocks split: if_splits)

interpretation ccm: aead ccm_wf ccm_Seal ccm_Open ccTag
  by unfold_locales (blast intro: ccm_Seal_appends ccm_Open_Seal ccm_Open_only)+


section \<open>ChaCha20-Poly1305\<close>

definition NewChaCha20Poly1305 :: "bytes \<Rightarrow> aead_error + bytes" where
  "NewChaCha20Poly1305 key = (if length key \<noteq> 32 then Inl (KeySizeError (length key)) else Inr key)"

definition rotl32 :: "u32 \<Rightarrow> nat \<Rightarrow> u32" where
  "rotl32 v n = push_bit n v OR drop_bit (32 - n) v"

definition quarterRound :: "nat \<Rightarrow> nat \<Rightarrow> nat \<Rightarrow> nat \<Rightarrow> u32 list \<Rightarrow> u32 list" where
  "quarterRound a b c d x0 =
    (let x1 = x0[a := x0 ! a + x0 ! b];
         x2 = x1[d := rotl32 (x1 ! d XOR x1 ! a) 16];
         x3 = x2[c := x2 ! c + x2 ! d];
         x4 = x3[b := rotl32 (x3 ! b XOR x3 ! c) 12];
         x5 = x4[a := x4 ! a + x4 ! b];
         x6 = x5[d := rotl32 (x5 ! d XOR x5 ! a) 8];
         x7 = x6[c := x6 ! c + x6 ! d]
     in x7[b := rotl32 (x7 ! b XOR x7 ! c) 7])"

definition double_round :: "u32 list \<Rightarrow> u32 list" where
  "double_round x =
    quarterRound 3 4 9 14 (quarterRound 2 7 8 13 (quarterRound 1 6 11 12 (quarterRound 0 5 10 15
      (quarterRound 3 7 11 15 (quarterRound 2 6 10 14 (quarterRound 1 5 9 13 (quarterRound 0 4 8 12 x)))))))"

definition chacha20_state :: "bytes \<Rightarrow> bytes \<Rightarrow> u32 \<Rightarrow> u32 list" where
  "chacha20_state key nonce counter =
    [0x61707865, 0x3320646e, 0x79622d32, 0x6b206574]
    @ map (\<lambda>i. le_u32 (subslice key (i * 4) (i * 4 + 4))) [0..<8]
    @ [counter, le_u32 (subslice nonce 0 4), le_u32 (subslice nonce 4 8), le_u32 (subslice nonce 8 12)]"

definition chacha20Block :: "bytes \<Rightarrow> bytes \<Rightarrow> u32 \<Rightarrow> bytes" where
  "chacha20Block key nonce counter =
    (let s = chacha20_state key nonce counter; x = (double_round ^^ 10) s
     in concat (map (\<lambda>i. put_le32 (x ! i + s ! i)) [0..<16]))"

definition chacha20XOR :: "bytes \<Rightarrow> bytes \<Rightarrow> bytes \<Rightarrow> u32 \<Rightarrow> bytes" where
  "chacha20XOR src key nonce counter =
    xor_loop 64 (\<lambda>i. chacha20Block key nonce (counter + word_of_nat i)) src 0"

definition oneTimeKey :: "bytes \<Rightarrow> bytes \<Rightarrow> bytes" where
  "oneTimeKey key nonce = take 32 (chacha20Block key nonce 0)"

definition pad16 :: "nat \<Rightarrow> nat" where
  "pad16 n = (if n mod 16 = 0 then 0 else 16 - n mod 16)"

definition polyP :: nat where "polyP = 2 ^ 130 - 5"

definition poly1305Clamp :: bytes where
  "poly1305Clamp = [0xFF, 0xFF, 0xFF, 0x0F, 0xFC, 0xFF, 0xFF, 0x0F,
                    0xFC, 0xFF, 0xFF, 0x0F, 0xFC, 0xFF, 0xFF, 0x0F]"

function poly_loop :: "nat \<Rightarrow> bytes \<Rightarrow> nat \<Rightarrow> nat \<Rightarrow> nat" where
  "poly_loop r msg acc off =
    (if off < length msg then
       let stop = (if off + 16 > length msg then length msg else off + 16);
           block = le_val (subslice msg off stop @ [1])
       in poly_loop r msg (((acc + block) * r) mod polyP) (off + 16)
     else acc)"
  by pat_completeness auto
termination by (relation "measure (\<lambda>(r, msg, acc, off). length msg - off)") auto

declare poly_loop.simps [simp del]

definition poly_r :: "bytes \<Rightarrow> nat" where
  "poly_r key = le_val (map2 (AND) (take 16 key) poly1305Clamp)"

definition poly1305 :: "bytes \<Rightarrow> bytes \<Rightarrow> bytes" where
  "poly1305 key msg =
    (let s = le_val (subslice key 16 32); acc = poly_loop (poly_r key) msg 0 0
     in le_bytes 16 (acc + s))"

definition poly1305Tag :: "bytes \<Rightarrow> bytes \<Rightarrow> bytes \<Rightarrow> bytes" where
  "poly1305Tag key aad ct =
    poly1305 key (aad @ replicate (pad16 (length aad)) 0 @ ct @ replicate (pad16 (length ct)) 0
      @ le_bytes 8 (length aad) @ le_bytes 8 (length ct))"

definition chacha_Seal :: "bytes \<Rightarrow> bytes \<Rightarrow> bytes \<Rightarrow> bytes \<Rightarrow> bytes \<Rightarrow> bytes option" where
  "chacha_Seal key dst nonce p aad =
    (if length nonce \<noteq> 12 then None
     else let out = chacha20XOR p key nonce 1
          in Some (dst @ out @ poly1305Tag (oneTimeKey key nonce) aad out))"

definition chacha_Open :: "bytes \<Rightarrow> bytes \<Rightarrow> bytes \<Rightarrow> bytes \<Rightarrow> bytes \<Rightarrow> aead_error + bytes" where
  "chacha_Open key dst nonce ct aad =
    (if length nonce \<noteq> 12 then Inl (NonceLengthError (length nonce) 12)
     else if length ct < 16 then Inl (ShortError (length ct) 16)
     else
       let body = take (length ct - 16) ct; wantTag = drop (length ct - 16) ct
       in if poly1305Tag (oneTimeKey key nonce) aad body \<noteq> wantTag then Inl ErrOpen
          else Inr (dst @ chacha20XOR body key nonce 1))"

section \<open>ChaCha20-Poly1305 facts\<close>

text \<open>The quarter round on the test vector of RFC 8439, section 2.1.1.\<close>

lemma quarterRound_vector:
  "quarterRound 0 1 2 3 [0x11111111, 0x01020304, 0x9b8d6f43, 0x01234567] =
     [0xea2a92f4, 0xcb1cf8ce, 0x4581472e, 0x5881c4bb]"
  by code_simp

lemma length_chacha20Block [simp]: "length (chacha20Block key nonce n) = 64"
  by (simp add: chacha20Block_def Let_def length_concat comp_def put_le32_def sum_list_triv)

interpretation chacha_stream: keystream
  "\<lambda>(key, nonce, counter) src. chacha20XOR src key nonce counter"
  "\<lambda>(key, nonce, counter) i. chacha20Block key nonce (counter + word_of_nat (i div 64)) ! (i mod 64)"
  by unfold_locales (auto simp: chacha20XOR_def length_xor_loop nth_xor_loop)

lemma chacha20XOR_twice [simp]: "chacha20XOR (chacha20XOR src key nonce n) key nonce n = src"
  using chacha_stream.run_run [of "(key, nonce, n)"] by simp

lemma length_chacha20XOR [simp]: "length (chacha20XOR src key nonce n) = length src"
  using chacha_stream.length_run [of "(key, nonce, n)"] by simp

lemma length_poly1305Tag [simp]: "length (poly1305Tag key aad ct) = 16"
  by (simp add: poly1305Tag_def poly1305_def Let_def)

interpretation chacha: aead "\<lambda>_. True" chacha_Seal chacha_Open "\<lambda>_. 16"
proof unfold_locales
  fix k dst nonce p aad out
  assume "chacha_Seal k dst nonce p aad = Some out"
  then show "\<exists>c. out = dst @ c \<and> chacha_Seal k [] nonce p aad = Some c \<and> length c = length p + 16"
    by (auto simp: chacha_Seal_def Let_def split: if_splits)
next
  fix k dst nonce p aad c
  assume "chacha_Seal k [] nonce p aad = Some c"
  then show "chacha_Open k dst nonce c aad = Inr (dst @ p)"
    by (auto simp: chacha_Seal_def chacha_Open_def Let_def split: if_splits)
next
  fix k dst nonce c aad out
  assume "chacha_Open k dst nonce c aad = Inr out"
  then show "\<exists>p. out = dst @ p \<and> chacha_Seal k [] nonce p aad = Some c"
    by (auto simp: chacha_Seal_def chacha_Open_def Let_def split: if_splits)
qed

text \<open>Poly1305 as the RFC writes it: the message is a polynomial over its 16-byte blocks, each with a one
  byte on top, evaluated at the clamped key modulo \<open>2 ^ 130 - 5\<close>.\<close>

definition poly_coeff :: "bytes \<Rightarrow> nat \<Rightarrow> nat" where
  "poly_coeff msg i = le_val (subslice msg (16 * i) (16 * i + 16) @ [1])"

definition poly_eval :: "nat \<Rightarrow> bytes \<Rightarrow> nat" where
  "poly_eval r msg =
    (let n = (length msg + 15) div 16 in (\<Sum>i<n. poly_coeff msg i * r ^ (n - i)) mod polyP)"

lemma polyP_pos: "0 < polyP"
  by (simp add: polyP_def)

lemma poly_loop_step:
  "16 * j < length msg \<Longrightarrow>
   poly_loop r msg acc (16 * j) = poly_loop r msg (((acc + poly_coeff msg j) * r) mod polyP) (16 * Suc j)"
  by (subst poly_loop.simps) (simp add: poly_coeff_def subslice_def Let_def add.commute)

lemma poly_loop_sum:
  assumes "n = (length msg + 15) div 16" "j \<le> n" "acc < polyP"
  shows "poly_loop r msg acc (16 * j) = (acc * r ^ (n - j) + (\<Sum>i = j..<n. poly_coeff msg i * r ^ (n - i))) mod polyP"
  using assms(2,3)
proof (induction "n - j" arbitrary: j acc)
  case 0
  then have "j = n" by simp
  moreover have "length msg \<le> 16 * n" using assms(1) by simp
  ultimately show ?case using 0 by (subst poly_loop.simps) simp
next
  case (Suc k)
  let ?S = "\<Sum>i = Suc j..<n. poly_coeff msg i * r ^ (n - i)" and ?a = "(acc + poly_coeff msg j) * r"
  have lt: "j < n" using Suc.hyps(2) by simp
  then have "16 * j < length msg" using assms(1) by linarith
  then have "poly_loop r msg acc (16 * j) = poly_loop r msg (?a mod polyP) (16 * Suc j)"
    by (rule poly_loop_step)
  also have "\<dots> = (?a mod polyP * r ^ (n - Suc j) + ?S) mod polyP"
    using Suc.hyps(2) lt by (intro Suc.hyps(1)) (arith, arith, rule mod_less_divisor [OF polyP_pos])
  also have "\<dots> = (?a * r ^ (n - Suc j) + ?S) mod polyP" by (intro mod_add_cong refl) (rule mod_mult_left_eq)
  also have "?a * r ^ (n - Suc j) = (acc + poly_coeff msg j) * r ^ (n - j)"
    using lt by (simp add: Suc_diff_Suc flip: power_Suc)
  also have "(acc + poly_coeff msg j) * r ^ (n - j) + ?S =
      acc * r ^ (n - j) + (\<Sum>i = j..<n. poly_coeff msg i * r ^ (n - i))"
    using lt by (simp add: sum.atLeast_Suc_lessThan distrib_right)
  finally show ?case .
qed

lemma poly_loop_eval: "poly_loop r msg 0 0 = poly_eval r msg"
  using poly_loop_sum [OF refl, of 0 msg 0 r] by (simp add: poly_eval_def Let_def atLeast0LessThan polyP_def)

section \<open>The properties\<close>

lemma length_ccm_b0: "ccNonce c \<le> 15 \<Longrightarrow> length nonce = ccNonce c \<Longrightarrow> length (ccm_b0 c nonce n a) = 16"
  by (simp add: ccm_b0_def Let_def)

lemma xor_zero_block: "length b = 16 \<Longrightarrow> xor_bytes (replicate 16 0) b = b"
  by (rule nth_equalityI) simp_all

definition sample_key :: ccm where
  "sample_key = \<lparr>ccBlock = rev, ccNonce = 12, ccTag = 8\<rparr>"

lemma NewCCM_sample: "NewCCM 16 rev 12 8 = Inr sample_key"
  by (simp add: NewCCM_def sample_key_def)

text \<open>C29: a CCM record opens exactly when its bytes are what Seal produces, under the same nonce and additional
  data, for the plaintext returned; Seal panics exactly on a nonce of the wrong length or a message the length
  field cannot express, and adds the tag length to the message.\<close>

theorem ccm_contract:
  assumes "NewCCM bs block n t = Inr c"
  shows "(ccm_Open c dst nonce ct aad = Inr out \<longleftrightarrow> (\<exists>p. out = dst @ p \<and> ccm_Seal c [] nonce p aad = Some ct)) \<and>
    (ccm_Seal c dst nonce p aad = None \<longleftrightarrow> length nonce \<noteq> n \<or> maxPlaintext c < length p) \<and>
    (ccm_Seal c dst nonce p aad = Some ct' \<longrightarrow> length ct' = length dst + length p + t)"
proof -
  have wf: "ccm_wf c" and n: "ccNonce c = n" "ccTag c = t"
    using assms by (auto simp: NewCCM_def ccm_wf_def split: if_splits)
  have "ccm_Seal c dst nonce p aad = None \<longleftrightarrow> length nonce \<noteq> n \<or> maxPlaintext c < length p"
    by (auto simp: ccm_Seal_def Let_def n)
  moreover have "ccm_Seal c dst nonce p aad = Some ct' \<longrightarrow> length ct' = length dst + length p + t"
    using ccm.seal_appends [OF wf] n(2) by fastforce
  ultimately show ?thesis using ccm.opn_iff [OF wf] by blast
qed

theorem ccm_contract_witness:
  "ccm_Open sample_key [7] (replicate 12 1) (the (ccm_Seal sample_key [] (replicate 12 1) [1, 2, 3] [9])) [9] =
     Inr [7, 1, 2, 3]"
proof -
  have "\<exists>ct. ccm_Seal sample_key [] (replicate 12 1) [1, 2, 3] [9] = Some ct"
    by (simp add: ccm_Seal_def Let_def sample_key_def maxPlaintext_def)
  then obtain ct where "ccm_Seal sample_key [] (replicate 12 1) [1, 2, 3] [9] = Some ct" by blast
  then show ?thesis
    using ccm_contract [OF NewCCM_sample, of "[7]" "replicate 12 1" ct "[9]" "[7, 1, 2, 3]"] by simp
qed

text \<open>The CBC-MAC computed byte by byte is the MAC of the standard: the block cipher chained from zero over
  the flags block, the length-prefixed additional data and the message, the last two zero-padded separately.\<close>

lemma cbcMAC_chained:
  assumes "NewCCM bs block n t = Inr c" "length nonce = n"
  shows "cbcMAC c nonce p aad =
    fold (mac_step c)
      (ccm_b0 c nonce (length p) (length aad) #
       padded16 (if aad = [] then [] else aad_header (length aad) @ aad) @ padded16 p) (replicate 16 0)"
proof -
  have n: "ccNonce c \<le> 15" "length nonce = ccNonce c"
    using assms by (auto simp: NewCCM_def split: if_splits)
  show ?thesis
    by (simp add: cbcMAC_def Let_def macBlocks_padded16 mac_step_def xor_zero_block length_ccm_b0 [OF n])
qed

text \<open>C30: a ChaCha20-Poly1305 record opens exactly when its bytes are what Seal produces, under the same key,
  nonce and additional data, for the plaintext returned; Seal panics exactly on a nonce that is not 12 bytes.\<close>

theorem chacha_contract:
  assumes "NewChaCha20Poly1305 key = Inr k"
  shows "(chacha_Open k dst nonce ct aad = Inr out \<longleftrightarrow>
      (\<exists>p. out = dst @ p \<and> chacha_Seal k [] nonce p aad = Some ct)) \<and>
    (chacha_Seal k dst nonce p aad = None \<longleftrightarrow> length nonce \<noteq> 12) \<and> length k = 32"
proof -
  have "length k = 32" using assms by (simp add: NewChaCha20Poly1305_def split: if_splits)
  then show ?thesis using chacha.opn_iff by (simp add: chacha_Seal_def Let_def)
qed

theorem chacha_contract_witness:
  "(\<exists>ct. chacha_Seal (replicate 32 0) [] (replicate 12 0) [1, 2] [3] = Some ct \<and>
      chacha_Open (replicate 32 0) [9] (replicate 12 0) ct [3] = Inr [9, 1, 2]) \<and>
   chacha_Seal (replicate 32 0) [] [1] [] [] = None"
proof -
  let ?k = "replicate 32 (0 :: byte)" and ?n = "replicate 12 (0 :: byte)"
  have key: "NewChaCha20Poly1305 ?k = Inr ?k" by (simp add: NewChaCha20Poly1305_def)
  have "chacha_Seal ?k [] ?n [1, 2] [3] \<noteq> None"
    using chacha_contract [OF key, of "[]" ?n "[]" "[3]" "[]" "[1, 2]"] length_replicate [of 12 "0 :: byte"] by blast
  then obtain ct where ct: "chacha_Seal ?k [] ?n [1, 2] [3] = Some ct" by blast
  then have "chacha_Open ?k [9] ?n ct [3] = Inr ([9] @ [1, 2])"
    using chacha_contract [OF key, of "[9]" ?n ct "[3]" "[9] @ [1, 2]"] by blast
  moreover have "chacha_Seal ?k [] [1] [] [] = None"
    using chacha_contract [OF key, of "[]" "[1]" "[]" "[]" "[]" "[]"] by simp
  ultimately show ?thesis using ct by auto
qed

text \<open>C31: the authenticator is the one of the standard: the message's blocks as the coefficients of a polynomial
  evaluated at the clamped key modulo \<open>2 ^ 130 - 5\<close>, plus the second half of the key, the low 128 bits.\<close>

theorem poly1305_polynomial:
  "poly1305 key msg = le_bytes 16 ((poly_eval (poly_r key) msg + le_val (subslice key 16 32)) mod 2 ^ 128)"
proof -
  have "le_bytes 16 (x mod 256 ^ 16) = le_bytes 16 x" for x by (simp only: le_bytes_def be_bytes_mod)
  then show ?thesis by (simp add: poly1305_def poly_loop_eval)
qed

end
