(* ===== verification/Tls_Keys.thy ===== *)
theory Tls_Keys
  imports Tls_Names Aead "HOL-Library.Sublist"
begin

unbundle bit_operations_syntax

text \<open>
  \<^verbatim>\<open>internal/evidence/tlsdecrypt/suite.go\<close> and \<^verbatim>\<open>schedule.go\<close>: what a cipher suite needs of the record layer,
  and the key derivations of TLS 1.2 and 1.3.  AES and the two hash functions are parameters, a \<open>library\<close>;
  everything built on them is defined here: GCM, HMAC and HKDF of the standard library, the PRF and the labels
  of the code.  A constructor \<^verbatim>\<open>func(key) (cipher.AEAD, error)\<close> is a value of \<open>aead_kind\<close>.
\<close>

section \<open>The library\<close>

datatype hash_id = SHA256 | SHA384

text \<open>AES takes a key to a function on blocks; the hashes take a message to a digest.  Blocks and digests are
  arrays in Go, so results are cut or padded to their size.\<close>

record library =
  lbAES :: "bytes \<Rightarrow> bytes \<Rightarrow> bytes"
  lbSum :: "hash_id \<Rightarrow> bytes \<Rightarrow> bytes"

fun hash_size :: "hash_id \<Rightarrow> nat" where
  "hash_size SHA256 = 32"
| "hash_size SHA384 = 48"

fun hash_block :: "hash_id \<Rightarrow> nat" where
  "hash_block SHA256 = 64"
| "hash_block SHA384 = 128"

definition array :: "nat \<Rightarrow> bytes \<Rightarrow> bytes" where "array n v = take n (v @ replicate n 0)"

lemma length_array [simp]: "length (array n v) = n"
  by (simp add: array_def)

definition hash_sum :: "library \<Rightarrow> hash_id \<Rightarrow> bytes \<Rightarrow> bytes" where
  "hash_sum lb h m = array (hash_size h) (lbSum lb h m)"

definition hmac :: "library \<Rightarrow> hash_id \<Rightarrow> bytes \<Rightarrow> bytes \<Rightarrow> bytes" where
  "hmac lb h key m =
    (let k = array (hash_block h) (if length key > hash_block h then hash_sum lb h key else key)
     in hash_sum lb h (map ((XOR) 0x5C) k @ hash_sum lb h (map ((XOR) 0x36) k @ m)))"

text \<open>\<^verbatim>\<open>hkdf.Expand\<close>: blocks \<open>T(i) = HMAC(prk, T(i-1) || info || i)\<close>, as many as needed.\<close>

fun hkdf_blocks :: "library \<Rightarrow> hash_id \<Rightarrow> bytes \<Rightarrow> bytes \<Rightarrow> nat \<Rightarrow> nat \<Rightarrow> bytes \<Rightarrow> bytes" where
  "hkdf_blocks lb h prk info 0 i t = []"
| "hkdf_blocks lb h prk info (Suc n) i t =
    (let t' = hmac lb h prk (t @ info @ [word_of_nat i])
     in t' @ hkdf_blocks lb h prk info n (i + 1) t')"

definition hkdf_expand :: "library \<Rightarrow> hash_id \<Rightarrow> bytes \<Rightarrow> bytes \<Rightarrow> nat \<Rightarrow> bytes option" where
  "hkdf_expand lb h prk info n =
    (if n > 255 * hash_size h then None
     else Some (take n (hkdf_blocks lb h prk info ((n + hash_size h - 1) div hash_size h) 1 [])))"

section \<open>Galois counter mode\<close>

text \<open>\<^verbatim>\<open>cipher.NewGCMWithTagSize\<close> over AES with 12-byte nonces.  \<^verbatim>\<open>Open\<close> panics on a nonce of another length;
  that panic is \<open>NonceLengthError\<close> here, and the session never causes it (\<open>session_nonce\<close>).\<close>

record gcm =
  gcBlock :: "bytes \<Rightarrow> bytes"
  gcTag :: nat

definition gcm_block :: "gcm \<Rightarrow> bytes \<Rightarrow> bytes" where "gcm_block g b = array16 (gcBlock g b)"

text \<open>Multiplication in the field of \<open>2 ^ 128\<close> elements, bit 0 being the most significant one.\<close>

fun gf_loop :: "nat \<Rightarrow> 128 word \<Rightarrow> 128 word \<Rightarrow> 128 word \<Rightarrow> 128 word" where
  "gf_loop 0 x v z = z"
| "gf_loop (Suc i) x v z =
    gf_loop i x (if bit v 0 then drop_bit 1 v XOR push_bit 120 0xE1 else drop_bit 1 v) (if bit x i then z XOR v else z)"

definition gf_mult :: "128 word \<Rightarrow> 128 word \<Rightarrow> 128 word" where "gf_mult x y = gf_loop 128 x y 0"

definition ghash :: "128 word \<Rightarrow> bytes list \<Rightarrow> 128 word" where
  "ghash h bs = foldl (\<lambda>y b. gf_mult (y XOR word_of_nat (be_val b)) h) 0 bs"

definition gcm_counter :: "bytes \<Rightarrow> nat \<Rightarrow> bytes" where "gcm_counter nonce i = nonce @ be_bytes 4 i"

definition gcm_ctr :: "gcm \<Rightarrow> bytes \<Rightarrow> bytes \<Rightarrow> bytes" where
  "gcm_ctr g src nonce = xor_loop 16 (\<lambda>i. gcm_block g (gcm_counter nonce (i + 2))) src 0"

definition gcm_tag :: "gcm \<Rightarrow> bytes \<Rightarrow> bytes \<Rightarrow> bytes \<Rightarrow> bytes" where
  "gcm_tag g nonce aad ct =
    (let h = word_of_nat (be_val (gcm_block g (replicate 16 0)));
         sizes = be_bytes 8 (8 * length aad) @ be_bytes 8 (8 * length ct);
         s = ghash h (padded16 aad @ padded16 ct @ [sizes])
     in take (gcTag g) (xor_bytes (be_bytes 16 (unat s)) (gcm_block g (gcm_counter nonce 1))))"

definition maxGCM :: nat where "maxGCM = (2 ^ 32 - 2) * 16"

definition gcm_Seal :: "gcm \<Rightarrow> bytes \<Rightarrow> bytes \<Rightarrow> bytes \<Rightarrow> bytes \<Rightarrow> bytes option" where
  "gcm_Seal g dst nonce p aad =
    (if length nonce \<noteq> 12 \<or> length p > maxGCM then None
     else let ct = gcm_ctr g p nonce in Some (dst @ ct @ gcm_tag g nonce aad ct))"

definition gcm_Open :: "gcm \<Rightarrow> bytes \<Rightarrow> bytes \<Rightarrow> bytes \<Rightarrow> bytes \<Rightarrow> aead_error + bytes" where
  "gcm_Open g dst nonce ct aad =
    (if length nonce \<noteq> 12 then Inl (NonceLengthError (length nonce) 12)
     else if length ct < gcTag g \<or> length ct > maxGCM + gcTag g then Inl ErrOpen
     else
       let body = take (length ct - gcTag g) ct; wantTag = drop (length ct - gcTag g) ct
       in if gcm_tag g nonce aad body \<noteq> wantTag then Inl ErrOpen else Inr (dst @ gcm_ctr g body nonce))"

definition gcm_wf :: "gcm \<Rightarrow> bool" where "gcm_wf g \<longleftrightarrow> gcTag g \<le> 16"

interpretation gcm_stream: keystream
  "\<lambda>(g, nonce) src. gcm_ctr g src nonce"
  "\<lambda>(g, nonce) i. gcm_block g (gcm_counter nonce (i div 16 + 2)) ! (i mod 16)"
  by unfold_locales (auto simp: gcm_ctr_def gcm_block_def length_xor_loop nth_xor_loop)

lemma gcm_ctr_twice [simp]: "gcm_ctr g (gcm_ctr g src nonce) nonce = src"
  using gcm_stream.run_run [of "(g, nonce)"] by simp

lemma length_gcm_ctr [simp]: "length (gcm_ctr g src nonce) = length src"
  using gcm_stream.length_run [of "(g, nonce)"] by simp

lemma length_gcm_tag: "gcm_wf g \<Longrightarrow> length (gcm_tag g nonce aad ct) = gcTag g"
  by (simp add: gcm_tag_def gcm_block_def gcm_wf_def Let_def)

interpretation gcm: aead gcm_wf gcm_Seal gcm_Open gcTag
proof unfold_locales
  fix g :: gcm and dst nonce p aad out
  assume "gcm_wf g" "gcm_Seal g dst nonce p aad = Some out"
  then show "\<exists>c. out = dst @ c \<and> gcm_Seal g [] nonce p aad = Some c \<and> length c = length p + gcTag g"
    by (auto simp: gcm_Seal_def Let_def length_gcm_tag split: if_splits)
next
  fix g :: gcm and dst nonce p aad c
  assume wf: "gcm_wf g" and "gcm_Seal g [] nonce p aad = Some c"
  then have "length nonce = 12" "length p \<le> maxGCM" "c = gcm_ctr g p nonce @ gcm_tag g nonce aad (gcm_ctr g p nonce)"
    by (auto simp: gcm_Seal_def Let_def split: if_splits)
  then show "gcm_Open g dst nonce c aad = Inr (dst @ p)"
    using wf by (simp add: gcm_Open_def Let_def length_gcm_tag)
next
  fix g :: gcm and dst nonce c :: bytes and aad out
  let ?body = "take (length c - gcTag g) c"
  assume "gcm_wf g" "gcm_Open g dst nonce c aad = Inr out"
  then have "length nonce = 12" "length ?body \<le> maxGCM" "out = dst @ gcm_ctr g ?body nonce"
    "gcm_tag g nonce aad ?body = drop (length c - gcTag g) c"
    by (auto simp: gcm_Open_def Let_def split: if_splits)
  then have "gcm_Seal g [] nonce (gcm_ctr g ?body nonce) aad = Some c" by (simp add: gcm_Seal_def Let_def)
  with \<open>out = dst @ gcm_ctr g ?body nonce\<close>
  show "\<exists>p. out = dst @ p \<and> gcm_Seal g [] nonce p aad = Some c" by blast
qed

section \<open>Ciphers\<close>

datatype cipher = GcmCipher gcm | CcmCipher ccm | ChaChaCipher bytes

fun cipher_Seal :: "cipher \<Rightarrow> bytes \<Rightarrow> bytes \<Rightarrow> bytes \<Rightarrow> bytes \<Rightarrow> bytes option" where
  "cipher_Seal (GcmCipher g) = gcm_Seal g"
| "cipher_Seal (CcmCipher c) = ccm_Seal c"
| "cipher_Seal (ChaChaCipher k) = chacha_Seal k"

fun cipher_Open :: "cipher \<Rightarrow> bytes \<Rightarrow> bytes \<Rightarrow> bytes \<Rightarrow> bytes \<Rightarrow> aead_error + bytes" where
  "cipher_Open (GcmCipher g) = gcm_Open g"
| "cipher_Open (CcmCipher c) = ccm_Open c"
| "cipher_Open (ChaChaCipher k) = chacha_Open k"

fun cipher_Overhead :: "cipher \<Rightarrow> nat" where
  "cipher_Overhead (GcmCipher g) = gcTag g"
| "cipher_Overhead (CcmCipher c) = ccTag c"
| "cipher_Overhead (ChaChaCipher k) = 16"

fun cipher_NonceSize :: "cipher \<Rightarrow> nat" where
  "cipher_NonceSize (GcmCipher g) = 12"
| "cipher_NonceSize (CcmCipher c) = ccNonce c"
| "cipher_NonceSize (ChaChaCipher k) = 12"

fun cipher_wf :: "cipher \<Rightarrow> bool" where
  "cipher_wf (GcmCipher g) \<longleftrightarrow> gcm_wf g"
| "cipher_wf (CcmCipher c) \<longleftrightarrow> ccm_wf c"
| "cipher_wf (ChaChaCipher k) \<longleftrightarrow> True"

interpretation cipher: aead cipher_wf cipher_Seal cipher_Open cipher_Overhead
proof unfold_locales
  fix k dst nonce p aad out
  show "cipher_wf k \<Longrightarrow> cipher_Seal k dst nonce p aad = Some out \<Longrightarrow>
      \<exists>c. out = dst @ c \<and> cipher_Seal k [] nonce p aad = Some c \<and> length c = length p + cipher_Overhead k"
    by (cases k) (auto dest: gcm.seal_appends ccm.seal_appends chacha.seal_appends [OF TrueI])
next
  fix k dst nonce p aad c
  show "cipher_wf k \<Longrightarrow> cipher_Seal k [] nonce p aad = Some c \<Longrightarrow> cipher_Open k dst nonce c aad = Inr (dst @ p)"
    by (cases k) (auto intro: gcm.opn_seal ccm.opn_seal chacha.opn_seal)
next
  fix k dst nonce c aad out
  show "cipher_wf k \<Longrightarrow> cipher_Open k dst nonce c aad = Inr out \<Longrightarrow>
      \<exists>p. out = dst @ p \<and> cipher_Seal k [] nonce p aad = Some c"
    by (cases k) (auto dest: gcm.opn_only ccm.opn_only chacha.opn_only [OF TrueI])
qed

section \<open>Suites\<close>

datatype aead_kind = NewGCM nat | NewCCMKind nat nat | NewChaCha

text \<open>\<^verbatim>\<open>aes.NewCipher\<close> accepts the three AES key sizes.\<close>

definition new_block :: "library \<Rightarrow> bytes \<Rightarrow> aead_error + (bytes \<Rightarrow> bytes)" where
  "new_block lb key = (if length key \<in> {16, 24, 32} then Inr (lbAES lb key) else Inl (KeySizeError (length key)))"

definition newGCM :: "library \<Rightarrow> nat \<Rightarrow> bytes \<Rightarrow> aead_error + cipher" where
  "newGCM lb tag key =
    (case new_block lb key of Inl e \<Rightarrow> Inl e
     | Inr b \<Rightarrow> if tag < 12 \<or> tag > 16 then Inl (TagSizeError tag) else Inr (GcmCipher \<lparr>gcBlock = b, gcTag = tag\<rparr>))"

definition newCCM :: "library \<Rightarrow> nat \<Rightarrow> nat \<Rightarrow> bytes \<Rightarrow> aead_error + cipher" where
  "newCCM lb nonceLen tag key =
    (case new_block lb key of Inl e \<Rightarrow> Inl e | Inr b \<Rightarrow> map_sum id CcmCipher (NewCCM 16 b nonceLen tag))"

fun new_cipher :: "library \<Rightarrow> aead_kind \<Rightarrow> bytes \<Rightarrow> aead_error + cipher" where
  "new_cipher lb (NewGCM tag) key = newGCM lb tag key"
| "new_cipher lb (NewCCMKind n tag) key = newCCM lb n tag key"
| "new_cipher lb NewChaCha key = map_sum id ChaChaCipher (NewChaCha20Poly1305 key)"

record suiteParams =
  spName :: string
  spKeyLen :: nat
  spFixedIVLen :: nat
  spRecordIVLen :: nat
  spTagLen :: nat
  spHash :: hash_id
  spNew :: aead_kind

definition tls13_suite :: "string \<Rightarrow> nat \<Rightarrow> nat \<Rightarrow> hash_id \<Rightarrow> aead_kind \<Rightarrow> suiteParams" where
  "tls13_suite name key tag h new =
    \<lparr>spName = name, spKeyLen = key, spFixedIVLen = 12, spRecordIVLen = 0, spTagLen = tag, spHash = h, spNew = new\<rparr>"

definition tls13Suites :: "(u16 \<times> suiteParams) list" where
  "tls13Suites =
    [(0x1301, tls13_suite ''TLS_AES_128_GCM_SHA256'' 16 16 SHA256 (NewGCM 16)),
     (0x1302, tls13_suite ''TLS_AES_256_GCM_SHA384'' 32 16 SHA384 (NewGCM 16)),
     (0x1303, tls13_suite ''TLS_CHACHA20_POLY1305_SHA256'' 32 16 SHA256 NewChaCha),
     (0x1304, tls13_suite ''TLS_AES_128_CCM_SHA256'' 16 16 SHA256 (NewCCMKind 12 16)),
     (0x1305, tls13_suite ''TLS_AES_128_CCM_8_SHA256'' 16 8 SHA256 (NewCCMKind 12 8))]"

datatype suite_error = NotTLS13Suite u16 | NoAEADVersion u16 | NotRegistered u16 | NotAEADSuite string

text \<open>The second switch over a TLS 1.2 name: the mode, with its nonce layout and tag.\<close>

definition tls12_mode :: "string \<Rightarrow> hash_id \<Rightarrow> nat \<Rightarrow> suite_error + suiteParams" where
  "tls12_mode name hash key =
    (let params = (\<lambda>iv rec tag new.
       Inr \<lparr>spName = name, spKeyLen = key, spFixedIVLen = iv, spRecordIVLen = rec, spTagLen = tag,
            spHash = hash, spNew = new\<rparr>)
     in if sublist ''_CHACHA20_POLY1305'' name then params 12 0 16 NewChaCha
        else if sublist ''_GCM'' name then params 4 8 16 (NewGCM 16)
        else if sublist ''_CCM_8'' name then params 4 8 8 (NewCCMKind 12 8)
        else if sublist ''_CCM'' name then params 4 8 16 (NewCCMKind 12 16)
        else Inl (NotAEADSuite name))"

definition suiteFor :: "u16 \<Rightarrow> u16 \<Rightarrow> suite_error + suiteParams" where
  "suiteFor version v =
    (if version = VersionTLS13 then
       (case map_of tls13Suites v of None \<Rightarrow> Inl (NotTLS13Suite v) | Some p \<Rightarrow> Inr p)
     else if version \<noteq> VersionTLS12 then Inl (NoAEADVersion version)
     else if \<not> KnownCipherSuite v then Inl (NotRegistered v)
     else
       let name = CipherSuiteName v; hash = (if suffix ''SHA384'' name then SHA384 else SHA256)
       in if sublist ''_AES_128_'' name then tls12_mode name hash 16
          else if sublist ''_AES_256_'' name then tls12_mode name hash 32
          else if sublist ''_CHACHA20_POLY1305'' name then tls12_mode name hash 32
          else Inl (NotAEADSuite name))"

section \<open>The key schedules\<close>

definition ascii :: "string \<Rightarrow> bytes" where "ascii s = map of_char s"

definition hkdfLabel :: "string \<Rightarrow> bytes \<Rightarrow> nat \<Rightarrow> bytes" where
  "hkdfLabel label ctx n =
    (let full = ascii (''tls13 '' @ label)
     in be_bytes 2 n @ [word_of_nat (length full)] @ full @ [word_of_nat (length ctx)] @ ctx)"

datatype derive_error = ExpandTooLong nat | BuildAEAD string aead_error

definition expandLabel :: "library \<Rightarrow> hash_id \<Rightarrow> bytes \<Rightarrow> string \<Rightarrow> bytes \<Rightarrow> nat \<Rightarrow> derive_error + bytes" where
  "expandLabel lb h secret label ctx n =
    (if n > 255 * hash_size h then Inl (ExpandTooLong n)
     else case hkdf_expand lb h secret (hkdfLabel label ctx n) n of
       None \<Rightarrow> Inl (ExpandTooLong n) | Some out \<Rightarrow> Inr out)"

definition trafficKeys :: "library \<Rightarrow> hash_id \<Rightarrow> bytes \<Rightarrow> nat \<Rightarrow> nat \<Rightarrow> derive_error + bytes \<times> bytes" where
  "trafficKeys lb h secret keyLen ivLen =
    (case expandLabel lb h secret ''key'' [] keyLen of Inl e \<Rightarrow> Inl e
     | Inr key \<Rightarrow>
         (case expandLabel lb h secret ''iv'' [] ivLen of Inl e \<Rightarrow> Inl e | Inr iv \<Rightarrow> Inr (key, iv)))"

definition nextTrafficSecret :: "library \<Rightarrow> hash_id \<Rightarrow> bytes \<Rightarrow> derive_error + bytes" where
  "nextTrafficSecret lb h secret = expandLabel lb h secret ''traffic upd'' [] (hash_size h)"

lemma hash_size_pos [simp]: "0 < hash_size h"
  by (cases h) simp_all

lemma length_hmac [simp]: "length (hmac lb h key m) = hash_size h"
  by (simp add: hmac_def hash_sum_def Let_def)

function prf_loop :: "library \<Rightarrow> hash_id \<Rightarrow> bytes \<Rightarrow> bytes \<Rightarrow> nat \<Rightarrow> bytes \<Rightarrow> bytes \<Rightarrow> bytes" where
  "prf_loop lb h secret full n a out =
    (if length out < n then
       let a' = hmac lb h secret a in prf_loop lb h secret full n a' (out @ hmac lb h secret (a' @ full))
     else take n out)"
  by pat_completeness auto
termination by (relation "measure (\<lambda>(lb, h, secret, full, n, a, out). n - length out)") (auto intro: diff_less_mono2)

declare prf_loop.simps [simp del]

definition prf12 :: "library \<Rightarrow> hash_id \<Rightarrow> bytes \<Rightarrow> string \<Rightarrow> bytes \<Rightarrow> nat \<Rightarrow> bytes" where
  "prf12 lb h secret label seed n = (let full = ascii label @ seed in prf_loop lb h secret full n full [])"

definition keyBlock12 :: "library \<Rightarrow> suiteParams \<Rightarrow> bytes \<Rightarrow> bytes \<Rightarrow> bytes \<Rightarrow> bytes \<times> bytes \<times> bytes \<times> bytes" where
  "keyBlock12 lb p master clientRandom serverRandom =
    (let k = spKeyLen p; v = spFixedIVLen p;
         block = prf12 lb (spHash p) master ''key expansion'' (serverRandom @ clientRandom) (2 * k + 2 * v)
     in (subslice block 0 k, subslice block k (2 * k),
         subslice block (2 * k) (2 * k + v), subslice block (2 * k + v) (2 * k + 2 * v)))"

section \<open>Facts about keys\<close>

lemma length_prf_loop: "length (prf_loop lb h secret full n a out) = n"
  by (induction lb h secret full n a out rule: prf_loop.induct) (subst prf_loop.simps, simp add: Let_def)

lemma length_prf12 [simp]: "length (prf12 lb h secret label seed n) = n"
  by (simp add: prf12_def Let_def length_prf_loop)

lemma length_keyBlock12:
  "keyBlock12 lb p m cr sr = (ck, sk, civ, siv) \<Longrightarrow>
   length ck = spKeyLen p \<and> length sk = spKeyLen p \<and> length civ = spFixedIVLen p \<and> length siv = spFixedIVLen p"
  by (auto simp: keyBlock12_def Let_def)

lemma length_hkdf_blocks: "length (hkdf_blocks lb h prk info n i t) = n * hash_size h"
  by (induction n arbitrary: i t) (simp_all add: Let_def)

lemma length_hkdf_expand: "hkdf_expand lb h prk info n = Some out \<Longrightarrow> length out = n"
proof -
  have "n \<le> (n + hash_size h - 1) div hash_size h * hash_size h"
    using div_mult_mod_eq [of "n + hash_size h - 1" "hash_size h"]
      mod_less_divisor [OF hash_size_pos, of "n + hash_size h - 1" h] by linarith
  then show "hkdf_expand lb h prk info n = Some out \<Longrightarrow> length out = n"
    by (auto simp: hkdf_expand_def length_hkdf_blocks split: if_splits)
qed

lemma expandLabel_total: "n \<le> 255 * hash_size h \<Longrightarrow> \<exists>out. expandLabel lb h s l c n = Inr out \<and> length out = n"
  using length_hkdf_expand [of lb h s "hkdfLabel l c n" n] by (auto simp: expandLabel_def hkdf_expand_def split: option.splits)

lemma expandLabel_length: "expandLabel lb h s l c n = Inr out \<Longrightarrow> length out = n"
  by (auto simp: expandLabel_def dest: length_hkdf_expand split: if_splits option.splits)

lemma trafficKeys_total:
  "k \<le> 255 * hash_size h \<Longrightarrow> v \<le> 255 * hash_size h \<Longrightarrow>
   \<exists>key iv. trafficKeys lb h s k v = Inr (key, iv) \<and> length key = k \<and> length iv = v"
  using expandLabel_total [of k h lb s "''key''" "[]"] expandLabel_total [of v h lb s "''iv''" "[]"]
  by (auto simp: trafficKeys_def)

lemma length_trafficKeys: "trafficKeys lb h s k v = Inr (key, iv) \<Longrightarrow> length key = k \<and> length iv = v"
  by (auto simp: trafficKeys_def dest: expandLabel_length split: sum.splits)

text \<open>Two labels never share an encoding: the lengths in front of label and context separate them.\<close>

lemma ascii_inj: "ascii s = ascii t \<longleftrightarrow> s = t"
proof -
  have "char_of (unat (of_char c :: byte)) = c" for c :: char
    by (metis of_nat_of_char unat_byte_of_nat char_of_mod_256 char_of_char)
  then have "inj (of_char :: char \<Rightarrow> byte)" by (metis injI)
  then show ?thesis unfolding ascii_def by (rule inj_map_eq_map)
qed

lemma hkdfLabel_inj:
  assumes "hkdfLabel l c m = hkdfLabel l' c' n" "length l < 250" "length l' < 250" "m < 65536" "n < 65536"
  shows "l = l' \<and> c = c' \<and> m = n"
  using assms proof -
  have len: "length (ascii l) = length l" for l by (simp add: ascii_def)
  have "be_bytes 2 m = be_bytes 2 n" "ascii l = ascii l'" "c = c'"
    using assms by (auto simp: hkdfLabel_def Let_def byte_of_nat_eq_iff len ascii_def)
  moreover have "m mod 256 ^ 2 = n mod 256 ^ 2" using calculation(1) by (metis be_val_be_bytes)
  ultimately show ?thesis using assms(4,5) by (simp add: ascii_inj)
qed

text \<open>No name of the table holds both an AES-128 and a ChaCha20 cipher.\<close>

lemma list_all_ConsI: "P x \<Longrightarrow> list_all P xs \<Longrightarrow> list_all P (x # xs)"
  by simp

lemma list_all_NilI: "list_all P []"
  by simp

lemma suites_with_Y: "list_all (\<lambda>(v, n). CHR ''Y'' \<in> set n \<longrightarrow> \<not> sublist ''AES_'' n) cipherSuites"
  unfolding cipherSuites_def
  by (intro list_all_ConsI list_all_NilI; simp add: sublist_Cons_right)

lemma suites_one_cipher:
  assumes "map_of cipherSuites v = Some n" "sublist ''_AES_128_'' n"
  shows "\<not> sublist ''_CHACHA20_POLY1305'' n"
proof
  assume "sublist ''_CHACHA20_POLY1305'' n"
  then have "CHR ''Y'' \<in> set n" by (auto dest!: set_mono_sublist)
  moreover have "sublist ''AES_'' ''_AES_128_''" by (simp add: sublist_Cons_right)
  then have "sublist ''AES_'' n" using assms(2) by (rule sublist_order.order_trans)
  ultimately show False
    using suites_with_Y map_of_SomeD [OF assms(1)] by (fastforce simp: list_all_iff)
qed

lemma new_cipher_NewGCM:
  "length key \<in> {16, 32} \<Longrightarrow> \<exists>c. new_cipher lb (NewGCM 16) key = Inr c \<and> cipher_wf c \<and>
     cipher_NonceSize c = 12 \<and> cipher_Overhead c = 16"
  by (auto simp: newGCM_def new_block_def gcm_wf_def)

lemma new_cipher_NewCCM:
  "length key \<in> {16, 32} \<Longrightarrow> t \<in> {8, 16} \<Longrightarrow> \<exists>c. new_cipher lb (NewCCMKind 12 t) key = Inr c \<and> cipher_wf c \<and>
     cipher_NonceSize c = 12 \<and> cipher_Overhead c = t"
  by (auto simp: newCCM_def new_block_def NewCCM_def ccm_wf_def)

lemma new_cipher_ChaCha:
  "length key = 32 \<Longrightarrow> \<exists>c. new_cipher lb NewChaCha key = Inr c \<and> cipher_wf c \<and>
     cipher_NonceSize c = 12 \<and> cipher_Overhead c = 16"
  by (simp add: NewChaCha20Poly1305_def)

lemmas new_ciphers = new_cipher_NewGCM new_cipher_NewCCM new_cipher_ChaCha

definition suite_ok :: "suiteParams \<Rightarrow> bool" where
  "suite_ok p \<longleftrightarrow> spFixedIVLen p + spRecordIVLen p = 12 \<and> spFixedIVLen p \<in> {4, 12} \<and> spKeyLen p \<in> {16, 32} \<and> spTagLen p \<in> {8, 16} \<and>
    (spNew p = NewGCM 16 \<and> spTagLen p = 16 \<or> spNew p = NewCCMKind 12 (spTagLen p) \<or>
     spNew p = NewChaCha \<and> spTagLen p = 16 \<and> spKeyLen p = 32)"

lemma suite_ok_builds:
  "suite_ok p \<Longrightarrow> length key = spKeyLen p \<Longrightarrow> \<exists>c. new_cipher lb (spNew p) key = Inr c \<and> cipher_wf c \<and>
     cipher_NonceSize c = 12 \<and> cipher_Overhead c = spTagLen p"
  unfolding suite_ok_def using new_ciphers by metis

lemma tls13Suites_ok: "map_of tls13Suites v = Some p \<Longrightarrow> suite_ok p \<and> spFixedIVLen p = 12"
  by (auto simp: tls13Suites_def tls13_suite_def suite_ok_def split: if_splits)

lemma tls12_mode_ok:
  "tls12_mode name h key = Inr p \<Longrightarrow> key \<in> {16, 32} \<Longrightarrow>
   (sublist ''_CHACHA20_POLY1305'' name \<Longrightarrow> key = 32) \<Longrightarrow> suite_ok p"
  by (simp add: tls12_mode_def Let_def split: if_splits) (auto simp: suite_ok_def)

lemma suiteFor_ok:
  assumes "suiteFor version v = Inr p"
  shows "suite_ok p \<and> (version = VersionTLS13 \<longrightarrow> spFixedIVLen p = 12)"
proof (cases "version = VersionTLS13")
  case True
  then show ?thesis using assms tls13Suites_ok by (auto simp: suiteFor_def split: option.splits)
next
  case False
  define name where "name = CipherSuiteName v"
  have "KnownCipherSuite v" and mode: "\<exists>h key. tls12_mode name h key = Inr p \<and> (key = 32 \<or> key = 16 \<and> sublist ''_AES_128_'' name)"
    using assms False unfolding suiteFor_def Let_def name_def [symmetric] by (auto split: if_splits)
  then have "map_of cipherSuites v = Some name"
    by (auto simp: KnownCipherSuite_def name_def CipherSuiteName_def codepoint_name_def)
  with mode False show ?thesis
    using tls12_mode_ok suites_one_cipher by (metis insertCI)
qed

end
