(* ===== verification/Keylog.thy ===== *)
theory Keylog
  imports Go_Strings "HOL-Library.AList" "HOL-Library.List_Lexorder" "HOL-Library.Char_ord"
begin

text \<open>
  The NSS key-log reader, \<^verbatim>\<open>internal/evidence/keylog\<close>.  The scanner is modelled on the bytes of the text, with
  the string functions of \<^verbatim>\<open>Go_Strings\<close>.
\<close>

section \<open>The log\<close>

definition LabelClientRandom :: string where "LabelClientRandom = ''CLIENT_RANDOM''"
definition LabelClientHandshake :: string where "LabelClientHandshake = ''CLIENT_HANDSHAKE_TRAFFIC_SECRET''"
definition LabelServerHandshake :: string where "LabelServerHandshake = ''SERVER_HANDSHAKE_TRAFFIC_SECRET''"
definition LabelClientTraffic0 :: string where "LabelClientTraffic0 = ''CLIENT_TRAFFIC_SECRET_0''"
definition LabelServerTraffic0 :: string where "LabelServerTraffic0 = ''SERVER_TRAFFIC_SECRET_0''"
definition LabelRSA :: string where "LabelRSA = ''RSA''"

record entry =
  enLine :: nat
  enLabel :: string
  enClientRandom :: bytes
  enSecret :: bytes

record keylog =
  klByRandom :: "(string \<times> (string \<times> bytes) list) list"
  klEntries :: "entry list"

datatype keylog_error = FieldCount nat nat | RandomNotHex nat hex_error | SecretNotHex nat hex_error
  | RandomLength nat nat | EmptySecret nat | LineTooLong

text \<open>The line of one entry, after the scanner has cut it out: \<open>None\<close> is a line skipped.\<close>

definition parse_line :: "nat \<Rightarrow> string \<Rightarrow> keylog_error + entry option" where
  "parse_line line raw =
    (let text = TrimSpace raw
     in if text = [] \<or> hd text = CHR ''#'' then Inr None
        else
          let fields = word_list text
          in if length fields \<noteq> 3 then Inl (FieldCount line (length fields))
             else case hex_decode (fields ! 1) of Inl e \<Rightarrow> Inl (RandomNotHex line e)
             | Inr cr \<Rightarrow>
                 (case hex_decode (fields ! 2) of Inl e \<Rightarrow> Inl (SecretNotHex line e)
                  | Inr secret \<Rightarrow>
                      if fields ! 0 \<noteq> LabelRSA \<and> length cr \<noteq> 32 then Inl (RandomLength line (length cr))
                      else if length secret = 0 then Inl (EmptySecret line)
                      else Inr (Some \<lparr>enLine = line, enLabel = fields ! 0, enClientRandom = cr, enSecret = secret\<rparr>)))"

text \<open>The index is kept under the text of the client random in lower case.\<close>

definition random_key :: "string \<Rightarrow> string" where
  "random_key raw = ToLower (word_list (TrimSpace raw) ! 1)"

definition add_entry :: "string \<Rightarrow> entry \<Rightarrow> keylog \<Rightarrow> keylog" where
  "add_entry key e l =
    (let m = (case map_of (klByRandom l) key of None \<Rightarrow> [] | Some m \<Rightarrow> m)
     in l\<lparr>klByRandom := AList.update key (AList.update (enLabel e) (enSecret e) m) (klByRandom l),
          klEntries := klEntries l @ [e]\<rparr>)"

definition MaxLine :: nat where "MaxLine = 2 ^ 20"

text \<open>\<^verbatim>\<open>bufio.ScanLines\<close>: up to the next line feed, less one carriage return before it; the text after the last
  line feed is a line unless it is empty.\<close>

definition cut_line :: "string \<Rightarrow> string \<times> string" where
  "cut_line s = (takeWhile (\<lambda>c. c \<noteq> CHR 0x0A) s, tl (dropWhile (\<lambda>c. c \<noteq> CHR 0x0A) s))"

definition drop_cr :: "string \<Rightarrow> string" where
  "drop_cr s = (if s \<noteq> [] \<and> last s = CHR 0x0D then butlast s else s)"

lemma cut_line_shortens: "s \<noteq> [] \<Longrightarrow> (raw, rest) = cut_line s \<Longrightarrow> length rest < length s"
  using length_dropWhile_le [of "\<lambda>c. c \<noteq> CHR 0x0A" s] by (cases s) (auto simp: cut_line_def)

function parse_loop :: "string \<Rightarrow> nat \<Rightarrow> keylog \<Rightarrow> keylog_error + keylog" where
  "parse_loop s line l =
    (if s = [] then Inr l
     else case cut_line s of (raw, rest) \<Rightarrow>
       if length raw \<ge> MaxLine then Inl LineTooLong
       else case parse_line (line + 1) (drop_cr raw) of
         Inl e \<Rightarrow> Inl e
       | Inr None \<Rightarrow> parse_loop rest (line + 1) l
       | Inr (Some e) \<Rightarrow> parse_loop rest (line + 1) (add_entry (random_key (drop_cr raw)) e l))"
  by pat_completeness auto
termination
  by (relation "measure (\<lambda>(s, line, l). length s)") (simp_all add: cut_line_shortens)

declare parse_loop.simps [simp del]

definition Parse :: "string \<Rightarrow> keylog_error + keylog" where
  "Parse text = parse_loop text 0 \<lparr>klByRandom = [], klEntries = []\<rparr>"

definition Sessions :: "keylog \<Rightarrow> string list" where "Sessions l = sort (map fst (klByRandom l))"

definition Secret :: "keylog \<Rightarrow> string \<Rightarrow> bytes \<Rightarrow> bytes option" where
  "Secret l label cr =
    (case map_of (klByRandom l) (hex_encode cr) of None \<Rightarrow> None | Some m \<Rightarrow> map_of m label)"

definition Labels :: "keylog \<Rightarrow> bytes \<Rightarrow> string list" where
  "Labels l cr = (case map_of (klByRandom l) (hex_encode cr) of None \<Rightarrow> [] | Some m \<Rightarrow> sort (map fst m))"

definition MasterSecret :: "keylog \<Rightarrow> bytes \<Rightarrow> bytes option" where
  "MasterSecret l cr = Secret l LabelClientRandom cr"

definition Has :: "keylog \<Rightarrow> bytes \<Rightarrow> bool" where
  "Has l cr \<longleftrightarrow> map_of (klByRandom l) (hex_encode cr) \<noteq> None"

section \<open>The index is the last entry\<close>

definition last_secret :: "entry list \<Rightarrow> string \<Rightarrow> bytes \<Rightarrow> bytes option" where
  "last_secret es label cr =
    map_option enSecret (find (\<lambda>e. enLabel e = label \<and> enClientRandom e = cr) (rev es))"

lemma last_secret_snoc:
  "last_secret (es @ [e]) label cr =
    (if enLabel e = label \<and> enClientRandom e = cr then Some (enSecret e) else last_secret es label cr)"
  by (simp add: last_secret_def)

definition indexed :: "keylog \<Rightarrow> bool" where
  "indexed l \<longleftrightarrow> (\<forall>label cr. Secret l label cr = last_secret (klEntries l) label cr) \<and>
     distinct (map fst (klByRandom l)) \<and>
     (\<forall>key. key \<in> fst ` set (klByRandom l) \<longleftrightarrow> (\<exists>e \<in> set (klEntries l). key = hex_encode (enClientRandom e)))"

lemma indexed_empty: "indexed \<lparr>klByRandom = [], klEntries = []\<rparr>"
  by (simp add: indexed_def Secret_def last_secret_def)

lemma Secret_add_entry:
  "Secret (add_entry (hex_encode (enClientRandom e)) e l) label cr =
    (if enLabel e = label \<and> enClientRandom e = cr then Some (enSecret e) else Secret l label cr)"
  by (auto simp: Secret_def add_entry_def Let_def update_conv' hex_encode_inj split: option.splits)

lemma add_entry_index:
  "klEntries (add_entry key e l) = klEntries l @ [e]"
  "fst ` set (klByRandom (add_entry key e l)) = insert key (fst ` set (klByRandom l))"
  "distinct (map fst (klByRandom (add_entry key e l))) \<longleftrightarrow> distinct (map fst (klByRandom l))"
  by (auto simp: add_entry_def Let_def dom_update AList.update_keys)

lemma indexed_add_entry: "indexed l \<Longrightarrow> indexed (add_entry (hex_encode (enClientRandom e)) e l)"
  unfolding indexed_def add_entry_index Secret_add_entry by (simp add: last_secret_snoc)

lemma parse_line_entry:
  assumes "parse_line line raw = Inr (Some e)"
  shows "random_key raw = hex_encode (enClientRandom e)" "enLine e = line" "enSecret e \<noteq> []"
    "enLabel e \<noteq> LabelRSA \<Longrightarrow> length (enClientRandom e) = 32"
  using assms by (auto simp: parse_line_def random_key_def Let_def hex_encode_decode split: if_splits sum.splits)

lemma parse_loop_indexed: "parse_loop s line l = Inr l' \<Longrightarrow> indexed l \<Longrightarrow> indexed l'"
proof (induction s line l rule: parse_loop.induct)
  case (1 s line l)
  show ?case
  proof (cases "s = []")
    case False
    obtain raw rest where c: "cut_line s = (raw, rest)" by fastforce
    from False 1(3) c have short: "\<not> length raw \<ge> MaxLine" by (subst (asm) parse_loop.simps) (auto split: if_splits)
    show ?thesis
    proof (cases "parse_line (line + 1) (drop_cr raw)")
      case (Inl e)
      with 1(3) False c short show ?thesis by (subst (asm) parse_loop.simps) simp
    next
      case (Inr eo)
      show ?thesis
      proof (cases eo)
        case None
        with 1(3) False c short Inr have "parse_loop rest (line + 1) l = Inr l'"
          by (subst (asm) parse_loop.simps) simp
        with 1(1) [OF False c [symmetric] short Inr None] 1(4) show ?thesis by simp
      next
        case (Some e)
        with 1(3) False c short Inr
        have "parse_loop rest (line + 1) (add_entry (random_key (drop_cr raw)) e l) = Inr l'"
          by (subst (asm) parse_loop.simps) simp
        moreover have "random_key (drop_cr raw) = hex_encode (enClientRandom e)"
          using parse_line_entry(1) Inr Some by blast
        ultimately show ?thesis
          using 1(2) [OF False c [symmetric] short Inr Some] indexed_add_entry [OF 1(4)] by simp
      qed
    qed
  qed (use 1 in \<open>simp add: parse_loop.simps\<close>)
qed

section \<open>Lines read back\<close>

text \<open>A line as a key log has it: the label, the client random and the secret in hexadecimal.\<close>

definition render :: "entry \<Rightarrow> string" where
  "render e = enLabel e @ CHR '' '' # hex_encode (enClientRandom e) @ CHR '' '' # hex_encode (enSecret e)"

definition wf_entry :: "entry \<Rightarrow> bool" where
  "wf_entry e \<longleftrightarrow> enLabel e \<noteq> [] \<and> (\<forall>c \<in> set (enLabel e). printable c) \<and> hd (enLabel e) \<noteq> CHR ''#'' \<and>
     enClientRandom e \<noteq> [] \<and> (enLabel e \<noteq> LabelRSA \<longrightarrow> length (enClientRandom e) = 32) \<and>
     enSecret e \<noteq> [] \<and> length (render e) < MaxLine"

lemma printable_hex_digit: "n < 16 \<Longrightarrow> printable (hex_digit n)"
  by (auto simp: printable_def hex_digit_def char_code_char_of)

lemma printable_hex: "\<forall>c \<in> set (hex_encode bs). printable c"
  by (induction bs) (auto simp: printable_hex_digit byte_nibbles)

lemma hex_encode_empty [simp]: "hex_encode bs = [] \<longleftrightarrow> bs = []"
  by (cases bs) auto

lemma render_fields:
  assumes "wf_entry e"
  shows "word_list (render e) = [enLabel e, hex_encode (enClientRandom e), hex_encode (enSecret e)]"
    "TrimSpace (render e) = render e" "render e \<noteq> []" "hd (render e) = hd (enLabel e)"
    "\<forall>c \<in> set (render e). printable c \<or> c = CHR '' ''" "printable (last (render e))"
proof -
  have w: "enLabel e \<noteq> []" "\<forall>c \<in> set (enLabel e). printable c" "enClientRandom e \<noteq> []" "enSecret e \<noteq> []"
    using assms by (simp_all add: wf_entry_def)
  show "word_list (render e) = [enLabel e, hex_encode (enClientRandom e), hex_encode (enSecret e)]"
    using w printable_hex by (simp add: render_def word_list_printable)
  show ne: "render e \<noteq> []" and hd: "hd (render e) = hd (enLabel e)"
    using w(1) by (simp_all add: render_def)
  show all: "\<forall>c \<in> set (render e). printable c \<or> c = CHR '' ''"
    using w(2) printable_hex by (auto simp: render_def)
  have "hex_encode (enSecret e) \<noteq> []" using w(4) by simp
  then have "last (render e) \<in> set (hex_encode (enSecret e))"
    by (simp add: render_def)
  then show last: "printable (last (render e))" using printable_hex by blast
  have "trim_left (render e) = render e"
    using w(1,2) by (cases "enLabel e") (simp_all add: render_def)
  then show "TrimSpace (render e) = render e"
    using trim_right_printable [OF all ne last] by (simp add: TrimSpace_def)
qed

lemma parse_line_render:
  assumes "wf_entry e"
  shows "parse_line line (render e) = Inr (Some (e\<lparr>enLine := line\<rparr>))"
proof -
  have "\<not> (enLabel e \<noteq> LabelRSA \<and> length (enClientRandom e) \<noteq> 32)" "hd (enLabel e) \<noteq> CHR ''#''" "enSecret e \<noteq> []"
    using assms by (auto simp: wf_entry_def)
  then show ?thesis
    using render_fields [OF assms] by (simp add: parse_line_def Let_def hex_decode_encode)
qed

definition render_log :: "entry list \<Rightarrow> string" where
  "render_log es = concat (map (\<lambda>e. render e @ [CHR 0x0A]) es)"

fun numbered :: "nat \<Rightarrow> entry list \<Rightarrow> entry list" where
  "numbered n [] = []"
| "numbered n (e # es) = e\<lparr>enLine := n + 1\<rparr> # numbered (n + 1) es"

lemma line_feed_not_printable: "\<not> (printable (CHR 0x0A) \<or> CHR 0x0A = CHR '' '')" "\<not> printable (CHR 0x0D)"
  by (auto simp: printable_def char_code_def)

lemma cut_line_render:
  assumes "wf_entry e"
  shows "cut_line (render e @ [CHR 0x0A] @ rest) = (render e, rest)" "drop_cr (render e) = render e"
proof -
  have "\<forall>c \<in> set (render e). c \<noteq> CHR 0x0A"
    using render_fields(5) [OF assms] line_feed_not_printable(1) by blast
  then show "cut_line (render e @ [CHR 0x0A] @ rest) = (render e, rest)"
    by (simp add: cut_line_def takeWhile_append2 dropWhile_append2)
  show "drop_cr (render e) = render e"
    using render_fields(6) [OF assms] line_feed_not_printable(2) by (auto simp: drop_cr_def)
qed

lemma parse_loop_render:
  "\<forall>e \<in> set es. wf_entry e \<Longrightarrow> \<exists>l'. parse_loop (render_log es) line l = Inr l' \<and>
     klEntries l' = klEntries l @ numbered line es"
proof (induction es arbitrary: line l)
  case (Cons e es)
  let ?e = "e\<lparr>enLine := line + 1\<rparr>"
  let ?l = "add_entry (random_key (render e)) ?e l"
  have wf: "wf_entry e" and short: "length (render e) < MaxLine" using Cons.prems by (simp_all add: wf_entry_def)
  have log: "render_log (e # es) = render e @ [CHR 0x0A] @ render_log es" by (simp add: render_log_def)
  have "parse_loop (render_log (e # es)) line l = parse_loop (render_log es) (line + 1) ?l"
    unfolding log using short by (subst parse_loop.simps) (simp add: cut_line_render [OF wf, simplified] parse_line_render [OF wf])
  moreover obtain l' where "parse_loop (render_log es) (line + 1) ?l = Inr l'"
    "klEntries l' = klEntries ?l @ numbered (line + 1) es" using Cons by force
  ultimately show ?case by (simp add: add_entry_index)
qed (simp add: render_log_def parse_loop.simps)

section \<open>The properties\<close>

text \<open>C25: a key log finds exactly what it was given.  The secret returned for a label and a client random is the one
  of the last entry with that label and that client random, whatever the case of its hexadecimal; the sessions
  are the client randoms of the entries, sorted, each once.\<close>

theorem Parse_lookup:
  assumes "Parse text = Inr l"
  shows "Secret l label cr = last_secret (klEntries l) label cr \<and>
    (Has l cr \<longleftrightarrow> cr \<in> enClientRandom ` set (klEntries l)) \<and>
    set (Sessions l) = (hex_encode \<circ> enClientRandom) ` set (klEntries l) \<and> distinct (Sessions l) \<and> sorted (Sessions l)"
proof -
  have ok: "indexed l" using parse_loop_indexed [OF assms [unfolded Parse_def] indexed_empty] .
  have "Has l cr \<longleftrightarrow> cr \<in> enClientRandom ` set (klEntries l)"
    using ok by (auto simp: indexed_def Has_def map_of_eq_None_iff hex_encode_inj)
  with ok show ?thesis by (auto simp: indexed_def Sessions_def)
qed

text \<open>A key log written line by line is read back entry by entry, numbered by line.\<close>

lemma Parse_render:
  assumes "\<forall>e \<in> set es. wf_entry e"
  shows "\<exists>l. Parse (render_log es) = Inr l \<and> klEntries l = numbered 0 es"
  using parse_loop_render [OF assms] by (fastforce simp: Parse_def)

definition sample_entry :: "byte \<Rightarrow> entry" where
  "sample_entry s = \<lparr>enLine = 0, enLabel = LabelClientRandom, enClientRandom = replicate 32 7, enSecret = [s]\<rparr>"

lemma wf_sample_entry: "wf_entry (sample_entry s)"
proof -
  have "length (hex_encode bs) = 2 * length bs" for bs by (induction bs) simp_all
  then show ?thesis
    by (auto simp: wf_entry_def sample_entry_def LabelClientRandom_def printable_def char_code_def render_def MaxLine_def
        LabelRSA_def)
qed

theorem Parse_lookup_witness:
  "\<exists>l. Parse (render_log [sample_entry 1, sample_entry 2]) = Inr l \<and>
     Secret l LabelClientRandom (replicate 32 7) = Some [2]"
proof -
  obtain l where l: "Parse (render_log [sample_entry 1, sample_entry 2]) = Inr l"
    "klEntries l = numbered 0 [sample_entry 1, sample_entry 2]"
    using parse_loop_render [of "[sample_entry 1, sample_entry 2]" 0 "\<lparr>klByRandom = [], klEntries = []\<rparr>"]
    by (auto simp: wf_sample_entry Parse_def)
  with Parse_lookup [OF l(1), of LabelClientRandom "replicate 32 7"] show ?thesis
    by (simp add: last_secret_def sample_entry_def)
qed

end
