(* ===== verification/Tls_Decrypt.thy ===== *)
theory Tls_Decrypt
  imports Tls_Keys Keylog
begin

unbundle bit_operations_syntax

text \<open>
  \<^verbatim>\<open>internal/evidence/tlsdecrypt/session.go\<close>: the record decryption of one TLS connection from a key log.
  The two \<^verbatim>\<open>dirState\<close> objects of a session are a function from sides; a nil AEAD, secret or key log is
  \<^verbatim>\<open>None\<close>.  An \<^verbatim>\<open>Error\<close> is a value that names the record, the sequence number and the epoch.
\<close>

section \<open>State\<close>

datatype side = Client | Server

datatype epoch = EpochPlaintext | EpochHandshake | EpochApplication

record params =
  prVersion :: u16
  prCipherSuite :: u16
  prClientRandom :: bytes
  prServerRandom :: bytes

record plaintext =
  plSide :: side
  plType :: byte
  plData :: bytes
  plRecord :: tlsRecord
  plSeq :: u64
  plEpoch :: epoch
  plEncrypted :: bool
  plEpochRecovered :: bool

datatype open_reason = NoKeysInstalled | AuthenticationFailed string nat aead_error | OnlyPadding
  | RecordTooShort nat nat nat | CannotBuild string aead_error

record decrypt_error =
  deSide :: side
  deRecordIndex :: nat
  deOffset :: nat
  deFrames :: "nat list"
  deSeq :: u64
  deEpoch :: epoch
  deReason :: open_reason

record dirState =
  dsSide :: side
  dsEpoch :: epoch
  dsSeq :: u64
  dsAead :: "cipher option"
  dsIV :: bytes
  dsSecret :: bytes
  dsGeneration :: nat
  dsHandshakeSecret :: "bytes option"
  dsApplicationSecret :: "bytes option"
  dsKey12 :: bytes
  dsIV12 :: bytes
  dsFrags :: "fragment list"
  dsBuf :: bytes
  dsScanned :: nat
  dsPendingSwitch :: bool
  dsPendingUpdate :: bool

record session =
  seParams :: params
  seSuite :: suiteParams
  seTls13 :: bool
  seDirs :: "side \<Rightarrow> dirState"

definition fresh_dir :: "side \<Rightarrow> dirState" where
  "fresh_dir side = \<lparr>dsSide = side, dsEpoch = EpochPlaintext, dsSeq = 0, dsAead = None, dsIV = [], dsSecret = [],
     dsGeneration = 0, dsHandshakeSecret = None, dsApplicationSecret = None, dsKey12 = [], dsIV12 = [],
     dsFrags = [], dsBuf = [], dsScanned = 0, dsPendingSwitch = False, dsPendingUpdate = False\<rparr>"

section \<open>Key installation\<close>

text \<open>\<^verbatim>\<open>install\<close> leaves the direction untouched when it fails.\<close>

definition install :: "library \<Rightarrow> suiteParams \<Rightarrow> dirState \<Rightarrow> epoch \<Rightarrow> bytes \<Rightarrow> derive_error + dirState" where
  "install lb suite d epoch secret =
    (case trafficKeys lb (spHash suite) secret (spKeyLen suite) (spFixedIVLen suite) of
       Inl e \<Rightarrow> Inl e
     | Inr (key, iv) \<Rightarrow>
         (case new_cipher lb (spNew suite) key of
            Inl e \<Rightarrow> Inl (BuildAEAD (spName suite) e)
          | Inr a \<Rightarrow> Inr (d\<lparr>dsAead := Some a, dsIV := iv, dsSecret := secret, dsEpoch := epoch, dsSeq := 0\<rparr>)))"

datatype new_error = NoKeyLog | BadClientRandom nat | SuiteRefused suite_error | NoTrafficSecrets string string bytes
  | BadServerRandom nat | NoMasterSecret bytes | BadMasterSecret nat | DeriveFailed derive_error

text \<open>One turn of the loop in \<^verbatim>\<open>initTLS13\<close>: a side with the labels of its two secrets.\<close>

definition init_side :: "library \<Rightarrow> suiteParams \<Rightarrow> keylog \<Rightarrow> bytes \<Rightarrow> string \<Rightarrow> string \<Rightarrow> dirState \<Rightarrow> new_error + dirState" where
  "init_side lb suite kl cr handshakeLabel appLabel d0 =
    (let d = d0\<lparr>dsHandshakeSecret := Secret kl handshakeLabel cr, dsApplicationSecret := Secret kl appLabel cr\<rparr>
     in case dsHandshakeSecret d of
          Some secret \<Rightarrow> map_sum DeriveFailed id (install lb suite d EpochHandshake secret)
        | None \<Rightarrow>
            (case dsApplicationSecret d of
               Some secret \<Rightarrow> map_sum DeriveFailed id (install lb suite d EpochApplication secret)
             | None \<Rightarrow> Inl (NoTrafficSecrets handshakeLabel appLabel cr)))"

definition initTLS13 :: "library \<Rightarrow> keylog \<Rightarrow> session \<Rightarrow> new_error + session" where
  "initTLS13 lb kl s =
    (let cr = prClientRandom (seParams s)
     in case init_side lb (seSuite s) kl cr LabelClientHandshake LabelClientTraffic0 (seDirs s Client) of
          Inl e \<Rightarrow> Inl e
        | Inr c \<Rightarrow>
            (case init_side lb (seSuite s) kl cr LabelServerHandshake LabelServerTraffic0 (seDirs s Server) of
               Inl e \<Rightarrow> Inl e
             | Inr v \<Rightarrow> Inr (s\<lparr>seDirs := (seDirs s)(Client := c, Server := v)\<rparr>)))"

definition initTLS12 :: "library \<Rightarrow> keylog \<Rightarrow> session \<Rightarrow> new_error + session" where
  "initTLS12 lb kl s =
    (let cr = prClientRandom (seParams s); sr = prServerRandom (seParams s)
     in if length sr \<noteq> 32 then Inl (BadServerRandom (length sr))
        else case MasterSecret kl cr of
          None \<Rightarrow> Inl (NoMasterSecret cr)
        | Some master \<Rightarrow>
            if length master \<noteq> 48 then Inl (BadMasterSecret (length master))
            else case keyBlock12 lb (seSuite s) master cr sr of
              (ck, sk, civ, siv) \<Rightarrow>
                Inr (s\<lparr>seDirs := (seDirs s)(Client := (seDirs s Client)\<lparr>dsKey12 := ck, dsIV12 := civ\<rparr>,
                                            Server := (seDirs s Server)\<lparr>dsKey12 := sk, dsIV12 := siv\<rparr>)\<rparr>))"

definition NewSession :: "library \<Rightarrow> params \<Rightarrow> keylog option \<Rightarrow> new_error + session" where
  "NewSession lb p log =
    (case log of None \<Rightarrow> Inl NoKeyLog
     | Some kl \<Rightarrow>
         if length (prClientRandom p) \<noteq> 32 then Inl (BadClientRandom (length (prClientRandom p)))
         else case suiteFor (prVersion p) (prCipherSuite p) of
           Inl e \<Rightarrow> Inl (SuiteRefused e)
         | Inr suite \<Rightarrow>
             let s = \<lparr>seParams = p, seSuite = suite, seTls13 = (prVersion p = VersionTLS13), seDirs = fresh_dir\<rparr>
             in if seTls13 s then initTLS13 lb kl s else initTLS12 lb kl s)"

section \<open>Opening a record\<close>

definition xorSeq :: "bytes \<Rightarrow> u64 \<Rightarrow> bytes" where
  "xorSeq iv seq =
    foldl (\<lambda>n i. n[length n - 1 - i := n ! (length n - 1 - i) XOR ucast (drop_bit (8 * i) seq)])
      iv [0..<min 8 (length iv)]"

text \<open>The index just past the last non-zero byte, searched from the end.\<close>

fun content_end :: "bytes \<Rightarrow> nat \<Rightarrow> nat" where
  "content_end out 0 = 0"
| "content_end out (Suc i) = (if out ! i = 0 then content_end out i else Suc i)"

definition StripPadding :: "bytes \<Rightarrow> (bytes \<times> byte) option" where
  "StripPadding inner =
    (case content_end inner (length inner) of 0 \<Rightarrow> None | Suc i \<Rightarrow> Some (take i inner, inner ! i))"

definition aad13 :: "tlsRecord \<Rightarrow> bytes" where
  "aad13 r = [rcType r] @ put_be16 (rcVersion r) @ be_bytes 2 (rcLength r)"

definition aad12 :: "u64 \<Rightarrow> tlsRecord \<Rightarrow> nat \<Rightarrow> bytes" where
  "aad12 seq r n = be_bytes 8 (unat seq) @ [rcType r] @ put_be16 (rcVersion r) @ be_bytes 2 n"

definition open_error :: "dirState \<Rightarrow> tlsRecord \<Rightarrow> open_reason \<Rightarrow> decrypt_error" where
  "open_error d r reason =
    \<lparr>deSide = dsSide d, deRecordIndex = rcIndex r, deOffset = rcOffset r, deFrames = rcPackets r,
     deSeq = dsSeq d, deEpoch = dsEpoch d, deReason = reason\<rparr>"

definition openWith :: "suiteParams \<Rightarrow> bool \<Rightarrow> dirState \<Rightarrow> tlsRecord \<Rightarrow> decrypt_error + bytes \<times> byte" where
  "openWith suite tls13 d r =
    (let fail = (\<lambda>reason. Inl (open_error d r reason));
         auth = (\<lambda>e. AuthenticationFailed (spName suite) (rcLength r) e)
     in case dsAead d of
          None \<Rightarrow> fail NoKeysInstalled
        | Some a \<Rightarrow>
            if tls13 then
              (case cipher_Open a [] (xorSeq (dsIV d) (dsSeq d)) (rcFragment r) (aad13 r) of
                 Inl e \<Rightarrow> fail (auth e)
               | Inr out \<Rightarrow> (case StripPadding out of None \<Rightarrow> fail OnlyPadding | Some x \<Rightarrow> Inr x))
            else if length (rcFragment r) < spRecordIVLen suite + spTagLen suite then
              fail (RecordTooShort (length (rcFragment r)) (spRecordIVLen suite) (spTagLen suite))
            else
              let nonce = (if spRecordIVLen suite > 0 then dsIV d @ take (spRecordIVLen suite) (rcFragment r)
                           else xorSeq (dsIV d) (dsSeq d));
                  frag = drop (spRecordIVLen suite) (rcFragment r)
              in (case cipher_Open a [] nonce frag (aad12 (dsSeq d) r (length frag - spTagLen suite)) of
                    Inl e \<Rightarrow> fail (auth e)
                  | Inr out \<Rightarrow> Inr (out, rcType r)))"

definition open_record :: "library \<Rightarrow> session \<Rightarrow> dirState \<Rightarrow> tlsRecord \<Rightarrow> (decrypt_error + bytes \<times> byte \<times> bool) \<times> dirState" where
  "open_record lb s d r =
    (case openWith (seSuite s) (seTls13 s) d r of
       Inr (plain, inner) \<Rightarrow> (Inr (plain, inner, False), d)
     | Inl err \<Rightarrow>
         (case dsApplicationSecret d of
            Some secret \<Rightarrow>
              if seTls13 s \<and> dsEpoch d = EpochHandshake then
                (case install lb (seSuite s) d EpochApplication secret of
                   Inr d' \<Rightarrow>
                     (case openWith (seSuite s) (seTls13 s) d' r of
                        Inr (plain, inner) \<Rightarrow> (Inr (plain, inner, True), d')
                      | Inl _ \<Rightarrow> (Inl err, d))
                 | Inl _ \<Rightarrow> (Inl err, d))
              else (Inl err, d)
          | None \<Rightarrow> (Inl err, d)))"

section \<open>Handshake messages that change keys\<close>

function scan_handshake :: "bool \<Rightarrow> dirState \<Rightarrow> dirState" where
  "scan_handshake tls13 d =
    (let off = dsScanned d; buf = dsBuf d
     in if length buf - off < 4 then d
        else
          let typ = buf ! off; len = be_val (subslice buf (off + 1) (off + 4))
          in if len > MaxHandshakeMessage then d\<lparr>dsScanned := length buf\<rparr>
             else if length buf - off - 4 < len then d
             else scan_handshake tls13
               (d\<lparr>dsScanned := off + 4 + len,
                  dsPendingSwitch := dsPendingSwitch d \<or> typ = HandshakeFinished \<and> tls13,
                  dsPendingUpdate := dsPendingUpdate d \<or> typ = HandshakeKeyUpdate \<and> tls13\<rparr>))"
  by pat_completeness auto
termination by (relation "measure (\<lambda>(t, d). length (dsBuf d) - dsScanned d)") auto

declare scan_handshake.simps [simp del]

definition noteHandshake :: "bool \<Rightarrow> dirState \<Rightarrow> plaintext \<Rightarrow> dirState" where
  "noteHandshake tls13 d p =
    (if plType p \<noteq> ContentHandshake \<or> length (plData p) = 0 then d
     else scan_handshake tls13
       (d\<lparr>dsFrags := dsFrags d @ [\<lparr>fgData = plData p, fgRecord = int (rcIndex (plRecord p)),
                                    fgPackets = rcPackets (plRecord p)\<rparr>],
          dsBuf := dsBuf d @ plData p\<rparr>))"

definition apply_switch :: "library \<Rightarrow> suiteParams \<Rightarrow> dirState \<Rightarrow> dirState" where
  "apply_switch lb suite d0 =
    (if dsPendingSwitch d0 then
       let d = d0\<lparr>dsPendingSwitch := False\<rparr>
       in case dsApplicationSecret d of
            None \<Rightarrow> d
          | Some secret \<Rightarrow>
              if dsEpoch d = EpochHandshake then
                (case install lb suite d EpochApplication secret of Inl _ \<Rightarrow> d | Inr d' \<Rightarrow> d')
              else d
     else d0)"

definition apply_update :: "library \<Rightarrow> suiteParams \<Rightarrow> dirState \<Rightarrow> dirState" where
  "apply_update lb suite d0 =
    (if dsPendingUpdate d0 then
       let d = d0\<lparr>dsPendingUpdate := False\<rparr>
       in case nextTrafficSecret lb (spHash suite) (dsSecret d) of
            Inl _ \<Rightarrow> d
          | Inr next_secret \<Rightarrow>
              (case install lb suite d (dsEpoch d) next_secret of
                 Inl _ \<Rightarrow> d | Inr d' \<Rightarrow> d'\<lparr>dsGeneration := dsGeneration d + 1\<rparr>)
     else d0)"

definition applyPending :: "library \<Rightarrow> suiteParams \<Rightarrow> dirState \<Rightarrow> dirState" where
  "applyPending lb suite d = apply_update lb suite (apply_switch lb suite d)"

section \<open>Decryption\<close>

definition isEncrypted :: "session \<Rightarrow> dirState \<Rightarrow> tlsRecord \<Rightarrow> bool" where
  "isEncrypted s d r \<longleftrightarrow> (if seTls13 s then rcType r = ContentApplicationData else dsEpoch d \<noteq> EpochPlaintext)"

definition startTLS12Encryption :: "library \<Rightarrow> suiteParams \<Rightarrow> dirState \<Rightarrow> open_reason + dirState" where
  "startTLS12Encryption lb suite d =
    (if dsEpoch d \<noteq> EpochPlaintext then Inr d
     else case new_cipher lb (spNew suite) (dsKey12 d) of
       Inl e \<Rightarrow> Inl (CannotBuild (spName suite) e)
     | Inr a \<Rightarrow> Inr (d\<lparr>dsAead := Some a, dsIV := dsIV12 d, dsEpoch := EpochApplication, dsSeq := 0\<rparr>))"

definition plain_record :: "side \<Rightarrow> tlsRecord \<Rightarrow> u64 \<Rightarrow> epoch \<Rightarrow> plaintext" where
  "plain_record side r seq epoch =
    \<lparr>plSide = side, plType = rcType r, plData = rcFragment r, plRecord = r, plSeq = seq, plEpoch = epoch,
     plEncrypted = False, plEpochRecovered = False\<rparr>"

definition Decrypt_dir :: "library \<Rightarrow> session \<Rightarrow> side \<Rightarrow> dirState \<Rightarrow> tlsRecord \<Rightarrow> (decrypt_error + plaintext) \<times> dirState" where
  "Decrypt_dir lb s side d r =
    (if rcType r = ContentChangeCipherSpec then
       (case (if seTls13 s then Inr d else startTLS12Encryption lb (seSuite s) d) of
          Inl e \<Rightarrow> (Inl ((open_error d r e)\<lparr>deSide := side, deSeq := 0\<rparr>), d)
        | Inr d' \<Rightarrow> (Inr (plain_record side r (dsSeq d') (dsEpoch d')), d'))
     else if \<not> isEncrypted s d r then
       (let p = plain_record side r (dsSeq d) EpochPlaintext in (Inr p, noteHandshake (seTls13 s) d p))
     else
       (case open_record lb s d r of
          (Inl e, d') \<Rightarrow> (Inl e, d')
        | (Inr (plain, inner, recovered), d') \<Rightarrow>
            let p = \<lparr>plSide = side, plType = inner, plData = plain, plRecord = r, plSeq = dsSeq d',
                     plEpoch = dsEpoch d', plEncrypted = True, plEpochRecovered = recovered\<rparr>
            in (Inr p, applyPending lb (seSuite s) (noteHandshake (seTls13 s) (d'\<lparr>dsSeq := dsSeq d' + 1\<rparr>) p))))"

definition Decrypt :: "library \<Rightarrow> session \<Rightarrow> side \<Rightarrow> tlsRecord \<Rightarrow> (decrypt_error + plaintext) \<times> session" where
  "Decrypt lb s side r =
    (case Decrypt_dir lb s side (seDirs s side) r of (x, d) \<Rightarrow> (x, s\<lparr>seDirs := (seDirs s)(side := d)\<rparr>))"

fun DecryptAll :: "library \<Rightarrow> session \<Rightarrow> side \<Rightarrow> tlsRecord list \<Rightarrow> (plaintext list \<times> decrypt_error option) \<times> session" where
  "DecryptAll lb s side [] = (([], None), s)"
| "DecryptAll lb s side (r # rs) =
    (case Decrypt lb s side r of
       (Inl e, s') \<Rightarrow> (([], Some e), s')
     | (Inr p, s') \<Rightarrow> (case DecryptAll lb s' side rs of ((ps, e), s'') \<Rightarrow> ((p # ps, e), s'')))"

section \<open>What a caller reads\<close>

definition SessionHandshake :: "'i cert_parser \<Rightarrow> session \<Rightarrow> side \<Rightarrow> 'i handshakeStream \<times> tls_error option" where
  "SessionHandshake pci s side = ParseHandshake pci (dsFrags (seDirs s side)) (seTls13 s)"

definition SessionFragments :: "session \<Rightarrow> side \<Rightarrow> fragment list" where "SessionFragments s side = dsFrags (seDirs s side)"
definition SessionEpoch :: "session \<Rightarrow> side \<Rightarrow> epoch" where "SessionEpoch s side = dsEpoch (seDirs s side)"
definition SequenceNumber :: "session \<Rightarrow> side \<Rightarrow> u64" where "SequenceNumber s side = dsSeq (seDirs s side)"

definition AppData :: "plaintext list \<Rightarrow> bytes" where
  "AppData ps = concat (map plData (filter (\<lambda>p. plType p = ContentApplicationData) ps))"

fun session_alert_pairs :: "tlsRecord \<Rightarrow> bytes \<Rightarrow> alert list" where
  "session_alert_pairs r (l # d # bs) =
    \<lparr>alLevel = l, alDescription = d, alEncrypted = False, alRecord = rcIndex r, alOffset = rcOffset r,
     alPackets = rcPackets r\<rparr> # session_alert_pairs r bs"
| "session_alert_pairs r _ = []"

definition SessionAlerts :: "plaintext list \<Rightarrow> alert list" where
  "SessionAlerts ps =
    concat (map (\<lambda>p. session_alert_pairs (plRecord p) (plData p)) (filter (\<lambda>p. plType p = ContentAlert) ps))"

datatype params_error = NoClientHandshake | NoServerHandshake | NoClientHelloMessage | NoServerHelloMessage
  | OnlyHelloRetryRequest

definition is_real_hello :: "'i handshakeMessage \<Rightarrow> bool" where
  "is_real_hello m \<longleftrightarrow> hmType m = HandshakeServerHello \<and>
    (case hmServerHello m of None \<Rightarrow> False | Some sh \<Rightarrow> \<not> shIsHelloRetryRequest sh)"

definition server_hello_of :: "'i handshakeStream \<Rightarrow> params_error + serverHello" where
  "server_hello_of h =
    (case Find h HandshakeServerHello of
       None \<Rightarrow> Inl NoServerHelloMessage
     | Some m \<Rightarrow>
         (case hmServerHello m of
            None \<Rightarrow> Inl NoServerHelloMessage
          | Some sh \<Rightarrow>
              if \<not> shIsHelloRetryRequest sh then Inr sh
              else case find is_real_hello (hsMessages h) of
                None \<Rightarrow> Inl OnlyHelloRetryRequest
              | Some m' \<Rightarrow> Inr (the (hmServerHello m'))))"

definition ParamsFromHandshake :: "'i tlsDirection option \<Rightarrow> 'i tlsDirection option \<Rightarrow> params_error + params" where
  "ParamsFromHandshake client server =
    (case client of None \<Rightarrow> Inl NoClientHandshake
     | Some c \<Rightarrow>
       (case server of None \<Rightarrow> Inl NoServerHandshake
        | Some v \<Rightarrow>
          (case Option.bind (Find (tdHandshake c) HandshakeClientHello) hmClientHello of
             None \<Rightarrow> Inl NoClientHelloMessage
           | Some ch \<Rightarrow>
             map_sum id (\<lambda>sh. \<lparr>prVersion = NegotiatedVersion sh, prCipherSuite = shCipherSuite sh,
                prClientRandom = chRandom ch, prServerRandom = shRandom sh\<rparr>) (server_hello_of (tdHandshake v)))))"

section \<open>The record layer of the RFCs\<close>

text \<open>What a sender holding the keys puts on the wire: RFC 8446, section 5.2, and RFC 5246, section 6.2.3.3 with
  the nonces of RFC 5288, 6655 and 7905.\<close>

definition sealed13 :: "cipher \<Rightarrow> bytes \<Rightarrow> u64 \<Rightarrow> bytes \<Rightarrow> byte \<Rightarrow> tlsRecord \<Rightarrow> bool" where
  "sealed13 a iv seq data t r \<longleftrightarrow> t \<noteq> 0 \<and>
    (\<exists>pad. cipher_Seal a [] (xorSeq iv seq) (data @ [t] @ replicate pad 0) (aad13 r) = Some (rcFragment r))"

definition sealed12 :: "nat \<Rightarrow> cipher \<Rightarrow> bytes \<Rightarrow> u64 \<Rightarrow> bytes \<Rightarrow> byte \<Rightarrow> tlsRecord \<Rightarrow> bool" where
  "sealed12 n a iv seq data t r \<longleftrightarrow> t = rcType r \<and>
    (\<exists>explicit ct. length explicit = n \<and> rcFragment r = explicit @ ct \<and>
      cipher_Seal a [] (if n > 0 then iv @ explicit else xorSeq iv seq) data (aad12 seq r (length data)) = Some ct)"

definition sealed :: "suiteParams \<Rightarrow> bool \<Rightarrow> cipher \<Rightarrow> bytes \<Rightarrow> u64 \<Rightarrow> bytes \<Rightarrow> byte \<Rightarrow> tlsRecord \<Rightarrow> bool" where
  "sealed suite tls13 a iv seq data t r \<longleftrightarrow>
    (if tls13 then sealed13 a iv seq data t r else sealed12 (spRecordIVLen suite) a iv seq data t r)"

lemma content_end_le: "content_end out n \<le> n"
  by (induction n) simp_all

lemma content_end_zeros: "content_end out n \<le> i \<Longrightarrow> i < n \<Longrightarrow> out ! i = 0"
  by (induction n) (auto simp: less_Suc_eq split: if_splits)

lemma content_end_nonzero: "content_end out n = Suc i \<Longrightarrow> out ! i \<noteq> 0"
  by (induction n) (auto split: if_splits)

lemma content_end_padding:
  "t \<noteq> 0 \<Longrightarrow> k \<le> pad \<Longrightarrow> content_end (data @ t # replicate pad 0) (length data + Suc k) = Suc (length data)"
  by (induction k) (simp_all add: nth_append)

lemma StripPadding_iff:
  "StripPadding out = Some (data, t) \<longleftrightarrow> t \<noteq> 0 \<and> (\<exists>pad. out = data @ [t] @ replicate pad 0)"
proof
  assume "StripPadding out = Some (data, t)"
  then obtain i where i: "content_end out (length out) = Suc i" and d: "data = take i out" "t = out ! i"
    by (auto simp: StripPadding_def split: nat.splits)
  have lt: "i < length out" using content_end_le [of out "length out"] i by simp
  have "drop (Suc i) out = replicate (length out - Suc i) 0"
    using i content_end_zeros [of out "length out"] by (intro nth_equalityI) simp_all
  then have "out = data @ [t] @ replicate (length out - Suc i) 0"
    using id_take_nth_drop [OF lt] d by simp
  then show "t \<noteq> 0 \<and> (\<exists>pad. out = data @ [t] @ replicate pad 0)"
    using content_end_nonzero [OF i] d(2) by (metis (no_types))
next
  assume "t \<noteq> 0 \<and> (\<exists>pad. out = data @ [t] @ replicate pad 0)"
  then obtain pad where "t \<noteq> 0" "out = data @ t # replicate pad 0" by auto
  then show "StripPadding out = Some (data, t)"
    using content_end_padding [of t pad pad data] by (simp add: StripPadding_def)
qed

text \<open>A direction whose installed cipher fits the suite.\<close>

definition cipher_fits :: "suiteParams \<Rightarrow> bool \<Rightarrow> cipher \<Rightarrow> bytes \<Rightarrow> bool" where
  "cipher_fits suite tls13 a iv \<longleftrightarrow> cipher_wf a \<and> cipher_NonceSize a = 12 \<and> cipher_Overhead a = spTagLen suite \<and>
    length iv = spFixedIVLen suite"

lemma openWith_sealed:
  assumes "dsAead d = Some a" "cipher_fits suite tls13 a (dsIV d)"
  shows "openWith suite tls13 d r = Inr (data, t) \<longleftrightarrow> sealed suite tls13 a (dsIV d) (dsSeq d) data t r"
proof (cases tls13)
  case True
  have "openWith suite tls13 d r = Inr (data, t) \<longleftrightarrow>
      (\<exists>out. cipher_Open a [] (xorSeq (dsIV d) (dsSeq d)) (rcFragment r) (aad13 r) = Inr out \<and>
         StripPadding out = Some (data, t))"
    using assms(1) True by (simp add: openWith_def Let_def split: sum.splits option.splits)
  also have "\<dots> \<longleftrightarrow> sealed13 a (dsIV d) (dsSeq d) data t r"
    using assms(2) by (auto simp: StripPadding_iff cipher.opens_iff cipher_fits_def sealed13_def)
  finally show ?thesis using True by (simp add: sealed_def)
next
  case False
  let ?n = "spRecordIVLen suite" and ?f = "rcFragment r"
  let ?nonce = "if ?n > 0 then dsIV d @ take ?n ?f else xorSeq (dsIV d) (dsSeq d)"
  have wf: "cipher_wf a" "cipher_Overhead a = spTagLen suite" using assms(2) by (simp_all add: cipher_fits_def)
  have "openWith suite tls13 d r = Inr (data, t) \<longleftrightarrow> ?n + spTagLen suite \<le> length ?f \<and> t = rcType r \<and>
      cipher_Open a [] ?nonce (drop ?n ?f) (aad12 (dsSeq d) r (length (drop ?n ?f) - spTagLen suite)) = Inr data"
    using assms(1) False by (auto simp: openWith_def Let_def not_less split: sum.splits)
  also have "\<dots> \<longleftrightarrow> sealed12 ?n a (dsIV d) (dsSeq d) data t r"
  proof
    assume l: "?n + spTagLen suite \<le> length ?f \<and> t = rcType r \<and>
      cipher_Open a [] ?nonce (drop ?n ?f) (aad12 (dsSeq d) r (length (drop ?n ?f) - spTagLen suite)) = Inr data"
    then have seal: "cipher_Seal a [] ?nonce data (aad12 (dsSeq d) r (length (drop ?n ?f) - spTagLen suite)) = Some (drop ?n ?f)"
      using wf cipher.opens_iff by blast
    have len: "length (drop ?n ?f) - spTagLen suite = length data"
      using cipher.seal_appends [OF wf(1) seal] wf(2) by auto
    have "length (take ?n ?f) = ?n" "?f = take ?n ?f @ drop ?n ?f" using l by simp_all
    then show "sealed12 ?n a (dsIV d) (dsSeq d) data t r"
      using l seal unfolding sealed12_def len by blast
  next
    assume "sealed12 ?n a (dsIV d) (dsSeq d) data t r"
    then obtain explicit ct where x: "t = rcType r" "length explicit = ?n" "?f = explicit @ ct"
      and "cipher_Seal a [] (if ?n > 0 then dsIV d @ explicit else xorSeq (dsIV d) (dsSeq d)) data
        (aad12 (dsSeq d) r (length data)) = Some ct"
      unfolding sealed12_def by blast
    then have seal: "cipher_Seal a [] ?nonce data (aad12 (dsSeq d) r (length data)) = Some ct" by (auto split: if_splits)
    have "length ct = length data + spTagLen suite" using cipher.seal_appends [OF wf(1) seal] wf(2) by auto
    then show "?n + spTagLen suite \<le> length ?f \<and> t = rcType r \<and>
      cipher_Open a [] ?nonce (drop ?n ?f) (aad12 (dsSeq d) r (length (drop ?n ?f) - spTagLen suite)) = Inr data"
      using x seal wf cipher.opens_iff by simp
  qed
  finally show ?thesis using False by (simp add: sealed_def)
qed


section \<open>The session invariant\<close>

text \<open>Which secrets of the key log a side may use, and the keys they give.\<close>

fun handshake_label :: "side \<Rightarrow> string" where
  "handshake_label Client = LabelClientHandshake"
| "handshake_label Server = LabelServerHandshake"

fun traffic_label :: "side \<Rightarrow> string" where
  "traffic_label Client = LabelClientTraffic0"
| "traffic_label Server = LabelServerTraffic0"

definition rotate_secret :: "library \<Rightarrow> hash_id \<Rightarrow> bytes \<Rightarrow> bytes" where
  "rotate_secret lb h secret = (case nextTrafficSecret lb h secret of Inl _ \<Rightarrow> [] | Inr s \<Rightarrow> s)"

definition derived :: "library \<Rightarrow> suiteParams \<Rightarrow> bytes \<Rightarrow> cipher \<Rightarrow> bytes \<Rightarrow> bool" where
  "derived lb suite secret a iv \<longleftrightarrow>
    (\<exists>key. trafficKeys lb (spHash suite) secret (spKeyLen suite) (spFixedIVLen suite) = Inr (key, iv) \<and>
      new_cipher lb (spNew suite) key = Inr a)"

definition log_secret :: "library \<Rightarrow> keylog \<Rightarrow> session \<Rightarrow> side \<Rightarrow> bytes \<Rightarrow> bool" where
  "log_secret lb kl s side secret \<longleftrightarrow>
    (\<exists>label base g. (label = handshake_label side \<or> label = traffic_label side) \<and>
      Secret kl label (prClientRandom (seParams s)) = Some base \<and>
      secret = (rotate_secret lb (spHash (seSuite s)) ^^ g) base)"

definition block12 :: "library \<Rightarrow> keylog \<Rightarrow> session \<Rightarrow> side \<Rightarrow> bytes \<Rightarrow> bytes \<Rightarrow> bool" where
  "block12 lb kl s side key iv \<longleftrightarrow>
    (\<exists>master. MasterSecret kl (prClientRandom (seParams s)) = Some master \<and>
      (case keyBlock12 lb (seSuite s) master (prClientRandom (seParams s)) (prServerRandom (seParams s)) of
         (ck, sk, civ, siv) \<Rightarrow> (case side of Client \<Rightarrow> key = ck \<and> iv = civ | Server \<Rightarrow> key = sk \<and> iv = siv)))"

text \<open>The keys a record of a side may be protected with.\<close>

definition log_keys :: "library \<Rightarrow> keylog \<Rightarrow> session \<Rightarrow> side \<Rightarrow> cipher \<Rightarrow> bytes \<Rightarrow> bool" where
  "log_keys lb kl s side a iv \<longleftrightarrow>
    (if seTls13 s then \<exists>secret. log_secret lb kl s side secret \<and> derived lb (seSuite s) secret a iv
     else \<exists>key. block12 lb kl s side key iv \<and> new_cipher lb (spNew (seSuite s)) key = Inr a)"

definition keys13 :: "library \<Rightarrow> keylog \<Rightarrow> session \<Rightarrow> side \<Rightarrow> dirState \<Rightarrow> bool" where
  "keys13 lb kl s side d \<longleftrightarrow>
    dsHandshakeSecret d = Secret kl (handshake_label side) (prClientRandom (seParams s)) \<and>
    dsApplicationSecret d = Secret kl (traffic_label side) (prClientRandom (seParams s)) \<and>
    dsEpoch d \<noteq> EpochPlaintext \<and> log_secret lb kl s side (dsSecret d) \<and>
    (\<exists>a. dsAead d = Some a \<and> derived lb (seSuite s) (dsSecret d) a (dsIV d))"

definition keys12 :: "library \<Rightarrow> keylog \<Rightarrow> session \<Rightarrow> side \<Rightarrow> dirState \<Rightarrow> bool" where
  "keys12 lb kl s side d \<longleftrightarrow> block12 lb kl s side (dsKey12 d) (dsIV12 d) \<and> \<not> dsPendingSwitch d \<and> \<not> dsPendingUpdate d \<and>
    (case dsAead d of None \<Rightarrow> dsEpoch d = EpochPlaintext
     | Some a \<Rightarrow> dsEpoch d = EpochApplication \<and> dsIV d = dsIV12 d \<and> new_cipher lb (spNew (seSuite s)) (dsKey12 d) = Inr a)"

definition side_ok :: "library \<Rightarrow> keylog \<Rightarrow> session \<Rightarrow> side \<Rightarrow> dirState \<Rightarrow> bool" where
  "side_ok lb kl s side d \<longleftrightarrow> dsSide d = side \<and> dsScanned d \<le> length (dsBuf d) \<and>
    dsBuf d = concat (map fgData (dsFrags d)) \<and>
    (if seTls13 s then keys13 lb kl s side d else keys12 lb kl s side d)"

definition session_ok :: "library \<Rightarrow> keylog \<Rightarrow> session \<Rightarrow> bool" where
  "session_ok lb kl s \<longleftrightarrow> suite_ok (seSuite s) \<and> (seTls13 s \<longrightarrow> spFixedIVLen (seSuite s) = 12) \<and>
    (\<forall>side. side_ok lb kl s side (seDirs s side))"

lemma derived_exists:
  assumes "suite_ok suite"
  shows "\<exists>a iv. derived lb suite secret a iv \<and>
    (\<forall>d epoch. install lb suite d epoch secret =
      Inr (d\<lparr>dsAead := Some a, dsIV := iv, dsSecret := secret, dsEpoch := epoch, dsSeq := 0\<rparr>))"
proof -
  have "spKeyLen suite \<le> 255 * hash_size (spHash suite)" "spFixedIVLen suite \<le> 255 * hash_size (spHash suite)"
    using assms by (cases "spHash suite"; auto simp: suite_ok_def)+
  then obtain key iv where k: "trafficKeys lb (spHash suite) secret (spKeyLen suite) (spFixedIVLen suite) = Inr (key, iv)"
      "length key = spKeyLen suite"
    using trafficKeys_total by blast
  moreover obtain a where "new_cipher lb (spNew suite) key = Inr a"
    using suite_ok_builds [OF assms k(2)] by blast
  ultimately show ?thesis by (intro exI [of _ a] exI [of _ iv]) (simp add: derived_def install_def)
qed

lemma install_derived:
  assumes "suite_ok suite" "install lb suite d epoch secret = Inr d'"
  shows "\<exists>a iv. derived lb suite secret a iv \<and>
    d' = d\<lparr>dsAead := Some a, dsIV := iv, dsSecret := secret, dsEpoch := epoch, dsSeq := 0\<rparr>"
  using derived_exists [OF assms(1), of lb secret] assms(2) by (metis sum.inject(2))

lemma derived_fits: "suite_ok suite \<Longrightarrow> derived lb suite secret a iv \<Longrightarrow> cipher_fits suite t a iv"
  unfolding derived_def cipher_fits_def using suite_ok_builds length_trafficKeys by (metis sum.inject(2))

lemma block12_fits:
  assumes "suite_ok (seSuite s)" "block12 lb kl s side key iv" "new_cipher lb (spNew (seSuite s)) key = Inr a"
  shows "cipher_fits (seSuite s) t a iv"
proof -
  obtain master ck sk civ siv
    where k: "keyBlock12 lb (seSuite s) master (prClientRandom (seParams s)) (prServerRandom (seParams s)) = (ck, sk, civ, siv)"
      and m: "case side of Client \<Rightarrow> key = ck \<and> iv = civ | Server \<Rightarrow> key = sk \<and> iv = siv"
    using assms(2) unfolding block12_def by (metis (no_types, lifting) case_prodE)
  then have "length key = spKeyLen (seSuite s) \<and> length iv = spFixedIVLen (seSuite s)"
    using length_keyBlock12 [OF k] by (auto split: side.splits)
  then show ?thesis using suite_ok_builds [OF assms(1), of key lb] assms(3) by (auto simp: cipher_fits_def)
qed

lemma log_keys_fit: "suite_ok (seSuite s) \<Longrightarrow> log_keys lb kl s side a iv \<Longrightarrow> cipher_fits (seSuite s) t a iv"
  by (auto simp: log_keys_def intro: derived_fits block12_fits split: if_splits)

lemma side_ok_keys: "side_ok lb kl s side d \<Longrightarrow> dsAead d = Some a \<Longrightarrow> log_keys lb kl s side a (dsIV d)"
  by (auto simp: side_ok_def keys13_def keys12_def log_keys_def split: if_splits)

text \<open>What noting a handshake payload keeps.\<close>

lemma scan_handshake_keeps [simp]:
  "dsSide (scan_handshake t d) = dsSide d \<and> dsEpoch (scan_handshake t d) = dsEpoch d \<and>
   dsSeq (scan_handshake t d) = dsSeq d \<and> dsAead (scan_handshake t d) = dsAead d \<and>
   dsIV (scan_handshake t d) = dsIV d \<and> dsSecret (scan_handshake t d) = dsSecret d \<and>
   dsGeneration (scan_handshake t d) = dsGeneration d \<and>
   dsHandshakeSecret (scan_handshake t d) = dsHandshakeSecret d \<and>
   dsApplicationSecret (scan_handshake t d) = dsApplicationSecret d \<and>
   dsKey12 (scan_handshake t d) = dsKey12 d \<and> dsIV12 (scan_handshake t d) = dsIV12 d \<and>
   dsFrags (scan_handshake t d) = dsFrags d \<and> dsBuf (scan_handshake t d) = dsBuf d"
  by (induction t d rule: scan_handshake.induct) (subst (1 2 3 4 5 6 7 8 9 10 11 12 13) scan_handshake.simps, simp add: Let_def)

lemma scan_handshake_scanned:
  "dsScanned d \<le> length (dsBuf d) \<Longrightarrow> dsScanned (scan_handshake t d) \<le> length (dsBuf d)"
  by (induction t d rule: scan_handshake.induct) (subst scan_handshake.simps, simp add: Let_def)

lemma scan_handshake_tls12:
  "\<not> t \<Longrightarrow> dsPendingSwitch (scan_handshake t d) = dsPendingSwitch d \<and> dsPendingUpdate (scan_handshake t d) = dsPendingUpdate d"
  by (induction t d rule: scan_handshake.induct) (subst (1 2) scan_handshake.simps, simp add: Let_def)

lemma noteHandshake_ok: "side_ok lb kl s side d \<Longrightarrow> side_ok lb kl s side (noteHandshake (seTls13 s) d p)"
  using scan_handshake_scanned [of "d\<lparr>dsFrags := dsFrags d @ [\<lparr>fgData = plData p, fgRecord = int (rcIndex (plRecord p)),
      fgPackets = rcPackets (plRecord p)\<rparr>], dsBuf := dsBuf d @ plData p\<rparr>" "seTls13 s"]
  by (auto simp: noteHandshake_def side_ok_def keys13_def keys12_def scan_handshake_tls12 split: option.splits)

lemma seq_ok: "side_ok lb kl s side (d\<lparr>dsSeq := n\<rparr>) = side_ok lb kl s side d"
  by (simp add: side_ok_def keys13_def keys12_def split: option.splits)

lemma pending_ok: "seTls13 s \<Longrightarrow> side_ok lb kl s side (d\<lparr>dsPendingSwitch := b\<rparr>) = side_ok lb kl s side d"
  "seTls13 s \<Longrightarrow> side_ok lb kl s side (d\<lparr>dsPendingUpdate := b\<rparr>) = side_ok lb kl s side d"
  "side_ok lb kl s side (d\<lparr>dsGeneration := n\<rparr>) = side_ok lb kl s side d"
  by (simp_all add: side_ok_def keys13_def keys12_def split: option.splits)

text \<open>Installing a secret of the log for the side keeps the invariant.\<close>

lemma install_ok:
  assumes "suite_ok (seSuite s)" "seTls13 s" "side_ok lb kl s side d" "log_secret lb kl s side secret"
    "epoch \<noteq> EpochPlaintext" "install lb (seSuite s) d epoch secret = Inr d'"
  shows "side_ok lb kl s side d'"
  using install_derived [OF assms(1,6)] assms(2-5) by (auto simp: side_ok_def keys13_def)

lemma application_secret_logged:
  "seTls13 s \<Longrightarrow> side_ok lb kl s side d \<Longrightarrow> dsApplicationSecret d = Some secret \<Longrightarrow> log_secret lb kl s side secret"
  unfolding side_ok_def keys13_def log_secret_def by (metis funpow_0)

lemma rotated_logged:
  assumes "log_secret lb kl s side secret"
  shows "log_secret lb kl s side (rotate_secret lb (spHash (seSuite s)) secret)"
proof -
  obtain label base g where "label = handshake_label side \<or> label = traffic_label side"
    "Secret kl label (prClientRandom (seParams s)) = Some base"
    "rotate_secret lb (spHash (seSuite s)) secret = (rotate_secret lb (spHash (seSuite s)) ^^ Suc g) base"
    using assms by (auto simp: log_secret_def)
  then show ?thesis unfolding log_secret_def by blast
qed

lemma apply_switch_ok:
  assumes "suite_ok (seSuite s)" "side_ok lb kl s side d"
  shows "side_ok lb kl s side (apply_switch lb (seSuite s) d)"
proof (cases "dsPendingSwitch d")
  case True
  let ?d = "d\<lparr>dsPendingSwitch := False\<rparr>"
  have t: "seTls13 s" using True assms(2) by (auto simp: side_ok_def keys12_def split: if_splits)
  then have d: "side_ok lb kl s side ?d" using assms(2) by (simp only: pending_ok)
  have "install lb (seSuite s) ?d EpochApplication secret = Inr d' \<Longrightarrow> dsApplicationSecret d = Some secret \<Longrightarrow>
      side_ok lb kl s side d'" for secret d'
    by (rule install_ok [OF assms(1) t d application_secret_logged [OF t assms(2)]]) simp_all
  with True d show ?thesis by (simp add: apply_switch_def Let_def split: option.split sum.split)
qed (simp add: apply_switch_def assms)

lemma apply_update_ok:
  assumes "suite_ok (seSuite s)" "side_ok lb kl s side d"
  shows "side_ok lb kl s side (apply_update lb (seSuite s) d)"
proof (cases "dsPendingUpdate d")
  case True
  let ?d = "d\<lparr>dsPendingUpdate := False\<rparr>"
  have t: "seTls13 s" using True assms(2) by (auto simp: side_ok_def keys12_def split: if_splits)
  then have d: "side_ok lb kl s side ?d" using assms(2) by (simp only: pending_ok)
  from t assms(2) have k: "log_secret lb kl s side (dsSecret d)" "dsEpoch d \<noteq> EpochPlaintext"
    by (simp_all add: side_ok_def keys13_def)
  have "nextTrafficSecret lb (spHash (seSuite s)) (dsSecret d) = Inr x \<Longrightarrow> log_secret lb kl s side x" for x
    using rotated_logged [OF k(1)] by (simp add: rotate_secret_def)
  then have "nextTrafficSecret lb (spHash (seSuite s)) (dsSecret d) = Inr x \<Longrightarrow>
      install lb (seSuite s) ?d (dsEpoch d) x = Inr d' \<Longrightarrow> side_ok lb kl s side d'" for x d'
    using k(2) by (intro install_ok [OF assms(1) t d, of x]) simp_all
  with True d show ?thesis by (simp add: apply_update_def Let_def pending_ok split: sum.split)
qed (simp add: apply_update_def assms)

lemma startTLS12Encryption_ok:
  "\<not> seTls13 s \<Longrightarrow> side_ok lb kl s side d \<Longrightarrow> startTLS12Encryption lb (seSuite s) d = Inr d' \<Longrightarrow> side_ok lb kl s side d'"
  by (auto simp: startTLS12Encryption_def side_ok_def keys12_def split: if_splits sum.splits option.splits)

text \<open>Opening a record either leaves the direction as it was or moves it to its application keys.\<close>

lemma open_record_cases:
  assumes "open_record lb s d r = (x, d')"
  obtains (Same) "d' = d" "x = map_sum id (\<lambda>(p, t). (p, t, False)) (openWith (seSuite s) (seTls13 s) d r)"
  | (Moved) secret plain inner where "seTls13 s" "dsEpoch d = EpochHandshake" "dsApplicationSecret d = Some secret"
      "install lb (seSuite s) d EpochApplication secret = Inr d'"
      "openWith (seSuite s) (seTls13 s) d' r = Inr (plain, inner)" "x = Inr (plain, inner, True)"
      "\<exists>e. openWith (seSuite s) (seTls13 s) d r = Inl e"
proof (cases "openWith (seSuite s) (seTls13 s) d r")
  case (Inr y)
  then show ?thesis using assms by (cases y) (auto simp: open_record_def intro: Same)
next
  case (Inl e)
  then show ?thesis
    using assms Same Moved by (auto simp: open_record_def split: option.splits if_splits sum.splits)
qed

lemma open_record_ok:
  assumes "suite_ok (seSuite s)" "side_ok lb kl s side d" "open_record lb s d r = (x, d')"
  shows "side_ok lb kl s side d'"
  using assms(3)
proof (cases rule: open_record_cases)
  case (Moved secret plain inner)
  then show ?thesis
    by (intro install_ok [OF assms(1) _ assms(2) application_secret_logged [OF _ assms(2)]]) simp_all
qed (simp add: assms)

lemma Decrypt_dir_ok:
  assumes "suite_ok (seSuite s)" "side_ok lb kl s side d"
  shows "side_ok lb kl s side (snd (Decrypt_dir lb s side d r))"
proof -
  have "open_record lb s d r = (x, d') \<Longrightarrow>
      side_ok lb kl s side (applyPending lb (seSuite s) (noteHandshake (seTls13 s) (d'\<lparr>dsSeq := n\<rparr>) p))" for x d' n p
    using assms open_record_ok [OF assms, of r x d']
    by (simp add: applyPending_def apply_update_ok apply_switch_ok noteHandshake_ok seq_ok)
  then show ?thesis
    using assms open_record_ok [OF assms, of r]
    by (auto simp: Decrypt_dir_def Let_def noteHandshake_ok split: sum.splits prod.splits
        intro: startTLS12Encryption_ok)
qed

lemma Decrypt_eq:
  "Decrypt lb s side r = (fst (Decrypt_dir lb s side (seDirs s side) r),
     s\<lparr>seDirs := (seDirs s)(side := snd (Decrypt_dir lb s side (seDirs s side) r))\<rparr>)"
  by (simp add: Decrypt_def case_prod_unfold)

lemma side_ok_dirs: "side_ok lb kl (s\<lparr>seDirs := f\<rparr>) side d = side_ok lb kl s side d"
  by (simp add: side_ok_def keys13_def keys12_def log_secret_def block12_def split: option.splits)

lemma side_ok_cong:
  "seParams s = seParams t \<Longrightarrow> seSuite s = seSuite t \<Longrightarrow> seTls13 s = seTls13 t \<Longrightarrow>
   side_ok lb kl s side d = side_ok lb kl t side d"
  by (simp add: side_ok_def keys13_def keys12_def log_secret_def block12_def split: option.splits)

lemma Decrypt_ok: "session_ok lb kl s \<Longrightarrow> session_ok lb kl (snd (Decrypt lb s side r))"
  by (simp add: session_ok_def Decrypt_eq side_ok_dirs Decrypt_dir_ok)

lemma all_sides: "(\<forall>side. P side) \<longleftrightarrow> P Client \<and> P Server"
  by (metis side.exhaust)

lemma map_sum_Inr: "map_sum f id x = Inr y \<longleftrightarrow> x = Inr y"
  by (cases x) simp_all

lemma init_side_ok:
  assumes "suite_ok (seSuite s)" "seTls13 s"
    and "init_side lb (seSuite s) kl (prClientRandom (seParams s)) (handshake_label side) (traffic_label side)
      (fresh_dir side) = Inr d"
  shows "side_ok lb kl s side d"
proof -
  let ?cr = "prClientRandom (seParams s)"
  let ?d = "(fresh_dir side)\<lparr>dsHandshakeSecret := Secret kl (handshake_label side) ?cr,
    dsApplicationSecret := Secret kl (traffic_label side) ?cr\<rparr>"
  obtain label secret epoch where l: "label = handshake_label side \<or> label = traffic_label side"
      "Secret kl label ?cr = Some secret" "epoch \<noteq> EpochPlaintext" "install lb (seSuite s) ?d epoch secret = Inr d"
    using assms(3) by (auto simp: init_side_def Let_def map_sum_Inr split: option.splits)
  then have "log_secret lb kl s side secret" unfolding log_secret_def by (metis funpow_0)
  with install_derived [OF assms(1) l(4)] l(3) assms(2) show ?thesis
    by (auto simp: side_ok_def keys13_def fresh_dir_def)
qed

lemma NewSession_ok:
  assumes "NewSession lb p (Some kl) = Inr s"
  shows "session_ok lb kl s"
proof -
  obtain suite where suite: "suiteFor (prVersion p) (prCipherSuite p) = Inr suite"
    using assms by (auto simp: NewSession_def split: if_splits sum.splits)
  let ?s = "\<lparr>seParams = p, seSuite = suite, seTls13 = (prVersion p = VersionTLS13), seDirs = fresh_dir\<rparr>"
  have ok: "suite_ok suite" "prVersion p = VersionTLS13 \<longrightarrow> spFixedIVLen suite = 12"
    using suiteFor_ok [OF suite] by auto
  have init: "(if seTls13 ?s then initTLS13 lb kl ?s else initTLS12 lb kl ?s) = Inr s"
    using assms suite by (auto simp: NewSession_def Let_def split: if_splits)
  show ?thesis
  proof (cases "seTls13 ?s")
    case True
    then obtain c v where s: "s = ?s\<lparr>seDirs := (seDirs ?s)(Client := c, Server := v)\<rparr>"
      "init_side lb suite kl (prClientRandom p) LabelClientHandshake LabelClientTraffic0 (fresh_dir Client) = Inr c"
      "init_side lb suite kl (prClientRandom p) LabelServerHandshake LabelServerTraffic0 (fresh_dir Server) = Inr v"
      using init by (auto simp: initTLS13_def Let_def split: sum.splits)
    then have "side_ok lb kl ?s Client c" "side_ok lb kl ?s Server v"
      using ok(1) True by (auto intro!: init_side_ok)
    then have "side_ok lb kl s Client c" "side_ok lb kl s Server v"
      using side_ok_cong [of s ?s] s by simp_all
    then show ?thesis using ok True by (simp add: session_ok_def s all_sides)
  next
    case False
    then obtain master ck sk civ siv where m: "MasterSecret kl (prClientRandom p) = Some master"
        "keyBlock12 lb suite master (prClientRandom p) (prServerRandom p) = (ck, sk, civ, siv)"
      and s: "s = ?s\<lparr>seDirs := fresh_dir(Client := (fresh_dir Client)\<lparr>dsKey12 := ck, dsIV12 := civ\<rparr>,
            Server := (fresh_dir Server)\<lparr>dsKey12 := sk, dsIV12 := siv\<rparr>)\<rparr>"
      using init by (auto simp: initTLS12_def Let_def split: if_splits option.splits prod.splits)
    have "side_ok lb kl ?s Client ((fresh_dir Client)\<lparr>dsKey12 := ck, dsIV12 := civ\<rparr>)"
      "side_ok lb kl ?s Server ((fresh_dir Server)\<lparr>dsKey12 := sk, dsIV12 := siv\<rparr>)"
      using m False by (simp_all add: side_ok_def keys12_def block12_def fresh_dir_def)
    then have "side_ok lb kl s Client (seDirs s Client)" "side_ok lb kl s Server (seDirs s Server)"
      using side_ok_cong [of s ?s] s by simp_all
    then show ?thesis using ok False by (simp add: session_ok_def s all_sides)
  qed
qed

text \<open>The records of a connection, both sides interleaved, fed one by one.\<close>

fun feed_session :: "library \<Rightarrow> session \<Rightarrow> (side \<times> tlsRecord) list \<Rightarrow> session" where
  "feed_session lb s [] = s"
| "feed_session lb s ((side, r) # rs) = feed_session lb (snd (Decrypt lb s side r)) rs"

lemma feed_session_ok: "session_ok lb kl s \<Longrightarrow> session_ok lb kl (feed_session lb s rs)"
  by (induction lb s rs rule: feed_session.induct) (simp_all add: Decrypt_ok)

text \<open>The nonce: the sequence number in the last eight bytes of the IV.\<close>

lemma xor_fold:
  fixes iv :: bytes
  defines "step \<equiv> \<lambda>f n i. n[length n - 1 - i := n ! (length n - 1 - i) XOR f i]"
  assumes "m \<le> length iv"
  shows "length (foldl (step f) iv [0..<m]) = length iv \<and>
    (\<forall>j < length iv. foldl (step f) iv [0..<m] ! j =
      (if length iv - 1 - j < m then iv ! j XOR f (length iv - 1 - j) else iv ! j))"
  using assms(2)
proof (induction m)
  case (Suc m)
  let ?n = "foldl (step f) iv [0..<m]"
  have n: "length ?n = length iv" using Suc by simp
  have at: "?n ! j = (if length iv - 1 - j < m then iv ! j XOR f (length iv - 1 - j) else iv ! j)" if "j < length iv" for j
    using Suc that by simp
  have "foldl (step f) iv [0..<Suc m] = step f ?n m" by simp
  moreover have "step f ?n m ! j = (if length iv - 1 - j < Suc m then iv ! j XOR f (length iv - 1 - j) else iv ! j)"
    if j: "j < length iv" for j
  proof (cases "j = length iv - 1 - m")
    case True
    then have "length iv - 1 - j = m" using Suc.prems by simp
    with True j n at [OF j] show ?thesis by (simp add: step_def)
  next
    case False
    then have "length iv - 1 - j \<noteq> m" using j Suc.prems by arith
    with False j n at [OF j] show ?thesis by (auto simp: step_def less_Suc_eq)
  qed
  ultimately show ?case using n by (simp add: step_def)
qed simp

lemma length_xorSeq [simp]: "length (xorSeq iv seq) = length iv"
  using xor_fold [of "min 8 (length iv)" iv] by (simp add: xorSeq_def)

lemma nth_xorSeq:
  "j < length iv \<Longrightarrow> xorSeq iv seq ! j =
    (if length iv - 1 - j < 8 then iv ! j XOR ucast (drop_bit (8 * (length iv - 1 - j)) seq) else iv ! j)"
  using xor_fold [of "min 8 (length iv)" iv "\<lambda>i. ucast (drop_bit (8 * i) seq)"] by (auto simp: xorSeq_def)

lemma xor_cancel: "x XOR y = x XOR z \<Longrightarrow> y = z" for x y z :: byte
proof -
  assume "x XOR y = x XOR z"
  then have "x XOR (x XOR y) = x XOR (x XOR z)" by simp
  then show "y = z" by (simp only: xor.assoc [symmetric] xor_self_eq xor.left_neutral)
qed

lemma xorSeq_inj:
  assumes "8 \<le> length iv"
  shows "xorSeq iv a = xorSeq iv b \<longleftrightarrow> a = b"
proof
  assume eq: "xorSeq iv a = xorSeq iv b"
  have bytes: "(ucast (drop_bit (8 * i) a) :: byte) = ucast (drop_bit (8 * i) b)" if "i < 8" for i
  proof -
    let ?j = "length iv - 1 - i"
    have "?j < length iv" "length iv - 1 - ?j = i" using assms that by auto
    then have "iv ! ?j XOR (ucast (drop_bit (8 * i) a) :: byte) = iv ! ?j XOR ucast (drop_bit (8 * i) b)"
      using arg_cong [OF eq, of "\<lambda>n. n ! ?j"] that by (simp add: nth_xorSeq)
    then show ?thesis by (rule xor_cancel)
  qed
  show "a = b"
  proof (rule bit_word_eqI)
    fix k assume "k < LENGTH(64)"
    then have "bit (ucast (drop_bit (8 * (k div 8)) a) :: byte) (k mod 8) = bit (ucast (drop_bit (8 * (k div 8)) b) :: byte) (k mod 8)"
      by (subst bytes) auto
    then show "bit a k = bit b k" by (simp add: bit_simps)
  qed
qed simp

lemma session_nonce:
  assumes "session_ok lb kl s" "dsAead (seDirs s side) = Some a" "length explicit = spRecordIVLen (seSuite s)"
  shows "length (if seTls13 s \<or> spRecordIVLen (seSuite s) = 0 then xorSeq (dsIV (seDirs s side)) n
    else dsIV (seDirs s side) @ explicit) = cipher_NonceSize a"
proof -
  have ok: "suite_ok (seSuite s)" "side_ok lb kl s side (seDirs s side)" "seTls13 s \<longrightarrow> spFixedIVLen (seSuite s) = 12"
    using assms(1) by (auto simp: session_ok_def)
  have "cipher_fits (seSuite s) (seTls13 s) a (dsIV (seDirs s side))"
    by (rule log_keys_fit [OF ok(1) side_ok_keys [OF ok(2) assms(2)]])
  then show ?thesis using ok(1,3) assms(3) by (auto simp: cipher_fits_def suite_ok_def)
qed

section \<open>What one call returns\<close>

lemma Decrypt_dir_fails: "fst (Decrypt_dir lb s side d r) = Inl e \<Longrightarrow> snd (Decrypt_dir lb s side d r) = d"
  by (auto simp: Decrypt_dir_def Let_def split: if_splits sum.splits prod.splits elim!: open_record_cases)

lemma Decrypt_fails: "Decrypt lb s side r = (Inl e, s') \<Longrightarrow> s' = s"
  by (auto simp: Decrypt_eq Decrypt_dir_fails)

lemma Decrypt_other: "Decrypt lb s side r = (x, s') \<Longrightarrow> other \<noteq> side \<Longrightarrow> seDirs s' other = seDirs s other"
  by (auto simp: Decrypt_eq)

lemma Decrypt_kept: "Decrypt lb s side r = (x, s') \<Longrightarrow> seParams s' = seParams s \<and> seSuite s' = seSuite s \<and> seTls13 s' = seTls13 s"
  by (auto simp: Decrypt_eq)

lemma feed_session_kept:
  "seParams (feed_session lb s rs) = seParams s \<and> seSuite (feed_session lb s rs) = seSuite s \<and>
   seTls13 (feed_session lb s rs) = seTls13 s"
  by (induction lb s rs rule: feed_session.induct) (auto simp: Decrypt_eq)

lemma log_keys_cong:
  "seParams s = seParams t \<Longrightarrow> seSuite s = seSuite t \<Longrightarrow> seTls13 s = seTls13 t \<Longrightarrow>
   log_keys lb kl s side a iv = log_keys lb kl t side a iv"
  by (simp add: log_keys_def log_secret_def block12_def)

lemma map_sum_flag: "Inr (p, t, b) = map_sum id (\<lambda>(p, t). (p, t, False)) y \<Longrightarrow> y = Inr (p, t)"
  by (cases y) auto

lemma open_record_sealed:
  assumes "suite_ok (seSuite s)" "side_ok lb kl s side d" "open_record lb s d r = (Inr (data, t, rec), d')"
  shows "\<exists>a. log_keys lb kl s side a (dsIV d') \<and> sealed (seSuite s) (seTls13 s) a (dsIV d') (dsSeq d') data t r"
proof -
  have ok: "side_ok lb kl s side d'" by (rule open_record_ok [OF assms])
  have w: "openWith (seSuite s) (seTls13 s) d' r = Inr (data, t)"
    using assms(3) by (cases rule: open_record_cases) (auto dest: map_sum_flag)
  then obtain a where a: "dsAead d' = Some a" by (auto simp: openWith_def Let_def split: option.splits)
  have keys: "log_keys lb kl s side a (dsIV d')" by (rule side_ok_keys [OF ok a])
  then show ?thesis
    using w openWith_sealed [OF a log_keys_fit [OF assms(1) keys]] by blast
qed

lemma Decrypt_sealed:
  assumes "session_ok lb kl s" "Decrypt lb s side r = (Inr x, s')" "plEncrypted x"
  shows "\<exists>a iv. log_keys lb kl s side a iv \<and>
    sealed (seSuite s) (seTls13 s) a iv (plSeq x) (plData x) (plType x) r"
proof -
  have ok: "suite_ok (seSuite s)" "side_ok lb kl s side (seDirs s side)" using assms(1) by (simp_all add: session_ok_def)
  have "fst (Decrypt_dir lb s side (seDirs s side) r) = Inr x" using assms(2) by (simp add: Decrypt_eq)
  then obtain d' rec where "open_record lb s (seDirs s side) r = (Inr (plData x, plType x, rec), d')" "plSeq x = dsSeq d'"
    using assms(3) by (auto simp: Decrypt_dir_def Let_def plain_record_def split: if_splits sum.splits prod.splits)
  then show ?thesis using open_record_sealed [OF ok] by metis
qed

lemma Decrypt_plain:
  "Decrypt lb s side r = (Inr x, s') \<Longrightarrow> \<not> plEncrypted x \<Longrightarrow> plData x = rcFragment r \<and> plType x = rcType r"
  by (auto simp: Decrypt_eq Decrypt_dir_def Let_def plain_record_def split: if_splits sum.splits prod.splits)

section \<open>A sender of TLS 1.3\<close>

text \<open>One direction as RFC 8446 sends it: hellos in the clear, the compatibility ChangeCipherSpec anywhere, and
  protected records with any padding; the keys change after Finished and after KeyUpdate.  Each handshake message
  is a record of its own.\<close>

datatype sent = PlainHello byte bytes | CompatCCS | Handshake byte bytes nat | Content byte bytes nat

record sender =
  snEpoch :: epoch
  snSeq :: u64
  snSecret :: bytes
  snApplication :: "bytes option"

fun sent_type :: "sent \<Rightarrow> byte" where
  "sent_type (PlainHello t body) = ContentHandshake"
| "sent_type CompatCCS = ContentChangeCipherSpec"
| "sent_type (Handshake t body pad) = ContentHandshake"
| "sent_type (Content t data pad) = t"

fun sent_data :: "sent \<Rightarrow> bytes" where
  "sent_data (PlainHello t body) = hs_wire t body"
| "sent_data CompatCCS = [1]"
| "sent_data (Handshake t body pad) = hs_wire t body"
| "sent_data (Content t data pad) = data"

fun sent_ok :: "sent \<Rightarrow> bool" where
  "sent_ok (PlainHello t body) \<longleftrightarrow> t \<noteq> HandshakeFinished \<and> t \<noteq> HandshakeKeyUpdate \<and> length body \<le> MaxHandshakeMessage"
| "sent_ok CompatCCS \<longleftrightarrow> True"
| "sent_ok (Handshake t body pad) \<longleftrightarrow> length body \<le> MaxHandshakeMessage"
| "sent_ok (Content t data pad) \<longleftrightarrow> t \<noteq> 0 \<and> t \<noteq> ContentHandshake"

fun protected :: "sent \<Rightarrow> nat option" where
  "protected (Handshake t body pad) = Some pad"
| "protected (Content t data pad) = Some pad"
| "protected _ = None"

text \<open>The record on the wire.\<close>

definition emits :: "library \<Rightarrow> suiteParams \<Rightarrow> sender \<Rightarrow> sent \<Rightarrow> tlsRecord \<Rightarrow> bool" where
  "emits lb suite sn m r \<longleftrightarrow>
    (case protected m of
       None \<Rightarrow> rcType r = sent_type m \<and> rcFragment r = sent_data m
     | Some pad \<Rightarrow> rcType r = ContentApplicationData \<and>
         (\<exists>a iv. derived lb suite (snSecret sn) a iv \<and>
            cipher_Seal a [] (xorSeq iv (snSeq sn)) (sent_data m @ [sent_type m] @ replicate pad 0) (aad13 r) =
              Some (rcFragment r)))"

fun rekey :: "library \<Rightarrow> suiteParams \<Rightarrow> sent \<Rightarrow> sender \<Rightarrow> sender" where
  "rekey lb suite (Handshake t body pad) sn =
    (if t = HandshakeFinished then
       (case snApplication sn of
          Some secret \<Rightarrow> if snEpoch sn = EpochHandshake
            then sn\<lparr>snEpoch := EpochApplication, snSecret := secret, snSeq := 0\<rparr> else sn
        | None \<Rightarrow> sn)
     else if t = HandshakeKeyUpdate then
       sn\<lparr>snSecret := rotate_secret lb (spHash suite) (snSecret sn), snSeq := 0\<rparr>
     else sn)"
| "rekey lb suite m sn = sn"

definition after_sending :: "library \<Rightarrow> suiteParams \<Rightarrow> sent \<Rightarrow> sender \<Rightarrow> sender" where
  "after_sending lb suite m sn =
    rekey lb suite m (if protected m = None then sn else sn\<lparr>snSeq := snSeq sn + 1\<rparr>)"

inductive sender_run :: "library \<Rightarrow> suiteParams \<Rightarrow> sender \<Rightarrow> (sent \<times> tlsRecord) list \<Rightarrow> sender \<Rightarrow> bool"
  for lb suite where
  SenderIdle: "sender_run lb suite sn [] sn"
| SenderStep: "sent_ok m \<Longrightarrow> emits lb suite sn m r \<Longrightarrow> sender_run lb suite (after_sending lb suite m sn) ms sn' \<Longrightarrow>
    sender_run lb suite sn ((m, r) # ms) sn'"

inductive_cases sender_run_ConsE: "sender_run lb suite sn ((m, r) # ms) sn'"

text \<open>A direction of the session that follows the sender.\<close>

definition follows :: "dirState \<Rightarrow> sender \<Rightarrow> bool" where
  "follows d sn \<longleftrightarrow> dsEpoch d = snEpoch sn \<and> dsSeq d = snSeq sn \<and> dsSecret d = snSecret sn \<and>
    dsApplicationSecret d = snApplication sn \<and> dsScanned d = length (dsBuf d) \<and>
    \<not> dsPendingSwitch d \<and> \<not> dsPendingUpdate d"

lemma scan_message:
  assumes "dsScanned d = length b" "dsBuf d = b @ hs_wire t body" "length body \<le> MaxHandshakeMessage"
  shows "scan_handshake True d = d\<lparr>dsScanned := length (dsBuf d), dsPendingSwitch := dsPendingSwitch d \<or> t = HandshakeFinished,
    dsPendingUpdate := dsPendingUpdate d \<or> t = HandshakeKeyUpdate\<rparr>"
proof -
  have "length body < 2 ^ 24" using assms(3) by (simp add: MaxHandshakeMessage_def)
  then have len: "be_val (subslice (dsBuf d) (length b + 1) (length b + 4)) = length body"
    by (simp add: assms(2) hs_wire_def vec24_def subslice_def)
  have at: "dsBuf d ! length b = t" "length (dsBuf d) = length b + 4 + length body"
    by (simp_all add: assms(2) hs_wire_def vec24_def nth_append)
  have stop: "scan_handshake True e = e" if "dsScanned e = length (dsBuf e)" for e
    using that by (subst scan_handshake.simps) (simp add: Let_def)
  show ?thesis
    using assms(1,3) len at by (subst scan_handshake.simps) (simp add: Let_def stop)
qed

lemma derived_unique: "derived lb suite s a iv \<Longrightarrow> derived lb suite s b iv' \<Longrightarrow> a = b \<and> iv = iv'"
  by (auto simp: derived_def)

lemma note_message:
  assumes "follows d sn" "plType p = ContentHandshake" "plData p = hs_wire t body" "length body \<le> MaxHandshakeMessage"
  shows "\<exists>f. noteHandshake True d p = d\<lparr>dsFrags := f, dsBuf := dsBuf d @ hs_wire t body,
    dsScanned := length (dsBuf d @ hs_wire t body),
    dsPendingSwitch := (t = HandshakeFinished), dsPendingUpdate := (t = HandshakeKeyUpdate)\<rparr>"
proof -
  let ?f = "dsFrags d @ [\<lparr>fgData = plData p, fgRecord = int (rcIndex (plRecord p)), fgPackets = rcPackets (plRecord p)\<rparr>]"
  let ?d = "d\<lparr>dsFrags := ?f, dsBuf := dsBuf d @ plData p\<rparr>"
  have "noteHandshake True d p = scan_handshake True ?d"
    using assms(2,3) by (simp add: noteHandshake_def hs_wire_def)
  also have "\<dots> = ?d\<lparr>dsScanned := length (dsBuf ?d), dsPendingSwitch := dsPendingSwitch ?d \<or> t = HandshakeFinished,
      dsPendingUpdate := dsPendingUpdate ?d \<or> t = HandshakeKeyUpdate\<rparr>"
    using assms by (intro scan_message) (simp_all add: follows_def)
  finally show ?thesis using assms(1,3) by (intro exI [of _ ?f]) (simp add: follows_def)
qed

lemma pending_none: "\<not> dsPendingSwitch d \<Longrightarrow> \<not> dsPendingUpdate d \<Longrightarrow> applyPending lb suite d = d"
  by (simp add: applyPending_def apply_switch_def apply_update_def)

text \<open>The key changes of the two handshake messages that cause one.\<close>

lemma follows_rekey:
  assumes "suite_ok suite" "follows d sn"
    and e: "e = d\<lparr>dsFrags := f, dsBuf := buf, dsScanned := length buf,
      dsPendingSwitch := (t = HandshakeFinished), dsPendingUpdate := (t = HandshakeKeyUpdate)\<rparr>"
  shows "follows (applyPending lb suite e) (rekey lb suite (Handshake t body pad) sn)"
proof -
  have ne: "HandshakeFinished \<noteq> HandshakeKeyUpdate"
    by (simp add: HandshakeFinished_def HandshakeKeyUpdate_def)
  have inst: "\<exists>a iv. \<forall>d epoch. install lb suite d epoch secret =
      Inr (d\<lparr>dsAead := Some a, dsIV := iv, dsSecret := secret, dsEpoch := epoch, dsSeq := 0\<rparr>)" for secret
    using derived_exists [OF assms(1), of lb secret] by blast
  consider (Fin) "t = HandshakeFinished" | (Upd) "t = HandshakeKeyUpdate" | (No) "t \<noteq> HandshakeFinished" "t \<noteq> HandshakeKeyUpdate"
    by blast
  then show ?thesis
  proof cases
    case Fin
    show ?thesis
    proof (cases "snApplication sn")
      case None
      then show ?thesis using assms(2) Fin ne
        by (simp add: e follows_def applyPending_def apply_switch_def apply_update_def Let_def)
    next
      case (Some secret)
      obtain a iv where "\<forall>d epoch. install lb suite d epoch secret =
          Inr (d\<lparr>dsAead := Some a, dsIV := iv, dsSecret := secret, dsEpoch := epoch, dsSeq := 0\<rparr>)"
        using inst by blast
      then show ?thesis using assms(2) Fin ne Some
        by (simp add: e follows_def applyPending_def apply_switch_def apply_update_def Let_def)
    qed
  next
    case Upd
    obtain x where x: "nextTrafficSecret lb (spHash suite) (snSecret sn) = Inr x"
      using expandLabel_total [of "hash_size (spHash suite)" "spHash suite" lb "snSecret sn" "''traffic upd''" "[]"]
      by (auto simp: nextTrafficSecret_def)
    obtain a iv where "\<forall>d epoch. install lb suite d epoch x =
        Inr (d\<lparr>dsAead := Some a, dsIV := iv, dsSecret := x, dsEpoch := epoch, dsSeq := 0\<rparr>)"
      using inst by blast
    then show ?thesis using assms(2) Upd ne x
      by (simp add: e follows_def applyPending_def apply_switch_def apply_update_def Let_def rotate_secret_def)
  next
    case No
    then show ?thesis using assms(2) by (simp add: e follows_def pending_none)
  qed
qed

lemma open_protected:
  assumes "suite_ok (seSuite s)" "seTls13 s" "side_ok lb kl s side d" "follows d sn"
    "derived lb (seSuite s) (snSecret sn) a iv" "t \<noteq> 0"
    "cipher_Seal a [] (xorSeq iv (snSeq sn)) (data @ [t] @ replicate pad 0) (aad13 r) = Some (rcFragment r)"
  shows "open_record lb s d r = (Inr (data, t, False), d)"
proof -
  have "dsAead d = Some a" "dsIV d = iv" "dsSeq d = snSeq sn"
    using assms(2-5) derived_unique by (auto simp: side_ok_def keys13_def follows_def)
  moreover from this have "sealed (seSuite s) (seTls13 s) a (dsIV d) (dsSeq d) data t r"
    using assms(2,6,7) by (auto simp: sealed_def sealed13_def)
  ultimately have "openWith (seSuite s) (seTls13 s) d r = Inr (data, t)"
    using openWith_sealed derived_fits [OF assms(1,5)] by blast
  then show ?thesis by (simp add: open_record_def)
qed

lemma Decrypt_follows:
  assumes ok: "suite_ok (seSuite s)" "seTls13 s" "side_ok lb kl s side d" "follows d sn"
    and m: "sent_ok m" "emits lb (seSuite s) sn m r"
  shows "\<exists>x d'. Decrypt_dir lb s side d r = (Inr x, d') \<and> plType x = sent_type m \<and> plData x = sent_data m \<and>
    (plEncrypted x \<longleftrightarrow> protected m \<noteq> None) \<and> \<not> plEpochRecovered x \<and>
    follows d' (after_sending lb (seSuite s) m sn)"
proof -
  have types: "ContentApplicationData \<noteq> ContentChangeCipherSpec" "ContentHandshake \<noteq> ContentChangeCipherSpec"
    "ContentHandshake \<noteq> ContentApplicationData" by (simp_all add: content_types)
  have nonzero: "ContentHandshake \<noteq> 0" by (simp add: content_types)
  have opens: "open_record lb s d r = (Inr (sent_data m, sent_type m, False), d)" and enc: "rcType r = ContentApplicationData"
    if "protected m = Some pad" for pad
    using m that nonzero by (cases m; auto simp: emits_def intro!: open_protected [OF ok])+
  have adv: "follows (d\<lparr>dsSeq := dsSeq d + 1\<rparr>) (sn\<lparr>snSeq := snSeq sn + 1\<rparr>)"
    using ok(4) by (simp add: follows_def)
  show ?thesis
  proof (cases m)
    case (PlainHello t body)
    with m have r: "rcType r = ContentHandshake" "rcFragment r = hs_wire t body"
      "t \<noteq> HandshakeFinished" "t \<noteq> HandshakeKeyUpdate" "length body \<le> MaxHandshakeMessage"
      by (simp_all add: emits_def)
    obtain f where "noteHandshake True d (plain_record side r (dsSeq d) EpochPlaintext) =
        d\<lparr>dsFrags := f, dsBuf := dsBuf d @ hs_wire t body, dsScanned := length (dsBuf d @ hs_wire t body),
          dsPendingSwitch := False, dsPendingUpdate := False\<rparr>"
      using note_message [OF ok(4), of "plain_record side r (dsSeq d) EpochPlaintext" t body] r
      by (auto simp: plain_record_def)
    then show ?thesis
      using PlainHello r ok types
      by (auto simp: Decrypt_dir_def isEncrypted_def Let_def after_sending_def follows_def) (simp_all add: plain_record_def)
  next
    case CompatCCS
    then show ?thesis
      using m ok by (simp add: Decrypt_dir_def emits_def after_sending_def) (simp add: plain_record_def)
  next
    case (Handshake t body pad)
    let ?x = "\<lparr>plSide = side, plType = ContentHandshake, plData = hs_wire t body, plRecord = r, plSeq = dsSeq d,
      plEpoch = dsEpoch d, plEncrypted = True, plEpochRecovered = False\<rparr>"
    let ?d = "d\<lparr>dsSeq := dsSeq d + 1\<rparr>"
    have len: "length body \<le> MaxHandshakeMessage" using m Handshake by simp
    obtain f where f: "noteHandshake True ?d ?x = ?d\<lparr>dsFrags := f, dsBuf := dsBuf d @ hs_wire t body,
        dsScanned := length (dsBuf d @ hs_wire t body),
        dsPendingSwitch := (t = HandshakeFinished), dsPendingUpdate := (t = HandshakeKeyUpdate)\<rparr>"
      using note_message [OF adv, of ?x t body] len by auto
    have "follows (applyPending lb (seSuite s) (noteHandshake True ?d ?x)) (after_sending lb (seSuite s) m sn)"
    proof -
      have "after_sending lb (seSuite s) m sn = rekey lb (seSuite s) (Handshake t body pad) (sn\<lparr>snSeq := snSeq sn + 1\<rparr>)"
        by (simp add: after_sending_def Handshake del: rekey.simps)
      then show ?thesis unfolding f by (simp only: follows_rekey [OF ok(1) adv refl])
    qed
    then show ?thesis
      using opens [of pad] enc [of pad] Handshake ok types by (simp add: Decrypt_dir_def isEncrypted_def Let_def)
  next
    case (Content t data pad)
    have "applyPending lb (seSuite s) (noteHandshake True (d\<lparr>dsSeq := dsSeq d + 1\<rparr>)
        \<lparr>plSide = side, plType = t, plData = data, plRecord = r, plSeq = dsSeq d,
          plEpoch = dsEpoch d, plEncrypted = True, plEpochRecovered = False\<rparr>) = d\<lparr>dsSeq := dsSeq d + 1\<rparr>"
      using m(1) Content adv by (simp add: noteHandshake_def pending_none follows_def)
    then show ?thesis
      using opens [of pad] enc [of pad] Content ok types adv
      by (simp add: Decrypt_dir_def isEncrypted_def Let_def after_sending_def)
  qed
qed

lemma DecryptAll_follows:
  assumes "sender_run lb suite sn ms sn'" "suite = seSuite s" "session_ok lb kl s" "seTls13 s" "follows (seDirs s side) sn"
  shows "\<exists>ps s'. DecryptAll lb s side (map snd ms) = ((ps, None), s') \<and>
    map (\<lambda>p. (plType p, plData p)) ps = map (\<lambda>(m, r). (sent_type m, sent_data m)) ms \<and>
    map plEncrypted ps = map (\<lambda>(m, r). protected m \<noteq> None) ms \<and> (\<forall>p \<in> set ps. \<not> plEpochRecovered p) \<and>
    follows (seDirs s' side) sn'"
  using assms
proof (induction arbitrary: s rule: sender_run.induct)
  case (SenderStep m sn r ms sn')
  obtain x d' where x: "Decrypt_dir lb s side (seDirs s side) r = (Inr x, d')" "plType x = sent_type m"
      "plData x = sent_data m" "plEncrypted x \<longleftrightarrow> protected m \<noteq> None" "\<not> plEpochRecovered x"
      "follows d' (after_sending lb suite m sn)"
    using Decrypt_follows [of s lb kl side "seDirs s side" sn m r] SenderStep by (auto simp: session_ok_def)
  let ?s = "s\<lparr>seDirs := (seDirs s)(side := d')\<rparr>"
  have d: "Decrypt lb s side r = (Inr x, ?s)" by (simp add: Decrypt_eq x(1))
  have "session_ok lb kl ?s" using Decrypt_ok [OF SenderStep.prems(2), of side r] d by simp
  with SenderStep.IH [of ?s] SenderStep.prems x(6)
  obtain ps s' where "DecryptAll lb ?s side (map snd ms) = ((ps, None), s')"
      "map (\<lambda>p. (plType p, plData p)) ps = map (\<lambda>(m, r). (sent_type m, sent_data m)) ms"
      "map plEncrypted ps = map (\<lambda>(m, r). protected m \<noteq> None) ms" "\<forall>p \<in> set ps. \<not> plEpochRecovered p"
      "follows (seDirs s' side) sn'" by auto
  with d x show ?case by (intro exI [of _ "x # ps"] exI [of _ s']) simp
qed simp

section \<open>A session of TLS 1.3 starts on the handshake keys\<close>

lemma init_side_start:
  assumes "suite_ok suite" "Secret kl hl cr = Some hs"
  shows "\<exists>d. init_side lb suite kl cr hl al (fresh_dir side) = Inr d \<and>
    follows d \<lparr>snEpoch = EpochHandshake, snSeq = 0, snSecret = hs, snApplication = Secret kl al cr\<rparr>"
proof -
  obtain a iv where "\<forall>d epoch. install lb suite d epoch hs =
      Inr (d\<lparr>dsAead := Some a, dsIV := iv, dsSecret := hs, dsEpoch := epoch, dsSeq := 0\<rparr>)"
    using derived_exists [OF assms(1), of lb hs] by blast
  then show ?thesis using assms(2) by (simp add: init_side_def Let_def follows_def fresh_dir_def)
qed

lemma NewSession_13:
  assumes "prVersion p = VersionTLS13" "NewSession lb p (Some kl) = Inr s"
  obtains c v where "seTls13 s" "seParams s = p" "suite_ok (seSuite s)" "seDirs s Client = c" "seDirs s Server = v"
    "init_side lb (seSuite s) kl (prClientRandom p) (handshake_label Client) (traffic_label Client) (fresh_dir Client) = Inr c"
    "init_side lb (seSuite s) kl (prClientRandom p) (handshake_label Server) (traffic_label Server) (fresh_dir Server) = Inr v"
  using assms suiteFor_ok
  by (auto simp: NewSession_def Let_def initTLS13_def split: if_splits sum.splits)

lemma NewSession_follows:
  assumes "prVersion p = VersionTLS13" "NewSession lb p (Some kl) = Inr s"
    "Secret kl (handshake_label side) (prClientRandom p) = Some hs"
  shows "seTls13 s \<and> follows (seDirs s side) \<lparr>snEpoch = EpochHandshake, snSeq = 0, snSecret = hs,
    snApplication = Secret kl (traffic_label side) (prClientRandom p)\<rparr>"
proof -
  obtain c v where c: "seTls13 s" "suite_ok (seSuite s)" "seDirs s Client = c" "seDirs s Server = v"
    "init_side lb (seSuite s) kl (prClientRandom p) (handshake_label Client) (traffic_label Client) (fresh_dir Client) = Inr c"
    "init_side lb (seSuite s) kl (prClientRandom p) (handshake_label Server) (traffic_label Server) (fresh_dir Server) = Inr v"
    using assms(1,2) by (rule NewSession_13)
  then show ?thesis using init_side_start [OF c(2) assms(3), of lb "traffic_label side" side] by (cases side) auto
qed

lemma NewSession_13_total:
  assumes "prVersion p = VersionTLS13" "length (prClientRandom p) = 32" "map_of tls13Suites (prCipherSuite p) = Some suite"
    "Secret kl LabelClientHandshake (prClientRandom p) = Some c" "Secret kl LabelServerHandshake (prClientRandom p) = Some v"
  shows "\<exists>s. NewSession lb p (Some kl) = Inr s \<and> seSuite s = suite"
proof -
  have suite: "suiteFor (prVersion p) (prCipherSuite p) = Inr suite" using assms(1,3) by (simp add: suiteFor_def)
  then have ok: "suite_ok suite" using suiteFor_ok by blast
  show ?thesis
    using assms suite init_side_start [OF ok assms(4), of lb LabelClientTraffic0 Client]
      init_side_start [OF ok assms(5), of lb LabelServerTraffic0 Server]
    by (auto simp: NewSession_def Let_def initTLS13_def)
qed

text \<open>A concrete connection: ChaCha20-Poly1305, a log with the handshake secrets of both sides and the traffic
  secret of one.\<close>

definition sample_lib :: library where "sample_lib = \<lparr>lbAES = (\<lambda>k b. b), lbSum = (\<lambda>h m. m)\<rparr>"

definition sample_params :: params where
  "sample_params = \<lparr>prVersion = VersionTLS13, prCipherSuite = 0x1303, prClientRandom = replicate 32 7, prServerRandom = []\<rparr>"

definition sample_log :: keylog where
  "sample_log = \<lparr>klByRandom = [(hex_encode (replicate 32 7), [(LabelClientHandshake, [1]), (LabelServerHandshake, [2]),
     (LabelClientTraffic0, [3])])], klEntries = []\<rparr>"

lemma sample_secrets:
  "Secret sample_log LabelClientHandshake (prClientRandom sample_params) = Some [1]"
  "Secret sample_log LabelServerHandshake (prClientRandom sample_params) = Some [2]"
  by (simp_all add: Secret_def sample_log_def sample_params_def LabelClientHandshake_def LabelServerHandshake_def)

lemma sample_session:
  "\<exists>s a iv. NewSession sample_lib sample_params (Some sample_log) = Inr s \<and>
    derived sample_lib (seSuite s) [1] a iv \<and> (\<forall>p aad. \<exists>ct. cipher_Seal a [] (xorSeq iv 0) p aad = Some ct)"
proof -
  obtain s where s: "NewSession sample_lib sample_params (Some sample_log) = Inr s" "spNew (seSuite s) = NewChaCha"
    using NewSession_13_total [OF _ _ _ sample_secrets, of "tls13_suite ''TLS_CHACHA20_POLY1305_SHA256'' 32 16 SHA256 NewChaCha" sample_lib]
    by (auto simp: sample_params_def tls13Suites_def tls13_suite_def)
  have ok: "session_ok sample_lib sample_log s" by (rule NewSession_ok [OF s(1)])
  obtain a iv where a: "derived sample_lib (seSuite s) [1] a iv"
    using derived_exists [of "seSuite s" sample_lib "[1]"] ok by (auto simp: session_ok_def)
  moreover have "seTls13 s" using NewSession_follows [OF _ s(1), of Client "[1]"] sample_secrets by (simp add: sample_params_def)
  ultimately have "length iv = 12" using ok derived_fits [OF _ a, of True] by (simp add: session_ok_def cipher_fits_def)
  moreover obtain k where "a = ChaChaCipher k" using a s(2) by (auto simp: derived_def NewChaCha20Poly1305_def split: if_splits)
  ultimately have "\<forall>p aad. \<exists>ct. cipher_Seal a [] (xorSeq iv 0) p aad = Some ct" by (simp add: chacha_Seal_def Let_def)
  then show ?thesis using s(1) a by blast
qed

lemma Decrypt_dir_error:
  "fst (Decrypt_dir lb s side d r) = Inl e \<Longrightarrow>
   deRecordIndex e = rcIndex r \<and> deOffset e = rcOffset r \<and> deFrames e = rcPackets r"
  by (auto simp: Decrypt_dir_def Let_def open_error_def open_record_def openWith_def
      split: if_splits sum.splits prod.splits option.splits)

lemma DecryptAll_stops_at:
  "DecryptAll lb s side rs = ((ps, Some e), s') \<Longrightarrow> \<exists>r rest. rs = take (length ps) rs @ r # rest \<and>
    DecryptAll lb s side (take (length ps) rs) = ((ps, None), s') \<and> Decrypt lb s' side r = (Inl e, s') \<and>
    deRecordIndex e = rcIndex r \<and> deOffset e = rcOffset r \<and> deFrames e = rcPackets r \<and>
    list_all (\<lambda>other. other = side \<or> seDirs s' other = seDirs s other) [Client, Server]"
proof (induction lb s side rs arbitrary: ps rule: DecryptAll.induct)
  case (2 lb s side r rs)
  show ?case
  proof (cases "Decrypt lb s side r")
    case (Pair x t)
    show ?thesis
    proof (cases x)
      case (Inl err)
      then have "ps = []" "err = e" "t = s'" using 2 Pair by simp_all
      moreover have "t = s" using Decrypt_fails Pair Inl by simp
      moreover have "fst (Decrypt_dir lb s side (seDirs s side) r) = Inl err" using Pair Inl by (simp add: Decrypt_eq)
      ultimately show ?thesis using Pair Inl Decrypt_dir_error by fastforce
    next
      case (Inr p)
      then obtain qs where q: "DecryptAll lb t side rs = ((qs, Some e), s')" "ps = p # qs"
        using 2 Pair by (auto split: prod.splits)
      have same: "other \<noteq> side \<Longrightarrow> seDirs t other = seDirs s other" for other using Decrypt_other [OF Pair] .
      obtain r' rest where "rs = take (length qs) rs @ r' # rest"
          "DecryptAll lb t side (take (length qs) rs) = ((qs, None), s')" "Decrypt lb s' side r' = (Inl e, s')"
          "deRecordIndex e = rcIndex r'" "deOffset e = rcOffset r'" "deFrames e = rcPackets r'"
          "list_all (\<lambda>other. other = side \<or> seDirs s' other = seDirs t other) [Client, Server]"
        using 2(1) [OF Pair [symmetric] Inr q(1)] by blast
      then show ?thesis using Pair Inr q(2) same [of Client] same [of Server]
        by (intro exI [of _ r'] exI [of _ rest]) (cases side; auto)
    qed
  qed
qed simp

section \<open>The properties\<close>

text \<open>C11: nothing unauthenticated is returned as decrypted.  Whatever records were fed before, a record reported
  as decrypted is one a holder of keys of this side's secrets in the key log sealed, under the reported sequence
  number, for exactly the content and type returned; anything else is the record as it stands on the wire.\<close>

theorem Decrypt_authentic:
  assumes "NewSession lb p (Some kl) = Inr s" "Decrypt lb (feed_session lb s rs) side r = (Inr x, s')"
  shows "if plEncrypted x then \<exists>a iv. log_keys lb kl s side a iv \<and>
      sealed (seSuite s) (seTls13 s) a iv (plSeq x) (plData x) (plType x) r
    else plData x = rcFragment r \<and> plType x = rcType r"
proof -
  have ok: "session_ok lb kl (feed_session lb s rs)" by (rule feed_session_ok [OF NewSession_ok [OF assms(1)]])
  note kept = feed_session_kept [of lb s rs]
  have keq: "log_keys lb kl (feed_session lb s rs) side a iv = log_keys lb kl s side a iv" for a iv
    using kept by (intro log_keys_cong) simp_all
  have "plEncrypted x \<Longrightarrow> \<exists>a iv. log_keys lb kl s side a iv \<and>
      sealed (seSuite s) (seTls13 s) a iv (plSeq x) (plData x) (plType x) r"
    using Decrypt_sealed [OF ok assms(2)] by (simp only: keq kept)
  then show ?thesis using Decrypt_plain [OF assms(2)] by simp
qed

text \<open>C12: a direction of TLS 1.3 sent as RFC 8446 prescribes, hellos in the clear, ChangeCipherSpec anywhere, padded
  protected records, new keys after Finished and after every KeyUpdate, decrypts record by record to what was sent,
  without falling back on another epoch.\<close>

theorem DecryptAll_sender:
  assumes "NewSession lb p (Some kl) = Inr s" "prVersion p = VersionTLS13"
    "Secret kl (handshake_label side) (prClientRandom p) = Some hs"
    "sender_run lb (seSuite s) \<lparr>snEpoch = EpochHandshake, snSeq = 0, snSecret = hs,
       snApplication = Secret kl (traffic_label side) (prClientRandom p)\<rparr> ms sn'"
  shows "\<exists>ps s'. DecryptAll lb s side (map snd ms) = ((ps, None), s') \<and>
    map (\<lambda>p. (plType p, plData p)) ps = map (\<lambda>(m, r). (sent_type m, sent_data m)) ms \<and>
    map plEncrypted ps = map (\<lambda>(m, r). protected m \<noteq> None) ms \<and> \<not> list_ex plEpochRecovered ps"
proof -
  note start = NewSession_follows [OF assms(2,1,3)]
  show ?thesis
    using DecryptAll_follows [OF assms(4) refl NewSession_ok [OF assms(1)] conjunct1 [OF start] conjunct2 [OF start]]
    by (auto simp: list_ex_iff)
qed

lemma sample_traffic:
  "\<exists>s r. NewSession sample_lib sample_params (Some sample_log) = Inr s \<and>
    sender_run sample_lib (seSuite s) \<lparr>snEpoch = EpochHandshake, snSeq = 0, snSecret = [1],
       snApplication = Secret sample_log (traffic_label Client) (prClientRandom sample_params)\<rparr>
      [(Content ContentAlert [1, 0] 2, r)]
      \<lparr>snEpoch = EpochHandshake, snSeq = 1, snSecret = [1],
       snApplication = Secret sample_log (traffic_label Client) (prClientRandom sample_params)\<rparr>"
proof -
  obtain s a iv where s: "NewSession sample_lib sample_params (Some sample_log) = Inr s"
      "derived sample_lib (seSuite s) [1] a iv" "\<forall>p aad. \<exists>ct. cipher_Seal a [] (xorSeq iv 0) p aad = Some ct"
    using sample_session by blast
  let ?r = "\<lambda>f. \<lparr>rcIndex = 0, rcOffset = 0, rcType = ContentApplicationData, rcVersion = 0x0303, rcLength = 21,
    rcFragment = f, rcPackets = []\<rparr>"
  obtain ct where "cipher_Seal a [] (xorSeq iv 0) ([1, 0] @ [ContentAlert] @ replicate 2 0) (aad13 (?r [])) = Some ct"
    using s(3) by blast
  moreover have "aad13 (?r ct) = aad13 (?r [])" by (simp add: aad13_def)
  ultimately have "emits sample_lib (seSuite s) \<lparr>snEpoch = EpochHandshake, snSeq = 0, snSecret = [1],
       snApplication = Secret sample_log (traffic_label Client) (prClientRandom sample_params)\<rparr>
      (Content ContentAlert [1, 0] 2) (?r ct)"
    using s(2) by (auto simp: emits_def)
  then show ?thesis using s(1)
    by (intro exI conjI) (assumption, auto intro!: SenderStep SenderIdle simp: after_sending_def content_types)
qed

text \<open>The sample sender's record, decrypted.\<close>

theorem DecryptAll_sender_witness:
  "\<exists>s r ps s'. NewSession sample_lib sample_params (Some sample_log) = Inr s \<and>
    DecryptAll sample_lib s Client [r] = ((ps, None), s') \<and>
    map (\<lambda>p. (plType p, plData p, plEncrypted p)) ps = [(ContentAlert, [1, 0], True)]"
proof -
  obtain s r where s: "NewSession sample_lib sample_params (Some sample_log) = Inr s"
    and run: "sender_run sample_lib (seSuite s) \<lparr>snEpoch = EpochHandshake, snSeq = 0, snSecret = [1],
       snApplication = Secret sample_log (traffic_label Client) (prClientRandom sample_params)\<rparr>
      [(Content ContentAlert [1, 0] 2, r)]
      \<lparr>snEpoch = EpochHandshake, snSeq = 1, snSecret = [1],
       snApplication = Secret sample_log (traffic_label Client) (prClientRandom sample_params)\<rparr>"
    using sample_traffic by blast
  have "prVersion sample_params = VersionTLS13" by (simp add: sample_params_def)
  from DecryptAll_sender [OF s this _ run] sample_secrets(1)
  obtain ps s' where ps: "DecryptAll sample_lib s Client [r] = ((ps, None), s')"
    "map (\<lambda>p. (plType p, plData p)) ps = [(ContentAlert, [1, 0])]" "map plEncrypted ps = [True]" by auto
  from ps(2,3) have "map (\<lambda>p. (plType p, plData p, plEncrypted p)) ps = [(ContentAlert, [1, 0], True)]" by auto
  with s ps(1) show ?thesis by (intro exI conjI)
qed

theorem Decrypt_authentic_witness:
  "\<exists>s r x s' a iv. NewSession sample_lib sample_params (Some sample_log) = Inr s \<and>
    Decrypt sample_lib s Client r = (Inr x, s') \<and> plData x = [1, 0] \<and>
    log_keys sample_lib sample_log s Client a iv \<and> sealed (seSuite s) True a iv (plSeq x) [1, 0] ContentAlert r"
proof -
  obtain s r where s: "NewSession sample_lib sample_params (Some sample_log) = Inr s"
    and run: "sender_run sample_lib (seSuite s) \<lparr>snEpoch = EpochHandshake, snSeq = 0, snSecret = [1],
       snApplication = Secret sample_log (traffic_label Client) (prClientRandom sample_params)\<rparr>
      [(Content ContentAlert [1, 0] 2, r)]
      \<lparr>snEpoch = EpochHandshake, snSeq = 1, snSecret = [1],
       snApplication = Secret sample_log (traffic_label Client) (prClientRandom sample_params)\<rparr>"
    using sample_traffic by blast
  have start: "seTls13 s" "follows (seDirs s Client) \<lparr>snEpoch = EpochHandshake, snSeq = 0, snSecret = [1],
      snApplication = Secret sample_log (traffic_label Client) (prClientRandom sample_params)\<rparr>"
    using NewSession_follows [OF _ s, of Client "[1]"] sample_secrets(1) by (simp_all add: sample_params_def)
  have "\<exists>x s'. Decrypt sample_lib s Client r = (Inr x, s') \<and> plType x = ContentAlert \<and> plData x = [1, 0] \<and> plEncrypted x"
    using DecryptAll_follows [OF run refl NewSession_ok [OF s] start] by (auto split: prod.splits sum.splits)
  then obtain x s' where x: "Decrypt sample_lib s Client r = (Inr x, s')" "plType x = ContentAlert" "plData x = [1, 0]" "plEncrypted x"
    by blast
  then have "Decrypt sample_lib (feed_session sample_lib s []) Client r = (Inr x, s')" by simp
  from Decrypt_authentic [OF s this] x(2-4) start(1) obtain a iv where
    "log_keys sample_lib sample_log s Client a iv" "sealed (seSuite s) True a iv (plSeq x) [1, 0] ContentAlert r" by auto
  with s x show ?thesis by blast
qed

text \<open>C27: decryption of a direction stops at the first record that cannot be opened and leaves no trace of it: the
  session is the one before that record, the error names the record and where it lies, the plaintexts are those of
  the records before it, and the other direction is untouched throughout.\<close>

theorem DecryptAll_stops:
  assumes "DecryptAll lb s side rs = ((ps, Some e), s')"
  shows "\<exists>r rest. rs = take (length ps) rs @ r # rest \<and>
    DecryptAll lb s side (take (length ps) rs) = ((ps, None), s') \<and> Decrypt lb s' side r = (Inl e, s') \<and>
    deRecordIndex e = rcIndex r \<and> deOffset e = rcOffset r \<and> deFrames e = rcPackets r \<and>
    list_all (\<lambda>other. other = side \<or> seDirs s' other = seDirs s other) [Client, Server]"
  by (rule DecryptAll_stops_at [OF assms])

definition unkeyed :: session where
  "unkeyed = \<lparr>seParams = sample_params, seSuite = tls13_suite [] 32 16 SHA256 NewChaCha, seTls13 = True, seDirs = fresh_dir\<rparr>"

theorem DecryptAll_stops_witness:
  "\<exists>e. Decrypt sample_lib unkeyed Client \<lparr>rcIndex = 4, rcOffset = 0, rcType = ContentApplicationData, rcVersion = 0,
      rcLength = 0, rcFragment = [], rcPackets = [8]\<rparr> = (Inl e, unkeyed) \<and> deRecordIndex e = 4 \<and> deFrames e = [8]"
proof -
  let ?r = "\<lparr>rcIndex = 4, rcOffset = 0, rcType = ContentApplicationData, rcVersion = 0, rcLength = 0, rcFragment = [],
    rcPackets = [8]\<rparr>"
  have "\<exists>e s'. DecryptAll sample_lib unkeyed Client [?r] = (([], Some e), s')"
    by (simp add: Decrypt_def Decrypt_dir_def unkeyed_def isEncrypted_def content_types open_record_def openWith_def
        fresh_dir_def Let_def)
  then obtain e s' where e: "DecryptAll sample_lib unkeyed Client [?r] = (([], Some e), s')" by blast
  from DecryptAll_stops [OF e] show ?thesis by auto
qed

text \<open>C28: no nonce is used twice and none has a length its cipher refuses.  In every session reached from a new
  one, the nonce of a record has the length the installed cipher takes, and where it is derived from the sequence
  number, two sequence numbers never give the same nonce.\<close>

theorem session_nonces:
  assumes "NewSession lb p (Some kl) = Inr s" "t = feed_session lb s rs" "dsAead (seDirs t side) = Some a"
    "length explicit = spRecordIVLen (seSuite t)"
  shows "length (if seTls13 t \<or> spRecordIVLen (seSuite t) = 0 then xorSeq (dsIV (seDirs t side)) n
      else dsIV (seDirs t side) @ explicit) = cipher_NonceSize a \<and>
    (seTls13 t \<or> spRecordIVLen (seSuite t) = 0 \<longrightarrow>
      (xorSeq (dsIV (seDirs t side)) m = xorSeq (dsIV (seDirs t side)) n \<longleftrightarrow> m = n))"
proof -
  have ok: "session_ok lb kl t" unfolding assms(2) by (rule feed_session_ok [OF NewSession_ok [OF assms(1)]])
  have fits: "cipher_fits (seSuite t) (seTls13 t) a (dsIV (seDirs t side))"
    using ok assms(3) by (auto simp: session_ok_def intro: log_keys_fit side_ok_keys)
  have "seTls13 t \<or> spRecordIVLen (seSuite t) = 0 \<Longrightarrow> 8 \<le> length (dsIV (seDirs t side))"
    using ok fits by (auto simp: session_ok_def suite_ok_def cipher_fits_def)
  then show ?thesis using session_nonce [OF ok assms(3,4)] xorSeq_inj by blast
qed

theorem session_nonces_witness:
  "\<exists>s a. NewSession sample_lib sample_params (Some sample_log) = Inr s \<and> dsAead (seDirs s Client) = Some a \<and>
    length (xorSeq (dsIV (seDirs s Client)) 5) = cipher_NonceSize a \<and>
    xorSeq (dsIV (seDirs s Client)) 5 \<noteq> xorSeq (dsIV (seDirs s Client)) 6"
proof -
  obtain s where s: "NewSession sample_lib sample_params (Some sample_log) = Inr s" using sample_session by blast
  have t: "seTls13 s" using NewSession_follows [OF _ s, of Client "[1]"] sample_secrets(1) by (simp add: sample_params_def)
  have "session_ok sample_lib sample_log s" by (rule NewSession_ok [OF s])
  with t obtain a where a: "dsAead (seDirs s Client) = Some a" by (auto simp: session_ok_def side_ok_def keys13_def)
  have "length (replicate (spRecordIVLen (seSuite s)) 0 :: bytes) = spRecordIVLen (seSuite s)" by simp
  from session_nonces [OF s feed_session.simps(1) [symmetric] a this, of 5 6] t s a show ?thesis by auto
qed

end
