(* ===== verification/Campaign_Plan.thy ===== *)
theory Campaign_Plan
  imports Go_Prelude Go_Strings "HOL-Library.Char_ord" "HOL-Library.List_Lexorder" "HOL-Library.Product_Lexorder"
    "HOL-Library.Signed_Division" "HOL-Library.Multiset" "HOL-Library.Sublist"
begin

unbundle bit_operations_syntax

text \<open>
  \<^verbatim>\<open>internal/campaign/action.go\<close> (identity), \<^verbatim>\<open>schedule.go\<close>, the run shape of
  \<^verbatim>\<open>runner.go\<close> and the filtered layers of \<^verbatim>\<open>shrink.go\<close>: a campaign's plan as a function of the seed,
  the layers and the inventory.  An action keeps its data; the closures that act on the bench are not
  modelled.  The generator of \<^verbatim>\<open>math/rand\<close> is a record of its operations; \<^verbatim>\<open>time.Duration\<close> is an
  integer of nanoseconds; the float product that spreads the faults is a field of the configuration.
\<close>

section \<open>Actions and their identity\<close>

record action =
  acLayer :: string
  acKind :: string
  acTarget :: string
  acClass :: string
  acParams :: "(string \<times> string) list"
  acRecoverable :: bool
  acOneshot :: bool
  acSeq :: nat

fun dec :: "nat \<Rightarrow> string" where
  "dec n = (if n < 10 then [char_of (48 + n)] else dec (n div 10) @ [char_of (48 + n mod 10)])"

declare dec.simps [simp del]

definition action_key :: "action \<Rightarrow> string" where
  "action_key a = acLayer a @ ''/'' @ acKind a @ ''@'' @ acTarget a"

definition ID :: "action \<Rightarrow> string" where
  "ID a = action_key a @ ''#'' @ dec (acSeq a)"

fun assign_loop :: "(string \<Rightarrow> nat) \<Rightarrow> action list \<Rightarrow> action list" where
  "assign_loop counts [] = []"
| "assign_loop counts (a # as) =
    (let counts' = counts(action_key a := counts (action_key a) + 1)
     in (if acSeq a = 0 then a\<lparr>acSeq := counts' (action_key a)\<rparr> else a) # assign_loop counts' as)"

definition assignSeqs :: "action list \<Rightarrow> action list" where
  "assignSeqs as = assign_loop (\<lambda>_. 0) as"

section \<open>Configuration, generator, layers\<close>

record config =
  cfLabel :: string
  cfSeed :: i64
  cfWindow :: int
  cfCadence :: int
  cfActions :: int
  cfRequire :: "string list"
  cfOverlapSpan :: int

definition second :: int where "second = 1000000000"
definition millisecond :: int where "millisecond = 1000000"

definition defaultActions :: int where "defaultActions = 8"
definition defaultWindow :: int where "defaultWindow = 90 * second"
definition defaultCadence :: int where "defaultCadence = 5 * second"
definition defaultShrinkTo :: int where "defaultShrinkTo = 24"

definition window :: "config \<Rightarrow> int" where
  "window c = (if cfWindow c \<le> 0 then defaultWindow else cfWindow c)"

definition cadence :: "config \<Rightarrow> int" where
  "cadence c = (if cfCadence c \<le> 0 then defaultCadence else cfCadence c)"

definition recoveryTail :: "config \<Rightarrow> int" where
  "recoveryTail c =
    (let tail = 3 * cadence c; top = window c sdiv 3 in if tail > top then top else tail)"

definition swap_at :: "nat \<Rightarrow> nat \<Rightarrow> 'a list \<Rightarrow> 'a list" where
  "swap_at i j xs = xs[i := xs ! j, j := xs ! i]"

fun shuffle_loop :: "'g generator \<Rightarrow> nat \<Rightarrow> 'a list \<Rightarrow> 'g \<Rightarrow> 'a list \<times> 'g" where
  "shuffle_loop gen 0 xs g = (xs, g)"
| "shuffle_loop gen (Suc i) xs g =
    (case gnInt31n gen g (Suc i + 1) of (j, g') \<Rightarrow> shuffle_loop gen i (swap_at (Suc i) j xs) g')"

definition Shuffle :: "'g generator \<Rightarrow> 'a list \<Rightarrow> 'g \<Rightarrow> 'a list \<times> 'g" where
  "Shuffle gen xs g = shuffle_loop gen (length xs - 1) xs g"

record ('v, 'g) layer =
  lyID :: string
  lyPlan :: "'v \<Rightarrow> 'g \<Rightarrow> action list"
  lyExplain :: "('v \<Rightarrow> string) option"

section \<open>The plan\<close>

record event =
  evActionID :: string
  evLayer :: string
  evKind :: string
  evTarget :: string
  evClass :: string
  evOneshot :: bool
  evAt :: int
  evHold :: int
  evParams :: "(string \<times> string) list"
  evAction :: action

definition Until :: "event \<Rightarrow> int" where "Until e = evAt e + evHold e"

record plan =
  plSeed :: i64
  plLabel :: string
  plWindow :: int
  plLayers :: "string list"
  plOffered :: nat
  plEvents :: "event list"
  plDeclined :: "(string \<times> string option) list"

definition ActionIDs :: "plan \<Rightarrow> string list" where
  "ActionIDs p = map evActionID (plEvents p)"

definition Subset :: "plan \<Rightarrow> string list \<Rightarrow> plan" where
  "Subset p keep = p\<lparr>plEvents := filter (\<lambda>e. evActionID e \<in> set keep) (plEvents p)\<rparr>"

definition Faults :: "plan \<Rightarrow> nat" where
  "Faults p = length (filter (\<lambda>e. \<not> evOneshot e) (plEvents p))"

definition Probes :: "plan \<Rightarrow> nat" where
  "Probes p = length (plEvents p) - Faults p"

definition layerSeed :: "i64 \<Rightarrow> string \<Rightarrow> i64" where
  "layerSeed seed i = seed XOR
    foldl (\<lambda>h c. (h XOR word_of_nat c) * 1099511628211) 1469598103934665603 (runes i)"

definition maxDur :: "int \<Rightarrow> int \<Rightarrow> int" where
  "maxDur d floor = (if d < floor then floor else d)"

definition matchesAny :: "string \<Rightarrow> string list \<Rightarrow> bool" where
  "matchesAny i patterns \<longleftrightarrow> list_ex (\<lambda>p. p \<noteq> [] \<and> sublist p i) patterns"

text \<open>\<^verbatim>\<open>byLayer\<close> holds the offered actions of the layers that offered any; a later layer of the same
  name replaces an earlier one, as an insertion into the code's map does.\<close>

type_synonym by_layer = "string \<Rightarrow> action list"

fun floor_loop :: "'g generator \<Rightarrow> string set \<Rightarrow> by_layer \<Rightarrow> string list \<Rightarrow>
    action list \<times> action list \<times> 'g \<Rightarrow> action list \<times> action list \<times> 'g" where
  "floor_loop gen pinned byLayer [] acc = acc"
| "floor_loop gen pinned byLayer (i # ids) (chosen, rest, g) =
    (if byLayer i = [] then floor_loop gen pinned byLayer ids (chosen, rest, g)
     else let shuffled = filter (\<lambda>a. ID a \<notin> pinned) (byLayer i)
          in if shuffled = [] then floor_loop gen pinned byLayer ids (chosen, rest, g)
             else case Shuffle gen shuffled g of (sh, g') \<Rightarrow>
               floor_loop gen pinned byLayer ids (chosen @ [hd sh], rest @ tl sh, g'))"

definition pins :: "config \<Rightarrow> string list \<Rightarrow> by_layer \<Rightarrow> action list" where
  "pins cfg order byLayer =
    concat (map (\<lambda>i. filter (\<lambda>a. matchesAny (ID a) (cfRequire cfg)) (byLayer i)) order)"

definition selectActions :: "'g generator \<Rightarrow> config \<Rightarrow> string list \<Rightarrow> by_layer \<Rightarrow> action list" where
  "selectActions gen cfg order byLayer =
    (let budget = (if cfActions cfg \<le> 0 then defaultActions else cfActions cfg);
         pinned = pins cfg order byLayer
     in case floor_loop gen (ID ` set pinned) byLayer order (pinned, [], gnSource gen (cfSeed cfg XOR 0x5e1ec7)) of
          (chosen, rest, g) \<Rightarrow>
            if int (length chosen) \<ge> budget then sort_key ID chosen
            else
              let shuffled = fst (Shuffle gen rest g);
                  n = nat (budget - int (length chosen))
              in sort_key ID (chosen @ take (if n > length rest then length rest else n) shuffled))"

definition armSpan :: "config \<Rightarrow> int" where
  "armSpan cfg = (if cfOverlapSpan cfg \<le> 0 then cfWindow cfg sdiv 2 else cfOverlapSpan cfg)"

definition event_of :: "'g generator \<Rightarrow> config \<Rightarrow> action \<Rightarrow> event" where
  "event_of gen cfg a =
    (let g = gnSource gen (layerSeed (cfSeed cfg XOR 0x5eed5ced) (ID a));
         e = \<lparr>evActionID = ID a, evLayer = acLayer a, evKind = acKind a, evTarget = acTarget a,
              evClass = acClass a, evOneshot = acOneshot a, evAt = 0, evHold = 0,
              evParams = acParams a, evAction = a\<rparr>
     in if acOneshot a then
          let lo = armSpan cfg sdiv 2
          in e\<lparr>evAt := lo + fst (gnInt63n gen g (maxDur (armSpan cfg - lo) millisecond))\<rparr>
        else case gnInt63n gen g (maxDur (armSpan cfg) millisecond) of (at, g') \<Rightarrow>
          let left = cfWindow cfg - recoveryTail cfg - at;
              remaining = (if left < cfCadence cfg then cfCadence cfg else left);
              jitter = fst (gnInt63n gen g' (maxDur (remaining sdiv 4) millisecond))
          in e\<lparr>evAt := at, evHold := remaining - jitter\<rparr>)"

definition offered_by :: "'g generator \<Rightarrow> config \<Rightarrow> 'v \<Rightarrow> ('v, 'g) layer \<Rightarrow> action list" where
  "offered_by gen cfg env l =
    assignSeqs (lyPlan l env (gnSource gen (layerSeed (cfSeed cfg) (lyID l))))"

text \<open>Why a layer offered nothing: its own explanation, or the fixed text of the planner (\<^verbatim>\<open>None\<close>).\<close>

definition why_declined :: "'v \<Rightarrow> ('v, 'g) layer \<Rightarrow> string option" where
  "why_declined env l =
    (case lyExplain l of None \<Rightarrow> None | Some f \<Rightarrow> if f env \<noteq> [] then Some (f env) else None)"

fun layers_loop :: "'g generator \<Rightarrow> config \<Rightarrow> 'v \<Rightarrow> ('v, 'g) layer list \<Rightarrow> plan \<times> by_layer \<Rightarrow> plan \<times> by_layer" where
  "layers_loop gen cfg env [] acc = acc"
| "layers_loop gen cfg env (l # ls) (p, byLayer) =
    (let offered = offered_by gen cfg env l;
         p' = p\<lparr>plLayers := plLayers p @ [lyID l], plOffered := plOffered p + length offered\<rparr>
     in if offered = [] then
          layers_loop gen cfg env ls
            (p'\<lparr>plDeclined := plDeclined p @ [(lyID l, why_declined env l)]\<rparr>, byLayer)
        else layers_loop gen cfg env ls (p', byLayer(lyID l := offered)))"

definition event_order :: "event \<Rightarrow> int \<times> string" where
  "event_order e = (evAt e, evActionID e)"

definition BuildPlan :: "'g generator \<Rightarrow> config \<Rightarrow> 'v \<Rightarrow> ('v, 'g) layer list \<Rightarrow> plan" where
  "BuildPlan gen cfg env layers =
    (case layers_loop gen cfg env layers
       (\<lparr>plSeed = cfSeed cfg, plLabel = cfLabel cfg, plWindow = cfWindow cfg, plLayers = [],
         plOffered = 0, plEvents = [], plDeclined = []\<rparr>, \<lambda>_. []) of
       (p, byLayer) \<Rightarrow>
         p\<lparr>plEvents := sort_key event_order (map (event_of gen cfg) (selectActions gen cfg (plLayers p) byLayer))\<rparr>)"

section \<open>Filtered layers\<close>

definition filtered :: "string list \<Rightarrow> ('v, 'g) layer \<Rightarrow> ('v, 'g) layer" where
  "filtered keep l = \<lparr>lyID = lyID l,
     lyPlan = (\<lambda>env g. filter (\<lambda>a. ID a \<in> set keep) (assignSeqs (lyPlan l env g))), lyExplain = None\<rparr>"

definition FilterLayers :: "('v, 'g) layer list \<Rightarrow> string list \<Rightarrow> ('v, 'g) layer list" where
  "FilterLayers layers keep = map (filtered keep) layers"

definition subset_config :: "config \<Rightarrow> string list \<Rightarrow> config" where
  "subset_config cfg keep = cfg\<lparr>cfActions := int (length keep)\<rparr>"

section \<open>Identities are unique and stable\<close>

definition dec_val :: "string \<Rightarrow> nat" where
  "dec_val s = foldl (\<lambda>v c. 10 * v + (of_char c - 48)) 0 s"

lemma of_char_digit [simp]: "d < 10 \<Longrightarrow> (of_char (char_of (48 + d) :: char) :: nat) = 48 + d"
  by (simp add: of_char_of)

lemma dec_val_dec: "dec_val (dec n) = n"
proof (induction n rule: dec.induct)
  case (1 n)
  then show ?case
    by (subst dec.simps) (simp add: dec_val_def)
qed

lemma dec_inj [simp]: "dec m = dec n \<longleftrightarrow> m = n"
  by (metis dec_val_dec)

lemma hash_not_dec: "CHR ''#'' \<notin> set (dec n)"
proof (induction n rule: dec.induct)
  case (1 n)
  have "char_of (48 + d) \<noteq> CHR ''#''" if "d < 10" for d :: nat
  proof
    assume "char_of (48 + d) = CHR ''#''"
    then have "(of_char (char_of (48 + d) :: char) :: nat) = of_char (CHR ''#'')" by simp
    then show False using that by simp
  qed
  then have d: "CHR ''#'' \<noteq> char_of (48 + d)" if "d < 10" for d :: nat using that by metis
  show ?case
  proof (cases "n < 10")
    case True
    then show ?thesis using d [OF True] by (subst dec.simps) simp
  next
    case False
    then show ?thesis using d [of "n mod 10"] 1 by (subst dec.simps) simp
  qed
qed

lemma ID_eq_iff: "ID a = ID b \<longleftrightarrow> action_key a = action_key b \<and> acSeq a = acSeq b"
proof
  assume eq: "ID a = ID b"
  have "rev (takeWhile ((\<noteq>) CHR ''#'') (rev (ID c))) = dec (acSeq c)" for c
  proof -
    have "takeWhile ((\<noteq>) CHR ''#'') (rev (dec (acSeq c)) @ CHR ''#'' # xs) = rev (dec (acSeq c))" for xs
      using hash_not_dec [of "acSeq c"] by (subst takeWhile_append2) auto
    then show ?thesis by (simp add: ID_def)
  qed
  then have "dec (acSeq a) = dec (acSeq b)" using eq by metis
  then show "action_key a = action_key b \<and> acSeq a = acSeq b" using eq by (simp add: ID_def)
qed (simp add: ID_def)

lemma action_key_seq [simp]: "action_key (a\<lparr>acSeq := n\<rparr>) = action_key a"
  by (simp add: action_key_def)

lemma assign_loop_pos: "a \<in> set (assign_loop counts as) \<Longrightarrow> acSeq a \<noteq> 0"
  by (induction as arbitrary: counts) (auto simp: Let_def split: if_splits)

lemma assign_loop_keep: "\<forall>a \<in> set as. acSeq a \<noteq> 0 \<Longrightarrow> assign_loop counts as = as"
  by (induction as arbitrary: counts) (auto simp: Let_def)

lemma assignSeqs_filter: "assignSeqs (filter P (assignSeqs as)) = filter P (assignSeqs as)"
  unfolding assignSeqs_def by (rule assign_loop_keep) (auto dest: assign_loop_pos)

lemma assign_loop_layer: "acLayer ` set (assign_loop counts as) = acLayer ` set as"
  by (induction as arbitrary: counts) (auto simp: Let_def)

lemma assign_loop_fresh:
  "\<forall>a \<in> set as. acSeq a = 0 \<Longrightarrow> b \<in> set (assign_loop counts as) \<Longrightarrow> counts (action_key b) < acSeq b"
proof (induction as arbitrary: counts)
  case (Cons a as)
  let ?c = "counts(action_key a := counts (action_key a) + 1)"
  from Cons.prems consider "b = a\<lparr>acSeq := ?c (action_key a)\<rparr>" | "b \<in> set (assign_loop ?c as)"
    by (auto simp: Let_def)
  then show ?case
  proof cases
    case 2
    have "\<forall>a \<in> set as. acSeq a = 0" using Cons.prems(1) by simp
    from Cons.IH [OF this 2] show ?thesis by (simp split: if_splits)
  qed simp
qed simp

lemma assign_loop_distinct:
  "\<forall>a \<in> set as. acSeq a = 0 \<Longrightarrow> distinct (map ID (assign_loop counts as))"
proof (induction as arbitrary: counts)
  case (Cons a as)
  let ?c = "counts(action_key a := counts (action_key a) + 1)"
  let ?a = "a\<lparr>acSeq := ?c (action_key a)\<rparr>"
  have ne: "ID b \<noteq> ID ?a" if "b \<in> set (assign_loop ?c as)" for b
  proof
    assume "ID b = ID ?a"
    then have "action_key b = action_key a" "acSeq b = ?c (action_key a)" by (simp_all add: ID_eq_iff)
    then show False using assign_loop_fresh [of as b ?c] that Cons.prems by simp
  qed
  have "assign_loop counts (a # as) = ?a # assign_loop ?c as" using Cons.prems by (simp add: Let_def)
  then show ?case using ne Cons by force
qed simp

text \<open>The numbering gives every action a planner offers its own identity, and the identities survive a
  shrink: numbering what a filter keeps of a numbered list changes nothing, so the survivors of any subset
  carry the ids they had in the full plan.\<close>

lemma assignSeqs_ids:
  assumes "\<forall>a \<in> set as. acSeq a = 0"
  shows "distinct (map ID (assignSeqs as)) \<and> length (assignSeqs as) = length as \<and>
    assignSeqs (filter P (assignSeqs as)) = filter P (assignSeqs as)"
proof -
  have "length (assign_loop counts as) = length as" for counts
    by (induction as arbitrary: counts) (simp_all add: Let_def)
  then show ?thesis
    using assign_loop_distinct [OF assms] by (simp add: assignSeqs_filter) (simp add: assignSeqs_def)
qed

definition sample_action :: "string \<Rightarrow> string \<Rightarrow> bool \<Rightarrow> action" where
  "sample_action l k probe = \<lparr>acLayer = l, acKind = k, acTarget = ''dut'', acClass = ''lie'',
     acParams = [], acRecoverable = True, acOneshot = probe, acSeq = 0\<rparr>"

section \<open>What is selected\<close>

lemma shuffle_loop_mset:
  "gen_ok gen \<Longrightarrow> i < length xs \<or> i = 0 \<Longrightarrow> mset (fst (shuffle_loop gen i xs g)) = mset xs"
proof (induction i arbitrary: xs g)
  case (Suc i)
  obtain j g' where j: "gnInt31n gen g (Suc i + 1) = (j, g')" by fastforce
  then have "j < Suc i + 1" using Suc.prems(1) unfolding gen_ok_def by (metis add_gr_0 fst_conv less_numeral_extra(1))
  then have "mset (swap_at (Suc i) j xs) = mset xs"
    using Suc.prems(2) by (simp add: swap_at_def mset_swap)
  moreover have "length (swap_at (Suc i) j xs) = length xs" by (simp add: swap_at_def)
  ultimately show ?case using Suc.IH [of "swap_at (Suc i) j xs" g'] Suc.prems j by simp
qed simp

lemma Shuffle_mset [simp]: "gen_ok gen \<Longrightarrow> mset (fst (Shuffle gen xs g)) = mset xs"
  unfolding Shuffle_def by (rule shuffle_loop_mset) auto

lemma Shuffle_length [simp]: "gen_ok gen \<Longrightarrow> length (fst (Shuffle gen xs g)) = length xs"
  by (metis Shuffle_mset size_mset)

definition unpinned :: "string set \<Rightarrow> by_layer \<Rightarrow> string list \<Rightarrow> action list" where
  "unpinned pinned byLayer order = concat (map (\<lambda>i. filter (\<lambda>a. ID a \<notin> pinned) (byLayer i)) order)"

lemma floor_loop_mset:
  assumes "gen_ok gen"
  shows "case floor_loop gen pinned byLayer order (chosen, rest, g) of (chosen', rest', g') \<Rightarrow>
    mset chosen' + mset rest' = mset chosen + mset rest + mset (unpinned pinned byLayer order)"
proof (induction order arbitrary: chosen rest g)
  case (Cons i ids)
  let ?s = "filter (\<lambda>a. ID a \<notin> pinned) (byLayer i)"
  show ?case
  proof (cases "?s = []")
    case True
    then show ?thesis using Cons [of chosen rest g] by (simp add: unpinned_def)
  next
    case False
    obtain sh g' where sh: "Shuffle gen ?s g = (sh, g')" by fastforce
    then have m: "mset sh = mset ?s" using Shuffle_mset [OF assms, of ?s g] by simp
    then have "sh \<noteq> []" using False by auto
    then have "mset (chosen @ [hd sh]) + mset (rest @ tl sh) = mset chosen + mset rest + mset ?s"
      unfolding m [symmetric] by (cases sh) simp_all
    moreover have "byLayer i \<noteq> []" using False by auto
    ultimately show ?thesis
      using Cons [of "chosen @ [hd sh]" "rest @ tl sh" g'] sh False by (auto simp: unpinned_def split: prod.splits)
  qed
qed (simp add: unpinned_def)

lemma mset_partition_concat:
  "mset (concat (map (\<lambda>i. filter P (f i)) xs)) + mset (concat (map (\<lambda>i. filter (\<lambda>a. \<not> P a) (f i)) xs)) =
   mset (concat (map f xs))"
proof (induction xs)
  case (Cons x xs)
  have "mset (filter P (f x)) + mset (filter (\<lambda>a. \<not> P a) (f x)) = mset (f x)"
    by (simp add: multiset_partition [symmetric])
  then show ?case using Cons by (simp add: ac_simps)
qed simp

lemma pins_unpinned:
  "mset (pins cfg order byLayer) + mset (unpinned (ID ` set (pins cfg order byLayer)) byLayer order) =
   mset (concat (map byLayer order))"
proof -
  let ?P = "\<lambda>a. matchesAny (ID a) (cfRequire cfg)"
  have "ID a \<in> ID ` set (pins cfg order byLayer) \<longleftrightarrow> ?P a" if "i \<in> set order" "a \<in> set (byLayer i)" for a i
    using that by (force simp: pins_def)
  then have "unpinned (ID ` set (pins cfg order byLayer)) byLayer order =
      concat (map (\<lambda>i. filter (\<lambda>a. \<not> ?P a) (byLayer i)) order)"
    unfolding unpinned_def by (intro arg_cong [where f = concat] map_cong filter_cong) auto
  then show ?thesis by (simp add: pins_def mset_partition_concat)
qed

lemma floor_loop_floor:
  assumes "gen_ok gen"
  shows "case floor_loop gen pinned byLayer order (chosen, rest, g) of (chosen', rest', g') \<Rightarrow>
    set chosen \<subseteq> set chosen' \<and> length chosen' \<le> length chosen + length order \<and>
    (\<forall>i \<in> set order. set (filter (\<lambda>a. ID a \<notin> pinned) (byLayer i)) \<inter> set chosen' = {} \<longrightarrow>
       filter (\<lambda>a. ID a \<notin> pinned) (byLayer i) = [])"
proof (induction order arbitrary: chosen rest g)
  case (Cons i ids)
  let ?s = "filter (\<lambda>a. ID a \<notin> pinned) (byLayer i)"
  show ?case
  proof (cases "?s = []")
    case True
    then show ?thesis using Cons [of chosen rest g] by (auto split: prod.splits)
  next
    case False
    obtain sh g' where sh: "Shuffle gen ?s g = (sh, g')" by fastforce
    then have m: "mset sh = mset ?s" using Shuffle_mset [OF assms, of ?s g] by simp
    then have "sh \<noteq> []" using False by auto
    then have "hd sh \<in> set ?s" using m by (metis hd_in_set mset_eq_setD)
    moreover have "byLayer i \<noteq> []" using False by auto
    ultimately show ?thesis
      using Cons [of "chosen @ [hd sh]" "rest @ tl sh" g'] sh False
      by (fastforce split: prod.splits)
  qed
qed simp

lemma pinned_iff:
  "i \<in> set order \<Longrightarrow> a \<in> set (byLayer i) \<Longrightarrow>
    ID a \<in> ID ` set (pins cfg order byLayer) \<longleftrightarrow> a \<in> set (pins cfg order byLayer)"
  by (force simp: pins_def)

definition action_budget :: "config \<Rightarrow> int" where
  "action_budget cfg = (if cfActions cfg \<le> 0 then defaultActions else cfActions cfg)"

text \<open>What is selected: pins and floor, then as much of the rest as the budget leaves room for.\<close>

lemma selectActions_spec:
  assumes "gen_ok gen"
  shows "\<exists>chosen more left. mset (selectActions gen cfg order byLayer) = mset chosen + mset more \<and>
    mset chosen + mset more + mset left = mset (concat (map byLayer order)) \<and>
    set (pins cfg order byLayer) \<subseteq> set chosen \<and>
    length chosen \<le> length (pins cfg order byLayer) + length order \<and>
    (\<forall>i \<in> set order. byLayer i \<noteq> [] \<longrightarrow> set (byLayer i) \<inter> set chosen \<noteq> {}) \<and>
    (more = [] \<or> int (length chosen + length more) \<le> action_budget cfg) \<and>
    (left = [] \<or> action_budget cfg \<le> int (length chosen + length more))"
proof -
  let ?pins = "pins cfg order byLayer"
  let ?all = "concat (map byLayer order)"
  obtain chosen rest g where fl: "floor_loop gen (ID ` set ?pins) byLayer order
      (?pins, [], gnSource gen (cfSeed cfg XOR 0x5e1ec7)) = (chosen, rest, g)"
    using prod_cases3 by blast
  have m: "mset chosen + mset rest = mset ?all"
    using floor_loop_mset [OF assms, where pinned = "ID ` set ?pins" and byLayer = byLayer and order = order
      and chosen = ?pins and rest = "[]" and g = "gnSource gen (cfSeed cfg XOR 0x5e1ec7)"] pins_unpinned [of cfg order byLayer] fl by simp
  have sub: "set ?pins \<subseteq> set chosen"
    and len: "length chosen \<le> length ?pins + length order"
    and fill: "\<And>i. i \<in> set order \<Longrightarrow>
      set (filter (\<lambda>a. ID a \<notin> ID ` set ?pins) (byLayer i)) \<inter> set chosen = {} \<Longrightarrow>
      filter (\<lambda>a. ID a \<notin> ID ` set ?pins) (byLayer i) = []"
    using floor_loop_floor [OF assms, where pinned = "ID ` set ?pins" and byLayer = byLayer and order = order
      and chosen = ?pins and rest = "[]" and g = "gnSource gen (cfSeed cfg XOR 0x5e1ec7)"] fl by auto
  have floor: "\<forall>i \<in> set order. byLayer i \<noteq> [] \<longrightarrow> set (byLayer i) \<inter> set chosen \<noteq> {}"
  proof (intro ballI impI notI)
    fix i assume i: "i \<in> set order" "byLayer i \<noteq> []" "set (byLayer i) \<inter> set chosen = {}"
    then have "filter (\<lambda>a. ID a \<notin> ID ` set ?pins) (byLayer i) = []" by (intro fill) auto
    moreover obtain a where a: "a \<in> set (byLayer i)" using i(2) by (cases "byLayer i") auto
    ultimately have "ID a \<in> ID ` set ?pins" unfolding filter_empty_conv by blast
    then have "a \<in> set chosen" using pinned_iff [of i order a byLayer] i(1) a sub by blast
    with a i(3) show False by blast
  qed
  show ?thesis
  proof (cases "action_budget cfg \<le> int (length chosen)")
    case True
    then have "selectActions gen cfg order byLayer = sort_key ID chosen"
      using fl by (simp add: selectActions_def action_budget_def Let_def)
    then show ?thesis using m sub len floor True by (intro exI [of _ chosen] exI [of _ "[]"] exI [of _ rest]) simp
  next
    case False
    let ?n = "nat (action_budget cfg - int (length chosen))" and ?sh = "fst (Shuffle gen rest g)"
    let ?k = "if ?n > length rest then length rest else ?n"
    have "selectActions gen cfg order byLayer = sort_key ID (chosen @ take ?k ?sh)"
      using fl False by (simp add: selectActions_def action_budget_def Let_def)
    moreover have "mset (take ?k ?sh) + mset (drop ?k ?sh) = mset rest"
      using Shuffle_mset [OF assms, of rest g] by (metis append_take_drop_id mset_append)
    moreover have "drop ?k ?sh = [] \<or> action_budget cfg \<le> int (length chosen + length (take ?k ?sh))"
      and "int (length chosen + length (take ?k ?sh)) \<le> action_budget cfg"
      using False Shuffle_length [OF assms, of rest g] by auto
    ultimately show ?thesis using m sub len floor
      by (intro exI [of _ chosen] exI [of _ "take ?k ?sh"] exI [of _ "drop ?k ?sh"])
        (simp only: mset_sort mset_append add.assoc simp_thms)
  qed
qed

section \<open>The plan as a function of what is offered\<close>

definition all_offered :: "'g generator \<Rightarrow> config \<Rightarrow> 'v \<Rightarrow> ('v, 'g) layer list \<Rightarrow> action list" where
  "all_offered gen cfg env layers = concat (map (offered_by gen cfg env) layers)"

lemma layers_loop_result:
  assumes "distinct (map lyID layers)" "\<forall>l \<in> set layers. byLayer (lyID l) = []"
  shows "case layers_loop gen cfg env layers (p, byLayer) of (p', byLayer') \<Rightarrow>
    plLayers p' = plLayers p @ map lyID layers \<and> map byLayer' (map lyID layers) = map (offered_by gen cfg env) layers \<and>
    (\<forall>i. i \<notin> lyID ` set layers \<longrightarrow> byLayer' i = byLayer i)"
  using assms
proof (induction layers arbitrary: p byLayer)
  case (Cons l ls)
  let ?o = "offered_by gen cfg env l"
  let ?p = "p\<lparr>plLayers := plLayers p @ [lyID l], plOffered := plOffered p + length ?o\<rparr>"
  let ?p' = "if ?o = [] then ?p\<lparr>plDeclined := plDeclined p @ [(lyID l, why_declined env l)]\<rparr> else ?p"
  let ?b = "if ?o = [] then byLayer else byLayer(lyID l := ?o)"
  have step: "layers_loop gen cfg env (l # ls) (p, byLayer) = layers_loop gen cfg env ls (?p', ?b)"
    by (simp add: Let_def)
  have l: "plLayers ?p' = plLayers p @ [lyID l]" by simp
  have ne: "lyID k \<noteq> lyID l" if "k \<in> set ls" for k 
    using Cons.prems(1) imageI [OF that, of lyID] by (metis distinct.simps(2) list.simps(9) set_map)
  have "\<forall>k \<in> set ls. ?b (lyID k) = []" "?b (lyID l) = ?o" "lyID l \<notin> lyID ` set ls"
    using Cons.prems by (simp_all add: ne)
  with Cons.IH [of ?b ?p'] Cons.prems(1) show ?case
    unfolding step l by (auto split: prod.splits)
qed simp

lemma BuildPlan_events:
  assumes "distinct (map lyID layers)"
  obtains byLayer where
    "plEvents (BuildPlan gen cfg env layers) =
       sort_key event_order (map (event_of gen cfg) (selectActions gen cfg (map lyID layers) byLayer))"
    "concat (map byLayer (map lyID layers)) = all_offered gen cfg env layers"
    "\<forall>l \<in> set layers. byLayer (lyID l) = offered_by gen cfg env l"
proof -
  obtain p byLayer where r: "layers_loop gen cfg env layers (\<lparr>plSeed = cfSeed cfg, plLabel = cfLabel cfg,
      plWindow = cfWindow cfg, plLayers = [], plOffered = 0, plEvents = [], plDeclined = []\<rparr>, \<lambda>_. []) = (p, byLayer)"
    by fastforce
  with layers_loop_result [OF assms, where byLayer = "\<lambda>_. []" and gen = gen and cfg = cfg and env = env
    and p = "\<lparr>plSeed = cfSeed cfg, plLabel = cfLabel cfg,
      plWindow = cfWindow cfg, plLayers = [], plOffered = 0, plEvents = [], plDeclined = []\<rparr>"]
  have p: "plLayers p = map lyID layers" "map byLayer (map lyID layers) = map (offered_by gen cfg env) layers"
    by simp_all
  show ?thesis
  proof (rule that)
    show "plEvents (BuildPlan gen cfg env layers) =
       sort_key event_order (map (event_of gen cfg) (selectActions gen cfg (map lyID layers) byLayer))"
      using r p(1) by (simp add: BuildPlan_def)
    show "concat (map byLayer (map lyID layers)) = all_offered gen cfg env layers"
      using p(2) unfolding all_offered_def by (rule arg_cong)
    show "\<forall>l \<in> set layers. byLayer (lyID l) = offered_by gen cfg env l"
      using p(2) by simp
  qed
qed

lemma action_budget_subset [simp]: "keep \<noteq> [] \<Longrightarrow> action_budget (subset_config cfg keep) = int (length keep)"
  by (simp add: action_budget_def subset_config_def)

lemma event_of_subset [simp]: "event_of gen (subset_config cfg keep) = event_of gen cfg"
proof -
  have "armSpan (subset_config cfg keep) = armSpan cfg"
    "recoveryTail (subset_config cfg keep) = recoveryTail cfg"
    "cfSeed (subset_config cfg keep) = cfSeed cfg" "cfWindow (subset_config cfg keep) = cfWindow cfg"
    "cfCadence (subset_config cfg keep) = cfCadence cfg"
    by (simp_all add: subset_config_def armSpan_def recoveryTail_def window_def cadence_def)
  then show ?thesis by (intro ext) (simp only: event_of_def)
qed

lemma evActionID_event_of [simp]: "evActionID (event_of gen cfg a) = ID a"
  by (simp add: event_of_def Let_def split: prod.split)

lemma offered_by_filtered:
  "offered_by gen (subset_config cfg keep) env (filtered keep l) = filter (\<lambda>a. ID a \<in> set keep) (offered_by gen cfg env l)"
  by (simp add: offered_by_def filtered_def subset_config_def assignSeqs_filter)

lemma all_offered_filtered:
  "all_offered gen (subset_config cfg keep) env (FilterLayers layers keep) =
     filter (\<lambda>a. ID a \<in> set keep) (all_offered gen cfg env layers)"
  by (simp add: all_offered_def FilterLayers_def filter_concat comp_def offered_by_filtered)

lemma FilterLayers_ids [simp]: "map lyID (FilterLayers layers keep) = map lyID layers"
  by (simp add: FilterLayers_def filtered_def comp_def)

lemma length_filter_ids:
  assumes "distinct (map ID xs)" "distinct keep" "set keep \<subseteq> ID ` set xs"
  shows "length (filter (\<lambda>a. ID a \<in> set keep) xs) = length keep"
proof -
  have "ID ` set (filter (\<lambda>a. ID a \<in> set keep) xs) = set keep" using assms(3) by auto
  moreover have "distinct (map ID (filter (\<lambda>a. ID a \<in> set keep) xs))"
    using assms(1) by (simp add: distinct_map_filter)
  ultimately show ?thesis
    using distinct_card assms(2) by (metis length_map list.set_map)
qed

text \<open>The layers under which ids are unique: each offers unnumbered actions of its own name.\<close>

definition layers_ok :: "'v \<Rightarrow> ('v, 'g) layer list \<Rightarrow> bool" where
  "layers_ok env layers \<longleftrightarrow> distinct (map lyID layers) \<and>
     (\<forall>l \<in> set layers. CHR ''/'' \<notin> set (lyID l) \<and>
        (\<forall>g. \<forall>a \<in> set (lyPlan l env g). acLayer a = lyID l \<and> acSeq a = 0))"

lemma offered_by_layer:
  assumes "layers_ok env layers" "l \<in> set layers" "a \<in> set (offered_by gen cfg env l)"
  shows "takeWhile (\<lambda>c. c \<noteq> CHR ''/'') (ID a) = lyID l"
proof -
  have "acLayer a \<in> acLayer ` set (offered_by gen cfg env l)" using assms(3) by simp
  then have "acLayer a = lyID l"
    using assms(1,2) by (auto simp: offered_by_def assignSeqs_def assign_loop_layer layers_ok_def)
  moreover have "CHR ''/'' \<notin> set (lyID l)" using assms(1,2) by (simp add: layers_ok_def)
  ultimately show ?thesis
    by (simp add: ID_def action_key_def) (subst takeWhile_append2; auto)
qed

lemma distinct_offered:
  assumes "layers_ok env layers"
  shows "distinct (map ID (all_offered gen cfg env layers))"
proof -
  have "distinct (map ID (concat (map (offered_by gen cfg env) ls)))" if "set ls \<subseteq> set layers" "distinct (map lyID ls)" for ls
    using that
  proof (induction ls)
    case (Cons l ls)
    have "distinct (map ID (offered_by gen cfg env l))"
      using assms Cons.prems(1) unfolding offered_by_def assignSeqs_def
      by (intro assign_loop_distinct) (auto simp: layers_ok_def)
    moreover have "ID a \<noteq> ID b" if ab: "a \<in> set (offered_by gen cfg env l)" "k \<in> set ls" "b \<in> set (offered_by gen cfg env k)" for a b k
    proof
      assume "ID a = ID b"
      then have "lyID l = lyID k"
        using offered_by_layer [OF assms _ ab(1)] offered_by_layer [OF assms _ ab(3)] ab(2) Cons.prems(1) by auto
      then show False using Cons.prems(2) ab(2) by auto
    qed
    ultimately show ?case using Cons by (auto simp: image_iff)
  qed simp
  then show ?thesis using assms by (simp add: all_offered_def layers_ok_def)
qed

lemma sort_key_mset_eq:
  assumes "mset xs = mset ys" "inj_on f (set xs)"
  shows "sort_key f xs = sort_key f ys"
  using assms by (intro sort_key_inj_key_eq) simp_all

lemma subset_events:
  assumes "mset sel + mset left = mset offered" "distinct (map ID offered)"
    "mset sel' = mset (filter (\<lambda>a. ID a \<in> set keep) offered)" "set keep \<subseteq> ID ` set sel"
  shows "sort_key event_order (map (event_of gen cfg) sel') =
    filter (\<lambda>e. evActionID e \<in> set keep) (sort_key event_order (map (event_of gen cfg) sel))"
proof -
  let ?P = "\<lambda>a. ID a \<in> set keep"
  have "mset (map ID (sel @ left)) = mset (map ID offered)" using assms(1) by (metis mset_append mset_map)
  then have d: "distinct (map ID (sel @ left))" using assms(2) by (metis mset_eq_imp_distinct_iff)
  then have "filter ?P left = []" using assms(4) by (force simp: filter_empty_conv)
  moreover have "mset (filter ?P (sel @ left)) = mset (filter ?P offered)"
    using assms(1) by (metis mset_append mset_filter)
  ultimately have m: "mset sel' = mset (filter ?P sel)" using assms(3) by simp
  have "inj_on ID (set sel)" using d by (simp add: distinct_map)
  then have "inj_on (\<lambda>a. event_order (event_of gen cfg a)) (set (filter ?P sel))"
    by (auto simp: inj_on_def event_order_def)
  then have "inj_on event_order (set (map (event_of gen cfg) (filter ?P sel)))"
    by (auto simp: inj_on_def)
  moreover have "mset (map (event_of gen cfg) (filter ?P sel)) = mset (map (event_of gen cfg) sel')"
    using m by simp
  ultimately have "sort_key event_order (map (event_of gen cfg) (filter ?P sel)) =
      sort_key event_order (map (event_of gen cfg) sel')"
    by (intro sort_key_mset_eq)
  then show ?thesis by (simp add: filter_sort filter_map comp_def)
qed

lemma BuildPlan_filtered:
  assumes "gen_ok gen" "layers_ok env layers" "keep \<noteq> []" "distinct keep"
    "set keep \<subseteq> set (ActionIDs (BuildPlan gen cfg env layers))"
  shows "plEvents (BuildPlan gen (subset_config cfg keep) env (FilterLayers layers keep)) =
    plEvents (Subset (BuildPlan gen cfg env layers) keep)"
proof -
  have d: "distinct (map lyID layers)" and d': "distinct (map lyID (FilterLayers layers keep))"
    using assms(2) by (simp_all add: layers_ok_def)
  obtain by1 where 1: "plEvents (BuildPlan gen cfg env layers) =
       sort_key event_order (map (event_of gen cfg) (selectActions gen cfg (map lyID layers) by1))"
    "concat (map by1 (map lyID layers)) = all_offered gen cfg env layers"
    by (rule BuildPlan_events [OF d, of gen cfg env]) blast
  obtain by2 where 2: "plEvents (BuildPlan gen (subset_config cfg keep) env (FilterLayers layers keep)) =
       sort_key event_order (map (event_of gen cfg) (selectActions gen (subset_config cfg keep) (map lyID layers) by2))"
    "concat (map by2 (map lyID layers)) = filter (\<lambda>a. ID a \<in> set keep) (all_offered gen cfg env layers)"
    by (rule BuildPlan_events [OF d', of gen "subset_config cfg keep" env])
      (simp only: FilterLayers_ids event_of_subset all_offered_filtered)
  let ?sel = "selectActions gen cfg (map lyID layers) by1"
  let ?sel' = "selectActions gen (subset_config cfg keep) (map lyID layers) by2"
  let ?off = "all_offered gen cfg env layers"
  have ids: "distinct (map ID ?off)" by (rule distinct_offered [OF assms(2)])
  obtain left where left: "mset ?sel + mset left = mset ?off"
    using selectActions_spec [OF assms(1), of cfg "map lyID layers" by1] unfolding 1(2) by metis
  have "set (ActionIDs (BuildPlan gen cfg env layers)) = ID ` set ?sel"
    by (simp add: ActionIDs_def 1(1) image_image)
  then have sub: "set keep \<subseteq> ID ` set ?sel" using assms(5) by simp
  have "set ?sel \<subseteq> set ?off" using left by (metis Un_upper1 set_mset_mset set_mset_union)
  then have "set keep \<subseteq> ID ` set ?off" using sub by blast
  then have len: "length (filter (\<lambda>a. ID a \<in> set keep) ?off) = length keep"
    by (rule length_filter_ids [OF ids assms(4)])
  obtain chosen more left' where s: "mset ?sel' = mset chosen + mset more"
    "mset chosen + mset more + mset left' = mset (filter (\<lambda>a. ID a \<in> set keep) ?off)"
    "left' = [] \<or> int (length keep) \<le> int (length chosen + length more)"
    using selectActions_spec [OF assms(1), of "subset_config cfg keep" "map lyID layers" by2] assms(3)
    unfolding 2(2) action_budget_subset [OF assms(3)] by metis
  have "length chosen + length more + length left' = length keep"
    using arg_cong [OF s(2), of size] len by (simp del: mset_filter)
  with s(3) have "length left' = 0" by (elim disjE) (simp, linarith)
  then have "left' = []" by simp
  then have "mset ?sel' = mset (filter (\<lambda>a. ID a \<in> set keep) ?off)" using s by simp
  from subset_events [OF left ids this sub, of gen cfg] show ?thesis by (simp add: 2(1) 1(1) Subset_def)
qed

text \<open>C19: a shrink attempt is a genuine subset of the original campaign: planning again from the same seed
  with the layers filtered to the kept ids, and a budget of exactly that many actions, gives the events of
  the original plan restricted to those ids, each with its original time, hold and parameters, in the same
  order.  Nothing the shrinker asked for is dropped and nothing else moves.\<close>

theorem BuildPlan_Subset:
  assumes "gen_ok gen" "layers_ok env layers" "keep \<noteq> []" "distinct keep"
    "set keep \<subseteq> set (ActionIDs (BuildPlan gen cfg env layers))"
  shows "plEvents (BuildPlan gen (subset_config cfg keep) env (FilterLayers layers keep)) =
    plEvents (Subset (BuildPlan gen cfg env layers) keep)"
  by (rule BuildPlan_filtered [OF assms])

definition sample_layers :: "(unit, nat) layer list" where
  "sample_layers = [\<lparr>lyID = ''lie'', lyPlan = (\<lambda>_ _. [sample_action ''lie'' ''x'' False, sample_action ''lie'' ''x'' False]),
       lyExplain = None\<rparr>,
     \<lparr>lyID = ''probe'', lyPlan = (\<lambda>_ _. [sample_action ''probe'' ''y'' True]), lyExplain = None\<rparr>]"

definition sample_config :: config where
  "sample_config = \<lparr>cfLabel = [], cfSeed = 7, cfWindow = defaultWindow, cfCadence = defaultCadence, cfActions = 8,
     cfRequire = [], cfOverlapSpan = 40500000000\<rparr>"

lemma layers_ok_sample: "layers_ok () sample_layers"
  by (simp add: layers_ok_def sample_layers_def sample_action_def)

lemma BuildPlan_all:
  assumes "gen_ok gen" "distinct (map lyID layers)"
    "int (length (all_offered gen cfg env layers)) \<le> action_budget cfg"
  shows "set (plEvents (BuildPlan gen cfg env layers)) = event_of gen cfg ` set (all_offered gen cfg env layers)"
proof -
  obtain by1 where 1: "plEvents (BuildPlan gen cfg env layers) = sort_key event_order (map (event_of gen cfg)
       (selectActions gen cfg (map lyID layers) by1))"
    "concat (map by1 (map lyID layers)) = all_offered gen cfg env layers"
    by (rule BuildPlan_events [OF assms(2), of gen cfg env]) blast
  obtain chosen more left where s: "mset (selectActions gen cfg (map lyID layers) by1) = mset chosen + mset more"
    "mset chosen + mset more + mset left = mset (all_offered gen cfg env layers)"
    "left = [] \<or> action_budget cfg \<le> int (length chosen + length more)"
    using selectActions_spec [OF assms(1), of cfg "map lyID layers" by1] unfolding 1(2) by metis
  have "length chosen + length more + length left = length (all_offered gen cfg env layers)"
    using arg_cong [OF s(2), of size] by simp
  with s(3) assms(3) have "length left = 0" by (elim disjE) (simp, linarith)
  then have "mset (selectActions gen cfg (map lyID layers) by1) = mset (all_offered gen cfg env layers)"
    using s(1,2) by simp
  from mset_eq_setD [OF this] show ?thesis by (simp add: 1(1))
qed

lemma sample_offered:
  "map ID (all_offered gen cfg () sample_layers) = [''lie/x@dut#1'', ''lie/x@dut#2'', ''probe/y@dut#1'']"
  "map acOneshot (all_offered gen cfg () sample_layers) = [False, False, True]"
  by (simp_all add: all_offered_def offered_by_def sample_layers_def assignSeqs_def sample_action_def
      ID_def action_key_def dec.simps Let_def char_of_def bit_0)

lemma sample_plan:
  assumes "gen_ok gen" "3 \<le> action_budget cfg"
  shows "set (plEvents (BuildPlan gen cfg () sample_layers)) =
    event_of gen cfg ` set (all_offered gen cfg () sample_layers)"
  using assms arg_cong [OF sample_offered(1), of length] layers_ok_sample
  by (intro BuildPlan_all) (simp_all add: layers_ok_def)

lemma sample_ids:
  "set (ActionIDs (BuildPlan counting sample_config () sample_layers)) =
     {''lie/x@dut#1'', ''lie/x@dut#2'', ''probe/y@dut#1''}"
proof -
  have "set (ActionIDs (BuildPlan counting sample_config () sample_layers)) =
      set (map ID (all_offered counting sample_config () sample_layers))"
    by (simp add: ActionIDs_def sample_plan gen_ok_counting action_budget_def sample_config_def image_image)
  then show ?thesis by (simp add: sample_offered)
qed

theorem BuildPlan_Subset_witness:
  "plEvents (BuildPlan counting (subset_config sample_config [''lie/x@dut#2'']) ()
       (FilterLayers sample_layers [''lie/x@dut#2''])) =
   plEvents (Subset (BuildPlan counting sample_config () sample_layers) [''lie/x@dut#2''])"
  by (rule BuildPlan_Subset [OF gen_ok_counting layers_ok_sample]) (simp_all add: sample_ids)

lemma evLayer_event_of [simp]: "evLayer (event_of gen cfg a) = acLayer a"
  by (simp add: event_of_def Let_def split: prod.split)

text \<open>Selection honours the pins and the per-layer floor before the budget: every layer that offers an
  action against the inventory has an event in the plan, every offered action that matches a required
  pattern is in it, no action is scheduled twice and none that was not offered, the budget is filled when
  enough is offered, and it is exceeded only by pins and floor.  The events are in order of their times.\<close>

lemma BuildPlan_selection:
  assumes "gen_ok gen" "layers_ok env layers"
  shows "let p = BuildPlan gen cfg env layers in
    sorted (map evAt (plEvents p)) \<and> distinct (ActionIDs p) \<and>
    set (ActionIDs p) \<subseteq> ID ` set (all_offered gen cfg env layers) \<and>
    (\<forall>l \<in> set layers. offered_by gen cfg env l \<noteq> [] \<longrightarrow>
       set (ActionIDs p) \<inter> ID ` set (offered_by gen cfg env l) \<noteq> {}) \<and>
    (\<forall>a \<in> set (all_offered gen cfg env layers). matchesAny (ID a) (cfRequire cfg) \<longrightarrow> ID a \<in> set (ActionIDs p)) \<and>
    min (action_budget cfg) (int (length (all_offered gen cfg env layers))) \<le> int (length (ActionIDs p)) \<and>
    int (length (ActionIDs p)) \<le> max (action_budget cfg) (int (length layers +
      length (filter (\<lambda>a. matchesAny (ID a) (cfRequire cfg)) (all_offered gen cfg env layers))))"
proof -
  define p where "p = BuildPlan gen cfg env layers"
  have d: "distinct (map lyID layers)" using assms(2) by (simp add: layers_ok_def)
  obtain by1 where 1: "plEvents p =
       sort_key event_order (map (event_of gen cfg) (selectActions gen cfg (map lyID layers) by1))"
    "concat (map by1 (map lyID layers)) = all_offered gen cfg env layers"
    "\<forall>l \<in> set layers. by1 (lyID l) = offered_by gen cfg env l"
    unfolding p_def by (rule BuildPlan_events [OF d, of gen cfg env]) blast
  let ?sel = "selectActions gen cfg (map lyID layers) by1" and ?off = "all_offered gen cfg env layers"
  let ?pins = "pins cfg (map lyID layers) by1"
  obtain chosen more left where s: "mset ?sel = mset chosen + mset more"
    "mset chosen + mset more + mset left = mset ?off" "set ?pins \<subseteq> set chosen"
    "length chosen \<le> length ?pins + length layers"
    "\<forall>i \<in> set (map lyID layers). by1 i \<noteq> [] \<longrightarrow> set (by1 i) \<inter> set chosen \<noteq> {}"
    "more = [] \<or> int (length chosen + length more) \<le> action_budget cfg"
    "left = [] \<or> action_budget cfg \<le> int (length chosen + length more)"
    using selectActions_spec [OF assms(1), of cfg "map lyID layers" by1] unfolding 1(2) length_map by metis
  have pins: "?pins = filter (\<lambda>a. matchesAny (ID a) (cfRequire cfg)) ?off"
    by (simp add: pins_def 1(2) [symmetric] filter_concat comp_def)
  have mids: "mset (ActionIDs p) = mset (map ID ?sel)"
    unfolding ActionIDs_def mset_map 1(1) mset_sort by (simp add: multiset.map_comp comp_def)
  have ids: "set (ActionIDs p) = ID ` set ?sel" using mset_eq_setD [OF mids] by simp
  have sel: "set ?sel = set chosen \<union> set more" using mset_eq_setD [of ?sel "chosen @ more"] s(1) by simp
  have off: "set ?off = set chosen \<union> set more \<union> set left"
    using mset_eq_setD [of ?off "chosen @ more @ left"] s(2) by (simp add: Un_assoc ac_simps)
  have len: "length (ActionIDs p) = length chosen + length more"
    using arg_cong [OF mids, of size] arg_cong [OF s(1), of size] by simp
  have leno: "length ?off = length chosen + length more + length left"
    using arg_cong [OF s(2), of size] by simp
  have "distinct (map ID ?off)" by (rule distinct_offered [OF assms(2)])
  moreover have "mset (map ID (?sel @ left)) = mset (map ID ?off)" using s(1,2) by (metis mset_append mset_map)
  ultimately have "distinct (map ID (?sel @ left))" by (metis mset_eq_imp_distinct_iff)
  then have dist: "distinct (ActionIDs p)" using mids by (metis distinct_append map_append mset_eq_imp_distinct_iff)
  have sorted: "sorted (map evAt (plEvents p))"
  proof -
    have "sorted_wrt (\<lambda>x y. event_order x \<le> event_order y) (plEvents p)"
      using sorted_sort_key [of event_order] unfolding 1(1) sorted_map by blast
    then have "sorted_wrt (\<lambda>x y. evAt x \<le> evAt y) (plEvents p)"
      by (rule sorted_wrt_mono_rel [rotated]) (auto simp: event_order_def less_eq_prod_def)
    then show ?thesis by (simp add: sorted_map)
  qed
  have floor: "set (ActionIDs p) \<inter> ID ` set (offered_by gen cfg env l) \<noteq> {}"
    if "l \<in> set layers" "offered_by gen cfg env l \<noteq> []" for l
    using s(5) 1(3) that unfolding ids sel by fastforce
  have req: "ID a \<in> set (ActionIDs p)" if "a \<in> set ?off" "matchesAny (ID a) (cfRequire cfg)" for a
    using s(3) that unfolding ids sel pins by auto
  have low: "min (action_budget cfg) (int (length ?off)) \<le> int (length (ActionIDs p))"
    using s(7) unfolding len leno by auto
  have high: "int (length (ActionIDs p)) \<le> max (action_budget cfg) (int (length layers + length ?pins))"
    using s(4,6) unfolding len by auto
  show ?thesis
    using sorted dist floor req low high off sel unfolding Let_def p_def [symmetric] pins
    by (simp add: ids) blast
qed

section \<open>When the faults are withdrawn\<close>

text \<open>C33: with the faults' arm times confined to what the window leaves before the recovery tail and one
  cadence, every scheduled fault is armed within that span and withdrawn before the recovery tail begins,
  after at least three quarters of the time it had (less a millisecond); every probe fires in the back half
  of the span.\<close>

theorem BuildPlan_fault_times:
  assumes "gen_ok gen" "layers_ok env layers" "millisecond \<le> cfOverlapSpan cfg" "2 * millisecond \<le> cfCadence cfg"
    "cfOverlapSpan cfg + cfCadence cfg + recoveryTail cfg \<le> cfWindow cfg"
    "e \<in> set (plEvents (BuildPlan gen cfg env layers))"
  shows "if evOneshot e
    then cfOverlapSpan cfg div 2 \<le> evAt e \<and> evAt e < cfOverlapSpan cfg + millisecond \<and> evHold e = 0
    else 0 \<le> evAt e \<and> evAt e < cfOverlapSpan cfg \<and> 0 < evHold e \<and>
      Until e \<le> cfWindow cfg - recoveryTail cfg \<and>
      3 * (cfWindow cfg - recoveryTail cfg - evAt e) \<le> 4 * evHold e + 4 * millisecond"
proof -
  have d: "distinct (map lyID layers)" using assms(2) by (simp add: layers_ok_def)
  obtain a where a: "e = event_of gen cfg a"
    by (rule BuildPlan_events [OF d, of gen cfg env]) (use assms(6) in auto)
  have span: "armSpan cfg = cfOverlapSpan cfg" and pos: "0 < millisecond"
    using assms(3) by (auto simp: armSpan_def millisecond_def)
  let ?S = "cfOverlapSpan cfg" and ?g = "gnSource gen (layerSeed (cfSeed cfg XOR 0x5eed5ced) (ID a))"
  have draw: "0 \<le> fst (gnInt63n gen g n) \<and> fst (gnInt63n gen g n) < n" if "0 < n" for g n
    using assms(1) that by (simp add: gen_ok_def)
  have max: "0 < maxDur n millisecond" "maxDur n millisecond \<le> max n millisecond" for n
    using pos by (auto simp: maxDur_def)
  show ?thesis
  proof (cases "acOneshot a")
    case True
    have half: "?S sdiv 2 = ?S div 2" using assms(3) pos by (simp add: signed_divide_int_def)
    then have e: "evOneshot e" "evHold e = 0"
      "evAt e = ?S div 2 + fst (gnInt63n gen ?g (maxDur (?S - ?S div 2) millisecond))"
      using True by (simp_all add: a event_of_def Let_def span)
    show ?thesis
      using draw [OF max(1), of ?g "?S - ?S div 2"] max(2) [of "?S - ?S div 2"] assms(3) pos
      by (auto simp: e max_def split: if_splits)
  next
    case False
    let ?at = "fst (gnInt63n gen ?g (maxDur ?S millisecond))"
    let ?left = "cfWindow cfg - recoveryTail cfg - ?at"
    let ?j = "fst (gnInt63n gen (snd (gnInt63n gen ?g (maxDur ?S millisecond))) (maxDur (?left sdiv 4) millisecond))"
    have S: "maxDur ?S millisecond = ?S" using assms(3) by (simp add: maxDur_def)
    have at: "0 \<le> ?at" "?at < ?S" using draw [of ?S ?g] assms(3) pos by (simp_all add: S)
    then have left: "cfCadence cfg < ?left" using assms(5) by linarith
    have quarter: "?left sdiv 4 = ?left div 4"
      using left assms(4) pos by (simp add: signed_divide_int_def)
    have j: "0 \<le> ?j" "?j < maxDur (?left sdiv 4) millisecond" using draw [OF max(1)] by blast+
    have e: "\<not> evOneshot e" "evAt e = ?at" "evHold e = ?left - ?j"
      using False left by (simp_all add: a event_of_def Let_def span case_prod_beta)
    have "maxDur (?left sdiv 4) millisecond \<le> max (?left div 4) millisecond"
      using max(2) [of "?left sdiv 4"] by (simp only: quarter)
    then have "?j < max (?left div 4) millisecond" using j(2) by linarith
    then show ?thesis
      using at j(1) left assms(4) pos by (auto simp: e Until_def max_def split: if_splits)
  qed
qed

lemma sample_fault:
  assumes "gen_ok gen" "3 \<le> action_budget cfg"
  obtains a where "\<not> acOneshot a" "event_of gen cfg a \<in> set (plEvents (BuildPlan gen cfg () sample_layers))"
proof -
  have "False \<in> set (map acOneshot (all_offered gen cfg () sample_layers))" by (simp add: sample_offered)
  then show ?thesis using that sample_plan [OF assms] by auto
qed

theorem BuildPlan_fault_times_witness:
  "\<exists>e \<in> set (plEvents (BuildPlan counting sample_config () sample_layers)).
     \<not> evOneshot e \<and> Until e \<le> cfWindow sample_config - recoveryTail sample_config"
proof -
  obtain a where a: "\<not> acOneshot a"
    "event_of counting sample_config a \<in> set (plEvents (BuildPlan counting sample_config () sample_layers))"
    by (rule sample_fault [OF gen_ok_counting, of sample_config]) (simp add: action_budget_def sample_config_def)
  have "\<not> evOneshot (event_of counting sample_config a)"
    using a(1) by (simp add: event_of_def Let_def split: prod.split)
  with BuildPlan_fault_times [OF gen_ok_counting layers_ok_sample _ _ _ a(2)] a(2) show ?thesis
    by (auto simp: sample_config_def millisecond_def second_def defaultCadence_def defaultWindow_def
        recoveryTail_def cadence_def window_def Let_def signed_divide_int_def)
qed

text \<open>An overlap of 1 spreads the faults over the whole window.\<close>

definition latest :: "unit generator" where
  "latest = \<lparr>gnSource = (\<lambda>_. ()), gnInt63n = (\<lambda>g n. (n - 1, g)), gnInt31n = (\<lambda>g n. (n - 1, g))\<rparr>"

definition sample_layers1 :: "(unit, unit) layer list" where
  "sample_layers1 = [\<lparr>lyID = ''lie'', lyPlan = (\<lambda>_ _. [sample_action ''lie'' ''x'' False]), lyExplain = None\<rparr>]"

definition full_overlap :: config where
  "full_overlap = sample_config\<lparr>cfOverlapSpan := defaultWindow\<rparr>"

text \<open>The recovery tail is not reserved for every configuration.  With the overlap fraction 1, which
  the configuration accepts, and draws at the top of their range, the planner schedules a fault that is
  withdrawn only after the end of the window, although the tail is meant to start with every fault cleared.\<close>

lemma BuildPlan_outlives_window:
  "gen_ok latest \<and> layers_ok () sample_layers1 \<and>
   (\<exists>e \<in> set (plEvents (BuildPlan latest full_overlap () sample_layers1)).
      \<not> evOneshot e \<and> cfWindow full_overlap - recoveryTail full_overlap \<le> evAt e \<and> cfWindow full_overlap < Until e)"
proof (intro conjI)
  show g: "gen_ok latest" by (simp add: gen_ok_def latest_def)
  show l: "layers_ok () sample_layers1" by (simp add: layers_ok_def sample_layers1_def sample_action_def)
  have off: "all_offered latest full_overlap () sample_layers1 = [(sample_action ''lie'' ''x'' False)\<lparr>acSeq := 1\<rparr>]"
    by (simp add: all_offered_def offered_by_def sample_layers1_def assignSeqs_def sample_action_def Let_def)
  let ?e = "event_of latest full_overlap ((sample_action ''lie'' ''x'' False)\<lparr>acSeq := 1\<rparr>)"
  have b: "int (length (all_offered latest full_overlap () sample_layers1)) \<le> action_budget full_overlap"
    unfolding off by (simp add: action_budget_def full_overlap_def sample_config_def)
  have "distinct (map lyID sample_layers1)" by (simp add: sample_layers1_def)
  from BuildPlan_all [OF g this b] have "set (plEvents (BuildPlan latest full_overlap () sample_layers1)) = {?e}"
    by (simp add: off)
  moreover have "\<not> evOneshot ?e" "cfWindow full_overlap - recoveryTail full_overlap \<le> evAt ?e"
    "cfWindow full_overlap < Until ?e"
    by (simp_all add: event_of_def latest_def sample_action_def full_overlap_def sample_config_def armSpan_def
        maxDur_def millisecond_def second_def defaultCadence_def defaultWindow_def recoveryTail_def
        cadence_def window_def Let_def signed_divide_int_def Until_def)
  ultimately show "\<exists>e \<in> set (plEvents (BuildPlan latest full_overlap () sample_layers1)).
      \<not> evOneshot e \<and> cfWindow full_overlap - recoveryTail full_overlap \<le> evAt e \<and> cfWindow full_overlap < Until e"
    by simp
qed

end
