(* ===== verification/Campaign_Shrink.thy ===== *)
theory Campaign_Shrink
  imports Campaign_Plan "HOL-Library.While_Combinator"
begin

text \<open>
  \<^verbatim>\<open>internal/campaign/shrink.go\<close>: the delta-debugging loop that reduces a failing campaign.  One
  campaign run is a parameter \<^verbatim>\<open>run\<close>, given the number of the attempt and the plan: it answers an error or
  whether the signature appeared, and may answer differently for the same plan at another attempt.  The
  loop is a \<^verbatim>\<open>while_option\<close>; that it ends is a theorem.  Wall-clock times and log lines are left out.
\<close>

section \<open>Attempts and results\<close>

record attempt =
  atN :: nat
  atKeep :: "string list"
  atReproduced :: bool
  atErr :: "string option"

record violation =
  viSignature :: string
  viID :: string
  viReason :: string

record run_result =
  rrPlan :: plan
  rrViolations :: "violation list"

record shrinkResult =
  srSignature :: string
  srInvariantID :: string
  srReason :: string
  srOriginal :: "string list"
  srMinimal :: "string list"
  srMinimalPlan :: "plan option"
  srAttempts :: "attempt list"
  srConfirmed :: bool
  srExhausted :: bool
  srErrored :: nat

definition Minimal1 :: "shrinkResult \<Rightarrow> bool" where
  "Minimal1 s \<longleftrightarrow> srConfirmed s \<and> \<not> srExhausted s"

definition shrink_budget :: "int \<Rightarrow> nat" where
  "shrink_budget b = (if b \<le> 0 then nat defaultShrinkTo else nat b)"

datatype shrink_error = NoActions

type_synonym rerun = "nat \<Rightarrow> string list \<Rightarrow> string + bool"

definition runSubset :: "(nat \<Rightarrow> plan \<Rightarrow> string + bool) \<Rightarrow> 'g generator \<Rightarrow> config \<Rightarrow> 'v \<Rightarrow>
    ('v, 'g) layer list \<Rightarrow> rerun" where
  "runSubset run gen cfg env layers n keep =
    run n (BuildPlan gen (subset_config cfg keep) env (FilterLayers layers keep))"

section \<open>Partition and complement\<close>

fun chunk_loop :: "'a list \<Rightarrow> nat \<Rightarrow> nat \<Rightarrow> nat \<Rightarrow> nat \<Rightarrow> nat \<Rightarrow> 'a list list" where
  "chunk_loop ids base extra c 0 i = []"
| "chunk_loop ids base extra c (Suc k) i =
    (let sz = (if c < extra then base + 1 else base)
     in subslice ids i (i + sz) # chunk_loop ids base extra (Suc c) k (i + sz))"

definition partition_ids :: "'a list \<Rightarrow> nat \<Rightarrow> 'a list list" where
  "partition_ids ids n =
    (let n1 = (if n < 1 then 1 else n); n2 = (if n1 > length ids then length ids else n1)
     in chunk_loop ids (length ids div n2) (length ids mod n2) 0 n2 0)"

definition without :: "'a list \<Rightarrow> 'a list \<Rightarrow> 'a list" where
  "without ids gone = filter (\<lambda>i. i \<notin> set gone) ids"

section \<open>The loop\<close>

record trail =
  trSpent :: nat
  trAttempts :: "attempt list"
  trErrored :: nat

definition run_attempt :: "rerun \<Rightarrow> nat \<Rightarrow> string list \<Rightarrow> trail \<Rightarrow> bool \<times> trail" where
  "run_attempt orc budget keep t =
    (if trSpent t \<ge> budget then (False, t)
     else
       let n = trSpent t + 1
       in case orc n keep of
            Inl e \<Rightarrow> (False, t\<lparr>trSpent := n, trErrored := trErrored t + 1,
              trAttempts := trAttempts t @ [\<lparr>atN = n, atKeep = keep, atReproduced = False, atErr = Some e\<rparr>]\<rparr>)
          | Inr hit \<Rightarrow> (hit, t\<lparr>trSpent := n,
              trAttempts := trAttempts t @ [\<lparr>atN = n, atKeep = keep, atReproduced = hit, atErr = None\<rparr>]\<rparr>))"

fun try_complements :: "rerun \<Rightarrow> nat \<Rightarrow> string list \<Rightarrow> string list list \<Rightarrow> trail \<Rightarrow> string list option \<times> trail" where
  "try_complements orc budget current [] t = (None, t)"
| "try_complements orc budget current (ch # chs) t =
    (if trSpent t \<ge> budget then (None, t)
     else let cand = without current ch
          in if cand = [] then try_complements orc budget current chs t
             else case run_attempt orc budget cand t of
               (hit, t') \<Rightarrow> if hit then (Some cand, t') else try_complements orc budget current chs t')"

fun try_chunks :: "rerun \<Rightarrow> nat \<Rightarrow> string list \<Rightarrow> string list list \<Rightarrow> trail \<Rightarrow> string list option \<times> trail" where
  "try_chunks orc budget current [] t = (None, t)"
| "try_chunks orc budget current (ch # chs) t =
    (if trSpent t \<ge> budget then (None, t)
     else if ch = [] \<or> length ch = length current then try_chunks orc budget current chs t
     else case run_attempt orc budget ch t of
       (hit, t') \<Rightarrow> if hit then (Some ch, t') else try_chunks orc budget current chs t')"

record shrinker =
  skCurrent :: "string list"
  skN :: nat
  skTrail :: trail
  skStop :: bool

definition shrink_step :: "rerun \<Rightarrow> nat \<Rightarrow> shrinker \<Rightarrow> shrinker" where
  "shrink_step orc budget s =
    (let current = skCurrent s; n = skN s; chunks = partition_ids current n
     in case try_complements orc budget current chunks (skTrail s) of
          (Some cand, t) \<Rightarrow> s\<lparr>skCurrent := cand, skN := max (n - 1) 2, skTrail := t\<rparr>
        | (None, t) \<Rightarrow>
            (case try_chunks orc budget current chunks t of
               (Some ch, t') \<Rightarrow> s\<lparr>skCurrent := ch, skN := 2, skTrail := t'\<rparr>
             | (None, t') \<Rightarrow>
                 if n \<ge> length current then s\<lparr>skTrail := t', skStop := True\<rparr>
                 else s\<lparr>skTrail := t', skN := min (2 * n) (length current)\<rparr>))"

definition shrink_goes :: "nat \<Rightarrow> shrinker \<Rightarrow> bool" where
  "shrink_goes budget s \<longleftrightarrow> \<not> skStop s \<and> length (skCurrent s) > 1 \<and> trSpent (skTrail s) < budget"

definition shrink_loop :: "rerun \<Rightarrow> nat \<Rightarrow> shrinker \<Rightarrow> shrinker option" where
  "shrink_loop orc budget s = while_option (shrink_goes budget) (shrink_step orc budget) s"

definition found :: "string \<Rightarrow> run_result \<Rightarrow> shrinkResult" where
  "found sig orig =
    (let v = find (\<lambda>v. viSignature v = sig) (rrViolations orig)
     in \<lparr>srSignature = sig, srInvariantID = (case v of None \<Rightarrow> [] | Some v \<Rightarrow> viID v),
         srReason = (case v of None \<Rightarrow> [] | Some v \<Rightarrow> viReason v), srOriginal = ActionIDs (rrPlan orig),
         srMinimal = [], srMinimalPlan = None, srAttempts = [], srConfirmed = False, srExhausted = False,
         srErrored = 0\<rparr>)"

definition Shrink :: "rerun \<Rightarrow> string \<Rightarrow> run_result \<Rightarrow> int \<Rightarrow> (shrinkResult \<times> shrink_error option) option" where
  "Shrink orc sig orig b =
    (let out = found sig orig; budget = shrink_budget b
     in if srOriginal out = [] then Some (out, Some NoActions)
        else case run_attempt orc budget (srOriginal out) \<lparr>trSpent = 0, trAttempts = [], trErrored = 0\<rparr> of
          (hit, t) \<Rightarrow>
            if \<not> hit then
              Some (out\<lparr>srMinimal := srOriginal out, srMinimalPlan := Some (rrPlan orig),
                srAttempts := trAttempts t, srErrored := trErrored t\<rparr>, None)
            else case shrink_loop orc budget
                   \<lparr>skCurrent = srOriginal out, skN = 2, skTrail = t, skStop = False\<rparr> of
              None \<Rightarrow> None
            | Some s \<Rightarrow>
                Some (out\<lparr>srConfirmed := True, srMinimal := skCurrent s,
                  srMinimalPlan := Some (Subset (rrPlan orig) (skCurrent s)),
                  srAttempts := trAttempts (skTrail s), srErrored := trErrored (skTrail s),
                  srExhausted := (trSpent (skTrail s) \<ge> budget \<and> length (skCurrent s) > 1)\<rparr>, None))"

section \<open>Partition facts\<close>

lemma chunk_arith:
  "i + (if c < extra then base + 1 else base) + k * base + (min extra (Suc c + k) - min extra (Suc c)) =
   i + Suc k * base + (min extra (c + Suc k) - min extra c)"
proof (cases "c < extra")
  case True
  then have "min extra c = c" "min extra (Suc c) = Suc c" "Suc c \<le> min extra (Suc c + k)" by auto
  with True show ?thesis by simp
qed simp

lemma concat_chunk_loop:
  "concat (chunk_loop ids base extra c k i) = subslice ids i (i + k * base + (min extra (c + k) - min extra c))"
proof (induction k arbitrary: c i)
  case (Suc k)
  let ?sz = "if c < extra then base + 1 else base"
  note chunk_arith [of i c extra base k]
  then show ?case
    using Suc.IH [of "Suc c" "i + ?sz"]
    by (simp add: Let_def subslice_append_adjacent del: mult_Suc add_Suc_right)
qed simp

lemma chunk_loop_length:
  "i + k * base + (min extra (c + k) - min extra c) \<le> length ids \<Longrightarrow> ch \<in> set (chunk_loop ids base extra c k i) \<Longrightarrow>
   length ch = base \<or> length ch = base + 1"
proof (induction k arbitrary: c i)
  case (Suc k)
  let ?sz = "if c < extra then base + 1 else base"
  have le: "i + ?sz + k * base + (min extra (Suc c + k) - min extra (Suc c)) \<le> length ids"
    using Suc.prems(1) unfolding chunk_arith [of i c extra base k] .
  from Suc.prems(2) consider "ch = subslice ids i (i + ?sz)" | "ch \<in> set (chunk_loop ids base extra (Suc c) k (i + ?sz))"
    by (auto simp: Let_def)
  then show ?case
  proof cases
    case 1
    then show ?thesis using le by (auto split: if_splits)
  next
    case 2
    from Suc.IH [OF le 2] show ?thesis .
  qed
qed simp

lemma length_chunk_loop [simp]: "length (chunk_loop ids base extra c k i) = k"
  by (induction k arbitrary: c i) (simp_all add: Let_def)

lemma partition_ids_facts:
  fixes ids :: "'a list" and n :: nat
  assumes "ids \<noteq> []"
  defines "n' \<equiv> min (max n 1) (length ids)"
  shows "concat (partition_ids ids n) = ids" "length (partition_ids ids n) = n'"
    "\<forall>ch \<in> set (partition_ids ids n). length ch = length ids div n' \<or> length ch = length ids div n' + 1"
    "\<forall>ch \<in> set (partition_ids ids n). ch \<noteq> []"
proof -
  have p: "partition_ids ids n = chunk_loop ids (length ids div n') (length ids mod n') 0 n' 0"
  proof -
    have "(if n < 1 then 1 else n) = max n 1" "(if max n 1 > length ids then length ids else max n 1) = n'"
      by (simp_all add: n'_def min_def max_def)
    then show ?thesis by (simp only: partition_ids_def Let_def)
  qed
  have pos: "0 < n'" "n' \<le> length ids" using assms(1) by (auto simp: n'_def)
  then have "length ids mod n' < n'" by simp
  then have tot: "0 + n' * (length ids div n') + (min (length ids mod n') (0 + n') - min (length ids mod n') 0) = length ids"
    by simp
  show "concat (partition_ids ids n) = ids" unfolding p concat_chunk_loop tot by simp
  show "length (partition_ids ids n) = n'" unfolding p by simp
  show l: "\<forall>ch \<in> set (partition_ids ids n). length ch = length ids div n' \<or> length ch = length ids div n' + 1"
    unfolding p using chunk_loop_length [of 0 n' "length ids div n'" "length ids mod n'" 0 ids] tot by auto
  have "0 < length ids div n'" using pos by (simp add: div_greater_zero_iff)
  then show "\<forall>ch \<in> set (partition_ids ids n). ch \<noteq> []" using l by fastforce
qed

section \<open>The audit trail\<close>

definition genuine :: "rerun \<Rightarrow> attempt \<Rightarrow> bool" where
  "genuine orc a \<longleftrightarrow> (case orc (atN a) (atKeep a) of
     Inl e \<Rightarrow> atErr a = Some e \<and> \<not> atReproduced a | Inr hit \<Rightarrow> atErr a = None \<and> atReproduced a = hit)"

definition trail_ok :: "rerun \<Rightarrow> nat \<Rightarrow> trail \<Rightarrow> bool" where
  "trail_ok orc budget t \<longleftrightarrow> trSpent t = length (trAttempts t) \<and> trSpent t \<le> budget \<and>
     trErrored t = length (filter (\<lambda>a. atErr a \<noteq> None) (trAttempts t)) \<and>
     map atN (trAttempts t) = [1..<Suc (length (trAttempts t))] \<and> list_all (genuine orc) (trAttempts t)"

definition tested :: "bool \<Rightarrow> string list \<Rightarrow> trail \<Rightarrow> bool" where
  "tested hit keep t \<longleftrightarrow> (\<exists>a \<in> set (trAttempts t). atKeep a = keep \<and> atReproduced a = hit)"

definition extends :: "trail \<Rightarrow> trail \<Rightarrow> bool" where
  "extends t t' \<longleftrightarrow> set (trAttempts t) \<subseteq> set (trAttempts t') \<and> trSpent t \<le> trSpent t'"

lemma extends_refl [simp]: "extends t t"
  by (simp add: extends_def)

lemma extends_trans: "extends t u \<Longrightarrow> extends u v \<Longrightarrow> extends t v"
  by (auto simp: extends_def)

lemma tested_extends: "tested hit keep t \<Longrightarrow> extends t t' \<Longrightarrow> tested hit keep t'"
  by (auto simp: tested_def extends_def)

lemma run_attempt_spec:
  assumes "trail_ok orc budget t" "run_attempt orc budget keep t = (hit, t')"
  shows "trail_ok orc budget t'" "extends t t'" "trSpent t < budget \<Longrightarrow> tested hit keep t'"
    "\<not> trSpent t < budget \<Longrightarrow> \<not> hit"
  using assms
  by (auto simp: run_attempt_def trail_ok_def extends_def tested_def genuine_def Let_def
      split: if_splits sum.splits)

definition tries_spec :: "rerun \<Rightarrow> nat \<Rightarrow> string list set \<Rightarrow> trail \<Rightarrow> string list option \<Rightarrow> trail \<Rightarrow> bool" where
  "tries_spec orc budget cands t res t' \<longleftrightarrow> trail_ok orc budget t' \<and> extends t t' \<and>
     (case res of Some cand \<Rightarrow> cand \<in> cands \<and> tested True cand t'
      | None \<Rightarrow> trSpent t' < budget \<longrightarrow> (\<forall>cand \<in> cands. tested False cand t'))"

lemma tries_spec_refl: "trail_ok orc budget t \<Longrightarrow> cands = {} \<or> budget \<le> trSpent t \<Longrightarrow> tries_spec orc budget cands t None t"
  by (auto simp: tries_spec_def)

lemma tries_spec_hit:
  assumes "trail_ok orc budget t" "run_attempt orc budget cand t = (True, t')" "cand \<in> cands"
  shows "tries_spec orc budget cands t (Some cand) t'"
  using run_attempt_spec [OF assms(1,2)] assms(3) by (auto simp: tries_spec_def)

lemma tries_spec_miss:
  assumes "trail_ok orc budget t" "run_attempt orc budget cand t = (False, t1)" "trSpent t < budget"
    "tries_spec orc budget cands t1 res t'"
  shows "tries_spec orc budget (insert cand cands) t res t'"
proof -
  note r = run_attempt_spec [OF assms(1,2)]
  then have e: "extends t t'" "tested False cand t'"
    using assms(3,4) by (auto simp: tries_spec_def intro: extends_trans tested_extends)
  show ?thesis using e assms(4) by (auto simp: tries_spec_def split: option.splits)
qed

lemma try_complements_spec:
  assumes "trail_ok orc budget t"
  shows "case try_complements orc budget current chs t of (res, t') \<Rightarrow>
    tries_spec orc budget {cand. cand \<noteq> [] \<and> cand \<in> without current ` set chs} t res t'"
  using assms
proof (induction chs arbitrary: t)
  case (Cons ch chs)
  let ?cand = "without current ch"
  let ?rest = "{cand. cand \<noteq> [] \<and> cand \<in> without current ` set chs}"
  have all: "{cand. cand \<noteq> [] \<and> cand \<in> without current ` set (ch # chs)} =
      (if ?cand = [] then ?rest else insert ?cand ?rest)" by auto
  obtain hit t1 where run: "run_attempt orc budget ?cand t = (hit, t1)" by fastforce
  consider "budget \<le> trSpent t" | "trSpent t < budget" "?cand = []"
    | "trSpent t < budget" "?cand \<noteq> []" "hit" | "trSpent t < budget" "?cand \<noteq> []" "\<not> hit"
    by linarith
  then show ?case
  proof cases
    case 1
    then show ?thesis using Cons.prems by (simp add: tries_spec_refl)
  next
    case 2
    then show ?thesis using Cons.IH [OF Cons.prems] by (simp only: all) simp
  next
    case 3
    then show ?thesis using tries_spec_hit [OF Cons.prems, of ?cand t1 "insert ?cand ?rest"] run
      by (simp only: all) (simp add: Let_def)
  next
    case 4
    have "trail_ok orc budget t1" by (rule run_attempt_spec(1) [OF Cons.prems run])
    from Cons.IH [OF this] show ?thesis
      using 4 run tries_spec_miss [OF Cons.prems, of ?cand t1 ?rest]
      by (simp only: all) (auto simp: Let_def split: prod.splits)
  qed
qed (simp add: tries_spec_refl)

lemma try_chunks_spec:
  assumes "trail_ok orc budget t"
  shows "case try_chunks orc budget current chs t of (res, t') \<Rightarrow>
    tries_spec orc budget {ch \<in> set chs. ch \<noteq> [] \<and> length ch \<noteq> length current} t res t'"
  using assms
proof (induction chs arbitrary: t)
  case (Cons ch chs)
  let ?skip = "ch = [] \<or> length ch = length current"
  let ?rest = "{ch \<in> set chs. ch \<noteq> [] \<and> length ch \<noteq> length current}"
  have all: "{c \<in> set (ch # chs). c \<noteq> [] \<and> length c \<noteq> length current} =
      (if ?skip then ?rest else insert ch ?rest)" by auto
  obtain hit t1 where run: "run_attempt orc budget ch t = (hit, t1)" by fastforce
  consider "budget \<le> trSpent t" | "trSpent t < budget" "?skip"
    | "trSpent t < budget" "\<not> ?skip" "hit" | "trSpent t < budget" "\<not> ?skip" "\<not> hit"
    by linarith
  then show ?case
  proof cases
    case 1
    then show ?thesis using Cons.prems by (simp add: tries_spec_refl)
  next
    case 2
    then show ?thesis using Cons.IH [OF Cons.prems] by (simp only: all) simp
  next
    case 3
    then show ?thesis using tries_spec_hit [OF Cons.prems, of ch t1 "insert ch ?rest"] run
      by (simp only: all) simp
  next
    case 4
    have "trail_ok orc budget t1" by (rule run_attempt_spec(1) [OF Cons.prems run])
    from Cons.IH [OF this] show ?thesis
      using 4 run tries_spec_miss [OF Cons.prems, of ch t1 ?rest]
      by (simp only: all) (auto split: prod.splits)
  qed
qed (simp add: tries_spec_refl)

section \<open>The invariant of the loop\<close>

definition sk_inv :: "rerun \<Rightarrow> nat \<Rightarrow> string list \<Rightarrow> shrinker \<Rightarrow> bool" where
  "sk_inv orc budget orig s \<longleftrightarrow> trail_ok orc budget (skTrail s) \<and> tested True (skCurrent s) (skTrail s) \<and>
     subseq (skCurrent s) orig \<and> skCurrent s \<noteq> [] \<and> 2 \<le> skN s \<and>
     (skStop s \<and> trSpent (skTrail s) < budget \<and> distinct orig \<and> 1 < length (skCurrent s) \<longrightarrow>
        (\<forall>x \<in> set (skCurrent s). tested False (filter (\<lambda>y. y \<noteq> x) (skCurrent s)) (skTrail s)))"

lemma subseq_chunk: "concat chs = xs \<Longrightarrow> ch \<in> set chs \<Longrightarrow> subseq ch xs"
  by (auto dest!: split_list intro!: sublist_imp_subseq sublist_appendI)

lemma shrink_step_cases:
  assumes "trail_ok orc budget (skTrail s)" "skCurrent s \<noteq> []"
  obtains (reduced) cand n' t where "shrink_step orc budget s = s\<lparr>skCurrent := cand, skN := n', skTrail := t\<rparr>"
      "trail_ok orc budget t" "tested True cand t" "subseq cand (skCurrent s)" "cand \<noteq> []"
      "length cand < length (skCurrent s)" "2 \<le> n'"
    | (kept) t where "shrink_step orc budget s = (if skN s \<ge> length (skCurrent s) then s\<lparr>skTrail := t, skStop := True\<rparr>
         else s\<lparr>skTrail := t, skN := min (2 * skN s) (length (skCurrent s))\<rparr>)"
      "trail_ok orc budget t" "extends (skTrail s) t"
      "trSpent t < budget \<Longrightarrow> \<forall>ch \<in> set (partition_ids (skCurrent s) (skN s)).
         without (skCurrent s) ch \<noteq> [] \<longrightarrow> tested False (without (skCurrent s) ch) t"
proof -
  let ?cur = "skCurrent s" and ?chs = "partition_ids (skCurrent s) (skN s)"
  note pf = partition_ids_facts [OF assms(2), of "skN s"]
  obtain r1 t1 where 1: "try_complements orc budget ?cur ?chs (skTrail s) = (r1, t1)" by fastforce
  have s1: "tries_spec orc budget {cand. cand \<noteq> [] \<and> cand \<in> without ?cur ` set ?chs} (skTrail s) r1 t1"
    using try_complements_spec [OF assms(1), where current = ?cur and chs = ?chs] 1 by simp
  then have ok1: "trail_ok orc budget t1" by (simp add: tries_spec_def)
  obtain r2 t2 where 2: "try_chunks orc budget ?cur ?chs t1 = (r2, t2)" by fastforce
  have s2: "tries_spec orc budget {ch \<in> set ?chs. ch \<noteq> [] \<and> length ch \<noteq> length ?cur} t1 r2 t2"
    using try_chunks_spec [OF ok1, where current = ?cur and chs = ?chs] 2 by simp
  show ?thesis
  proof (cases r1)
    case (Some cand)
    then obtain ch where ch: "ch \<in> set ?chs" "cand = without ?cur ch" "cand \<noteq> []" "tested True cand t1"
      using s1 by (auto simp: tries_spec_def)
    obtain x where x: "x \<in> set ch" using pf(4) ch(1) by (cases ch) auto
    moreover have "x \<in> set ?cur" using x ch(1) pf(1) by (metis UN_I set_concat)
    ultimately have "length cand < length ?cur"
      unfolding ch(2) without_def by (intro length_filter_less) auto
    then show ?thesis
      using reduced [where cand = cand and n' = "max (skN s - 1) 2" and t = t1] 1 Some ch ok1
      by (simp add: shrink_step_def Let_def without_def subseq_filter_left)
  next
    case None
    show ?thesis
    proof (cases r2)
      case (Some ch)
      then have ch: "ch \<in> set ?chs" "ch \<noteq> []" "length ch \<noteq> length ?cur" "tested True ch t2"
        using s2 by (auto simp: tries_spec_def)
      have "subseq ch ?cur" by (rule subseq_chunk [OF pf(1) ch(1)])
      then show ?thesis
        using reduced [where cand = ch and n' = 2 and t = t2] 1 2 \<open>r1 = None\<close> Some ch s2 list_emb_length [of "(=)" ch ?cur]
        by (simp add: shrink_step_def Let_def tries_spec_def)
    next
      case None
      have "extends (skTrail s) t2" "extends t1 t2" and le: "trSpent t1 \<le> trSpent t2"
        using s1 s2 by (auto simp: tries_spec_def extends_def)
      moreover have "\<forall>ch \<in> set ?chs. without ?cur ch \<noteq> [] \<longrightarrow> tested False (without ?cur ch) t2"
        if "trSpent t2 < budget"
        using s1 \<open>r1 = None\<close> that le tested_extends [OF _ \<open>extends t1 t2\<close>]
        by (auto simp: tries_spec_def)
      moreover have "shrink_step orc budget s = (if skN s \<ge> length ?cur then s\<lparr>skTrail := t2, skStop := True\<rparr>
         else s\<lparr>skTrail := t2, skN := min (2 * skN s) (length ?cur)\<rparr>)"
        using 1 2 \<open>r1 = None\<close> None by (simp add: shrink_step_def Let_def)
      ultimately show ?thesis using kept s2 by (simp add: tries_spec_def)
    qed
  qed
qed

lemma partition_singletons:
  assumes "ids \<noteq> []" "length ids \<le> n"
  shows "partition_ids ids n = map (\<lambda>x. [x]) ids"
proof -
  have "chunk_loop ids 1 0 c k i = map (\<lambda>x. [x]) (subslice ids i (i + k))" if "i + k \<le> length ids" for c k i
    using that
  proof (induction k arbitrary: c i)
    case (Suc k)
    have "subslice ids i (i + Suc k) = subslice ids i (Suc i) @ subslice ids (Suc i) (Suc i + k)"
      using subslice_append_adjacent [of i "Suc i" "Suc i + k" ids] Suc.prems by simp
    also have "subslice ids i (Suc i) = [ids ! i]" using Suc.prems by (simp add: subslice_single)
    finally show ?case
      using Suc.IH [of "Suc i" "Suc c"] Suc.prems by (simp add: Let_def subslice_single)
  qed simp
  from this [of 0 "length ids" 0] show ?thesis
    using assms by (cases "n < 1") (auto simp: partition_ids_def Let_def)
qed

lemma subseq_keeps_distinct: "subseq xs ys \<Longrightarrow> distinct ys \<Longrightarrow> distinct xs"
  by (induction xs ys rule: list_emb.induct) (auto dest: list_emb_set)

lemma shrink_step_inv:
  assumes "sk_inv orc budget orig s" "shrink_goes budget s"
  shows "sk_inv orc budget orig (shrink_step orc budget s)"
proof -
  have s: "trail_ok orc budget (skTrail s)" "tested True (skCurrent s) (skTrail s)" "subseq (skCurrent s) orig"
    "skCurrent s \<noteq> []" "2 \<le> skN s" "\<not> skStop s" "1 < length (skCurrent s)"
    using assms by (auto simp: sk_inv_def shrink_goes_def)
  show ?thesis
  proof (cases rule: shrink_step_cases [OF s(1,4)])
    case (1 cand n' t)
    then show ?thesis using s subseq_order.trans [OF 1(4) s(3)] by (simp add: sk_inv_def)
  next
    case (2 t)
    have keep: "tested True (skCurrent s) t" by (rule tested_extends [OF s(2) 2(3)])
    have singles: "\<forall>x \<in> set (skCurrent s). tested False (filter (\<lambda>y. y \<noteq> x) (skCurrent s)) t"
      if "length (skCurrent s) \<le> skN s" "trSpent t < budget" "distinct orig"
    proof
      fix x assume x: "x \<in> set (skCurrent s)"
      have "[x] \<in> set (partition_ids (skCurrent s) (skN s))"
        using x by (simp add: partition_singletons [OF s(4) that(1)])
      moreover have "without (skCurrent s) [x] = filter (\<lambda>y. y \<noteq> x) (skCurrent s)" by (simp add: without_def)
      moreover have "filter (\<lambda>y. y \<noteq> x) (skCurrent s) \<noteq> []"
      proof
        assume "filter (\<lambda>y. y \<noteq> x) (skCurrent s) = []"
        then have "set (skCurrent s) \<subseteq> {x}" by (auto simp: filter_empty_conv)
        then have "card (set (skCurrent s)) \<le> 1" using card_mono [of "{x}"] by simp
        then show False
          using distinct_card [OF subseq_keeps_distinct [OF s(3) that(3)]] s(7) by simp
      qed
      ultimately show "tested False (filter (\<lambda>y. y \<noteq> x) (skCurrent s)) t" using 2(4) [OF that(2)] by metis
    qed
    show ?thesis
      using s 2(1,2) keep singles by (auto simp: sk_inv_def)
  qed
qed

definition shrink_measure :: "nat \<Rightarrow> shrinker \<Rightarrow> nat" where
  "shrink_measure m s =
    (if skStop s then 0 else Suc (length (skCurrent s) * Suc m + (m - skN s)))"

lemma shrink_step_measure:
  assumes "sk_inv orc budget orig s" "shrink_goes budget s"
  shows "shrink_measure (length orig) (shrink_step orc budget s) < shrink_measure (length orig) s"
proof -
  have s: "trail_ok orc budget (skTrail s)" "skCurrent s \<noteq> []" "2 \<le> skN s" "\<not> skStop s" "subseq (skCurrent s) orig"
    using assms by (auto simp: sk_inv_def shrink_goes_def)
  have le: "length (skCurrent s) \<le> length orig" using s(5) by (rule list_emb_length)
  show ?thesis
  proof (cases rule: shrink_step_cases [OF s(1,2)])
    case (1 cand n' t)
    have "Suc (length cand) * Suc (length orig) \<le> length (skCurrent s) * Suc (length orig)"
      using 1(6) by (intro mult_le_mono1) simp
    then have "length cand * Suc (length orig) + (length orig - n') < length (skCurrent s) * Suc (length orig)"
      by simp
    then show ?thesis using s(4) 1(1) by (simp add: shrink_measure_def del: mult_Suc_right)
  next
    case (2 t)
    then show ?thesis using s le by (auto simp: shrink_measure_def)
  qed
qed

lemma shrink_loop_returns:
  assumes "sk_inv orc budget orig s"
  obtains s' where "shrink_loop orc budget s = Some s'" "sk_inv orc budget orig s'" "\<not> shrink_goes budget s'"
proof -
  obtain s' where s': "while_option (shrink_goes budget) (shrink_step orc budget) s = Some s'"
    using measure_while_option_Some [of "sk_inv orc budget orig" "shrink_goes budget" "shrink_step orc budget"
        "shrink_measure (length orig)" s] shrink_step_inv shrink_step_measure assms by blast
  moreover have "sk_inv orc budget orig s'"
    using while_option_rule [OF shrink_step_inv s' assms] by blast
  ultimately show ?thesis using that while_option_stop [OF s'] by (simp add: shrink_loop_def)
qed

section \<open>What a shrink delivers\<close>

lemma shrink_budget_pos: "0 < shrink_budget b"
  by (simp add: shrink_budget_def defaultShrinkTo_def)

definition empty_trail :: trail where "empty_trail = \<lparr>trSpent = 0, trAttempts = [], trErrored = 0\<rparr>"

lemma Shrink_cases:
  obtains (nothing) "ActionIDs (rrPlan orig) = []" "Shrink orc sig orig b = Some (found sig orig, Some NoActions)"
    | (flaky) t where "ActionIDs (rrPlan orig) \<noteq> []" "trail_ok orc (shrink_budget b) t"
        "tested False (ActionIDs (rrPlan orig)) t"
        "Shrink orc sig orig b = Some ((found sig orig)\<lparr>srMinimal := ActionIDs (rrPlan orig),
           srMinimalPlan := Some (rrPlan orig), srAttempts := trAttempts t, srErrored := trErrored t\<rparr>, None)"
    | (shrunk) s where "ActionIDs (rrPlan orig) \<noteq> []" "sk_inv orc (shrink_budget b) (ActionIDs (rrPlan orig)) s"
        "\<not> shrink_goes (shrink_budget b) s"
        "Shrink orc sig orig b = Some ((found sig orig)\<lparr>srConfirmed := True, srMinimal := skCurrent s,
           srMinimalPlan := Some (Subset (rrPlan orig) (skCurrent s)), srAttempts := trAttempts (skTrail s),
           srErrored := trErrored (skTrail s), srExhausted :=
             (trSpent (skTrail s) \<ge> shrink_budget b \<and> length (skCurrent s) > 1)\<rparr>, None)"
proof (cases "ActionIDs (rrPlan orig) = []")
  case True
  then show ?thesis by (rule nothing) (use True in \<open>simp_all add: Shrink_def found_def Let_def\<close>)
next
  case False
  let ?ids = "ActionIDs (rrPlan orig)" and ?b = "shrink_budget b"
  have ids: "srOriginal (found sig orig) = ?ids" by (simp add: found_def Let_def)
  obtain hit t where run: "run_attempt orc ?b ?ids empty_trail = (hit, t)" by fastforce
  have ok0: "trail_ok orc ?b empty_trail" "trSpent empty_trail < ?b"
    using shrink_budget_pos by (simp_all add: trail_ok_def empty_trail_def)
  note r = run_attempt_spec [OF ok0(1) run]
  show ?thesis
  proof (cases hit)
    case False
    then show ?thesis
      using flaky [of t] r(1,3) ok0(2) run \<open>?ids \<noteq> []\<close> by (simp add: Shrink_def ids Let_def empty_trail_def)
  next
    case True
    let ?s = "\<lparr>skCurrent = ?ids, skN = 2, skTrail = t, skStop = False\<rparr>"
    have "sk_inv orc ?b ?ids ?s" using r(1,3) ok0(2) True \<open>?ids \<noteq> []\<close> by (simp add: sk_inv_def)
    then obtain s where s: "shrink_loop orc ?b ?s = Some s" "sk_inv orc ?b ?ids s" "\<not> shrink_goes ?b s"
      by (rule shrink_loop_returns)
    then show ?thesis
      using shrunk [of s] run True \<open>?ids \<noteq> []\<close> by (simp add: Shrink_def ids Let_def empty_trail_def)
  qed
qed

text \<open>C32: a shrink always returns, whatever the re-runs answer, even when they answer differently for the
  same set; it spends at most its budget, numbers its attempts from 1, records with each exactly what that
  re-run answered, and counts the attempts that could not run.\<close>

theorem Shrink_returns:
  "\<exists>r e. Shrink orc sig orig b = Some (r, e) \<and> length (srAttempts r) \<le> shrink_budget b \<and>
     map atN (srAttempts r) = [1..<Suc (length (srAttempts r))] \<and>
     (\<forall>a \<in> set (srAttempts r). genuine orc a) \<and>
     srErrored r = length (filter (\<lambda>a. atErr a \<noteq> None) (srAttempts r)) \<and>
     (e = Some NoActions) = (ActionIDs (rrPlan orig) = [])"
proof (cases rule: Shrink_cases [of orig orc sig b])
  case nothing
  then show ?thesis by (simp add: found_def Let_def)
next
  case (flaky t)
  then show ?thesis by (simp add: trail_ok_def list_all_iff)
next
  case (shrunk s)
  then show ?thesis by (simp add: sk_inv_def trail_ok_def list_all_iff)
qed

lemma subseq_ids_Subset:
  assumes "subseq keep (ActionIDs p)"
  shows "set keep \<subseteq> set (ActionIDs p)"
  using assms by (auto dest: list_emb_set)

lemma BuildPlan_ActionIDs_distinct:
  assumes "gen_ok gen" "layers_ok env layers"
  shows "distinct (ActionIDs (BuildPlan gen cfg env layers))"
proof -
  have d: "distinct (map lyID layers)" using assms(2) by (simp add: layers_ok_def)
  obtain by1 where 1: "plEvents (BuildPlan gen cfg env layers) = sort_key event_order (map (event_of gen cfg)
       (selectActions gen cfg (map lyID layers) by1))"
    "concat (map by1 (map lyID layers)) = all_offered gen cfg env layers"
    by (rule BuildPlan_events [OF d, of gen cfg env]) blast
  let ?sel = "selectActions gen cfg (map lyID layers) by1"
  obtain left where "mset ?sel + mset left = mset (all_offered gen cfg env layers)"
    using selectActions_spec [OF assms(1), of cfg "map lyID layers" by1] unfolding 1(2) by metis
  then have "mset (map ID (?sel @ left)) = mset (map ID (all_offered gen cfg env layers))"
    by (metis mset_append mset_map)
  then have "distinct (map ID (?sel @ left))"
    using distinct_offered [OF assms(2), of gen cfg] by (metis mset_eq_imp_distinct_iff)
  moreover have "mset (ActionIDs (BuildPlan gen cfg env layers)) = mset (map ID ?sel)"
    unfolding ActionIDs_def mset_map 1(1) mset_sort by (simp add: multiset.map_comp comp_def)
  ultimately show ?thesis by (metis distinct_append map_append mset_eq_imp_distinct_iff)
qed

lemma subseq_filter_id:
  "subseq xs ys \<Longrightarrow> distinct ys \<Longrightarrow> filter (\<lambda>y. y \<in> set xs) ys = xs"
proof (induction xs ys rule: list_emb.induct)
  case (list_emb_Cons xs ys y)
  then have "y \<notin> set xs" by (auto dest: list_emb_set)
  with list_emb_Cons show ?case by simp
next
  case (list_emb_Cons2 x y xs ys)
  then have "filter (\<lambda>z. z = y \<or> z \<in> set xs) ys = filter (\<lambda>z. z \<in> set xs) ys"
    by (intro filter_cong) auto
  with list_emb_Cons2 show ?case by simp
qed (simp add: filter_empty_conv)

text \<open>The minimal reproducer a confirmed shrink reports was really run and really reproduced the
  signature: some attempt ran, from the same seed, exactly the events of the reported minimal plan, with
  their times, and the run answered that the signature appeared.  The reported ids are a subsequence of the
  original ones.  An unconfirmed shrink reports the original set.\<close>

lemma Shrink_reproducer:
  assumes "gen_ok gen" "layers_ok env layers" "rrPlan orig = BuildPlan gen cfg env layers"
    "Shrink (runSubset run gen cfg env layers) sig orig b = Some (r, None)"
  shows "subseq (srMinimal r) (ActionIDs (rrPlan orig)) \<and>
    (if srConfirmed r
     then \<exists>n p m. run n p = Inr True \<and> srMinimalPlan r = Some m \<and> plEvents p = plEvents m \<and>
       ActionIDs m = srMinimal r \<and> n \<le> length (srAttempts r)
     else srMinimal r = ActionIDs (rrPlan orig) \<and> srMinimalPlan r = Some (rrPlan orig))"
proof (cases rule: Shrink_cases [of orig "runSubset run gen cfg env layers" sig b])
  case nothing
  then show ?thesis using assms(4) by simp
next
  case (flaky t)
  then show ?thesis using assms(4) by (auto simp: found_def Let_def)
next
  case (shrunk s)
  have r: "srConfirmed r" "srMinimal r = skCurrent s" "srMinimalPlan r = Some (Subset (rrPlan orig) (skCurrent s))"
    "srAttempts r = trAttempts (skTrail s)"
    using shrunk(4) assms(4) by auto
  have s: "tested True (skCurrent s) (skTrail s)" "subseq (skCurrent s) (ActionIDs (rrPlan orig))" "skCurrent s \<noteq> []"
    and ok: "trail_ok (runSubset run gen cfg env layers) (shrink_budget b) (skTrail s)"
    using shrunk(2) by (simp_all add: sk_inv_def)
  obtain a where a: "a \<in> set (trAttempts (skTrail s))" "atKeep a = skCurrent s" "atReproduced a"
    using s(1) by (auto simp: tested_def)
  have "genuine (runSubset run gen cfg env layers) a" using ok a(1) by (simp add: trail_ok_def list_all_iff)
  then have hit: "run (atN a) (BuildPlan gen (subset_config cfg (skCurrent s)) env (FilterLayers layers (skCurrent s))) = Inr True"
    using a by (auto simp: genuine_def runSubset_def split: sum.splits)
  have d: "distinct (ActionIDs (rrPlan orig))"
    unfolding assms(3) by (rule BuildPlan_ActionIDs_distinct [OF assms(1,2)])
  have "atN a \<in> set (map atN (trAttempts (skTrail s)))" using a(1) by simp
  then have n: "atN a \<le> length (trAttempts (skTrail s))" using ok unfolding trail_ok_def by (metis atLeastLessThanSuc_atLeastAtMost atLeastAtMost_iff set_upt)
  have ev: "plEvents (BuildPlan gen (subset_config cfg (skCurrent s)) env (FilterLayers layers (skCurrent s))) =
      plEvents (Subset (rrPlan orig) (skCurrent s))"
    unfolding assms(3) using s(2,3) assms(3) subseq_keeps_distinct [OF s(2) d]
    by (intro BuildPlan_filtered [OF assms(1,2)]) (auto dest: subseq_ids_Subset)
  have "ActionIDs (Subset (rrPlan orig) (skCurrent s)) = filter (\<lambda>i. i \<in> set (skCurrent s)) (ActionIDs (rrPlan orig))"
    by (simp add: ActionIDs_def Subset_def filter_map comp_def)
  also have "\<dots> = skCurrent s" by (rule subseq_filter_id [OF s(2) d])
  finally have "ActionIDs (Subset (rrPlan orig) (skCurrent s)) = skCurrent s" .
  then show ?thesis using r s(2) hit n ev by auto
qed

lemma Shrink_some: "ActionIDs (rrPlan orig) \<noteq> [] \<Longrightarrow> \<exists>r. Shrink orc sig orig b = Some (r, None)"
  by (cases rule: Shrink_cases [of orig orc sig b]) blast+

lemma Shrink_singles:
  assumes "Shrink orc sig orig b = Some (r, None)" "distinct (ActionIDs (rrPlan orig))" "Minimal1 r"
    "1 < length (srMinimal r)" "x \<in> set (srMinimal r)"
  obtains a where "a \<in> set (srAttempts r)" "atKeep a = filter (\<lambda>y. y \<noteq> x) (srMinimal r)"
    "\<not> atReproduced a" "genuine orc a"
proof (cases rule: Shrink_cases [of orig orc sig b])
  case nothing
  then show ?thesis using assms(1) by simp
next
  case (flaky t)
  then show ?thesis using assms(1,3) by (auto simp: Minimal1_def found_def Let_def)
next
  case (shrunk s)
  have r: "srMinimal r = skCurrent s" "srAttempts r = trAttempts (skTrail s)"
    "srExhausted r = (trSpent (skTrail s) \<ge> shrink_budget b \<and> length (skCurrent s) > 1)"
    using shrunk(4) assms(1) by auto
  have "trSpent (skTrail s) < shrink_budget b" using r(1,3) assms(3,4) by (simp add: Minimal1_def)
  moreover from this have "skStop s" using shrunk(3) r(1) assms(4) by (simp add: shrink_goes_def)
  ultimately have "tested False (filter (\<lambda>y. y \<noteq> x) (skCurrent s)) (skTrail s)"
    using shrunk(2) assms(2,4,5) r(1) by (simp add: sk_inv_def)
  then obtain a where a: "a \<in> set (trAttempts (skTrail s))" "atKeep a = filter (\<lambda>y. y \<noteq> x) (skCurrent s)"
    "\<not> atReproduced a" by (auto simp: tested_def)
  then have "genuine orc a" using shrunk(2) by (simp add: sk_inv_def trail_ok_def list_all_iff)
  with a r that show ?thesis by simp
qed

text \<open>C18: a result reported as 1-minimal with at least two actions is 1-minimal: for every action in it,
  an attempt ran the set without just that action and did not reproduce; so when re-runs of the same set
  always answer the same, the full minimal set reproduces and no set with one action removed does.\<close>

theorem Shrink_one_minimal:
  assumes "Shrink orc sig orig b = Some (r, None)" "distinct (ActionIDs (rrPlan orig))" "Minimal1 r"
    "1 < length (srMinimal r)"
  shows "(\<forall>x \<in> set (srMinimal r). \<exists>a \<in> set (srAttempts r). atKeep a = filter (\<lambda>y. y \<noteq> x) (srMinimal r) \<and>
       orc (atN a) (atKeep a) \<noteq> Inr True) \<and>
    (\<forall>h. (\<forall>n keep. orc n keep = Inr (h keep)) \<longrightarrow>
       (\<forall>x \<in> set (srMinimal r). \<not> h (filter (\<lambda>y. y \<noteq> x) (srMinimal r))))"
proof -
  have *: "\<exists>a \<in> set (srAttempts r). atKeep a = filter (\<lambda>y. y \<noteq> x) (srMinimal r) \<and> orc (atN a) (atKeep a) \<noteq> Inr True"
    if x: "x \<in> set (srMinimal r)" for x
  proof -
    obtain a where a: "a \<in> set (srAttempts r)" "atKeep a = filter (\<lambda>y. y \<noteq> x) (srMinimal r)"
      "\<not> atReproduced a" "genuine orc a" by (rule Shrink_singles [OF assms x])
    then have "orc (atN a) (atKeep a) \<noteq> Inr True" by (auto simp: genuine_def split: sum.splits)
    with a show ?thesis by blast
  qed
  show ?thesis
  proof (intro conjI ballI allI impI)
    fix h x assume h: "\<forall>n keep. orc n keep = Inr (h keep)" and x: "x \<in> set (srMinimal r)"
    from *[OF x] show "\<not> h (filter (\<lambda>y. y \<noteq> x) (srMinimal r))" using h by auto
  qed (rule *)
qed

text \<open>A run with three actions of which the first and the last are needed together.\<close>

definition three_events :: plan where
  "three_events = \<lparr>plSeed = 1, plLabel = [], plWindow = 0, plLayers = [], plOffered = 3,
     plEvents = map (\<lambda>i. \<lparr>evActionID = i, evLayer = [], evKind = [], evTarget = [], evClass = [], evOneshot = False,
       evAt = 0, evHold = 0, evParams = [], evAction = sample_action [] [] False\<rparr>) [''a'', ''b'', ''c''],
     plDeclined = []\<rparr>"

definition needs_a_c :: rerun where
  "needs_a_c n keep = Inr (''a'' \<in> set keep \<and> ''c'' \<in> set keep)"

lemma shrink_three:
  "map_option (\<lambda>(r, e). (Minimal1 r, srMinimal r, e))
     (Shrink needs_a_c ''s'' \<lparr>rrPlan = three_events, rrViolations = []\<rparr> 0) = Some (True, [''a'', ''c''], None)"
  by code_simp

theorem Shrink_one_minimal_witness:
  "\<exists>r. Shrink needs_a_c ''s'' \<lparr>rrPlan = three_events, rrViolations = []\<rparr> 0 = Some (r, None) \<and>
     srMinimal r = [''a'', ''c''] \<and>
     (\<forall>x \<in> set (srMinimal r). \<exists>a \<in> set (srAttempts r). atKeep a = filter (\<lambda>y. y \<noteq> x) (srMinimal r) \<and>
       needs_a_c (atN a) (atKeep a) \<noteq> Inr True)"
proof -
  obtain r where r: "Shrink needs_a_c ''s'' \<lparr>rrPlan = three_events, rrViolations = []\<rparr> 0 = Some (r, None)"
    "Minimal1 r" "srMinimal r = [''a'', ''c'']" using shrink_three by auto
  have d: "distinct (ActionIDs (rrPlan \<lparr>rrPlan = three_events, rrViolations = []\<rparr>))"
    by (simp add: three_events_def ActionIDs_def)
  from Shrink_one_minimal [OF r(1) d r(2)] r show ?thesis by auto
qed

theorem Shrink_returns_witness:
  "\<exists>r e. Shrink needs_a_c ''s'' \<lparr>rrPlan = three_events, rrViolations = []\<rparr> 0 = Some (r, e) \<and>
     length (srAttempts r) \<le> shrink_budget 0"
  using Shrink_returns [of needs_a_c "''s''" "\<lparr>rrPlan = three_events, rrViolations = []\<rparr>" 0] by blast

text \<open>A one-action result is reported as 1-minimal although its action was never shown to be needed:
  when the signature appears on every run, whatever is armed, a campaign with one action is confirmed and
  claimed 1-minimal after a single attempt, and the run without that action was not tried.\<close>

lemma Shrink_single_unproved:
  assumes "ActionIDs (rrPlan orig) = [x]"
  shows "\<exists>r. Shrink (\<lambda>n keep. Inr True) sig orig b = Some (r, None) \<and> Minimal1 r \<and> srMinimal r = [x] \<and>
    map atKeep (srAttempts r) = [[x]]"
  using assms shrink_budget_pos [of b]
  by (simp add: Shrink_def found_def Let_def run_attempt_def shrink_loop_def while_option_unfold shrink_goes_def
      Minimal1_def)

end
