(* ===== verification/Csip_Scheduler.thy ===== *)
theory Csip_Scheduler
  imports Go_Prelude "HOL-Library.Char_ord" "HOL-Library.List_Lexorder" "HOL-Library.Product_Lexorder"
begin

unbundle bit_operations_syntax

text \<open>
  \<^verbatim>\<open>internal/csipref/scheduler/scheduler.go\<close> and \<^verbatim>\<open>HighestPriorityProgram\<close> of
  \<^verbatim>\<open>internal/csipref/discovery/helpers.go\<close>: the bench's referee for which DER control is in force.
  Times are signed 64-bit seconds and wrap as in Go; a panic is \<^verbatim>\<open>None\<close>.  The fields of the resource
  model are those the scheduler reads; the control parameters are opaque.
\<close>

section \<open>Resources and state\<close>

type_synonym i32 = "32 word"

record 'b derControl =
  dcMRID :: string
  dcCreationTime :: i64
  dcStatus :: "(byte \<times> bool) option"
  dcStart :: i64
  dcDuration :: u32
  dcRandomizeStart :: "i32 option"
  dcBase :: 'b

record 'b programState =
  psPrimacy :: byte
  psMRID :: string
  psDefault :: "('b \<times> string) option"
  psControls :: "'b derControl list option"

datatype source = SrcDefault | SrcEvent

record 'b activeControl =
  acBase :: 'b
  acSource :: source
  acMRID :: string
  acValidUntil :: i64

record 'g scheduler =
  scOffsets :: "string \<rightharpoonup> i32"
  scRng :: 'g

definition Scheduler_New :: "'g generator \<Rightarrow> i64 \<Rightarrow> 'g scheduler" where
  "Scheduler_New gen now = \<lparr>scOffsets = Map.empty, scRng = gnSource gen now\<rparr>"

definition before :: "i64 \<Rightarrow> i64 \<Rightarrow> bool" where "before a b \<longleftrightarrow> sint a < sint b"

definition cancelled :: "'b derControl \<Rightarrow> bool" where
  "cancelled c \<longleftrightarrow> (case dcStatus c of None \<Rightarrow> False | Some (st, _) \<Rightarrow> st = 6)"

definition maySupersede :: "'b derControl \<Rightarrow> bool" where
  "maySupersede c \<longleftrightarrow> (case dcStatus c of None \<Rightarrow> False | Some (_, ps) \<Rightarrow> ps)"

section \<open>Operations\<close>

definition HighestPriorityProgram :: "'b programState list \<Rightarrow> 'b programState option" where
  "HighestPriorityProgram ps =
    (case ps of [] \<Rightarrow> None
     | p # rest \<Rightarrow> Some (foldl (\<lambda>best q.
         if psPrimacy q < psPrimacy best \<or> (psPrimacy q = psPrimacy best \<and> psMRID q > psMRID best)
         then q else best) p rest))"

definition randomizedStart :: "'g generator \<Rightarrow> 'b derControl \<Rightarrow> 'g scheduler \<Rightarrow> (i64 \<times> 'g scheduler) option" where
  "randomizedStart gen c s =
    (case dcRandomizeStart c of
       None \<Rightarrow> Some (dcStart c, s)
     | Some w \<Rightarrow>
         if w = 0 then Some (dcStart c, s)
         else case scOffsets s (dcMRID c) of
           Some off \<Rightarrow> Some (dcStart c + scast off, s)
         | None \<Rightarrow>
             let lo = (if sint w < 0 then w else 0); hi = (if sint w < 0 then 0 else w);
                 n = sint (hi - lo + 1)
             in if n \<le> 0 then None
                else case gnInt63n gen (scRng s) n of (v, g) \<Rightarrow>
                  let off = word_of_int v + lo
                  in Some (dcStart c + scast off,
                       s\<lparr>scOffsets := (scOffsets s)(dcMRID c \<mapsto> off), scRng := g\<rparr>))"

fun isSuperseded :: "'g generator \<Rightarrow> 'b derControl \<Rightarrow> 'b derControl list \<Rightarrow> i64 \<Rightarrow> 'g scheduler \<Rightarrow>
    (bool \<times> 'g scheduler) option" where
  "isSuperseded gen c [] now s = Some (False, s)"
| "isSuperseded gen c (d # ds) now s =
    (if dcMRID d = dcMRID c \<or> cancelled d then isSuperseded gen c ds now s
     else case randomizedStart gen d s of
       None \<Rightarrow> None
     | Some (start, s1) \<Rightarrow>
         let end' = start + ucast (dcDuration d)
         in if \<not> before now start \<and> before now end' \<and> before (dcCreationTime c) (dcCreationTime d)
            then Some (True, s1) else isSuperseded gen c ds now s1)"

definition newer :: "'b derControl \<Rightarrow> 'b derControl option \<Rightarrow> bool" where
  "newer c best \<longleftrightarrow> (case best of None \<Rightarrow> True
     | Some b \<Rightarrow> before (dcCreationTime b) (dcCreationTime c) \<or>
         (dcCreationTime c = dcCreationTime b \<and> dcMRID c > dcMRID b))"

fun active_loop :: "'g generator \<Rightarrow> 'b derControl list \<Rightarrow> i64 \<Rightarrow> 'b derControl list \<Rightarrow>
    'b derControl option \<Rightarrow> 'g scheduler \<Rightarrow> ('b derControl option \<times> 'g scheduler) option" where
  "active_loop gen all now [] best s = Some (best, s)"
| "active_loop gen all now (c # cs) best s =
    (if cancelled c then active_loop gen all now cs best s
     else case randomizedStart gen c s of
       None \<Rightarrow> None
     | Some (start, s1) \<Rightarrow>
         let end' = start + ucast (dcDuration c)
         in if before now start \<or> \<not> before now end' then active_loop gen all now cs best s1
            else case (if maySupersede c then isSuperseded gen c all now s1 else Some (False, s1)) of
              None \<Rightarrow> None
            | Some (skip, s2) \<Rightarrow>
                active_loop gen all now cs
                  (if skip then best else if newer c best then Some c else best) s2)"

definition activeEvent :: "'g generator \<Rightarrow> 'b derControl list \<Rightarrow> i64 \<Rightarrow> 'g scheduler \<Rightarrow>
    ('b activeControl option \<times> 'g scheduler) option" where
  "activeEvent gen controls now s =
    (case active_loop gen controls now controls None s of
       None \<Rightarrow> None
     | Some (None, s1) \<Rightarrow> Some (None, s1)
     | Some (Some b, s1) \<Rightarrow>
         (case randomizedStart gen b s1 of
            None \<Rightarrow> None
          | Some (start, s2) \<Rightarrow> Some (Some \<lparr>acBase = dcBase b, acSource = SrcEvent, acMRID = dcMRID b,
              acValidUntil = start + ucast (dcDuration b)\<rparr>, s2)))"

definition live_mrids :: "'b programState list \<Rightarrow> string set" where
  "live_mrids ps = set (concat (map (\<lambda>p. case psControls p of None \<Rightarrow> [] | Some cs \<Rightarrow> map dcMRID cs) ps))"

definition pruneRandOffsets :: "'b programState list \<Rightarrow> 'g scheduler \<Rightarrow> 'g scheduler" where
  "pruneRandOffsets ps s =
    s\<lparr>scOffsets := (\<lambda>m. if m \<in> live_mrids ps then scOffsets s m else None)\<rparr>"

definition Evaluate :: "'g generator \<Rightarrow> 'b programState list \<Rightarrow> i64 \<Rightarrow> 'g scheduler \<Rightarrow>
    ('b activeControl option \<times> 'g scheduler) option" where
  "Evaluate gen ps now s =
    (case HighestPriorityProgram ps of
       None \<Rightarrow> Some (None, s)
     | Some hp \<Rightarrow>
         let s1 = pruneRandOffsets ps s;
             fallback = (case psDefault hp of None \<Rightarrow> None
               | Some (b, m) \<Rightarrow> Some \<lparr>acBase = b, acSource = SrcDefault, acMRID = m, acValidUntil = 0\<rparr>)
         in case (case psControls hp of
                    None \<Rightarrow> Some (None, s1)
                  | Some cs \<Rightarrow> if cs = [] then Some (None, s1) else activeEvent gen cs now s1) of
              None \<Rightarrow> None
            | Some (Some ac, s2) \<Rightarrow> Some (Some ac, s2)
            | Some (None, s2) \<Rightarrow> Some (fallback, s2))"

section \<open>The cached offsets\<close>

lemma sint32_bounds: "- (2 ^ 31) \<le> sint (w :: i32)" "sint w < 2 ^ 31"
  using sint_ge [of w] sint_lt [of w] by simp_all

lemma sint32_of_int: "- (2 ^ 31) \<le> k \<Longrightarrow> k < 2 ^ 31 \<Longrightarrow> sint (word_of_int k :: i32) = k"
  by (simp add: sint_sbintrunc' signed_take_bit_int_eq_self)

lemma sint32_word: "w = word_of_int (sint (w :: i32))"
  by simp

text \<open>The size of the draw, in 32-bit arithmetic: exact, or not positive.\<close>

definition window_size :: "i32 \<Rightarrow> int" where
  "window_size w = sint ((if sint w < 0 then 0 else w) - (if sint w < 0 then w else 0) + 1)"

lemma window_size_eq:
  "window_size w = (if \<bar>sint w\<bar> < 2 ^ 31 - 1 then \<bar>sint w\<bar> + 1 else window_size w)"
proof (cases "\<bar>sint w\<bar> < 2 ^ 31 - 1")
  case True
  have "window_size w = sint (word_of_int (\<bar>sint w\<bar> + 1) :: i32)"
  proof (cases "sint w < 0")
    case True
    have "0 - w + 1 = word_of_int (- sint w + 1)" by (simp add: wi_hom_syms)
    then show ?thesis using True by (simp add: window_size_def)
  next
    case False
    have "w - 0 + 1 = word_of_int (sint w + 1)" by (simp add: wi_hom_syms)
    then show ?thesis using False by (simp add: window_size_def)
  qed
  then show ?thesis using True sint32_of_int [of "\<bar>sint w\<bar> + 1"] by simp
qed simp

lemma window_size_overflow:
  assumes "\<not> \<bar>sint w\<bar> < 2 ^ 31 - 1"
  shows "window_size w \<le> 0"
proof -
  have "sint w = 2 ^ 31 - 1 \<or> sint w = - (2 ^ 31) \<or> sint w = - (2 ^ 31) + 1"
    using assms sint32_bounds [of w] by linarith
  then have "w = word_of_int (2 ^ 31 - 1) \<or> w = word_of_int (- (2 ^ 31)) \<or> w = word_of_int (- (2 ^ 31) + 1)"
    using sint32_word [of w] by metis
  then show ?thesis by (elim disjE) (simp_all add: window_size_def)
qed

lemma drawn_offset:
  assumes "0 \<le> v" "v \<le> \<bar>sint w\<bar>"
  shows "sint (word_of_int v + (if sint w < 0 then w else 0) :: i32) = v + min 0 (sint w)"
proof -
  have "word_of_int v + (if sint w < 0 then w else 0) = (word_of_int (v + min 0 (sint w)) :: i32)"
    by (simp add: wi_hom_syms)
  moreover have "- (2 ^ 31) \<le> v + min 0 (sint w)" "v + min 0 (sint w) < 2 ^ 31"
    using assms sint32_bounds [of w] by linarith+
  ultimately show ?thesis by (simp only: sint32_of_int)
qed

lemma randomizedStart_draw:
  assumes "dcRandomizeStart c = Some w" "w \<noteq> 0" "scOffsets s (dcMRID c) = None"
  shows "randomizedStart gen c s = (if window_size w \<le> 0 then None
    else let off = word_of_int (fst (gnInt63n gen (scRng s) (window_size w))) + (if sint w < 0 then w else 0)
      in Some (dcStart c + scast off, s\<lparr>scOffsets := (scOffsets s)(dcMRID c \<mapsto> off),
           scRng := snd (gnInt63n gen (scRng s) (window_size w))\<rparr>))"
  using assms by (simp add: randomizedStart_def window_size_def Let_def case_prod_beta)

text \<open>The start of an event is randomized on one side only and at most once.  An offset drawn for an
  event lies between zero and its randomizeStart, whichever sign that has; an offset already cached is
  reused; nothing else in the cache changes.  The draw cannot be made, and the code panics, exactly for an
  uncached event whose randomizeStart is so large that the size of its window overflows 32 bits.\<close>

lemma randomizedStart_offset:
  assumes "gen_ok gen" "dcRandomizeStart c = Some w" "w \<noteq> 0"
  shows "case randomizedStart gen c s of
      None \<Rightarrow> scOffsets s (dcMRID c) = None \<and> 2 ^ 31 - 1 \<le> \<bar>sint w\<bar>
    | Some (start, s') \<Rightarrow> \<exists>off. start = dcStart c + scast off \<and>
        scOffsets s' = (scOffsets s)(dcMRID c \<mapsto> off) \<and>
        (case scOffsets s (dcMRID c) of
           Some old \<Rightarrow> off = old \<and> s' = s
         | None \<Rightarrow> min 0 (sint w) \<le> sint off \<and> sint off \<le> max 0 (sint w) \<and> \<bar>sint w\<bar> < 2 ^ 31 - 1)"
proof (cases "scOffsets s (dcMRID c)")
  case (Some off)
  then have "(scOffsets s)(dcMRID c \<mapsto> off) = scOffsets s" by (simp add: fun_upd_idem)
  then show ?thesis using Some assms by (simp add: randomizedStart_def)
next
  case None
  note draw = randomizedStart_draw [OF assms(2,3) None, of gen]
  show ?thesis
  proof (cases "\<bar>sint w\<bar> < 2 ^ 31 - 1")
    case True
    then have n: "window_size w = \<bar>sint w\<bar> + 1" using window_size_eq [of w] by simp
    let ?v = "fst (gnInt63n gen (scRng s) (\<bar>sint w\<bar> + 1))"
    define off where "off = (word_of_int ?v + (if sint w < 0 then w else 0) :: i32)"
    have v: "0 \<le> ?v" "?v \<le> \<bar>sint w\<bar>"
      using assms(1) unfolding gen_ok_def by (smt (verit) abs_ge_zero)+
    have "min 0 (sint w) \<le> sint off \<and> sint off \<le> max 0 (sint w)"
      unfolding off_def drawn_offset [OF v] using v by linarith
    moreover have "\<not> \<bar>sint w\<bar> + 1 \<le> 0" by linarith
    ultimately show ?thesis
      unfolding draw n Let_def off_def [symmetric] using True None by auto
  next
    case False
    then show ?thesis using window_size_overflow [OF False] None by (simp add: draw)
  qed
qed

definition sample_control :: "string \<Rightarrow> int \<Rightarrow> int \<Rightarrow> i32 option \<Rightarrow> nat derControl" where
  "sample_control m created start r = \<lparr>dcMRID = m, dcCreationTime = word_of_int created,
     dcStatus = Some (1, True), dcStart = word_of_int start, dcDuration = 100, dcRandomizeStart = r, dcBase = 5\<rparr>"

text \<open>The effective start under a cache, and when a cache determines it.\<close>

definition eff :: "(string \<rightharpoonup> i32) \<Rightarrow> 'b derControl \<Rightarrow> i64" where
  "eff m c = (case dcRandomizeStart c of None \<Rightarrow> dcStart c
     | Some w \<Rightarrow> if w = 0 then dcStart c else dcStart c + scast (case m (dcMRID c) of None \<Rightarrow> 0 | Some off \<Rightarrow> off))"

definition covered :: "(string \<rightharpoonup> i32) \<Rightarrow> 'b derControl \<Rightarrow> bool" where
  "covered m c \<longleftrightarrow> (case dcRandomizeStart c of None \<Rightarrow> True | Some w \<Rightarrow> w = 0 \<or> m (dcMRID c) \<noteq> None)"

lemma covered_mono: "covered m c \<Longrightarrow> m \<subseteq>\<^sub>m m' \<Longrightarrow> covered m' c"
  by (fastforce simp: covered_def map_le_def dom_def split: option.splits)

lemma eff_mono: "covered m c \<Longrightarrow> m \<subseteq>\<^sub>m m' \<Longrightarrow> eff m' c = eff m c"
  by (auto simp: covered_def eff_def map_le_def dom_def split: option.splits)

lemma randomizedStart_spec:
  assumes "randomizedStart gen c s = Some (start, s')"
  shows "scOffsets s \<subseteq>\<^sub>m scOffsets s'" "covered (scOffsets s') c" "start = eff (scOffsets s') c"
    "dom (scOffsets s') \<subseteq> insert (dcMRID c) (dom (scOffsets s))"
  using assms
  by (auto simp: randomizedStart_def covered_def eff_def map_le_def Let_def split: option.splits if_splits prod.splits)

text \<open>Once an event's offset is known, asking again changes nothing and draws nothing.\<close>

lemma randomizedStart_again: "covered (scOffsets s) c \<Longrightarrow> randomizedStart gen c s = Some (eff (scOffsets s) c, s)"
  by (auto simp: randomizedStart_def covered_def eff_def split: option.splits)

definition in_force :: "(string \<rightharpoonup> i32) \<Rightarrow> i64 \<Rightarrow> 'b derControl \<Rightarrow> bool" where
  "in_force m now c \<longleftrightarrow> \<not> cancelled c \<and> \<not> before now (eff m c) \<and> before now (eff m c + ucast (dcDuration c))"

definition grows :: "'g scheduler \<Rightarrow> 'b derControl list \<Rightarrow> 'g scheduler \<Rightarrow> bool" where
  "grows s cs s' \<longleftrightarrow> scOffsets s \<subseteq>\<^sub>m scOffsets s' \<and> dom (scOffsets s') \<subseteq> dom (scOffsets s) \<union> dcMRID ` set cs"

lemma grows_refl [simp]: "grows s cs s"
  by (simp add: grows_def)

lemma grows_trans: "grows s cs t \<Longrightarrow> grows t cs u \<Longrightarrow> grows s cs u"
  unfolding grows_def by (blast intro: map_le_trans)

lemma randomizedStart_grows: "randomizedStart gen c s = Some (st, s') \<Longrightarrow> c \<in> set cs \<Longrightarrow> grows s cs s'"
  using randomizedStart_spec(1,4) by (fastforce simp: grows_def)

lemma isSuperseded_spec:
  assumes "isSuperseded gen c ds now s = Some (b, s')" "set ds \<subseteq> set all"
  shows "grows s all s'" "b \<Longrightarrow> scOffsets s' \<subseteq>\<^sub>m M \<Longrightarrow>
    \<exists>d \<in> set ds. in_force M now d \<and> before (dcCreationTime c) (dcCreationTime d)"
proof -
  have "grows s all s' \<and> (b \<longrightarrow> scOffsets s' \<subseteq>\<^sub>m M \<longrightarrow>
      (\<exists>d \<in> set ds. in_force M now d \<and> before (dcCreationTime c) (dcCreationTime d)))"
    using assms
  proof (induction gen c ds now s arbitrary: b s' rule: isSuperseded.induct)
    case (2 gen c d ds now s)
    show ?case
    proof (cases "dcMRID d = dcMRID c \<or> cancelled d")
      case True
      with 2 show ?thesis by auto
    next
      case False
      then obtain st s1 where r: "randomizedStart gen d s = Some (st, s1)"
        using 2 (3) by (auto split: option.splits)
      note sp = randomizedStart_spec [OF r]
      have g: "grows s all s1" using randomizedStart_grows [OF r, of all] 2 (4) by simp
      show ?thesis
      proof (cases "\<not> before now st \<and> before now (st + ucast (dcDuration d)) \<and> before (dcCreationTime c) (dcCreationTime d)")
        case True
        then have b: "b" "s' = s1" using 2 (3) False r by auto
        have "in_force M now d" if "scOffsets s1 \<subseteq>\<^sub>m M"
          using True False eff_mono [OF sp(2) that] by (simp add: in_force_def sp(3))
        then show ?thesis using g True b by auto
      next
        case no: False
        then have "isSuperseded gen c ds now s1 = Some (b, s')" using 2 (3) False r by auto
        with 2 (2) [OF False r _ refl no] 2 (4) g show ?thesis by (auto intro: grows_trans)
      qed
    qed
  qed auto
  then show "grows s all s'" "b \<Longrightarrow> scOffsets s' \<subseteq>\<^sub>m M \<Longrightarrow>
    \<exists>d \<in> set ds. in_force M now d \<and> before (dcCreationTime c) (dcCreationTime d)" by blast+
qed

section \<open>The event in force\<close>

definition rank :: "'b derControl \<Rightarrow> int \<times> string" where
  "rank c = (sint (dcCreationTime c), dcMRID c)"

lemma newer_rank: "newer c (Some b) \<longleftrightarrow> rank b < rank c"
proof -
  have "sint (dcCreationTime b) = sint (dcCreationTime c) \<longleftrightarrow> dcCreationTime c = dcCreationTime b"
  proof -
    have "word_of_int (sint a) = a" for a :: i64 by simp
    then show ?thesis by metis
  qed
  then show ?thesis by (auto simp: newer_def before_def rank_def less_prod_def)
qed

lemma before_rank: "before (dcCreationTime c) (dcCreationTime d) \<Longrightarrow> rank c < rank d"
  by (auto simp: before_def rank_def less_prod_def)

text \<open>What the loop leaves: the best so far, or an event in force that no event seen outranks, except
  those set aside because a strictly newer event is in force.\<close>

definition settled :: "'b derControl set \<Rightarrow> 'b derControl option \<Rightarrow> 'b derControl \<Rightarrow> bool" where
  "settled all r d \<longleftrightarrow> (\<exists>e \<in> all. before (dcCreationTime d) (dcCreationTime e)) \<or> (\<exists>c. r = Some c \<and> rank d \<le> rank c)"

lemma settled_mono:
  assumes "rank d \<le> rank c" "settled all r c"
  shows "settled all r d"
proof -
  have "before (dcCreationTime d) (dcCreationTime e)" if "before (dcCreationTime c) (dcCreationTime e)" for e
    using assms(1) that by (auto simp: rank_def before_def less_eq_prod_def)
  then show ?thesis using assms unfolding settled_def by (blast intro: order_trans)
qed

definition loop_result :: "'b derControl set \<Rightarrow> 'b derControl set \<Rightarrow> 'b derControl option \<Rightarrow> 'b derControl option \<Rightarrow> bool" where
  "loop_result all seen best r \<longleftrightarrow> (r = None \<longrightarrow> best = None) \<and>
     (\<forall>c. r = Some c \<longrightarrow> best = Some c \<or> c \<in> seen) \<and> (\<forall>d. d \<in> seen \<or> best = Some d \<longrightarrow> settled all r d)"

lemma loop_result_skip:
  assumes "loop_result all seen best r" "\<exists>e \<in> all. before (dcCreationTime c) (dcCreationTime e)"
  shows "loop_result all (insert c seen) best r"
  using assms unfolding loop_result_def settled_def by blast

lemma loop_result_take:
  assumes "loop_result all seen (if newer c best then Some c else best) r"
  shows "loop_result all (insert c seen) best r"
proof (cases "newer c best")
  case True
  have up: "settled all r d" if "best = Some d" for d
  proof (rule settled_mono)
    show "rank d \<le> rank c" using True that newer_rank by (auto intro: less_imp_le)
    show "settled all r c" using assms True by (simp add: loop_result_def)
  qed
  have "loop_result all seen (Some c) r" using assms True by simp
  then have *: "r \<noteq> None" "\<forall>x. r = Some x \<longrightarrow> Some c = Some x \<or> x \<in> seen"
    "\<forall>d. d \<in> seen \<or> Some c = Some d \<longrightarrow> settled all r d"
    unfolding loop_result_def by simp_all
  have "r = None \<longrightarrow> best = None" using *(1) by auto
  moreover have "\<forall>x. r = Some x \<longrightarrow> best = Some x \<or> x \<in> insert c seen" using *(2) by auto
  moreover have "\<forall>d. d \<in> insert c seen \<or> best = Some d \<longrightarrow> settled all r d" using *(3) up by simp
  ultimately show ?thesis unfolding loop_result_def by (intro conjI)
next
  case False
  then obtain b where b: "best = Some b" by (cases best) (simp_all add: newer_def)
  then have le: "rank c \<le> rank b" using False newer_rank [of c b] by (simp add: not_less)
  have "settled all r b" using assms False b by (simp add: loop_result_def)
  then have c: "settled all r c" by (rule settled_mono [OF le])
  have "loop_result all seen best r" using assms False by simp
  then have *: "r = None \<longrightarrow> best = None" "\<forall>x. r = Some x \<longrightarrow> best = Some x \<or> x \<in> seen"
    "\<forall>d. d \<in> seen \<or> best = Some d \<longrightarrow> settled all r d"
    unfolding loop_result_def by simp_all
  have "\<forall>x. r = Some x \<longrightarrow> best = Some x \<or> x \<in> insert c seen" using *(2) by auto
  moreover have "\<forall>d. d \<in> insert c seen \<or> best = Some d \<longrightarrow> settled all r d" using *(3) c by simp
  ultimately show ?thesis using *(1) unfolding loop_result_def by simp
qed

lemma active_loop_spec:
  assumes "active_loop gen all now cs best s = Some (r, s')" "set cs \<subseteq> set all" "scOffsets s' \<subseteq>\<^sub>m M"
  shows "grows s all s' \<and> loop_result {c \<in> set all. in_force M now c} {c \<in> set cs. in_force M now c} best r"
  using assms
proof (induction cs arbitrary: best s)
  case Nil
  then show ?case by (auto simp: loop_result_def settled_def)
next
  case (Cons c cs)
  let ?all = "{c \<in> set all. in_force M now c}"
  have set_eq: "{d \<in> set (c # cs). in_force M now d} =
      (if in_force M now c then insert c {d \<in> set cs. in_force M now d} else {d \<in> set cs. in_force M now d})" by auto
  have "grows s all s' \<and> loop_result ?all (if in_force M now c then insert c {d \<in> set cs. in_force M now d}
      else {d \<in> set cs. in_force M now d}) best r"
  proof (cases "cancelled c")
    case True
    then have "\<not> in_force M now c" by (simp add: in_force_def)
    with True show ?thesis using Cons by simp
  next
    case False
    then obtain st s1 where r: "randomizedStart gen c s = Some (st, s1)"
      using Cons.prems(1) by (auto split: option.splits)
    note sp = randomizedStart_spec [OF r]
    have g1: "grows s all s1" using randomizedStart_grows [OF r] Cons.prems(2) by simp
    show ?thesis
    proof (cases "before now st \<or> \<not> before now (st + ucast (dcDuration c))")
      case True
      then have rest: "active_loop gen all now cs best s1 = Some (r, s')" using Cons.prems(1) False r by auto
      have "set cs \<subseteq> set all" using Cons.prems(2) by simp
      note ih = Cons.IH [OF rest this Cons.prems(3)]
      then have "scOffsets s1 \<subseteq>\<^sub>m scOffsets s'" by (simp add: grows_def)
      then have s1M: "scOffsets s1 \<subseteq>\<^sub>m M" using Cons.prems(3) by (rule map_le_trans)
      have "eff M c = st" using eff_mono [OF sp(2) s1M] sp(3) by simp
      then have "\<not> in_force M now c" using True by (auto simp: in_force_def)
      then show ?thesis using ih grows_trans [OF g1] by simp
    next
      case inside: False
      then obtain skip s2 where sk: "(if maySupersede c then isSuperseded gen c all now s1 else Some (False, s1)) = Some (skip, s2)"
        and rest: "active_loop gen all now cs (if skip then best else if newer c best then Some c else best) s2 = Some (r, s')"
        using Cons.prems(1) False r by (auto simp: Let_def split: option.splits prod.splits)
      have ih: "grows s2 all s' \<and> loop_result ?all {d \<in> set cs. in_force M now d}
          (if skip then best else if newer c best then Some c else best) r"
        by (rule Cons.IH [OF rest _ Cons.prems(3)]) (use Cons.prems(2) in simp)
      have "scOffsets s2 \<subseteq>\<^sub>m scOffsets s'" using ih by (simp add: grows_def)
      then have s2M: "scOffsets s2 \<subseteq>\<^sub>m M" using Cons.prems(3) by (rule map_le_trans)
      have sup: "grows s1 all s2 \<and> (skip \<longrightarrow> (\<exists>d \<in> ?all. before (dcCreationTime c) (dcCreationTime d)))"
      proof (cases "maySupersede c")
        case True
        then have "isSuperseded gen c all now s1 = Some (skip, s2)" using sk by simp
        from isSuperseded_spec [OF this order_refl] s2M show ?thesis by blast
      next
        case False
        then show ?thesis using sk by simp
      qed
      then have "scOffsets s1 \<subseteq>\<^sub>m scOffsets s2" by (simp add: grows_def)
      then have s1M: "scOffsets s1 \<subseteq>\<^sub>m M" using s2M by (rule map_le_trans)
      have "eff M c = st" using eff_mono [OF sp(2) s1M] sp(3) by simp
      then have force: "in_force M now c" using inside False by (simp add: in_force_def)
      have "loop_result ?all (insert c {d \<in> set cs. in_force M now d}) best r"
      proof (cases skip)
        case True
        show ?thesis by (rule loop_result_skip) (use ih sup True in simp_all)
      next
        case False
        show ?thesis by (rule loop_result_take) (use ih False in simp)
      qed
      moreover have "grows s all s'" using grows_trans [OF g1] grows_trans sup ih by blast
      ultimately show ?thesis using force by simp
    qed
  qed
  then show ?case unfolding set_eq .
qed

text \<open>The highest rank in a set of events, and the loop's answer.\<close>

lemma loop_result_best:
  assumes "loop_result A A None r" "finite A"
  shows "if A = {} then r = None else \<exists>c \<in> A. r = Some c \<and> (\<forall>d \<in> A. rank d \<le> rank c)"
proof (cases "A = {}")
  case True
  then show ?thesis using assms(1) by (cases r) (simp_all add: loop_result_def)
next
  case False
  then have "Max (rank ` A) \<in> rank ` A" using assms(2) by simp
  then obtain t where t: "t \<in> A" "rank t = Max (rank ` A)" by auto
  have top: "rank d \<le> rank t" if "d \<in> A" for d using assms(2) that t(2) by simp
  have "settled A r t" using assms(1) t(1) by (simp add: loop_result_def)
  moreover have "\<not> before (dcCreationTime t) (dcCreationTime e)" if "e \<in> A" for e
    using before_rank [of t e] top [OF that] by auto
  ultimately obtain c where c: "r = Some c" "rank t \<le> rank c" unfolding settled_def by blast
  then have "c \<in> A" using assms(1) by (simp add: loop_result_def)
  then show ?thesis using c top False by (auto intro: order_trans)
qed

definition controls_of :: "'b programState \<Rightarrow> 'b derControl list" where
  "controls_of p = (case psControls p of None \<Rightarrow> [] | Some cs \<Rightarrow> cs)"

definition fallback_of :: "'b programState \<Rightarrow> 'b activeControl option" where
  "fallback_of p = (case psDefault p of None \<Rightarrow> None
     | Some (b, m) \<Rightarrow> Some \<lparr>acBase = b, acSource = SrcDefault, acMRID = m, acValidUntil = 0\<rparr>)"

definition event_control :: "(string \<rightharpoonup> i32) \<Rightarrow> 'b derControl \<Rightarrow> 'b activeControl" where
  "event_control m c = \<lparr>acBase = dcBase c, acSource = SrcEvent, acMRID = dcMRID c,
     acValidUntil = eff m c + ucast (dcDuration c)\<rparr>"

lemma Evaluate_unfold:
  assumes "HighestPriorityProgram ps = Some hp"
  shows "Evaluate gen ps now s =
    (case activeEvent gen (controls_of hp) now (pruneRandOffsets ps s) of
       None \<Rightarrow> None
     | Some (None, s2) \<Rightarrow> Some (fallback_of hp, s2)
     | Some (Some ac, s2) \<Rightarrow> Some (Some ac, s2))"
  by (auto simp: Evaluate_def assms controls_of_def fallback_of_def Let_def activeEvent_def split: option.splits)

lemma activeEvent_spec:
  assumes "activeEvent gen cs now s = Some (r, s')"
  shows "grows s cs s'"
    "let A = {c \<in> set cs. in_force (scOffsets s') now c}
     in if A = {} then r = None
        else \<exists>c \<in> A. (\<forall>d \<in> A. rank d \<le> rank c) \<and> r = Some (event_control (scOffsets s') c)"
proof -
  obtain b s1 where l: "active_loop gen cs now cs None s = Some (b, s1)"
    using assms by (auto simp: activeEvent_def split: option.splits)
  have "grows s cs s' \<and> (let A = {c \<in> set cs. in_force (scOffsets s') now c}
     in if A = {} then r = None
        else \<exists>c \<in> A. (\<forall>d \<in> A. rank d \<le> rank c) \<and> r = Some (event_control (scOffsets s') c))"
  proof (cases b)
    case None
    then have r: "r = None" "s' = s1" using assms l by (auto simp: activeEvent_def)
    from active_loop_spec [OF l order_refl, of "scOffsets s1"] None
    have "grows s cs s1" "{c \<in> set cs. in_force (scOffsets s1) now c} = {}"
      using loop_result_best [of "{c \<in> set cs. in_force (scOffsets s1) now c}" None] by (auto split: if_splits)
    then show ?thesis by (simp add: r)
  next
    case (Some c)
    then obtain st where st: "randomizedStart gen c s1 = Some (st, s')"
      and r: "r = Some \<lparr>acBase = dcBase c, acSource = SrcEvent, acMRID = dcMRID c, acValidUntil = st + ucast (dcDuration c)\<rparr>"
      using assms l by (auto simp: activeEvent_def split: option.splits)
    let ?A = "{c \<in> set cs. in_force (scOffsets s') now c}"
    note sp = randomizedStart_spec [OF st]
    have l': "grows s cs s1" "loop_result ?A ?A None (Some c)"
      using active_loop_spec [OF l order_refl sp(1)] Some by blast+
    then have c: "c \<in> ?A" by (simp add: loop_result_def)
    then have "\<forall>d \<in> ?A. rank d \<le> rank c"
      using loop_result_best [OF l'(2)] by (auto split: if_splits)
    moreover have "r = Some (event_control (scOffsets s') c)" by (simp add: r event_control_def sp(3))
    moreover have "grows s cs s'" using l'(1) randomizedStart_grows [OF st] c grows_trans by blast
    ultimately show ?thesis unfolding Let_def using c by auto
  qed
  then show "grows s cs s'" "let A = {c \<in> set cs. in_force (scOffsets s') now c}
     in if A = {} then r = None
        else \<exists>c \<in> A. (\<forall>d \<in> A. rank d \<le> rank c) \<and> r = Some (event_control (scOffsets s') c)" by blast+
qed

text \<open>C20: what the referee applies is the event of the highest-priority program that is in force now, and
  when several are, the one created last, ties going to the larger mRID; cancelled events never count and
  the superseding check never sets aside the event chosen this way.  The control is valid until that
  event's end.  Only when no event is in force is the program's default applied.\<close>

theorem Evaluate_in_force:
  assumes "HighestPriorityProgram ps = Some hp" "Evaluate gen ps now s = Some (r, s')"
  shows "let A = {c \<in> set (controls_of hp). in_force (scOffsets s') now c}
    in if A = {} then r = fallback_of hp
       else \<exists>c \<in> A. (\<forall>d \<in> A. rank d \<le> rank c) \<and> r = Some (event_control (scOffsets s') c)"
proof -
  obtain r1 where r1: "activeEvent gen (controls_of hp) now (pruneRandOffsets ps s) = Some (r1, s')"
    "r = (case r1 of None \<Rightarrow> fallback_of hp | Some ac \<Rightarrow> Some ac)"
    using assms(2) unfolding Evaluate_unfold [OF assms(1)] by (auto split: option.splits)
  show ?thesis using activeEvent_spec(2) [OF r1(1)] by (auto simp: Let_def r1(2) split: if_splits)
qed

section \<open>Polling again\<close>

lemma randomizedStart_later:
  assumes "randomizedStart gen c s = Some (st, s1)" "scOffsets s1 \<subseteq>\<^sub>m scOffsets t"
  shows "randomizedStart gen c t = Some (st, t)"
proof -
  note sp = randomizedStart_spec [OF assms(1)]
  have "eff (scOffsets t) c = st" using eff_mono [OF sp(2) assms(2)] sp(3) by simp
  with randomizedStart_again [OF covered_mono [OF sp(2) assms(2)], of gen] show ?thesis by simp
qed

lemma isSuperseded_later:
  "isSuperseded gen c ds now s = Some (b, s') \<Longrightarrow> scOffsets s' \<subseteq>\<^sub>m scOffsets t \<Longrightarrow>
   isSuperseded gen c ds now t = Some (b, t)"
proof (induction gen c ds now s arbitrary: b s' rule: isSuperseded.induct)
  case (2 gen c d ds now s)
  show ?case
  proof (cases "dcMRID d = dcMRID c \<or> cancelled d")
    case True
    with 2 show ?thesis by auto
  next
    case False
    then obtain st s1 where r: "randomizedStart gen d s = Some (st, s1)"
      using 2 (3) by (auto split: option.splits)
    show ?thesis
    proof (cases "\<not> before now st \<and> before now (st + ucast (dcDuration d)) \<and> before (dcCreationTime c) (dcCreationTime d)")
      case True
      then have "b" "s' = s1" using 2 (3) False r by auto
      then show ?thesis using True False randomizedStart_later [OF r] 2 (4) by auto
    next
      case no: False
      then have rest: "isSuperseded gen c ds now s1 = Some (b, s')" using 2 (3) False r by auto
      have "scOffsets s1 \<subseteq>\<^sub>m scOffsets s'" using isSuperseded_spec(1) [OF rest order_refl] by (simp add: grows_def)
      then have "scOffsets s1 \<subseteq>\<^sub>m scOffsets t" using 2 (4) by (rule map_le_trans)
      then have "randomizedStart gen d t = Some (st, t)" by (rule randomizedStart_later [OF r])
      moreover have "isSuperseded gen c ds now t = Some (b, t)" by (rule 2 (2) [OF False r _ refl no rest 2 (4)]) simp
      ultimately show ?thesis using False no by auto
    qed
  qed
qed simp

lemma active_loop_later:
  assumes "active_loop gen all now cs best s = Some (r, s')" "set cs \<subseteq> set all" "scOffsets s' \<subseteq>\<^sub>m scOffsets t"
  shows "active_loop gen all now cs best t = Some (r, t)"
  using assms
proof (induction cs arbitrary: best s)
  case (Cons c cs)
  have sub: "set cs \<subseteq> set all" using Cons.prems(2) by simp
  show ?case
  proof (cases "cancelled c")
    case True
    with Cons sub show ?thesis by simp
  next
    case False
    then obtain st s1 where r: "randomizedStart gen c s = Some (st, s1)"
      using Cons.prems(1) by (auto split: option.splits)
    show ?thesis
    proof (cases "before now st \<or> \<not> before now (st + ucast (dcDuration c))")
      case True
      then have rest: "active_loop gen all now cs best s1 = Some (r, s')" using Cons.prems(1) False r by auto
      have "scOffsets s1 \<subseteq>\<^sub>m scOffsets t"
        using active_loop_spec [OF rest sub map_le_refl] Cons.prems(3) by (auto simp: grows_def intro: map_le_trans)
      then have "randomizedStart gen c t = Some (st, t)" by (rule randomizedStart_later [OF r])
      then show ?thesis using Cons.IH [OF rest sub Cons.prems(3)] True False by auto
    next
      case inside: False
      then obtain skip s2 where sk: "(if maySupersede c then isSuperseded gen c all now s1 else Some (False, s1)) = Some (skip, s2)"
        and rest: "active_loop gen all now cs (if skip then best else if newer c best then Some c else best) s2 = Some (r, s')"
        using Cons.prems(1) False r by (auto simp: Let_def split: option.splits prod.splits)
      have s2t: "scOffsets s2 \<subseteq>\<^sub>m scOffsets t"
        using active_loop_spec [OF rest sub map_le_refl] Cons.prems(3) by (auto simp: grows_def intro: map_le_trans)
      have "scOffsets s1 \<subseteq>\<^sub>m scOffsets s2"
        using sk isSuperseded_spec(1) [of gen c all now s1 skip s2 all] by (auto simp: grows_def split: if_splits)
      then have "scOffsets s1 \<subseteq>\<^sub>m scOffsets t" using s2t by (rule map_le_trans)
      then have "randomizedStart gen c t = Some (st, t)" by (rule randomizedStart_later [OF r])
      moreover have "(if maySupersede c then isSuperseded gen c all now t else Some (False, t)) = Some (skip, t)"
        using sk isSuperseded_later s2t by (auto split: if_splits)
      ultimately show ?thesis using Cons.IH [OF rest sub Cons.prems(3)] inside False by (simp add: Let_def)
    qed
  qed
qed simp

text \<open>C21: polling is stable.  An evaluation keeps every cached offset of an event still listed and no
  offset of any other; evaluating again at the same time gives the same control, draws nothing and leaves
  the state as it is, so an event's randomized start is computed once.\<close>

theorem Evaluate_stable:
  assumes "ps \<noteq> []" "Evaluate gen ps now s = Some (r, s')"
  shows "Evaluate gen ps now s' = Some (r, s') \<and> dom (scOffsets s') \<subseteq> live_mrids ps \<and>
    (\<forall>m \<in> live_mrids ps. \<forall>off. scOffsets s m = Some off \<longrightarrow> scOffsets s' m = Some off)"
proof -
  obtain hp where hp: "HighestPriorityProgram ps = Some hp" using assms(1) by (cases ps) (simp_all add: HighestPriorityProgram_def)
  have mem: "hp \<in> set ps"
  proof -
    have "foldl (\<lambda>best q. if psPrimacy q < psPrimacy best \<or> (psPrimacy q = psPrimacy best \<and> psMRID q > psMRID best)
         then q else best) p qs \<in> insert p (set qs)" for p :: "'a programState" and qs
      by (induction qs arbitrary: p) auto
    then show ?thesis using hp by (cases ps) (auto simp: HighestPriorityProgram_def)
  qed
  let ?p = "pruneRandOffsets ps s"
  obtain r1 where r1: "activeEvent gen (controls_of hp) now ?p = Some (r1, s')"
    "r = (case r1 of None \<Rightarrow> fallback_of hp | Some ac \<Rightarrow> Some ac)"
    using assms(2) unfolding Evaluate_unfold [OF hp] by (auto split: option.splits)
  have g: "grows ?p (controls_of hp) s'" by (rule activeEvent_spec(1) [OF r1(1)])
  have sub: "dcMRID ` set (controls_of hp) \<subseteq> live_mrids ps"
    using mem by (force simp: controls_of_def live_mrids_def split: option.splits)
  have "dom (scOffsets ?p) \<subseteq> live_mrids ps" by (auto simp: pruneRandOffsets_def split: if_splits)
  then have dom: "dom (scOffsets s') \<subseteq> live_mrids ps" using g sub unfolding grows_def by blast
  then have "pruneRandOffsets ps s' = s'"
  proof -
    have "(\<lambda>m. if m \<in> live_mrids ps then scOffsets s' m else None) = scOffsets s'"
      using dom by (intro ext) (metis domIff subsetD)
    then show ?thesis by (simp add: pruneRandOffsets_def)
  qed
  moreover have "activeEvent gen (controls_of hp) now s' = Some (r1, s')"
  proof -
    obtain b s1 where l: "active_loop gen (controls_of hp) now (controls_of hp) None ?p = Some (b, s1)"
      using r1(1) by (auto simp: activeEvent_def split: option.splits)
    show ?thesis
    proof (cases b)
      case None
      then have "r1 = None" "s' = s1" using r1(1) l by (auto simp: activeEvent_def)
      then show ?thesis using active_loop_later [OF l order_refl map_le_refl] None by (simp add: activeEvent_def)
    next
      case (Some c)
      then obtain st where st: "randomizedStart gen c s1 = Some (st, s')"
        and r: "r1 = Some \<lparr>acBase = dcBase c, acSource = SrcEvent, acMRID = dcMRID c, acValidUntil = st + ucast (dcDuration c)\<rparr>"
        using r1(1) l by (auto simp: activeEvent_def split: option.splits)
      from active_loop_later [OF l order_refl randomizedStart_spec(1) [OF st]] randomizedStart_later [OF st map_le_refl]
      show ?thesis by (simp add: activeEvent_def Some r)
    qed
  qed
  ultimately have again: "Evaluate gen ps now s' = Some (r, s')"
    unfolding Evaluate_unfold [OF hp] by (simp add: r1(2) split: option.split)
  have "scOffsets s' m = Some off" if "m \<in> live_mrids ps" "scOffsets s m = Some off" for m off
  proof -
    have "scOffsets ?p m = Some off" using that by (simp add: pruneRandOffsets_def)
    moreover have "scOffsets ?p \<subseteq>\<^sub>m scOffsets s'" using g by (simp add: grows_def)
    ultimately show ?thesis by (auto simp: map_le_def dom_def)
  qed
  with again dom show ?thesis by blast
qed

definition sample_programs :: "nat programState list" where
  "sample_programs = [\<lparr>psPrimacy = 2, psMRID = ''low'', psDefault = None, psControls = None\<rparr>,
     \<lparr>psPrimacy = 1, psMRID = ''high'', psDefault = Some (9, ''def''),
      psControls = Some [sample_control ''a'' 1 1000 None, sample_control ''b'' 2 1050 (Some (- 30)),
        sample_control ''c'' 3 5000 None]\<rparr>]"

lemma sample_program: "HighestPriorityProgram sample_programs = Some (sample_programs ! 1)"
  by (simp add: HighestPriorityProgram_def sample_programs_def)

lemma sample_evaluate:
  "map_option (map_option acMRID \<circ> fst) (Evaluate counting sample_programs 1060 \<lparr>scOffsets = Map.empty, scRng = 70\<rparr>) =
     Some (Some ''b'')"
  by code_simp

theorem Evaluate_in_force_witness:
  "\<exists>r s'. Evaluate counting sample_programs 1060 \<lparr>scOffsets = Map.empty, scRng = 70\<rparr> = Some (r, s') \<and>
     map_option acMRID r = Some ''b'' \<and>
     (\<exists>c \<in> set (controls_of (sample_programs ! 1)). in_force (scOffsets s') 1060 c \<and>
        r = Some (event_control (scOffsets s') c))"
proof -
  obtain r s' where e: "Evaluate counting sample_programs 1060 \<lparr>scOffsets = Map.empty, scRng = 70\<rparr> = Some (r, s')"
    "map_option acMRID r = Some ''b''" using sample_evaluate by auto
  have "r \<noteq> fallback_of (sample_programs ! 1)"
    using e(2) by (auto simp: fallback_of_def sample_programs_def)
  with Evaluate_in_force [OF sample_program e(1)] e show ?thesis by (auto simp: Let_def split: if_splits)
qed

theorem Evaluate_stable_witness:
  "\<exists>r s'. Evaluate counting sample_programs 1060 \<lparr>scOffsets = Map.empty, scRng = 70\<rparr> = Some (r, s') \<and>
     Evaluate counting sample_programs 1060 s' = Some (r, s')"
proof -
  obtain r s' where e: "Evaluate counting sample_programs 1060 \<lparr>scOffsets = Map.empty, scRng = 70\<rparr> = Some (r, s')"
    using sample_evaluate by auto
  have "sample_programs \<noteq> []" by (simp add: sample_programs_def)
  from Evaluate_stable [OF this e] e show ?thesis by blast
qed

end
