(* ===== verification/Csip_Discovery.thy ===== *)
theory Csip_Discovery
  imports Csip_Scheduler Go_Strings
begin

text \<open>
  \<^verbatim>\<open>internal/csipref/discovery\<close>: the walk from the device capability resource to the programs and controls of
  this client's end device, in \<^verbatim>\<open>walker.go\<close>, and the two checks of \<^verbatim>\<open>helpers.go\<close>.  The HTTP client behind
  \<^verbatim>\<open>Fetcher\<close> and \<^verbatim>\<open>encoding/xml\<close> over the vendored resource model are arguments; resources have the fields
  the walker reads.  A ghost trace records every request with the links the answer advertised.
\<close>

section \<open>Resources\<close>

record deviceCapability =
  dcResponseSetList :: "string option"
  dcTimeLink :: "string option"
  dcEndDeviceList :: "string option"
  dcMirrorUsagePointList :: "string option"

record endDevice =
  edLFDI :: string
  edDERList :: "string option"
  edFSAList :: "string option"
  edRegistration :: "string option"

record derProgram =
  dpMRID :: string
  dpPrimacy :: byte
  dpDefault :: "string option"
  dpControls :: "string option"

text \<open>What \<^verbatim>\<open>xml.Unmarshal\<close> makes of a body, per resource type; \<^verbatim>\<open>None\<close> is a parse error.  An assignment is its
  program list link, a response set its response list link.\<close>

record ('b, 'd, 'm) xml =
  xmDeviceCapability :: "bytes \<Rightarrow> deviceCapability option"
  xmTime :: "bytes \<Rightarrow> i64 option"
  xmEndDeviceList :: "bytes \<Rightarrow> endDevice list option"
  xmDERList :: "bytes \<Rightarrow> 'd option"
  xmFSAList :: "bytes \<Rightarrow> string option list option"
  xmProgramList :: "bytes \<Rightarrow> derProgram list option"
  xmDefaultControl :: "bytes \<Rightarrow> ('b \<times> string) option"
  xmControlList :: "bytes \<Rightarrow> 'b derControl list option"
  xmMUPList :: "bytes \<Rightarrow> 'm option"
  xmResponseSetList :: "bytes \<Rightarrow> string option list option"
  xmRegistration :: "bytes \<Rightarrow> u32 option"

record ('b, 'd, 'm) resourceTree =
  rtDeviceCapability :: deviceCapability
  rtTime :: "i64 option"
  rtSelfDevice :: endDevice
  rtEndDeviceList :: "endDevice list"
  rtFSAList :: "string option list"
  rtPrograms :: "'b programState list"
  rtMirrorUsagePoints :: "'m option"
  rtDERList :: "'d option"
  rtClockOffset :: i64
  rtResponseSetPath :: string

datatype fetch_error = GetFailed string | ParseFailed string

datatype discover_error =
    StepFailed string fetch_error
  | ProgramListFailed nat fetch_error
  | DefaultControlFailed string fetch_error
  | ControlListFailed string fetch_error
  | NoEndDeviceListLink
  | LFDINotFound string nat
  | NoFSAListLink

section \<open>Requests\<close>

text \<open>A step of the walk threads the state of the client and the trace of requests.\<close>

type_synonym trace = "(string \<times> string list) list"
type_synonym ('s, 'e, 'a) walk = "'s \<times> trace \<Rightarrow> ('e + 'a) \<times> 's \<times> trace"
type_synonym 's fetcher = "'s \<Rightarrow> string \<Rightarrow> bytes option \<times> 's"

definition returnW :: "'a \<Rightarrow> ('s, 'e, 'a) walk" where "returnW x w = (Inr x, w)"
definition failW :: "'e \<Rightarrow> ('s, 'e, 'a) walk" where "failW e w = (Inl e, w)"

definition bindW :: "('s, 'e, 'a) walk \<Rightarrow> ('a \<Rightarrow> ('s, 'e, 'b) walk) \<Rightarrow> ('s, 'e, 'b) walk" where
  "bindW m f w = (case m w of (Inl e, w1) \<Rightarrow> (Inl e, w1) | (Inr x, w1) \<Rightarrow> f x w1)"

definition wrapW :: "('e \<Rightarrow> 'f) \<Rightarrow> ('s, 'e, 'a) walk \<Rightarrow> ('s, 'f, 'a) walk" where
  "wrapW g m w = apfst (map_sum g id) (m w)"

text \<open>A failure that is logged and not returned.\<close>

definition tryW :: "('s, 'e, 'a) walk \<Rightarrow> ('s, 'f, 'a option) walk" where
  "tryW m w = (case m w of (Inl e, w1) \<Rightarrow> (Inr None, w1) | (Inr x, w1) \<Rightarrow> (Inr (Some x), w1))"

definition optW :: "string option \<Rightarrow> (string \<Rightarrow> ('s, 'e, 'a) walk) \<Rightarrow> ('s, 'e, 'a option) walk" where
  "optW link m = (case link of None \<Rightarrow> returnW None | Some h \<Rightarrow> bindW (m h) (\<lambda>x. returnW (Some x)))"

fun eachW :: "('a \<Rightarrow> ('s, 'e, 'b) walk) \<Rightarrow> 'a list \<Rightarrow> ('s, 'e, 'b list) walk" where
  "eachW f [] = returnW []"
| "eachW f (x # xs) = bindW (f x) (\<lambda>y. bindW (eachW f xs) (\<lambda>ys. returnW (y # ys)))"

definition fetchAndParse :: "'s fetcher \<Rightarrow> (bytes \<Rightarrow> 'a option) \<Rightarrow> ('a \<Rightarrow> string list) \<Rightarrow> string \<Rightarrow>
    ('s, fetch_error, 'a) walk" where
  "fetchAndParse get parse links path w =
    (case get (fst w) path of
       (None, s) \<Rightarrow> (Inl (GetFailed path), s, snd w @ [(path, [])])
     | (Some body, s) \<Rightarrow>
         (case parse body of
            None \<Rightarrow> (Inl (ParseFailed path), s, snd w @ [(path, [])])
          | Some r \<Rightarrow> (Inr r, s, snd w @ [(path, links r)])))"

section \<open>The links of a resource\<close>

definition links_of :: "string option list \<Rightarrow> string list" where
  "links_of ls = List.map_filter id ls"

definition dcap_links :: "deviceCapability \<Rightarrow> string list" where
  "dcap_links d = links_of [dcResponseSetList d, dcTimeLink d, dcEndDeviceList d, dcMirrorUsagePointList d]"

definition device_links :: "endDevice \<Rightarrow> string list" where
  "device_links d = links_of [edDERList d, edFSAList d, edRegistration d]"

definition program_links :: "derProgram \<Rightarrow> string list" where
  "program_links p = links_of [dpDefault p, dpControls p]"

definition no_links :: "'a \<Rightarrow> string list" where "no_links x = []"

section \<open>The walk\<close>

datatype response_error = RSFetch fetch_error | RSEmpty string | RSNoLink string

definition fetchResponseSetPostPath :: "'s fetcher \<Rightarrow> ('b, 'd, 'm) xml \<Rightarrow> string \<Rightarrow> ('s, response_error, string) walk" where
  "fetchResponseSetPostPath get xml listHref =
    bindW (wrapW RSFetch (fetchAndParse get (xmResponseSetList xml) links_of listHref)) (\<lambda>rsl.
      case rsl of [] \<Rightarrow> failW (RSEmpty listHref)
      | first # _ \<Rightarrow>
          (case first of None \<Rightarrow> failW (RSNoLink listHref)
           | Some href \<Rightarrow> if href = [] then failW (RSNoLink listHref) else returnW href))"

text \<open>The walker keeps the LFDI in upper case and searches without regard to case; both are modelled on the ASCII
  letters, which is all an LFDI, a string of hexadecimal digits, has.\<close>

definition NewWalker :: "string \<Rightarrow> string" where "NewWalker lfdi = ToUpper lfdi"

definition findSelfDevice :: "string \<Rightarrow> endDevice list \<Rightarrow> endDevice option" where
  "findSelfDevice lfdi edl = find (\<lambda>d. ToLower (edLFDI d) = ToLower lfdi) edl"

definition walk_program :: "'s fetcher \<Rightarrow> ('b, 'd, 'm) xml \<Rightarrow> derProgram \<Rightarrow> ('s, discover_error, 'b programState) walk" where
  "walk_program get xml prog =
    bindW (optW (dpDefault prog) (\<lambda>h. wrapW (DefaultControlFailed (dpMRID prog))
        (fetchAndParse get (xmDefaultControl xml) no_links h))) (\<lambda>dderc.
    bindW (optW (dpControls prog) (\<lambda>h. wrapW (ControlListFailed (dpMRID prog))
        (fetchAndParse get (xmControlList xml) no_links h))) (\<lambda>ctrls.
      returnW \<lparr>psPrimacy = dpPrimacy prog, psMRID = dpMRID prog, psDefault = dderc, psControls = ctrls\<rparr>))"

definition walk_fsa :: "'s fetcher \<Rightarrow> ('b, 'd, 'm) xml \<Rightarrow> nat \<times> string option \<Rightarrow>
    ('s, discover_error, 'b programState list) walk" where
  "walk_fsa get xml fsa =
    (case snd fsa of
       None \<Rightarrow> returnW []
     | Some h \<Rightarrow>
         bindW (wrapW (ProgramListFailed (fst fsa))
             (fetchAndParse get (xmProgramList xml) (\<lambda>ps. concat (map program_links ps)) h))
           (eachW (walk_program get xml)))"

definition Discover :: "'s fetcher \<Rightarrow> ('b, 'd, 'm) xml \<Rightarrow> string \<Rightarrow> i64 \<Rightarrow> string \<Rightarrow>
    ('s, discover_error, ('b, 'd, 'm) resourceTree) walk" where
  "Discover get xml lfdi now dcapPath =
    bindW (wrapW (StepFailed ''1'') (fetchAndParse get (xmDeviceCapability xml) dcap_links dcapPath)) (\<lambda>dcap.
    bindW (case dcResponseSetList dcap of
        None \<Rightarrow> returnW None
      | Some h \<Rightarrow> if h = [] then returnW None else tryW (fetchResponseSetPostPath get xml h)) (\<lambda>rsp.
    bindW (optW (dcTimeLink dcap) (\<lambda>h. wrapW (StepFailed ''2'') (fetchAndParse get (xmTime xml) no_links h))) (\<lambda>tm.
    case dcEndDeviceList dcap of
      None \<Rightarrow> failW NoEndDeviceListLink
    | Some edlHref \<Rightarrow>
    bindW (wrapW (StepFailed ''3'') (fetchAndParse get (xmEndDeviceList xml)
        (\<lambda>ds. concat (map device_links ds)) edlHref)) (\<lambda>edl.
    case findSelfDevice (NewWalker lfdi) edl of
      None \<Rightarrow> failW (LFDINotFound (NewWalker lfdi) (length edl))
    | Some self \<Rightarrow>
    bindW (optW (edDERList self) (\<lambda>h. wrapW (StepFailed ''3b'') (fetchAndParse get (xmDERList xml) no_links h))) (\<lambda>derList.
    case edFSAList self of
      None \<Rightarrow> failW NoFSAListLink
    | Some fsaHref \<Rightarrow>
    bindW (wrapW (StepFailed ''4'') (fetchAndParse get (xmFSAList xml) links_of fsaHref)) (\<lambda>fsas.
    bindW (eachW (walk_fsa get xml) (enumerate 0 fsas)) (\<lambda>progs.
    bindW (case dcMirrorUsagePointList dcap of
        None \<Rightarrow> returnW None
      | Some h \<Rightarrow> tryW (fetchAndParse get (xmMUPList xml) no_links h)) (\<lambda>mup.
    returnW \<lparr>rtDeviceCapability = dcap, rtTime = tm, rtSelfDevice = self, rtEndDeviceList = edl, rtFSAList = fsas,
      rtPrograms = concat progs, rtMirrorUsagePoints = mup, rtDERList = derList,
      rtClockOffset = (case tm of None \<Rightarrow> 0 | Some t \<Rightarrow> t - now),
      rtResponseSetPath = (case rsp of None \<Rightarrow> [] | Some p \<Rightarrow> p)\<rparr>))))))))"

datatype registration_error = NoRegistrationLink | RegistrationFetch fetch_error | PINMismatch u32 u32

definition VerifyRegistration :: "'s fetcher \<Rightarrow> ('b, 'd, 'm) xml \<Rightarrow> endDevice \<Rightarrow> u32 \<Rightarrow> ('s, registration_error, u32) walk" where
  "VerifyRegistration get xml ed expected =
    (case edRegistration ed of
       None \<Rightarrow> failW NoRegistrationLink
     | Some h \<Rightarrow>
         bindW (wrapW RegistrationFetch (fetchAndParse get (xmRegistration xml) no_links h)) (\<lambda>pin.
           if pin \<noteq> expected then failW (PINMismatch pin expected) else returnW pin))"

definition ActiveDefaultControl :: "'b programState list \<Rightarrow> ('b \<times> string) option" where
  "ActiveDefaultControl programs = Option.bind (HighestPriorityProgram programs) psDefault"

section \<open>Every request follows a link\<close>

definition known :: "string \<Rightarrow> trace \<Rightarrow> string set" where
  "known root tr = insert root (\<Union>e \<in> set tr. set (snd e))"

text \<open>Each request of the trace is the root or was advertised by an earlier answer.\<close>

fun linked :: "string \<Rightarrow> trace \<Rightarrow> bool" where
  "linked root tr \<longleftrightarrow> (\<forall>i < length tr. fst (tr ! i) \<in> known root (take i tr))"

declare linked.simps [simp del]

lemma linked_Nil: "linked root []"
  by (simp add: linked.simps)

lemma linked_snoc: "linked root (tr @ [e]) \<longleftrightarrow> linked root tr \<and> fst e \<in> known root tr"
  by (auto simp: linked.simps nth_append less_Suc_eq)

text \<open>A step keeps the trace linked when the paths it is given are known, and makes what it returns known.\<close>

definition keeps_links :: "string \<Rightarrow> string set \<Rightarrow> ('s, 'e, 'a) walk \<Rightarrow> ('a \<Rightarrow> string set) \<Rightarrow> bool" where
  "keeps_links root P m Q \<longleftrightarrow> (\<forall>s tr. linked root tr \<longrightarrow> P \<subseteq> known root tr \<longrightarrow>
     (case m (s, tr) of (r, s1, tr1) \<Rightarrow> linked root tr1 \<and> known root tr \<subseteq> known root tr1 \<and>
        (\<forall>x. r = Inr x \<longrightarrow> Q x \<subseteq> known root tr1)))"

lemma keeps_linksD: "keeps_links root P m Q \<Longrightarrow> m (s, tr) = (r, s1, tr1) \<Longrightarrow> linked root tr \<Longrightarrow> P \<subseteq> known root tr \<Longrightarrow>
    linked root tr1 \<and> known root tr \<subseteq> known root tr1 \<and> (\<forall>x. r = Inr x \<longrightarrow> Q x \<subseteq> known root tr1)"
  unfolding keeps_links_def by (drule spec [of _ s], drule spec [of _ tr]) simp

lemma keeps_linksI:
  assumes "\<And>s tr r s1 tr1. m (s, tr) = (r, s1, tr1) \<Longrightarrow> linked root tr \<Longrightarrow> P \<subseteq> known root tr \<Longrightarrow>
    linked root tr1 \<and> known root tr \<subseteq> known root tr1 \<and> (\<forall>x. r = Inr x \<longrightarrow> Q x \<subseteq> known root tr1)"
  shows "keeps_links root P m Q"
  unfolding keeps_links_def
proof (intro allI impI)
  fix s tr assume tr: "linked root tr" "P \<subseteq> known root tr"
  obtain r s1 tr1 where m: "m (s, tr) = (r, s1, tr1)" by (metis prod.collapse)
  from assms [OF m tr] show "case m (s, tr) of (r, s1, tr1) \<Rightarrow> linked root tr1 \<and> known root tr \<subseteq> known root tr1 \<and>
      (\<forall>x. r = Inr x \<longrightarrow> Q x \<subseteq> known root tr1)" by (simp add: m)
qed

lemma keeps_return: "Q x \<subseteq> P \<Longrightarrow> keeps_links root P (returnW x) Q"
  by (auto simp: keeps_links_def returnW_def)

lemma keeps_fail: "keeps_links root P (failW e) Q"
  by (auto simp: keeps_links_def failW_def)

lemma keeps_fetch: "path \<in> P \<or> path = root \<Longrightarrow>
    keeps_links root P (fetchAndParse get parse links path) (\<lambda>x. set (links x))"
  by (auto simp: keeps_links_def fetchAndParse_def linked_snoc known_def split: option.splits prod.splits)

lemma keeps_bind:
  assumes "keeps_links root P m Q" "\<And>x. keeps_links root (P \<union> Q x) (f x) R"
  shows "keeps_links root P (bindW m f) R"
proof (rule keeps_linksI)
  fix s tr r2 s2 tr2
  assume run: "bindW m f (s, tr) = (r2, s2, tr2)" and tr: "linked root tr" "P \<subseteq> known root tr"
  obtain r s1 tr1 where m: "m (s, tr) = (r, s1, tr1)" by (metis prod.collapse)
  note 1 = keeps_linksD [OF assms(1) m tr]
  show "linked root tr2 \<and> known root tr \<subseteq> known root tr2 \<and> (\<forall>x. r2 = Inr x \<longrightarrow> R x \<subseteq> known root tr2)"
  proof (cases r)
    case (Inl e)
    then show ?thesis using m 1 run by (auto simp: bindW_def)
  next
    case (Inr x)
    then have "P \<union> Q x \<subseteq> known root tr1" "f x (s1, tr1) = (r2, s2, tr2)" using 1 tr m run by (auto simp: bindW_def)
    with keeps_linksD [OF assms(2) this(2)] 1 show ?thesis by blast
  qed
qed

lemma keeps_wrap: "keeps_links root P m Q \<Longrightarrow> keeps_links root P (wrapW g m) Q"
proof (rule keeps_linksI)
  fix s tr r s1 tr1
  assume k: "keeps_links root P m Q" and run: "wrapW g m (s, tr) = (r, s1, tr1)"
    and tr: "linked root tr" "P \<subseteq> known root tr"
  obtain r0 where m: "m (s, tr) = (r0, s1, tr1)" "r = map_sum g id r0"
    using run by (cases "m (s, tr)") (auto simp: wrapW_def)
  show "linked root tr1 \<and> known root tr \<subseteq> known root tr1 \<and> (\<forall>x. r = Inr x \<longrightarrow> Q x \<subseteq> known root tr1)"
    using keeps_linksD [OF k m(1) tr] m(2) by (cases r0) auto
qed

lemma keeps_try: "keeps_links root P m Q \<Longrightarrow> keeps_links root P (tryW m) (\<lambda>x. {})"
proof (rule keeps_linksI)
  fix s tr r s1 tr1
  assume k: "keeps_links root P m Q" and run: "tryW m (s, tr) = (r, s1, tr1)"
    and tr: "linked root tr" "P \<subseteq> known root tr"
  obtain r0 where m: "m (s, tr) = (r0, s1, tr1)"
    using run by (cases "m (s, tr)") (auto simp: tryW_def split: sum.splits)
  show "linked root tr1 \<and> known root tr \<subseteq> known root tr1 \<and> (\<forall>x. r = Inr x \<longrightarrow> {} \<subseteq> known root tr1)"
    using keeps_linksD [OF k m tr] by simp
qed

lemma keeps_opt: "(\<And>h. link = Some h \<Longrightarrow> keeps_links root P (m h) Q) \<Longrightarrow> keeps_links root P (optW link m) (\<lambda>x. {})"
  by (cases link) (auto simp: optW_def intro!: keeps_return keeps_bind)

lemma keeps_more: "keeps_links root P m Q \<Longrightarrow> P \<subseteq> P' \<Longrightarrow> (\<And>x. Q' x \<subseteq> Q x) \<Longrightarrow> keeps_links root P' m Q'"
proof (rule keeps_linksI)
  fix s tr r s1 tr1
  assume k: "keeps_links root P m Q" "P \<subseteq> P'" "\<And>x. Q' x \<subseteq> Q x" and m: "m (s, tr) = (r, s1, tr1)"
    and tr: "linked root tr" "P' \<subseteq> known root tr"
  have "P \<subseteq> known root tr" using k(2) tr(2) by (rule subset_trans)
  note 1 = keeps_linksD [OF k(1) m tr(1) this]
  then have "Q' x \<subseteq> known root tr1" if "r = Inr x" for x using k(3) [of x] that by (metis subset_trans)
  with 1 show "linked root tr1 \<and> known root tr \<subseteq> known root tr1 \<and> (\<forall>x. r = Inr x \<longrightarrow> Q' x \<subseteq> known root tr1)"
    by simp
qed

lemma keeps_each: "(\<And>x. x \<in> set xs \<Longrightarrow> keeps_links root P (f x) (\<lambda>y. {})) \<Longrightarrow> keeps_links root P (eachW f xs) (\<lambda>ys. {})"
proof (induction xs)
  case (Cons x xs)
  have "keeps_links root P (f x) (\<lambda>y. {})" "keeps_links root P (eachW f xs) (\<lambda>ys. {})" using Cons by simp_all
  then show ?case
    unfolding eachW.simps by (auto intro!: keeps_bind [where Q = "\<lambda>y. {}"] keeps_return)
qed (simp add: keeps_return)

lemma keeps_opt_fetch: "(\<And>h. link = Some h \<Longrightarrow> h \<in> P) \<Longrightarrow>
    keeps_links root P (optW link (\<lambda>h. wrapW g (fetchAndParse get parse links h))) (\<lambda>x. {})"
  by (rule keeps_opt [OF keeps_wrap [OF keeps_fetch]]) blast

lemma links_of_mem: "Some h \<in> set ls \<Longrightarrow> h \<in> set (links_of ls)"
  by (force simp: links_of_def List.map_filter_def)

lemma link_known:
  "dcResponseSetList d = Some h \<Longrightarrow> h \<in> set (dcap_links d)" "dcTimeLink d = Some h \<Longrightarrow> h \<in> set (dcap_links d)"
  "dcEndDeviceList d = Some h \<Longrightarrow> h \<in> set (dcap_links d)" "dcMirrorUsagePointList d = Some h \<Longrightarrow> h \<in> set (dcap_links d)"
  "edDERList e = Some h \<Longrightarrow> h \<in> set (device_links e)" "edFSAList e = Some h \<Longrightarrow> h \<in> set (device_links e)"
  "dpDefault p = Some h \<Longrightarrow> h \<in> set (program_links p)" "dpControls p = Some h \<Longrightarrow> h \<in> set (program_links p)"
  by (simp_all add: dcap_links_def device_links_def program_links_def links_of_mem)

lemma keeps_response:
  assumes "h \<in> P"
  shows "keeps_links root P (fetchResponseSetPostPath get xml h) (\<lambda>x. {})"
  unfolding fetchResponseSetPostPath_def
proof (rule keeps_bind [OF keeps_wrap [OF keeps_fetch]])
  show "keeps_links root (P \<union> set (links_of rsl)) (case rsl of [] \<Rightarrow> failW (RSEmpty h)
      | first # _ \<Rightarrow> (case first of None \<Rightarrow> failW (RSNoLink h)
        | Some href \<Rightarrow> if href = [] then failW (RSNoLink h) else returnW href)) (\<lambda>x. {})" for rsl
    by (simp add: keeps_fail keeps_return split: list.split option.split)
qed (use assms in simp)

lemma keeps_walk_program:
  assumes "set (program_links p) \<subseteq> P"
  shows "keeps_links root P (walk_program get xml p) (\<lambda>x. {})"
  unfolding walk_program_def
  by (intro keeps_bind [OF keeps_opt_fetch] keeps_return) (use assms link_known(7,8) in blast)+

lemma keeps_walk_fsa:
  assumes "\<And>h. snd fsa = Some h \<Longrightarrow> h \<in> P"
  shows "keeps_links root P (walk_fsa get xml fsa) (\<lambda>x. {})"
proof (cases "snd fsa")
  case (Some h)
  show ?thesis
    unfolding walk_fsa_def Some option.case
  proof (rule keeps_bind [OF keeps_wrap [OF keeps_fetch]])
    show "h \<in> P \<or> h = root" using assms Some by simp
    fix ps :: "derProgram list"
    show "keeps_links root (P \<union> set (concat (map program_links ps))) (eachW (walk_program get xml) ps) (\<lambda>x. {})"
    proof (rule keeps_each)
      fix p assume "p \<in> set ps"
      then show "keeps_links root (P \<union> set (concat (map program_links ps))) (walk_program get xml p) (\<lambda>x. {})"
        by (intro keeps_walk_program) auto
    qed
  qed
qed (simp add: walk_fsa_def keeps_return)

lemma keeps_Discover: "keeps_links root {root} (Discover get xml lfdi now root) (\<lambda>x. {})"
proof -
  have self: "set (device_links d) \<subseteq> set (concat (map device_links edl))" if "findSelfDevice (NewWalker lfdi) edl = Some d" for d edl
    using that by (auto simp: findSelfDevice_def find_Some_iff) (metis nth_mem)
  have fsa: "h \<in> set (links_of fsas)" if "f \<in> set (enumerate 0 fsas)" "snd f = Some h" for f h fsas
  proof -
    have "fst f < length fsas" "fsas ! fst f = Some h" using that by (auto simp: in_set_enumerate_eq)
    then have "Some h \<in> set fsas" using nth_mem by fastforce
    then show ?thesis by (rule links_of_mem)
  qed
  show ?thesis
    unfolding Discover_def
    apply (rule keeps_bind [OF keeps_wrap [OF keeps_fetch]], simp)
    apply (rule keeps_bind [where Q = "\<lambda>x. {}"])
    subgoal for dcap by (auto split: option.splits intro!: keeps_return keeps_try [OF keeps_response] dest: link_known(1))
    apply (rule keeps_bind [OF keeps_opt_fetch])
    subgoal for dcap rsp h by (auto dest: link_known(2))
    subgoal for dcap rsp tm
      apply (cases "dcEndDeviceList dcap")
      subgoal by (simp add: keeps_fail)
      subgoal for edlHref
        apply simp
        apply (rule keeps_bind [OF keeps_wrap [OF keeps_fetch]])
        subgoal by (auto dest: link_known(3))
        subgoal for edl
          apply (cases "findSelfDevice (NewWalker lfdi) edl")
          subgoal by (simp add: keeps_fail)
          subgoal for self
            apply simp
            apply (rule keeps_bind [OF keeps_opt_fetch])
            subgoal for h using self [of edl self] link_known(5) [of self h] by auto
            subgoal for ders
              apply (cases "edFSAList self")
              subgoal by (simp add: keeps_fail)
              subgoal for fsaHref
                apply simp
                apply (rule keeps_bind [OF keeps_wrap [OF keeps_fetch]])
                subgoal using self [of edl self] link_known(6) [of self fsaHref] by auto
                subgoal for fsas
                  apply (rule keeps_bind [OF keeps_each])
                  subgoal for f using fsa [of f fsas] by (auto intro!: keeps_walk_fsa)
                  subgoal for progs
                    apply (rule keeps_bind [where Q = "\<lambda>x. {}"])
                    subgoal by (auto split: option.splits intro!: keeps_return keeps_try [OF keeps_fetch] dest: link_known(4))
                    subgoal by (simp add: keeps_return)
                    done
                  done
                done
              done
            done
          done
        done
      done
    done
qed

text \<open>C9: the walker never makes up a URL.  Whatever the server answers, in whatever order it fails, every request
  of a walk is for the entry path it was given or for a link an earlier answer of the same walk advertised.\<close>

theorem Discover_follows_links:
  "linked root (snd (snd (Discover get xml lfdi now root (s, []))))"
proof -
  obtain r s1 tr1 where run: "Discover get xml lfdi now root (s, []) = (r, s1, tr1)" by (metis prod.collapse)
  show ?thesis
    using keeps_linksD [OF keeps_Discover run linked_Nil] run by (simp add: known_def)
qed


section \<open>What a walk returns\<close>

text \<open>Against a server whose pages stand still, the tree is the one the pages describe.\<close>

definition still :: "(string \<Rightarrow> bytes option) \<Rightarrow> unit fetcher" where "still page s p = (page p, s)"

definition read_page :: "(string \<Rightarrow> bytes option) \<Rightarrow> (bytes \<Rightarrow> 'a option) \<Rightarrow> string \<Rightarrow> 'a option" where
  "read_page page parse h = Option.bind (page h) parse"

definition program_at :: "(string \<Rightarrow> bytes option) \<Rightarrow> ('b, 'd, 'm) xml \<Rightarrow> derProgram \<Rightarrow> 'b programState" where
  "program_at page xml p =
    \<lparr>psPrimacy = dpPrimacy p, psMRID = dpMRID p,
     psDefault = Option.bind (dpDefault p) (read_page page (xmDefaultControl xml)),
     psControls = Option.bind (dpControls p) (read_page page (xmControlList xml))\<rparr>"

definition programs_at :: "(string \<Rightarrow> bytes option) \<Rightarrow> ('b, 'd, 'm) xml \<Rightarrow> string option \<Rightarrow> 'b programState list" where
  "programs_at page xml link =
    (case Option.bind link (read_page page (xmProgramList xml)) of None \<Rightarrow> [] | Some ps \<Rightarrow> map (program_at page xml) ps)"

lemma bindW_InrE:
  assumes "bindW m f w = (Inr y, w2)"
  obtains x w1 where "m w = (Inr x, w1)" "f x w1 = (Inr y, w2)"
  using assms by (auto simp: bindW_def split: prod.splits sum.splits)

lemma fetch_still: "fetchAndParse (still page) parse links h w = (Inr x, w1) \<Longrightarrow> read_page page parse h = Some x"
  by (auto simp: fetchAndParse_def still_def read_page_def split: option.splits)

lemma wrap_Inr: "wrapW g m w = (Inr x, w1) \<longleftrightarrow> m w = (Inr x, w1)"
  by (cases "m w"; cases "fst (m w)") (auto simp: wrapW_def)

lemma opt_fetch_still: "optW link (\<lambda>h. wrapW g (fetchAndParse (still page) parse links h)) w = (Inr o', w1) \<Longrightarrow>
    o' = Option.bind link (read_page page parse)"
  by (auto simp: optW_def returnW_def wrap_Inr split: option.splits elim!: bindW_InrE dest!: fetch_still)

lemma walk_program_still: "walk_program (still page) xml p w = (Inr ps, w1) \<Longrightarrow> ps = program_at page xml p"
  unfolding walk_program_def
  by (elim bindW_InrE) (auto simp: program_at_def returnW_def dest!: opt_fetch_still)

lemma each_still:
  assumes "\<And>x y w w1. x \<in> set xs \<Longrightarrow> f x w = (Inr y, w1) \<Longrightarrow> y = g x" "eachW f xs w = (Inr ys, w2)"
  shows "ys = map g xs"
  using assms
proof (induction xs arbitrary: ys w)
  case (Cons x xs)
  from Cons.prems(2) obtain y w1 zs where "f x w = (Inr y, w1)" "eachW f xs w1 = (Inr zs, w2)" "ys = y # zs"
    by (auto simp: returnW_def elim!: bindW_InrE)
  with Cons show ?case by (metis list.set_intros list.simps(9))
qed (simp add: returnW_def)

lemma walk_fsa_still: "walk_fsa (still page) xml fsa w = (Inr ps, w1) \<Longrightarrow> ps = programs_at page xml (snd fsa)"
  by (auto simp: walk_fsa_def returnW_def programs_at_def wrap_Inr split: option.splits
      elim!: bindW_InrE dest!: fetch_still each_still [rotated, where g = "program_at page xml"] walk_program_still)

lemma optionE: "(case x of None \<Rightarrow> failW e | Some y \<Rightarrow> f y) w = (Inr z, w1) \<Longrightarrow>
    (\<And>y. x = Some y \<Longrightarrow> f y w = (Inr z, w1) \<Longrightarrow> thesis) \<Longrightarrow> thesis"
  by (auto simp: failW_def split: option.splits)

text \<open>C10: a walk that succeeds found what it says it found: the device is the first of the end device list with our
  LFDI, whatever its case; and its programs are, in the order of its assignments and of each program list, the
  programs its assignments link to, each with the default control and the events its own links lead to.  An
  assignment without a program list contributes none.\<close>

theorem Discover_result:
  assumes "Discover (still page) xml lfdi now root ((), []) = (Inr tree, w)"
  shows "read_page page (xmDeviceCapability xml) root = Some (rtDeviceCapability tree) \<and>
    Option.bind (dcEndDeviceList (rtDeviceCapability tree)) (read_page page (xmEndDeviceList xml)) = Some (rtEndDeviceList tree) \<and>
    find (\<lambda>d. ToLower (edLFDI d) = ToLower lfdi) (rtEndDeviceList tree) = Some (rtSelfDevice tree) \<and>
    Option.bind (edFSAList (rtSelfDevice tree)) (read_page page (xmFSAList xml)) = Some (rtFSAList tree) \<and>
    rtPrograms tree = concat (map (programs_at page xml) (rtFSAList tree)) \<and>
    (rtTime tree = None \<or> rtClockOffset tree = the (rtTime tree) - now)"
proof -
  have fsas: "ps = map (\<lambda>f. programs_at page xml (snd f)) (enumerate 0 fsas)"
    if "eachW (walk_fsa (still page) xml) (enumerate 0 fsas) w1 = (Inr ps, w2)" for fsas w1 ps w2
    by (rule each_still [OF walk_fsa_still that])
  have snds: "map (\<lambda>f. programs_at page xml (snd f)) (enumerate 0 fsas) = map (programs_at page xml) fsas" for fsas
  proof -
    have "map (\<lambda>f. programs_at page xml (snd f)) (enumerate 0 fsas) = map (programs_at page xml) (map snd (enumerate 0 fsas))"
      unfolding map_map comp_def by (rule refl)
    then show ?thesis by (simp only: map_snd_enumerate)
  qed
  show ?thesis
    using assms unfolding Discover_def
    apply (elim bindW_InrE optionE)
    apply (simp only: wrap_Inr)
    apply (drule fetch_still)+
    apply (drule opt_fetch_still)+
    apply (drule fsas)
    apply (simp add: returnW_def findSelfDevice_def NewWalker_def snds)
    apply (clarsimp split: option.split)
    done
qed

definition sample_xml :: "(unit, unit, unit) xml" where
  "sample_xml = \<lparr>
     xmDeviceCapability = (\<lambda>b. Some \<lparr>dcResponseSetList = None, dcTimeLink = Some ''/tm'',
       dcEndDeviceList = Some ''/edev'', dcMirrorUsagePointList = None\<rparr>),
     xmTime = (\<lambda>b. Some 1000),
     xmEndDeviceList = (\<lambda>b. Some [\<lparr>edLFDI = ''ff00'', edDERList = None, edFSAList = None, edRegistration = None\<rparr>,
       \<lparr>edLFDI = ''ab12'', edDERList = None, edFSAList = Some ''/fsa'', edRegistration = None\<rparr>]),
     xmDERList = (\<lambda>b. None), xmFSAList = (\<lambda>b. Some [None, Some ''/derp'']),
     xmProgramList = (\<lambda>b. Some [\<lparr>dpMRID = ''P'', dpPrimacy = 1, dpDefault = Some ''/dderc'', dpControls = None\<rparr>]),
     xmDefaultControl = (\<lambda>b. Some ((), ''D'')), xmControlList = (\<lambda>b. None), xmMUPList = (\<lambda>b. None),
     xmResponseSetList = (\<lambda>b. None), xmRegistration = (\<lambda>b. None)\<rparr>"

theorem Discover_result_witness:
  "\<exists>tree w. Discover (still (\<lambda>h. Some [])) sample_xml ''AB12'' 990 ''/dcap'' ((), []) = (Inr tree, w) \<and>
     rtPrograms tree = [\<lparr>psPrimacy = 1, psMRID = ''P'', psDefault = Some ((), ''D''), psControls = None\<rparr>]"
proof -
  have "ToLower ''AB12'' = ''ab12''" "ToLower ''ab12'' = ''ab12''" "ToLower ''ff00'' = ''ff00''"
    by code_simp+
  then obtain tree w where run: "Discover (still (\<lambda>h. Some [])) sample_xml ''AB12'' 990 ''/dcap'' ((), []) = (Inr tree, w)"
      "rtFSAList tree = [None, Some ''/derp'']"
    by (simp add: Discover_def bindW_def wrapW_def fetchAndParse_def still_def sample_xml_def returnW_def optW_def
        findSelfDevice_def NewWalker_def walk_fsa_def walk_program_def)
  have "rtPrograms tree = concat (map (programs_at (\<lambda>h. Some []) sample_xml) (rtFSAList tree))"
    using Discover_result [OF run(1)] by blast
  then have "rtPrograms tree = [\<lparr>psPrimacy = 1, psMRID = ''P'', psDefault = Some ((), ''D''), psControls = None\<rparr>]"
    by (simp add: run(2) programs_at_def read_page_def program_at_def sample_xml_def)
  with run(1) show ?thesis by blast
qed

end
