(* ===== verification/Bundle_Model.thy ===== *)
theory Bundle_Model
  imports Netdis_Reassembly Go_Strings "HOL-Library.Char_ord" "HOL-Library.List_Lexorder"
begin

text \<open>
  \<^verbatim>\<open>internal/evidence/bundle/bundle.go\<close>: verdicts, the assertions an evidence bundle makes about its
  capture, the roll-up of a case's verdict, and the two constructors through which checks cite the wire.  A
  \<^verbatim>\<open>Verdict\<close> is a string, as in the source, so a verdict outside the four constants is representable.
  SHA-256 is an argument; its digest is rendered in hexadecimal as the source renders it.
\<close>

section \<open>Verdicts\<close>

type_synonym verdict = string

definition Pass :: verdict where "Pass = ''PASS''"
definition Fail :: verdict where "Fail = ''FAIL''"
definition Skip :: verdict where "Skip = ''SKIP''"
definition Warn :: verdict where "Warn = ''WARN''"

lemmas verdict_defs = Pass_def Fail_def Skip_def Warn_def

definition Severity :: "verdict \<Rightarrow> nat" where
  "Severity v = (if v = Fail then 3 else if v = Warn then 2 else if v = Pass then 1 else 0)"

lemma Severity_simps [simp]: "Severity Fail = 3" "Severity Warn = 2" "Severity Pass = 1" "Severity Skip = 0"
  by (simp_all add: Severity_def verdict_defs)

lemma Severity_le_3: "Severity v \<le> 3"
  by (simp add: Severity_def)

section \<open>Assertions and cases\<close>

record assertion =
  anClaim :: string
  anMethod :: string
  anVerdict :: verdict
  anObserved :: string
  anFrames :: "int list"
  anFramesSHA256 :: string
  anStreamRef :: string
  anByteRange :: "int \<times> int"
  anBytesSHA256 :: string
  anNote :: string
  anLoadBearing :: bool

definition Citable :: "assertion \<Rightarrow> bool" where
  "Citable a \<longleftrightarrow> anBytesSHA256 a \<noteq> [] \<or> anFramesSHA256 a \<noteq> []"

definition Unmeasured :: "assertion \<Rightarrow> bool" where
  "Unmeasured a \<longleftrightarrow> anLoadBearing a \<and> anVerdict a = Skip"

record testCase =
  tcID :: string
  tcDoc :: string
  tcTitle :: string
  tcVerdict :: verdict
  tcApplicable :: bool
  tcNonCertifiable :: bool
  tcNotes :: string
  tcAssertions :: "assertion list"

text \<open>The loop of \<^verbatim>\<open>RollUp\<close>, with its variables \<^verbatim>\<open>worst\<close> and \<^verbatim>\<open>unmeasured\<close>.\<close>

fun roll_loop :: "assertion list \<Rightarrow> verdict \<Rightarrow> bool \<Rightarrow> verdict \<times> bool" where
  "roll_loop [] worst unmeasured = (worst, unmeasured)"
| "roll_loop (a # as) worst unmeasured =
    roll_loop as (if Severity (anVerdict a) > Severity worst then anVerdict a else worst)
      (unmeasured \<or> Unmeasured a)"

definition RollUp :: "testCase \<Rightarrow> verdict" where
  "RollUp tc =
    (case roll_loop (tcAssertions tc) Skip False of
       (worst, unmeasured) \<Rightarrow>
         if unmeasured \<and> Severity worst < Severity Warn then Warn else worst)"

definition BearsOnClaim :: "testCase \<Rightarrow> bool" where
  "BearsOnClaim c \<longleftrightarrow> tcApplicable c \<and> \<not> tcNonCertifiable c"

record verdictCounts =
  vcPass :: nat
  vcFail :: nat
  vcSkip :: nat
  vcWarn :: nat

definition no_counts :: verdictCounts where
  "no_counts = \<lparr>vcPass = 0, vcFail = 0, vcSkip = 0, vcWarn = 0\<rparr>"

definition vc_add :: "verdictCounts \<Rightarrow> verdict \<Rightarrow> verdictCounts" where
  "vc_add v k =
    (if k = Pass then v\<lparr>vcPass := vcPass v + 1\<rparr>
     else if k = Fail then v\<lparr>vcFail := vcFail v + 1\<rparr>
     else if k = Skip then v\<lparr>vcSkip := vcSkip v + 1\<rparr>
     else if k = Warn then v\<lparr>vcWarn := vcWarn v + 1\<rparr>
     else v)"

definition vcTotal :: "verdictCounts \<Rightarrow> nat" where
  "vcTotal v = vcPass v + vcFail v + vcSkip v + vcWarn v"

fun counts_loop :: "testCase list \<Rightarrow> verdictCounts \<Rightarrow> verdictCounts" where
  "counts_loop [] v = v"
| "counts_loop (c # cs) v = counts_loop cs (vc_add v (tcVerdict c))"

definition Counts :: "testCase list \<Rightarrow> verdictCounts" where
  "Counts cases = counts_loop cases no_counts"

fun claim_loop :: "testCase list \<Rightarrow> verdictCounts \<times> verdictCounts \<Rightarrow> verdictCounts \<times> verdictCounts" where
  "claim_loop [] (appl, info) = (appl, info)"
| "claim_loop (c # cs) (appl, info) =
    claim_loop cs (if BearsOnClaim c then (vc_add appl (tcVerdict c), info) else (appl, vc_add info (tcVerdict c)))"

definition CountsByClaim :: "testCase list \<Rightarrow> verdictCounts \<times> verdictCounts" where
  "CountsByClaim cases = claim_loop cases (no_counts, no_counts)"

definition bundle_OK :: "testCase list \<Rightarrow> bool" where
  "bundle_OK cases \<longleftrightarrow> length cases > 0 \<and> vcFail (fst (CountsByClaim cases)) = 0"

section \<open>Citing the capture\<close>

text \<open>The index of a capture by frame number: a map filled in packet order, so the last packet of a number wins.\<close>

definition by_index :: "packet list \<Rightarrow> int \<Rightarrow> packet option" where
  "by_index pkts = map_of (rev (map (\<lambda>p. (int (pkIndex p), p)) pkts))"

datatype cite_error = CannotCiteBytes string int int range_error | CannotCiteFrame int nat

type_synonym sha256 = "bytes \<Rightarrow> bytes"

text \<open>The loop of \<^verbatim>\<open>digestFrames\<close>; the bytes written to the hash so far are its argument.\<close>

fun digest_loop :: "(int \<Rightarrow> packet option) \<Rightarrow> nat \<Rightarrow> int list \<Rightarrow> bytes \<Rightarrow> cite_error + bytes" where
  "digest_loop byIndex n [] h = Inr h"
| "digest_loop byIndex n (f # fs) h =
    (case byIndex f of None \<Rightarrow> Inl (CannotCiteFrame f n)
     | Some p \<Rightarrow> digest_loop byIndex n fs (h @ pkData p))"

definition digestFrames :: "sha256 \<Rightarrow> packet list \<Rightarrow> int list \<Rightarrow> cite_error + string" where
  "digestFrames sha pkts frames =
    map_sum id (\<lambda>h. hex_encode (sha h)) (digest_loop (by_index pkts) (length pkts) (sort frames) [])"

definition blank_assertion :: assertion where
  "blank_assertion =
    \<lparr>anClaim = [], anMethod = [], anVerdict = [], anObserved = [], anFrames = [], anFramesSHA256 = [],
     anStreamRef = [], anByteRange = (0, 0), anBytesSHA256 = [], anNote = [], anLoadBearing = False\<rparr>"

definition CiteBytes :: "sha256 \<Rightarrow> string \<Rightarrow> string \<Rightarrow> verdict \<Rightarrow> string \<Rightarrow> string \<Rightarrow> streamBytes \<Rightarrow> int \<Rightarrow> int \<Rightarrow>
    cite_error + assertion" where
  "CiteBytes sha claim meth v observed streamRef src start end' =
    (case Range src start end' of
       Inl e \<Rightarrow> Inl (CannotCiteBytes streamRef start end' e)
     | Inr data \<Rightarrow>
         Inr (blank_assertion\<lparr>anClaim := claim, anMethod := meth, anVerdict := v, anObserved := observed,
           anStreamRef := streamRef, anByteRange := (start, end'), anBytesSHA256 := hex_encode (sha data),
           anFrames := map int (PacketsFor src start end')\<rparr>))"

definition CiteFrames :: "sha256 \<Rightarrow> string \<Rightarrow> string \<Rightarrow> verdict \<Rightarrow> string \<Rightarrow> packet list \<Rightarrow> int list \<Rightarrow>
    cite_error + assertion" where
  "CiteFrames sha claim meth v observed pkts frames =
    (case digestFrames sha pkts frames of
       Inl e \<Rightarrow> Inl e
     | Inr digest \<Rightarrow>
         Inr (blank_assertion\<lparr>anClaim := claim, anMethod := meth, anVerdict := v, anObserved := observed,
           anFrames := sort frames, anFramesSHA256 := digest\<rparr>))"

section \<open>The roll-up\<close>

lemma roll_loop_worst:
  "Severity (fst (roll_loop as w u)) = Max (insert (Severity w) (Severity ` anVerdict ` set as)) \<and>
   (snd (roll_loop as w u) \<longleftrightarrow> u \<or> (\<exists>a \<in> set as. Unmeasured a))"
proof (induction as arbitrary: w u)
  case (Cons a as)
  let ?w = "if Severity (anVerdict a) > Severity w then anVerdict a else w"
  have "Max (insert (Severity ?w) (Severity ` anVerdict ` set as)) =
      max (Severity ?w) (Max (insert (Severity ?w) (Severity ` anVerdict ` set as)))"
    by (simp add: max_def)
  then show ?case
    by (cases "as = []") (auto simp: Cons max_def Max_insert)
qed simp


section \<open>The tallies\<close>

lemma claim_loop_bears: "vcFail (fst (claim_loop cs v)) =
    vcFail (fst v) + length (filter (\<lambda>c. BearsOnClaim c \<and> tcVerdict c = Fail) cs)"
proof (induction cs arbitrary: v)
  case (Cons c cs)
  have "vcFail (vc_add w k) = vcFail w + (if k = Fail then 1 else 0)" for w k
    by (simp add: vc_add_def verdict_defs)
  with Cons show ?case by (cases v) simp
next
  case Nil
  show ?case by (cases v) simp
qed

text \<open>A run is a clean pass exactly when it has a case and no failure bears on the claim: an informative or
  non-certifiable failure never decides it.\<close>

lemma bundle_OK_iff: "bundle_OK cases \<longleftrightarrow>
    cases \<noteq> [] \<and> (\<forall>c \<in> set cases. tcVerdict c = Fail \<longrightarrow> \<not> BearsOnClaim c)"
  by (auto simp: bundle_OK_def CountsByClaim_def claim_loop_bears no_counts_def filter_empty_conv)

lemma counts_loop_total: "\<forall>c \<in> set cs. tcVerdict c \<in> {Pass, Fail, Skip, Warn} \<Longrightarrow>
    vcTotal (counts_loop cs v) = vcTotal v + length cs"
proof (induction cs arbitrary: v)
  case (Cons c cs)
  then have "vcTotal (vc_add v (tcVerdict c)) = Suc (vcTotal v)"
    by (auto simp: vc_add_def vcTotal_def)
  with Cons show ?case by simp
qed simp

end
