(* ===== verification/Netdis_Owner.thy ===== *)
theory Netdis_Owner
  imports Netdis_Reassembly
begin

text \<open>
  The map from frames to conversations of \<^verbatim>\<open>netdis/reassembly.go\<close> (\<^verbatim>\<open>Assembler.StreamFor\<close>): in an assembler
  fed packets of pairwise different numbers, the frame an offset map cites is owned by the conversation it is
  cited in.  Port reuse makes this the only way back from a cited frame to the generation that carried it.
\<close>

section \<open>One frame claims cells under its own number\<close>

lemma dir_cells_anchor: "dir_cells (anchor_stream (d\<lparr>drSegments := n\<rparr>) seg) = dir_cells d"
  "dir_ok (anchor_stream (d\<lparr>drSegments := n\<rparr>) seg) = dir_ok d"
  by (simp_all add: anchor_stream_def dir_cells_def dir_ok_def flush_pre_def)

lemma seg_cells_packet: "c \<in> seg_cells start data pkt \<Longrightarrow> snd (snd c) = pkt"
  by (auto simp: seg_cells_def)

lemma dir_add_cells:
  assumes "dir_ok d" "idx \<noteq> 0" "c \<in> dir_cells (dir_add d seg idx)"
  shows "c \<in> dir_cells d \<or> snd (snd c) = idx"
proof -
  let ?d1 = "note_flags d seg idx"
  let ?d3 = "anchor_stream (?d1\<lparr>drSegments := drSegments ?d1 + 1\<rparr>) seg"
  let ?delta = "seqDelta (tcSeq seg) (drExpectSeq ?d3)"
  have cells: "dir_cells ?d3 = dir_cells d" "dir_ok ?d3"
    using assms(1) by (simp_all add: dir_cells_anchor note_flags_same)
  consider (Empty) "dir_add d seg idx = ?d1"
    | (Far) n where "dir_add d seg idx = ?d3\<lparr>drOutOfWindow := n\<rparr>"
    | (Insert) start where "dir_add d seg idx = dir_insert ?d3 start (tcPayload seg) idx" "tcPayload seg \<noteq> []"
    by (cases "tcPayload seg = []"; cases "?delta > maxSeqJump \<or> ?delta < - maxSeqJump")
       (simp_all add: dir_add_def Let_def)
  then show ?thesis
  proof cases
    case Empty
    then show ?thesis using assms(3) by (simp add: note_flags_same)
  next
    case (Far n)
    then have "dir_cells (dir_add d seg idx) = dir_cells ?d3" by (simp add: dir_cells_def)
    then show ?thesis using assms(3) cells(1) by simp
  next
    case Insert
    then show ?thesis
      using assms(3) insert_specD(11) [OF dir_insert_spec [OF cells(2) Insert(2) assms(2), of start]] cells(1)
      by (auto dest: seg_cells_packet)
  qed
qed

section \<open>Every claimed cell is owned\<close>

definition owner_ok :: "assembler \<Rightarrow> bool" where
  "owner_ok a \<longleftrightarrow> (\<forall>i < length (asAll a). \<forall>j < 2. \<forall>c \<in> dir_cells (stDirs (asAll a ! i) ! j).
     asOwner a (snd (snd c)) = Some i)"

lemma owner_okD: "owner_ok a \<Longrightarrow> i < length (asAll a) \<Longrightarrow> j < 2 \<Longrightarrow>
    c \<in> dir_cells (stDirs (asAll a ! i) ! j) \<Longrightarrow> asOwner a (snd (snd c)) = Some i"
  by (simp add: owner_ok_def)

lemma find_stream_owner:
  assumes "asm_ok a" "owner_ok a" "find_stream a key seg idx = (a', i)"
  shows "owner_ok a'"
proof -
  consider "a' = a" | gen where "a' = a\<lparr>asCurrent := (asCurrent a)(key \<mapsto> length (asAll a)),
      asAll := asAll a @ [new_stream key gen (maxPending a) idx]\<rparr>"
    using assms(3) by (auto simp: find_stream_def Let_def split: option.splits if_splits)
  then show ?thesis
  proof cases
    case 2
    then show ?thesis using assms(2)
      by (auto simp: owner_ok_def nth_append new_stream_def less_Suc_eq less_2_cases_iff numeral_2_eq_2)
  qed (use assms(2) in simp)
qed

lemma AddFrame_owner:
  assumes "asm_ok a" "owner_ok a" "frIndex f \<noteq> 0" "asOwner a (frIndex f) = None"
  shows "owner_ok (AddFrame a f)"
proof (cases "\<exists>seg flow. frTCP f = Some seg \<and> \<not> frFragmented f \<and> frame_flow f = Some flow")
  case True
  then obtain seg flow where f: "frTCP f = Some seg" "\<not> frFragmented f" "frame_flow f = Some flow" by blast
  obtain a' c where find: "find_stream a (Stream flow) seg (frIndex f) = (a', c)" by fastforce
  note ok = find_stream_ok [OF assms(1) find]
  note own = find_stream_owner [OF assms(1,2) find]
  let ?st = "asAll a' ! c" and ?j = "DirIndex (Stream flow) flow"
  have st: "stream_ok ?st" "stKey ?st = Stream flow" using ok asm_okD(1) nth_mem by blast+
  have eq: "AddFrame a f = a'\<lparr>asOwner := (asOwner a')(frIndex f \<mapsto> c),
      asAll := (asAll a')[c := stream_add ?st flow seg (frIndex f)]\<rparr>"
    using f find by (simp add: AddFrame_def)
  have dirs: "stDirs (stream_add ?st flow seg (frIndex f)) =
      (stDirs ?st)[?j := dir_add (stDirs ?st ! ?j) seg (frIndex f)]"
    using st(2) by (simp add: stream_add_def Let_def)
  have old: "asOwner a' (snd (snd x)) = Some i \<and> snd (snd x) \<noteq> frIndex f"
    if "i < length (asAll a')" "j < 2" "x \<in> dir_cells (stDirs (asAll a' ! i) ! j)" for i j x
    using owner_okD [OF own that] assms(4) ok by auto
  show ?thesis
    unfolding owner_ok_def
  proof (intro allI impI ballI)
    fix i j x
    assume i: "i < length (asAll (AddFrame a f))" "j < 2"
      and x: "x \<in> dir_cells (stDirs (asAll (AddFrame a f) ! i) ! j)"
    have len: "i < length (asAll a')" using i(1) by (simp add: eq)
    have "x \<in> dir_cells (stDirs (asAll a' ! i) ! j) \<or> i = c \<and> snd (snd x) = frIndex f"
    proof (cases "i = c \<and> j = ?j")
      case True
      have "dir_ok (stDirs ?st ! ?j)" using st(1) DirIndex_less_2 by (simp add: stream_ok_def)
      moreover have "x \<in> dir_cells (dir_add (stDirs ?st ! ?j) seg (frIndex f))"
        using x True len st(1) i(2) by (simp add: eq dirs stream_ok_def)
      ultimately show ?thesis using dir_add_cells [OF _ assms(3)] True by blast
    next
      case False
      then show ?thesis using x len by (cases "i = c") (auto simp: eq dirs)
    qed
    then show "asOwner (AddFrame a f) (snd (snd x)) = Some i"
    proof
      assume "x \<in> dir_cells (stDirs (asAll a' ! i) ! j)"
      from old [OF len i(2) this] show ?thesis by (simp add: eq)
    qed (simp add: eq)
  qed
qed (use assms(2) in \<open>auto simp: AddFrame_def split: option.splits\<close>)

lemma AddFrame_owners: "asOwner (AddFrame a f) k \<noteq> None \<Longrightarrow> asOwner a k \<noteq> None \<or> k = frIndex f"
  by (auto simp: AddFrame_def find_stream_def Let_def split: option.splits if_splits prod.splits)

section \<open>A whole capture\<close>

definition fed :: "packet list \<Rightarrow> assembler \<Rightarrow> assembler" where
  "fed pkts a = fold (\<lambda>p a. snd (AddPacket a p)) pkts a"

lemma DecodePacket_index: "DecodePacket p = Inr f \<Longrightarrow> frIndex f = pkIndex p"
  by (auto simp: DecodePacket_def Let_def split: sum.splits if_splits)

lemma AddPacket_cases: "snd (AddPacket a p) = a \<or>
    (\<exists>f. frIndex f = pkIndex p \<and> snd (AddPacket a p) = AddFrame a f)"
  by (auto simp: AddPacket_def split: sum.splits dest: DecodePacket_index)

definition capture_ok :: "packet list \<Rightarrow> bool" where
  "capture_ok pkts \<longleftrightarrow> distinct (map pkIndex pkts) \<and> 0 \<notin> set (map pkIndex pkts)"

lemma fed_invariant:
  assumes "capture_ok pkts"
  shows "asm_ok (fed pkts NewAssembler) \<and> owner_ok (fed pkts NewAssembler) \<and>
    (\<forall>k. asOwner (fed pkts NewAssembler) k \<noteq> None \<longrightarrow> k \<in> pkIndex ` set pkts)"
  using assms
proof (induction pkts rule: rev_induct)
  case Nil
  have "asm_ok NewAssembler" using NewAssembler_ok [of 0] by (simp add: NewAssembler_def)
  then show ?case by (simp add: fed_def owner_ok_def) (simp add: NewAssembler_def)
next
  case (snoc p ps)
  let ?a = "fed ps NewAssembler"
  have ok: "asm_ok ?a" "owner_ok ?a" "\<forall>k. asOwner ?a k \<noteq> None \<longrightarrow> k \<in> pkIndex ` set ps"
    and p: "pkIndex p \<noteq> 0" "pkIndex p \<notin> pkIndex ` set ps"
    using snoc by (auto simp: capture_ok_def)
  have eq: "fed (ps @ [p]) NewAssembler = snd (AddPacket ?a p)" by (simp add: fed_def)
  from AddPacket_cases [of ?a p] show ?case
  proof (elim disjE exE conjE)
    fix f assume f: "frIndex f = pkIndex p" "snd (AddPacket ?a p) = AddFrame ?a f"
    have new: "asOwner ?a (frIndex f) = None" "frIndex f \<noteq> 0" using ok(3) p f(1) by auto
    have "k \<in> pkIndex ` set (ps @ [p])" if "asOwner (AddFrame ?a f) k \<noteq> None" for k
      using AddFrame_owners [OF that] ok(3) f(1) by auto
    then show ?thesis
      unfolding eq f(2) using AddFrame_ok [OF ok(1) new(2)] AddFrame_owner [OF ok(1,2) new(2,1)] by blast
  qed (use ok in \<open>auto simp: eq\<close>)
qed

text \<open>A frame cited for delivered bytes leads back to the conversation those bytes are in.\<close>

lemma PacketsFor_owner:
  assumes "capture_ok pkts" "i < length (asAll (fed pkts NewAssembler))" "j < 2"
    and "d = stDirs (asAll (fed pkts NewAssembler) ! i) ! j" "Range (drBytes d) s e = Inr data"
    and "k \<in> set (PacketsFor (drBytes d) s e)"
  shows "StreamFor (fed pkts NewAssembler) k = Some (asAll (fed pkts NewAssembler) ! i)"
    "k \<in> pkIndex ` set pkts"
proof -
  let ?a = "fed pkts NewAssembler"
  have inv: "asm_ok ?a" "owner_ok ?a" "\<forall>k. asOwner ?a k \<noteq> None \<longrightarrow> k \<in> pkIndex ` set pkts"
    using fed_invariant [OF assms(1)] by blast+
  have "dir_ok d" using asm_okD(1) [OF inv(1) nth_mem [OF assms(2)]] assms(3,4) by (simp add: stream_ok_def)
  then have sb: "sb_ok (drBytes d)" by (simp add: dir_ok_def flush_pre_def)
  have r: "0 \<le> s" "s \<le> e" "e \<le> int (length (sbData (drBytes d)))"
    using assms(5) by (auto simp: Range_def split: if_splits)
  have "k \<in> (\<lambda>i. OffsetToPacket (drBytes d) (int i)) ` {nat s..<nat e}"
    using PacketsFor_cover [OF sb r(1,3)] assms(6) by simp
  then obtain n where "n < nat e" "k = OffsetToPacket (drBytes d) (int n)" by auto
  then have "n < length (sbData (drBytes d))" "k = OffsetToPacket (drBytes d) (int n)" using r(3) by simp_all
  then have "(n, sbData (drBytes d) ! n, k) \<in> dir_cells d" by (simp add: dir_cells_def cell_simps)
  then have own: "asOwner ?a k = Some i"
    using owner_okD [OF inv(2) assms(2,3)] assms(4) by fastforce
  then show "StreamFor ?a k = Some (asAll ?a ! i)" by (simp add: StreamFor_def)
  show "k \<in> pkIndex ` set pkts" using own inv(3) by simp
qed

lemma PacketsFor_some:
  assumes "sb_ok sb" "Range sb s e = Inr data" "s < e"
  shows "PacketsFor sb s e \<noteq> []"
proof -
  have r: "0 \<le> s" "e \<le> int (length (sbData sb))"
    using assms(2) by (auto simp: Range_def split: if_splits)
  have "nat s \<in> {nat s..<nat e}" using assms(3) r(1) by simp
  then show ?thesis using PacketsFor_cover [OF assms(1) r] by (metis empty_iff image_is_empty list.set(1))
qed

end
