(* ===== verification/Bundle_Verify.thy ===== *)
theory Bundle_Verify
  imports Bundle_Model Netdis_Owner "HOL-Library.AList" "HOL-Library.Multiset"
begin

text \<open>
  \<^verbatim>\<open>internal/evidence/bundle/verify.go\<close> and the manifest half of \<^verbatim>\<open>write.go\<close>: what a third party runs on an
  evidence bundle.  The directory is the list of its files, names with contents; messages are datatypes whose
  constructors carry the values the source formats.  \<^verbatim>\<open>netip.Addr.String\<close> and SHA-256 are arguments.
  \<^verbatim>\<open>Verify\<close> itself is modelled from the point where the capture has been read back; the clock and metrics
  channels, which compare floating-point values, are left out.
\<close>

section \<open>Stream references\<close>

text \<open>\<^verbatim>\<open>Endpoint.String\<close> and \<^verbatim>\<open>FlowKey.String\<close> of \<^verbatim>\<open>netdis/flow.go\<close>, with \<^verbatim>\<open>netip.AddrPort.String\<close> written out:
  a colon and the port, and brackets around an IPv6 address.\<close>

fun endpoint_string :: "(addr \<Rightarrow> string) \<Rightarrow> endpoint \<Rightarrow> string" where
  "endpoint_string astr (Endpoint InvalidAddr p) = ''?:'' @ decimal (unat p)"
| "endpoint_string astr (Endpoint (IPv4Addr w) p) = astr (IPv4Addr w) @ '':'' @ decimal (unat p)"
| "endpoint_string astr (Endpoint (IPv6Addr w) p) = ''['' @ astr (IPv6Addr w) @ '']:'' @ decimal (unat p)"

definition flow_string :: "(addr \<Rightarrow> string) \<Rightarrow> flowKey \<Rightarrow> string" where
  "flow_string astr f = endpoint_string astr (flSrc f) @ '' > '' @ endpoint_string astr (flDst f)"

definition StreamRef :: "(addr \<Rightarrow> string) \<Rightarrow> direction \<Rightarrow> string" where
  "StreamRef astr d = flow_string astr (drFlow d)"

definition directionByFlow :: "(addr \<Rightarrow> string) \<Rightarrow> stream \<Rightarrow> string \<Rightarrow> direction option" where
  "directionByFlow astr st flow = find (\<lambda>d. flow_string astr (drFlow d) = flow) (stDirs st)"

definition streamNames :: "(addr \<Rightarrow> string) \<Rightarrow> assembler \<Rightarrow> string list" where
  "streamNames astr asm =
    sort (remdups (concat (map (\<lambda>st. map (\<lambda>d. flow_string astr (drFlow d)) (stDirs st)) (asAll asm))))"

section \<open>The report\<close>

record fileCheck =
  fcName :: string
  fcWant :: string
  fcGot :: string
  fcOK :: bool

datatype check_detail =
    NoDetail
  | CitesMissingFrame int nat
  | CitationError cite_error
  | FramesHashTo "int list" string string
  | NoSuchStream string "string list"
  | AmbiguousStream string nat "int list"
  | RangeError range_error
  | BytesHashTo string "int \<times> int" string string
  | CarriedInFrames string "int \<times> int" "int list" "int list"
  | NoDigest

record assertionCheck =
  ckCase :: string
  ckClaim :: string
  ckOK :: bool
  ckDetail :: check_detail
  ckCitable :: bool

datatype problem =
    NotAsListed string
  | NotListed string
  | UnknownVerdict string verdict
  | WeakVerdict string verdict nat string verdict
  | PacketCountDiffers nat nat
  | FrameNotDissected nat dissect_error
  | FramesNotDissected nat
  | ConflictingOverlap flowKey "overlap list"

record verifyReport =
  vrOK :: bool
  vrFiles :: "fileCheck list"
  vrAssertions :: "assertionCheck list"
  vrProblems :: "problem list"
  vrPackets :: nat
  vrChecked :: nat
  vrUnverifiable :: nat
  vrCasesRolledUp :: nat

definition new_report :: verifyReport where
  "new_report = \<lparr>vrOK = True, vrFiles = [], vrAssertions = [], vrProblems = [], vrPackets = 0,
    vrChecked = 0, vrUnverifiable = 0, vrCasesRolledUp = 0\<rparr>"

definition add_problem :: "problem \<Rightarrow> verifyReport \<Rightarrow> verifyReport" where
  "add_problem p r = r\<lparr>vrProblems := vrProblems r @ [p]\<rparr>"

definition fault_problem :: "problem \<Rightarrow> verifyReport \<Rightarrow> verifyReport" where
  "fault_problem p r = (add_problem p r)\<lparr>vrOK := False\<rparr>"

section \<open>The manifest\<close>

record manifestEntry =
  meSum :: string
  meName :: string

type_synonym directory = "(string \<times> bytes) list"

definition ManifestFile :: string where "ManifestFile = ''MANIFEST.sha256''"

definition manifestEntries :: "sha256 \<Rightarrow> directory \<Rightarrow> manifestEntry list" where
  "manifestEntries sha dir =
    sort_key meName (map (\<lambda>(name, data). \<lparr>meSum = hex_encode (sha data), meName = name\<rparr>)
      (filter (\<lambda>(name, data). name \<noteq> ManifestFile) dir))"

definition bytes_of :: "string \<Rightarrow> bytes" where "bytes_of s = map (\<lambda>c. word_of_nat (char_code c)) s"
definition string_of :: "bytes \<Rightarrow> string" where "string_of b = map (\<lambda>w. char_of (unat w)) b"

definition manifest_line :: "manifestEntry \<Rightarrow> string" where
  "manifest_line e = meSum e @ ''  '' @ meName e"

definition WriteManifest :: "sha256 \<Rightarrow> directory \<Rightarrow> directory" where
  "WriteManifest sha dir =
    AList.update ManifestFile
      (bytes_of (concat (map (\<lambda>e. manifest_line e @ [CHR 0x0A]) (manifestEntries sha dir)))) dir"

datatype manifest_error = NoManifest | BadLine nat | BadDigest nat string

text \<open>The loop of \<^verbatim>\<open>ReadManifest\<close> over the lines, with the index of the current one.\<close>

fun manifest_loop :: "string list \<Rightarrow> nat \<Rightarrow> manifestEntry list \<Rightarrow> manifest_error + manifestEntry list" where
  "manifest_loop [] i out = Inr out"
| "manifest_loop (line # ls) i out =
    (if TrimSpace line = [] then manifest_loop ls (i + 1) out
     else case Cut ''  '' line of
       None \<Rightarrow> Inl (BadLine (i + 1))
     | Some (digest, name) \<Rightarrow>
         if length digest \<noteq> 64 then Inl (BadDigest (i + 1) digest)
         else manifest_loop ls (i + 1) (out @ [\<lparr>meSum = digest, meName = TrimSpace name\<rparr>]))"

definition ReadManifest :: "directory \<Rightarrow> manifest_error + manifestEntry list" where
  "ReadManifest dir =
    (case map_of dir ManifestFile of
       None \<Rightarrow> Inl NoManifest
     | Some data \<Rightarrow> manifest_loop (split_char (CHR 0x0A) (string_of data)) 0 [])"

definition sums_by_name :: "manifestEntry list \<Rightarrow> string \<Rightarrow> string option" where
  "sums_by_name es = map_of (rev (map (\<lambda>e. (meName e, meSum e)) es))"

definition file_check :: "manifestEntry list \<Rightarrow> manifestEntry \<Rightarrow> fileCheck" where
  "file_check actual e =
    (case sums_by_name actual (meName e) of
       None \<Rightarrow> \<lparr>fcName = meName e, fcWant = meSum e, fcGot = ''(missing)'', fcOK = False\<rparr>
     | Some got \<Rightarrow> \<lparr>fcName = meName e, fcWant = meSum e, fcGot = got, fcOK = (got = meSum e)\<rparr>)"

fun listed_loop :: "manifestEntry list \<Rightarrow> manifestEntry list \<Rightarrow> verifyReport \<Rightarrow> verifyReport" where
  "listed_loop actual [] rep = rep"
| "listed_loop actual (e # es) rep =
    (let fc = file_check actual e;
         rep1 = rep\<lparr>vrFiles := vrFiles rep @ [fc]\<rparr>
     in listed_loop actual es (if fcOK fc then rep1 else fault_problem (NotAsListed (meName e)) rep1))"

fun unlisted_loop :: "string list \<Rightarrow> manifestEntry list \<Rightarrow> verifyReport \<Rightarrow> verifyReport" where
  "unlisted_loop listedNames [] rep = rep"
| "unlisted_loop listedNames (e # es) rep =
    (if meName e \<in> set listedNames then unlisted_loop listedNames es rep
     else
       let rep1 = fault_problem (NotListed (meName e)) rep
       in unlisted_loop listedNames es
            (rep1\<lparr>vrFiles := vrFiles rep1 @
              [\<lparr>fcName = meName e, fcWant = ''(unlisted)'', fcGot = meSum e, fcOK = False\<rparr>]\<rparr>))"

definition verifyManifest :: "sha256 \<Rightarrow> directory \<Rightarrow> verifyReport \<Rightarrow> manifest_error + verifyReport" where
  "verifyManifest sha dir rep =
    (case ReadManifest dir of
       Inl e \<Rightarrow> Inl e
     | Inr listed \<Rightarrow>
         let actual = manifestEntries sha dir;
             rep1 = unlisted_loop (map meName listed) actual (listed_loop actual listed rep)
         in Inr (rep1\<lparr>vrFiles := sort_key fcName (vrFiles rep1)\<rparr>))"

section \<open>Case verdicts\<close>

fun join :: "string \<Rightarrow> string list \<Rightarrow> string" where
  "join sep [] = []"
| "join sep [s] = s"
| "join sep (s # t # ss) = s @ sep @ join sep (t # ss)"

definition assertionVerdicts :: "testCase \<Rightarrow> string" where
  "assertionVerdicts c =
    (if tcAssertions c = [] then ''none''
     else join '', '' (map (\<lambda>a. anVerdict a @ (if Unmeasured a then '' (load-bearing, unmeasured)'' else []))
       (tcAssertions c)))"

definition case_verdict_check :: "testCase \<Rightarrow> verifyReport \<Rightarrow> verifyReport" where
  "case_verdict_check c rep =
    (let rep1 = rep\<lparr>vrCasesRolledUp := vrCasesRolledUp rep + 1\<rparr>
     in if tcVerdict c \<notin> {Pass, Fail, Skip, Warn} then fault_problem (UnknownVerdict (tcID c) (tcVerdict c)) rep1
        else if Severity (tcVerdict c) \<ge> Severity (RollUp c) then rep1
        else fault_problem (WeakVerdict (tcID c) (tcVerdict c) (length (tcAssertions c)) (assertionVerdicts c) (RollUp c)) rep1)"

definition verifyCaseVerdicts :: "testCase list \<Rightarrow> verifyReport \<Rightarrow> verifyReport" where
  "verifyCaseVerdicts cases rep = fold case_verdict_check cases rep"

section \<open>Reassembly for the verifier\<close>

fun add_packets :: "packet list \<Rightarrow> assembler \<Rightarrow> nat \<Rightarrow> verifyReport \<Rightarrow> assembler \<times> nat \<times> verifyReport" where
  "add_packets [] asm bad rep = (asm, bad, rep)"
| "add_packets (p # ps) asm bad rep =
    (case AddPacket asm p of
       (Inr _, asm1) \<Rightarrow> add_packets ps asm1 bad rep
     | (Inl e, asm1) \<Rightarrow>
         add_packets ps asm1 (bad + 1)
           (if bad + 1 \<le> 3 then add_problem (FrameNotDissected (pkIndex p) e) rep else rep))"

definition note_conflicts :: "assembler \<Rightarrow> verifyReport \<Rightarrow> verifyReport" where
  "note_conflicts asm rep =
    fold (\<lambda>d r. if HasConflictingOverlap d then fault_problem (ConflictingOverlap (drFlow d) (drOverlaps d)) r else r)
      (concat (map stDirs (asAll asm))) rep"

definition reassemble :: "packet list \<Rightarrow> verifyReport \<Rightarrow> assembler \<times> verifyReport" where
  "reassemble pkts rep =
    (case add_packets pkts NewAssembler 0 rep of
       (asm, bad, rep1) \<Rightarrow>
         (asm, note_conflicts asm (if bad > 3 then add_problem (FramesNotDissected bad) rep1 else rep1)))"

section \<open>Resolving and checking a citation\<close>

text \<open>The frames of an assertion are read from JSON and may be negative; no frame has such a number.\<close>

definition stream_for :: "assembler \<Rightarrow> int \<Rightarrow> stream option" where
  "stream_for asm f = (if f < 0 then None else StreamFor asm (nat f))"

fun resolve_loop :: "(addr \<Rightarrow> string) \<Rightarrow> assembler \<Rightarrow> string \<Rightarrow> int list \<Rightarrow> direction option" where
  "resolve_loop astr asm ref [] = None"
| "resolve_loop astr asm ref (f # fs) =
    (case stream_for asm f of
       None \<Rightarrow> resolve_loop astr asm ref fs
     | Some st \<Rightarrow>
         (case directionByFlow astr st ref of
            Some d \<Rightarrow> Some d
          | None \<Rightarrow> resolve_loop astr asm ref fs))"

definition candidates :: "(addr \<Rightarrow> string) \<Rightarrow> assembler \<Rightarrow> string \<Rightarrow> direction list" where
  "candidates astr asm ref = List.map_filter (\<lambda>st. directionByFlow astr st ref) (asAll asm)"

definition resolveDirection :: "(addr \<Rightarrow> string) \<Rightarrow> assembler \<Rightarrow> assertion \<Rightarrow> check_detail + direction" where
  "resolveDirection astr asm a =
    (case candidates astr asm (anStreamRef a) of
       [] \<Rightarrow> Inl (NoSuchStream (anStreamRef a) (streamNames astr asm))
     | [d] \<Rightarrow> Inr d
     | ds \<Rightarrow>
         (case resolve_loop astr asm (anStreamRef a) (anFrames a) of
            Some d \<Rightarrow> Inr d
          | None \<Rightarrow> Inl (AmbiguousStream (anStreamRef a) (length ds) (anFrames a))))"

definition check_frames :: "sha256 \<Rightarrow> packet list \<Rightarrow> assertion \<Rightarrow> check_detail option" where
  "check_frames sha pkts a =
    (if anFramesSHA256 a = [] then None
     else case digestFrames sha pkts (anFrames a) of
       Inl e \<Rightarrow> Some (CitationError e)
     | Inr got \<Rightarrow>
         if got \<noteq> anFramesSHA256 a then Some (FramesHashTo (anFrames a) got (anFramesSHA256 a)) else None)"

definition check_bytes :: "sha256 \<Rightarrow> (addr \<Rightarrow> string) \<Rightarrow> assembler \<Rightarrow> assertion \<Rightarrow> check_detail option" where
  "check_bytes sha astr asm a =
    (if anBytesSHA256 a = [] then None
     else case resolveDirection astr asm a of
       Inl e \<Rightarrow> Some e
     | Inr d \<Rightarrow>
         (case Range (drBytes d) (fst (anByteRange a)) (snd (anByteRange a)) of
            Inl e \<Rightarrow> Some (RangeError e)
          | Inr data \<Rightarrow>
              let got = hex_encode (sha data);
                  want = map int (PacketsFor (drBytes d) (fst (anByteRange a)) (snd (anByteRange a)))
              in if got \<noteq> anBytesSHA256 a then Some (BytesHashTo (anStreamRef a) (anByteRange a) got (anBytesSHA256 a))
                 else if length (anFrames a) > 0 \<and> want \<noteq> anFrames a
                 then Some (CarriedInFrames (anStreamRef a) (anByteRange a) want (anFrames a))
                 else None))"

definition checkAssertion :: "sha256 \<Rightarrow> (addr \<Rightarrow> string) \<Rightarrow> testCase \<Rightarrow> assertion \<Rightarrow> packet list \<Rightarrow>
    (int \<Rightarrow> packet option) \<Rightarrow> assembler \<Rightarrow> assertionCheck" where
  "checkAssertion sha astr c a pkts byIndex asm =
    (let chk = \<lparr>ckCase = tcID c, ckClaim = anClaim a, ckOK = True, ckDetail = NoDetail, ckCitable = Citable a\<rparr>
     in case find (\<lambda>f. byIndex f = None) (anFrames a) of
          Some f \<Rightarrow> chk\<lparr>ckOK := False, ckDetail := CitesMissingFrame f (length pkts), ckCitable := True\<rparr>
        | None \<Rightarrow>
            (case check_frames sha pkts a of
               Some e \<Rightarrow> chk\<lparr>ckOK := False, ckDetail := e\<rparr>
             | None \<Rightarrow>
                 (case check_bytes sha astr asm a of
                    Some e \<Rightarrow> chk\<lparr>ckOK := False, ckDetail := e\<rparr>
                  | None \<Rightarrow> if \<not> ckCitable chk then chk\<lparr>ckDetail := NoDigest\<rparr> else chk)))"

definition assertion_step :: "assertionCheck \<Rightarrow> verifyReport \<Rightarrow> verifyReport" where
  "assertion_step chk rep =
    (let rep1 = rep\<lparr>vrAssertions := vrAssertions rep @ [chk]\<rparr>
     in if \<not> ckCitable chk then rep1\<lparr>vrUnverifiable := vrUnverifiable rep1 + 1\<rparr>
        else
          let rep2 = rep1\<lparr>vrChecked := vrChecked rep1 + 1\<rparr>
          in if ckOK chk then rep2 else rep2\<lparr>vrOK := False\<rparr>)"

text \<open>\<^verbatim>\<open>Verify\<close> from the point where the capture has been read back.\<close>

definition verify_capture :: "sha256 \<Rightarrow> (addr \<Rightarrow> string) \<Rightarrow> testCase list \<Rightarrow> nat \<Rightarrow> packet list \<Rightarrow> verifyReport \<Rightarrow> verifyReport" where
  "verify_capture sha astr cases recorded pkts rep =
    (let rep1 = rep\<lparr>vrPackets := length pkts\<rparr>;
         rep2 = (if recorded \<noteq> 0 \<and> recorded \<noteq> length pkts
                 then fault_problem (PacketCountDiffers (length pkts) recorded) rep1 else rep1);
         byIndex = by_index pkts
     in case reassemble pkts rep2 of
          (asm, rep3) \<Rightarrow>
            fold (\<lambda>c. fold (\<lambda>a. assertion_step (checkAssertion sha astr c a pkts byIndex asm)) (tcAssertions c)) cases rep3)"

section \<open>What the verifier's reassembly is\<close>

lemma add_packets_fed: "fst (add_packets pkts asm bad rep) = fed pkts asm"
  by (induction pkts asm bad rep rule: add_packets.induct)
     (simp_all add: fed_def split: prod.splits sum.splits)

lemma reassemble_fed: "fst (reassemble pkts rep) = fed pkts NewAssembler"
  using add_packets_fed [of pkts NewAssembler 0 rep] by (auto simp: reassemble_def split: prod.splits)

lemma by_index_Some: "byIndex = by_index pkts \<Longrightarrow> k \<in> pkIndex ` set pkts \<Longrightarrow> byIndex (int k) \<noteq> None"
  by (auto simp: by_index_def map_of_eq_None_iff image_iff)

section \<open>Authored citations verify\<close>

lemma find_none_iff: "find P xs = None \<longleftrightarrow> (\<forall>x \<in> set xs. \<not> P x)"
  by (auto simp: find_None_iff)

lemma directionByFlow_dir:
  assumes "stream_ok st" "directionByFlow astr st ref = Some d"
  obtains j where "j < 2" "d = stDirs st ! j"
  using assms by (auto simp: directionByFlow_def find_Some_iff stream_ok_def)

lemma candidates_mem: "st \<in> set (asAll asm) \<Longrightarrow> directionByFlow astr st ref = Some d \<Longrightarrow>
    d \<in> set (candidates astr asm ref)"
  by (force simp: candidates_def List.map_filter_def)

text \<open>The reference and the frames of an authored citation lead back to the direction it was cited from.\<close>

lemma resolve_authored:
  assumes "capture_ok pkts" "asm = fed pkts NewAssembler" "st \<in> set (asAll asm)"
    and "directionByFlow astr st ref = Some d" "Range (drBytes d) s e = Inr data"
    and "s < e \<or> length (candidates astr asm ref) = 1"
    and "anStreamRef a = ref" "anFrames a = map int (PacketsFor (drBytes d) s e)"
  shows "resolveDirection astr asm a = Inr d"
proof -
  obtain i where i: "i < length (asAll asm)" "st = asAll asm ! i"
    using assms(3) by (auto simp: in_set_conv_nth)
  have "asm_ok asm" using fed_invariant [OF assms(1)] assms(2) by simp
  then have st: "stream_ok st" using asm_okD(1) assms(3) by blast
  obtain j where j: "j < 2" "d = stDirs st ! j" using directionByFlow_dir [OF st assms(4)] .
  have mem: "d \<in> set (candidates astr asm ref)" using candidates_mem [OF assms(3,4)] .
  consider (One) x where "candidates astr asm ref = [x]"
    | (More) x y zs where "candidates astr asm ref = x # y # zs" "s < e"
    using mem assms(6) by (cases "candidates astr asm ref"; cases "tl (candidates astr asm ref)") auto
  then show ?thesis
  proof cases
    case One
    then show ?thesis using mem assms(7) by (simp add: resolveDirection_def)
  next
    case More
    have "sb_ok (drBytes d)" using st j by (simp add: stream_ok_def dir_ok_def flush_pre_def)
    then obtain k ks where ks: "PacketsFor (drBytes d) s e = k # ks"
      using PacketsFor_some [OF _ assms(5) More(2)] by (cases "PacketsFor (drBytes d) s e") auto
    have "StreamFor asm k = Some st"
      using PacketsFor_owner(1) [OF assms(1) _ j(1) _ assms(5), of i k] i j ks assms(2) by simp
    then have "resolve_loop astr asm ref (anFrames a) = Some d"
      using assms(4) by (simp add: assms(8) ks stream_for_def)
    then show ?thesis using More assms(7) by (simp add: resolveDirection_def)
  qed
qed

lemma check_bytes_authored:
  assumes "resolveDirection astr asm a = Inr d" "Range (drBytes d) s e = Inr data"
    and "anByteRange a = (s, e)" "anBytesSHA256 a = hex_encode (sha data)"
    and "anFrames a = map int (PacketsFor (drBytes d) s e)"
  shows "check_bytes sha astr asm a = None"
  using assms by (simp add: check_bytes_def)

lemma CiteBytes_check:
  assumes "capture_ok pkts" "asm = fst (reassemble pkts rep)" "st \<in> set (asAll asm)"
    and "directionByFlow astr st ref = Some d" "length (sha (subslice (sbData (drBytes d)) (nat s) (nat e))) = 32"
    and "CiteBytes sha claim meth v observed ref (drBytes d) s e = Inr a"
    and "s < e \<or> length (candidates astr asm ref) = 1"
  shows "checkAssertion sha astr c a pkts (by_index pkts) asm =
    \<lparr>ckCase = tcID c, ckClaim = claim, ckOK = True, ckDetail = NoDetail, ckCitable = True\<rparr>"
proof -
  have asm: "asm = fed pkts NewAssembler" using assms(2) reassemble_fed by simp
  obtain data where data: "Range (drBytes d) s e = Inr data"
    and a: "a = blank_assertion\<lparr>anClaim := claim, anMethod := meth, anVerdict := v, anObserved := observed,
      anStreamRef := ref, anByteRange := (s, e), anBytesSHA256 := hex_encode (sha data),
      anFrames := map int (PacketsFor (drBytes d) s e)\<rparr>"
    using assms(6) by (auto simp: CiteBytes_def split: sum.splits)
  have res: "resolveDirection astr asm a = Inr d"
    by (rule resolve_authored [OF assms(1) asm assms(3,4) data assms(7)]) (simp_all add: a)
  have bytes: "check_bytes sha astr asm a = None"
    by (rule check_bytes_authored [OF res data]) (simp_all add: a)
  have frames: "find (\<lambda>f. by_index pkts f = None) (anFrames a) = None"
  proof -
    obtain i where i: "i < length (asAll asm)" "st = asAll asm ! i"
      using assms(3) by (auto simp: in_set_conv_nth)
    have "asm_ok asm" using fed_invariant [OF assms(1)] asm by simp
    then have "stream_ok st" using asm_okD(1) assms(3) by blast
    then obtain j where j: "j < 2" "d = stDirs st ! j" using directionByFlow_dir assms(4) by blast
    have "k \<in> pkIndex ` set pkts" if "k \<in> set (PacketsFor (drBytes d) s e)" for k
      using PacketsFor_owner(2) [OF assms(1) _ j(1) _ data that, of i] i j asm by simp
    then show ?thesis using by_index_Some [OF refl] by (auto simp: find_none_iff a)
  qed
  have "data = subslice (sbData (drBytes d)) (nat s) (nat e)"
    using data by (simp add: Range_def split: if_splits)
  then have "hex_encode (sha data) \<noteq> []" using assms(5) by (cases "sha data") auto
  then have "Citable a" "check_frames sha pkts a = None"
    by (simp_all add: Citable_def check_frames_def a blank_assertion_def)
  with frames bytes show ?thesis by (simp add: checkAssertion_def a)
qed


definition sample_case :: "verdict \<Rightarrow> verdict \<Rightarrow> testCase" where
  "sample_case v w = \<lparr>tcID = ''T-1'', tcDoc = [], tcTitle = [], tcVerdict = v, tcApplicable = True,
     tcNonCertifiable = False, tcNotes = [], tcAssertions = [blank_assertion\<lparr>anVerdict := w\<rparr>]\<rparr>"

definition plain_addr :: "addr \<Rightarrow> string" where "plain_addr a = decimal (addr_value a)"
definition zero_sha :: sha256 where "zero_sha b = replicate 32 0"


lemma sample_capture_frame: "\<exists>f. DecodePacket sample_capture = Inr f \<and> frTCP f = Some sample_segment \<and>
    frIndex f = 1 \<and> \<not> frFragmented f \<and> frame_flow f =
      Some \<lparr>flSrc = Endpoint (IPv4Addr 0x0A000001) 40000, flDst = Endpoint (IPv4Addr 0x0A000002) 802\<rparr>"
proof -
  have "wf_segment sample_segment" by (simp add: wf_segment_def sample_segment_def)
  moreover have "wf_ip4 sample_ip4 (tcp_wire sample_segment [0, 0, 0, 0])"
    by (simp add: wf_ip4_def sample_ip4_def tcp_wire_def sample_segment_def)
  ultimately show ?thesis
    using decodeTCP_wire [of sample_segment "[0, 0, 0, 0]"] decodeIPv4_wire [of sample_ip4]
      Decode_eth [of "replicate 12 0" "ip4_wire sample_ip4 ipProtoTCP (tcp_wire sample_segment [0, 0, 0, 0]) @ [0, 0]"]
    by (simp add: sample_capture_def DecodePacket_def decodeTransport_def ip4_frame_def fresh_frame_def Let_def
        frame_flow_def packet_truncated_def) (simp add: sample_ip4_def sample_segment_def)
qed


text \<open>A capture of one packet that opens a conversation.\<close>

lemma fresh_payload:
  assumes "tcFlags seg AND SYN = 0" "tcPayload seg \<noteq> []" "int (length (tcPayload seg)) \<le> cap"
  shows "sbData (drBytes (dir_add (new_direction flow gen cap) seg idx)) = tcPayload seg"
    "\<not> HasConflictingOverlap (dir_add (new_direction flow gen cap) seg idx)"
proof -
  let ?fresh = "new_direction flow gen cap"
  let ?n = "(note_flags ?fresh seg idx)\<lparr>drSegments := drSegments (note_flags ?fresh seg idx) + 1\<rparr>"
  let ?d = "anchor_stream ?n seg"
  have d: "drBytes ?d = \<lparr>sbData = [], sbRuns = []\<rparr>" "drPendingSegs ?d = []"
    "drExpectSeq ?d = tcSeq seg" "drPendingBytes ?d = 0" "drMaxPendingCap ?d = cap" "drOverlaps ?d = []"
    using assms(1) by (simp_all add: note_flags_def new_direction_def anchor_stream_def Let_def)
  have "dir_add ?fresh seg idx = dir_insert ?d 0 (tcPayload seg) idx"
    unfolding dir_add_def Let_def using d assms(2) by (simp add: maxSeqJump_def sb_len_def seqDelta_def)
  also have "\<dots> = insert_beyond ?d 0 (tcPayload seg) idx"
    using d(1) by (simp add: dir_insert_def insert_at_def sb_len_def)
  finally have eq: "dir_add ?fresh seg idx = insert_beyond ?d 0 (tcPayload seg) idx" .
  show "sbData (drBytes (dir_add ?fresh seg idx)) = tcPayload seg"
    unfolding eq using assms(2,3) d by (simp add: insert_beyond_def Let_def sb_len_def flush.simps sb_append_def)
  show "\<not> HasConflictingOverlap (dir_add ?fresh seg idx)"
    unfolding eq using assms(2,3) d
    by (simp add: insert_beyond_def Let_def sb_len_def flush.simps sb_append_def HasConflictingOverlap_def)
qed

lemma sample_capture_fed:
  obtains st d where "asAll (fed [sample_capture] NewAssembler) = [st]" "stDirs st ! 0 = d" "length (stDirs st) = 2"
    "drFlow d = \<lparr>flSrc = Endpoint (IPv4Addr 0x0A000001) 40000, flDst = Endpoint (IPv4Addr 0x0A000002) 802\<rparr>"
    "sbData (drBytes d) = [0xDE, 0xAD]" "\<forall>x \<in> set (stDirs st). \<not> HasConflictingOverlap x"
proof -
  let ?flow = "\<lparr>flSrc = Endpoint (IPv4Addr 0x0A000001) 40000, flDst = Endpoint (IPv4Addr 0x0A000002) 802\<rparr>"
  obtain f where f: "DecodePacket sample_capture = Inr f" "frTCP f = Some sample_segment" "frIndex f = 1"
    "\<not> frFragmented f" "frame_flow f = Some ?flow"
    using sample_capture_frame by blast
  have key: "Stream ?flow = \<lparr>skA = flSrc ?flow, skB = flDst ?flow\<rparr>" "DirIndex (Stream ?flow) ?flow = 0"
    by (simp_all add: Stream_def DirIndex_def compare_def addr_compare_def)
  let ?new = "new_stream (Stream ?flow) 0 DefaultMaxPending 1"
  have 1: "asAll (fed [sample_capture] NewAssembler) = [stream_add ?new ?flow sample_segment 1]"
    using f by (simp add: fed_def AddPacket_def AddFrame_def find_stream_def NewAssembler_def maxPending_def Let_def)
  have 2: "stDirs (stream_add ?new ?flow sample_segment 1) =
      [dir_add (new_direction ?flow 0 DefaultMaxPending) sample_segment 1, new_direction (Reverse ?flow) 0 DefaultMaxPending]"
    by (simp add: stream_add_def new_stream_def key Flow_def Reverse_def Let_def DirIndex_def)
  have 3: "sbData (drBytes (dir_add (new_direction ?flow 0 DefaultMaxPending) sample_segment 1)) = [0xDE, 0xAD]"
    by (subst fresh_payload(1)) (simp_all add: sample_segment_def SYN_def DefaultMaxPending_def)
  have 4: "drFlow (dir_add (new_direction ?flow 0 DefaultMaxPending) sample_segment 1) = ?flow"
    using dir_add_ok [of "new_direction ?flow 0 DefaultMaxPending" 1 sample_segment]
    by (simp add: dir_ok_new DefaultMaxPending_def) (simp add: new_direction_def)
  have 5: "\<not> HasConflictingOverlap (dir_add (new_direction ?flow 0 DefaultMaxPending) sample_segment 1)"
    by (rule fresh_payload(2)) (simp_all add: sample_segment_def SYN_def DefaultMaxPending_def)
  have 6: "\<not> HasConflictingOverlap (new_direction f 0 DefaultMaxPending)" for f
    by (simp add: HasConflictingOverlap_def new_direction_def)
  show thesis
    by (rule that [OF 1 refl]) (simp_all add: 2 3 4 5 6 del: One_nat_def)
qed

text \<open>C3: every byte citation the authoring API makes from a reassembled direction verifies against the capture
  it was made from: when several connections reused the same pair of endpoints the citation still resolves to
  the connection it was cited from, its frames exist, the digest agrees and the frames are those that carried
  the bytes.  (A citation of no bytes at all has no frames; it verifies when the pair was used once.)\<close>

theorem CiteBytes_verifies:
  assumes "capture_ok pkts" "asm = fst (reassemble pkts rep)" "st \<in> set (asAll asm)"
    and "directionByFlow astr st ref = Some d" "length (sha (subslice (sbData (drBytes d)) (nat s) (nat e))) = 32"
    and "CiteBytes sha claim meth v observed ref (drBytes d) s e = Inr a"
    and "s < e \<or> length (candidates astr asm ref) = 1"
  shows "checkAssertion sha astr c a pkts (by_index pkts) asm =
    \<lparr>ckCase = tcID c, ckClaim = claim, ckOK = True, ckDetail = NoDetail, ckCitable = True\<rparr>"
  by (rule CiteBytes_check [OF assms])

theorem CiteBytes_verifies_witness:
  "\<exists>st d a. asAll (fst (reassemble [sample_capture] new_report)) = [st] \<and>
     CiteBytes zero_sha ''claim'' ''method'' Pass ''seen'' (StreamRef plain_addr d) (drBytes d) 0 2 = Inr a \<and>
     checkAssertion zero_sha plain_addr \<lparr>tcID = ''T'', tcDoc = [], tcTitle = [], tcVerdict = Pass, tcApplicable = True,
         tcNonCertifiable = False, tcNotes = [], tcAssertions = [a]\<rparr> a [sample_capture] (by_index [sample_capture])
         (fst (reassemble [sample_capture] new_report)) =
       \<lparr>ckCase = ''T'', ckClaim = ''claim'', ckOK = True, ckDetail = NoDetail, ckCitable = True\<rparr>"
proof -
  obtain st d where st: "asAll (fed [sample_capture] NewAssembler) = [st]" "stDirs st ! 0 = d" "length (stDirs st) = 2"
    "sbData (drBytes d) = [0xDE, 0xAD]" by (rule sample_capture_fed)
  let ?asm = "fst (reassemble [sample_capture] new_report)" and ?ref = "StreamRef plain_addr d"
  have asm: "?asm = fed [sample_capture] NewAssembler" by (rule reassemble_fed)
  obtain a where a: "CiteBytes zero_sha ''claim'' ''method'' Pass ''seen'' ?ref (drBytes d) 0 2 = Inr a"
    using st(4) by (simp add: CiteBytes_def Range_def)
  have "directionByFlow plain_addr st ?ref = Some d"
    using st(2,3) by (cases "stDirs st") (auto simp: directionByFlow_def StreamRef_def)
  moreover have "capture_ok [sample_capture]" by (simp add: capture_ok_def sample_capture_def)
  ultimately show ?thesis
    using CiteBytes_verifies [of "[sample_capture]" ?asm new_report st plain_addr ?ref d zero_sha 0 2
        "''claim''" "''method''" Pass "''seen''" a] a st(1) asm
    by (intro exI [of _ st] exI [of _ d] exI [of _ a]) (simp add: zero_sha_def)
qed


text \<open>An empty citation of a pair of endpoints that was used more than once does not verify: it names no frames,
  so nothing says which connection it means.\<close>

lemma CiteBytes_empty_ambiguous:
  assumes "CiteBytes sha claim meth v observed ref src s s = Inr a" "length (candidates astr asm ref) \<ge> 2"
    and "sha [] \<noteq> []"
  shows "check_bytes sha astr asm a = Some (AmbiguousStream ref (length (candidates astr asm ref)) [])"
proof -
  have a: "anBytesSHA256 a \<noteq> []" "anStreamRef a = ref" "anFrames a = []"
    using assms(1,3)
    by (auto simp: CiteBytes_def Range_def PacketsFor_def packets_loop.simps split: if_splits)
       (cases "sha []"; simp)
  obtain x y zs where "candidates astr asm ref = x # y # zs"
    using assms(2) by (cases "candidates astr asm ref"; cases "tl (candidates astr asm ref)") auto
  then show ?thesis using a by (simp add: check_bytes_def resolveDirection_def)
qed

text \<open>A frame citation verifies against the capture it was made from, whatever order and however often it
  names its frames.\<close>

lemma CiteFrames_verifies:
  assumes "CiteFrames sha claim meth v observed pkts frames = Inr a"
  shows "ckOK (checkAssertion sha astr c a pkts (by_index pkts) asm)"
proof -
  have a: "anFrames a = sort frames" "digestFrames sha pkts frames = Inr (anFramesSHA256 a)" "anBytesSHA256 a = []"
    using assms by (auto simp: CiteFrames_def blank_assertion_def split: sum.splits)
  have found: "digest_loop byIndex n fs h = Inr h' \<Longrightarrow> \<forall>f \<in> set fs. byIndex f \<noteq> None" for byIndex n fs h h'
    by (induction fs arbitrary: h) (auto split: option.splits)
  have "\<forall>f \<in> set (sort frames). by_index pkts f \<noteq> None"
    using a(2) found by (cases "digest_loop (by_index pkts) (length pkts) (sort frames) []")
      (auto simp: digestFrames_def)
  then have "find (\<lambda>f. by_index pkts f = None) (anFrames a) = None" by (simp add: find_none_iff a(1))
  moreover have "check_frames sha pkts a = None" "check_bytes sha astr asm a = None"
    using a by (simp_all add: check_frames_def check_bytes_def digestFrames_def sorted_sort_id)
  ultimately show ?thesis by (simp add: checkAssertion_def Let_def)
qed

section \<open>What acceptance establishes\<close>

lemma check_bytes_sound:
  assumes "check_bytes sha astr asm a = None" "anBytesSHA256 a \<noteq> []" "anByteRange a = (s, e)"
  obtains d data where "resolveDirection astr asm a = Inr d" "Range (drBytes d) s e = Inr data"
    "hex_encode (sha data) = anBytesSHA256 a" "anFrames a = [] \<or> anFrames a = map int (PacketsFor (drBytes d) s e)"
  using assms by (auto simp: check_bytes_def Let_def split: sum.splits if_splits)

lemma check_bytes_passed: "ckOK (checkAssertion sha astr c a pkts byIndex asm) \<Longrightarrow> check_bytes sha astr asm a = None"
  by (auto simp: checkAssertion_def Let_def split: option.splits if_splits)

text \<open>C4: an accepted byte citation is a statement about the capture in front of the verifier, whichever capture
  it was written from: some direction the reference names holds, at the cited offsets, the very bytes the
  author cited, and they arrived in the frames the author cited.  The digest is assumed to have no second
  preimage of the cited bytes.\<close>

theorem checkAssertion_establishes:
  assumes "CiteBytes sha claim meth v observed ref src s e = Inr a" "Range src s e = Inr cited"
    and "sha cited \<noteq> []" "\<And>data. sha data = sha cited \<Longrightarrow> data = cited"
    and "ckOK (checkAssertion sha astr c a pkts byIndex asm)"
  shows "\<exists>d. resolveDirection astr asm a = Inr d \<and> flow_string astr (drFlow d) = ref \<and>
    Range (drBytes d) s e = Inr cited \<and>
    (PacketsFor src s e = [] \<or> PacketsFor (drBytes d) s e = PacketsFor src s e)"
proof -
  have a: "anBytesSHA256 a = hex_encode (sha cited)" "anByteRange a = (s, e)" "anStreamRef a = ref"
    "anFrames a = map int (PacketsFor src s e)"
    using assms(1,2) by (auto simp: CiteBytes_def)
  then have "anBytesSHA256 a \<noteq> []" using assms(3) by (cases "sha cited") auto
  then obtain d data where d: "resolveDirection astr asm a = Inr d" "Range (drBytes d) s e = Inr data"
    "hex_encode (sha data) = anBytesSHA256 a" "anFrames a = [] \<or> anFrames a = map int (PacketsFor (drBytes d) s e)"
    using check_bytes_sound [OF check_bytes_passed [OF assms(5)] _ a(2)] by blast
  have "data = cited" using d(3) a(1) assms(4) by (simp add: hex_encode_inj)
  moreover have "flow_string astr (drFlow d) = ref"
  proof -
    have by_flow: "flow_string astr (drFlow x) = ref" if "directionByFlow astr st ref = Some x" for st x
      using that by (auto simp: directionByFlow_def find_Some_iff)
    have loop: "flow_string astr (drFlow x) = ref" if "resolve_loop astr asm ref fs = Some x" for fs x
      using that by (induction fs) (auto split: option.splits intro: by_flow)
    have "\<forall>x \<in> set (candidates astr asm ref). flow_string astr (drFlow x) = ref"
      by (auto simp: candidates_def List.map_filter_def intro: by_flow)
    then show ?thesis
      using d(1) a(3) loop by (auto simp: resolveDirection_def split: list.splits option.splits)
  qed
  moreover have "PacketsFor src s e = [] \<or> PacketsFor (drBytes d) s e = PacketsFor src s e"
    using d(4) a(4) by (auto simp: inj_map_eq_map)
  ultimately show ?thesis using d by blast
qed

definition sharp_sha :: sha256 where
  "sharp_sha b = (if b = [0xDE, 0xAD] then replicate 32 1 else replicate 32 0)"

theorem checkAssertion_establishes_witness:
  "\<exists>d a. CiteBytes sharp_sha [] [] Pass [] (StreamRef plain_addr d) (drBytes d) 0 2 = Inr a \<and>
     (\<exists>d'. resolveDirection plain_addr (fed [sample_capture] NewAssembler) a = Inr d' \<and>
       flow_string plain_addr (drFlow d') = StreamRef plain_addr d \<and> Range (drBytes d') 0 2 = Inr [0xDE, 0xAD])"
proof -
  obtain st d where st: "asAll (fed [sample_capture] NewAssembler) = [st]" "stDirs st ! 0 = d" "length (stDirs st) = 2"
    "sbData (drBytes d) = [0xDE, 0xAD]" by (rule sample_capture_fed)
  let ?asm = "fed [sample_capture] NewAssembler" and ?ref = "StreamRef plain_addr d"
  have r: "Range (drBytes d) 0 2 = Inr [0xDE, 0xAD]" using st(4) by (simp add: Range_def subslice_def)
  then obtain a where a: "CiteBytes sharp_sha [] [] Pass [] ?ref (drBytes d) 0 2 = Inr a"
    by (simp add: CiteBytes_def)
  have "directionByFlow plain_addr st ?ref = Some d"
    using st(2,3) by (cases "stDirs st") (auto simp: directionByFlow_def StreamRef_def)
  moreover have "capture_ok [sample_capture]" by (simp add: capture_ok_def sample_capture_def)
  ultimately have ok: "ckOK (checkAssertion sharp_sha plain_addr (sample_case Pass Pass) a [sample_capture]
      (by_index [sample_capture]) ?asm)"
    using CiteBytes_check [OF _ reassemble_fed [symmetric, of _ new_report], of "[sample_capture]" st plain_addr ?ref d
        sharp_sha 0 2 "[]" "[]" Pass "[]" a] a st(1)
    by (simp add: sharp_sha_def)
  have "data = [0xDE, 0xAD]" if "sharp_sha data = sharp_sha [0xDE, 0xAD]" for data
    using that by (auto simp: sharp_sha_def split: if_splits)
  moreover have "sharp_sha [0xDE, 0xAD] \<noteq> []" by (simp add: sharp_sha_def)
  ultimately have "\<exists>d'. resolveDirection plain_addr ?asm a = Inr d' \<and> flow_string plain_addr (drFlow d') = ?ref \<and>
      Range (drBytes d') 0 2 = Inr [0xDE, 0xAD]"
    using checkAssertion_establishes [OF a r _ _ ok] by blast
  with a show ?thesis by blast
qed

section \<open>Verdicts follow from their assertions\<close>

lemma RollUp_severity:
  "Severity (RollUp tc) = max (Max (insert 0 (Severity ` anVerdict ` set (tcAssertions tc))))
     (if \<exists>a \<in> set (tcAssertions tc). Unmeasured a then 2 else 0)"
proof -
  define M where "M = Max (insert 0 (Severity ` anVerdict ` set (tcAssertions tc)))"
  obtain w u where roll: "roll_loop (tcAssertions tc) Skip False = (w, u)" by fastforce
  have "Severity w = M" "u \<longleftrightarrow> (\<exists>a \<in> set (tcAssertions tc). Unmeasured a)"
    using roll_loop_worst [of "tcAssertions tc" Skip False] roll by (simp_all add: M_def)
  then show ?thesis
    unfolding M_def [symmetric] by (cases u) (auto simp: RollUp_def roll max_def)
qed

lemma case_verdict_check_ok:
  "vrOK (case_verdict_check c rep) \<longleftrightarrow> vrOK rep \<and> tcVerdict c \<in> {Pass, Fail, Skip, Warn} \<and>
    Severity (RollUp c) \<le> Severity (tcVerdict c)"
  by (auto simp: case_verdict_check_def Let_def fault_problem_def add_problem_def)

lemma verifyCaseVerdicts_ok:
  "vrOK (verifyCaseVerdicts cases rep) \<longleftrightarrow> vrOK rep \<and>
    (\<forall>c \<in> set cases. tcVerdict c \<in> {Pass, Fail, Skip, Warn} \<and> Severity (RollUp c) \<le> Severity (tcVerdict c))"
  unfolding verifyCaseVerdicts_def
  by (induction cases arbitrary: rep) (auto simp: case_verdict_check_ok)

text \<open>C7: a bundle's case verdicts pass exactly when each is one of the four and none is weaker than the evidence
  printed under it: at least as severe as every one of its assertions, and never PASS or SKIP over a
  load-bearing assertion nobody measured.\<close>

theorem verifyCaseVerdicts_iff:
  "vrOK (verifyCaseVerdicts cases rep) = (vrOK rep \<and> (\<forall>c \<in> set cases.
     tcVerdict c \<in> {Pass, Fail, Skip, Warn} \<and>
     (\<forall>a \<in> set (tcAssertions c). Severity (anVerdict a) \<le> Severity (tcVerdict c) \<and>
        (Unmeasured a \<longrightarrow> tcVerdict c \<in> {Warn, Fail}))))"
proof -
  have sev: "2 \<le> Severity v \<longleftrightarrow> v \<in> {Warn, Fail}" for v by (simp add: Severity_def)
  have "Severity (RollUp c) \<le> Severity (tcVerdict c) \<longleftrightarrow>
      (\<forall>a \<in> set (tcAssertions c). Severity (anVerdict a) \<le> Severity (tcVerdict c) \<and>
        (Unmeasured a \<longrightarrow> tcVerdict c \<in> {Warn, Fail}))" for c
    unfolding RollUp_severity sev [symmetric] by auto
  then show ?thesis by (simp add: verifyCaseVerdicts_ok)
qed


theorem verifyCaseVerdicts_iff_witness:
  "\<not> vrOK (verifyCaseVerdicts [sample_case Pass Fail] new_report) \<and>
   vrOK (verifyCaseVerdicts [sample_case Warn Pass] new_report)"
  unfolding verifyCaseVerdicts_iff
  by (simp add: sample_case_def new_report_def blank_assertion_def Unmeasured_def)

text \<open>The four are checked for the verdict of a case only: an assertion whose verdict is none of them counts as
  SKIP without being one, so neither the roll-up nor the load-bearing cap sees it.\<close>

lemma unknown_assertion_verdict_hides:
  assumes "anVerdict a \<notin> {Pass, Fail, Skip, Warn}"
  shows "vrOK (verifyCaseVerdicts [(sample_case Pass Pass)\<lparr>tcAssertions := [blank_assertion\<lparr>anVerdict := Pass\<rparr>, a]\<rparr>] new_report)"
proof -
  have "Severity (anVerdict a) = 0" "\<not> Unmeasured a" using assms by (auto simp: Severity_def Unmeasured_def)
  then show ?thesis
    by (simp add: verifyCaseVerdicts_ok RollUp_severity sample_case_def new_report_def blank_assertion_def Unmeasured_def)
qed


section \<open>A bundle as a whole\<close>

lemma note_conflicts_ok: "vrOK (note_conflicts asm rep) \<longleftrightarrow>
    vrOK rep \<and> (\<forall>st \<in> set (asAll asm). \<forall>d \<in> set (stDirs st). \<not> HasConflictingOverlap d)"
proof -
  have "vrOK (fold (\<lambda>d r. if HasConflictingOverlap d then fault_problem (ConflictingOverlap (drFlow d) (drOverlaps d)) r else r) ds rep) \<longleftrightarrow>
      vrOK rep \<and> (\<forall>d \<in> set ds. \<not> HasConflictingOverlap d)" for ds
    by (induction ds arbitrary: rep) (auto simp: fault_problem_def add_problem_def)
  then show ?thesis by (auto simp: note_conflicts_def)
qed

lemma add_packets_ok: "vrOK (snd (snd (add_packets pkts asm bad rep))) = vrOK rep"
  by (induction pkts asm bad rep rule: add_packets.induct)
     (simp_all add: add_problem_def split: prod.splits sum.splits)

lemma reassemble_ok: "vrOK (snd (reassemble pkts rep)) \<longleftrightarrow>
    vrOK rep \<and> (\<forall>st \<in> set (asAll (fed pkts NewAssembler)). \<forall>d \<in> set (stDirs st). \<not> HasConflictingOverlap d)"
  using add_packets_ok [of pkts NewAssembler 0 rep] add_packets_fed [of pkts NewAssembler 0 rep]
  by (auto simp: reassemble_def note_conflicts_ok add_problem_def split: prod.splits if_splits)

lemma assertion_step_ok: "vrOK (assertion_step chk rep) \<longleftrightarrow> vrOK rep \<and> (ckCitable chk \<longrightarrow> ckOK chk)"
  by (simp add: assertion_step_def Let_def)

lemma fold_assertion_steps: "vrOK (fold (\<lambda>c. fold (\<lambda>a. assertion_step (f c a)) (tcAssertions c)) cases rep) \<longleftrightarrow>
    vrOK rep \<and> (\<forall>c \<in> set cases. \<forall>a \<in> set (tcAssertions c). ckCitable (f c a) \<longrightarrow> ckOK (f c a))"
proof (induction cases arbitrary: rep)
  case (Cons c cases)
  have "vrOK (fold (\<lambda>a. assertion_step (f c a)) as rep) \<longleftrightarrow>
      vrOK rep \<and> (\<forall>a \<in> set as. ckCitable (f c a) \<longrightarrow> ckOK (f c a))" for as
    by (induction as arbitrary: rep) (auto simp: assertion_step_ok)
  with Cons show ?case by auto
qed simp

lemma verify_capture_ok: "vrOK (verify_capture sha astr cases recorded pkts rep) \<longleftrightarrow>
    vrOK rep \<and> (recorded = 0 \<or> recorded = length pkts) \<and>
    (\<forall>st \<in> set (asAll (fed pkts NewAssembler)). \<forall>d \<in> set (stDirs st). \<not> HasConflictingOverlap d) \<and>
    (\<forall>c \<in> set cases. \<forall>a \<in> set (tcAssertions c).
       let chk = checkAssertion sha astr c a pkts (by_index pkts) (fed pkts NewAssembler)
       in ckCitable chk \<longrightarrow> ckOK chk)"
proof -
  let ?rep2 = "if recorded \<noteq> 0 \<and> recorded \<noteq> length pkts
      then fault_problem (PacketCountDiffers (length pkts) recorded) (rep\<lparr>vrPackets := length pkts\<rparr>)
      else rep\<lparr>vrPackets := length pkts\<rparr>"
  obtain rep3 where r: "reassemble pkts ?rep2 = (fed pkts NewAssembler, rep3)"
    using reassemble_fed [of pkts ?rep2] by (metis prod.collapse)
  have "vrOK ?rep2 \<longleftrightarrow> vrOK rep \<and> (recorded = 0 \<or> recorded = length pkts)"
    by (auto simp: fault_problem_def add_problem_def)
  then show ?thesis
    using reassemble_ok [of pkts ?rep2] unfolding verify_capture_def Let_def r prod.case fold_assertion_steps
    by (simp add: r)
qed

text \<open>What the authoring API produces from the capture: byte citations of any range, the empty ones included,
  frame citations, and narrative that cites nothing.\<close>

definition authored :: "sha256 \<Rightarrow> (addr \<Rightarrow> string) \<Rightarrow> packet list \<Rightarrow> assertion \<Rightarrow> bool" where
  "authored sha astr pkts a \<longleftrightarrow>
    (\<exists>claim meth v observed st ref d s e. st \<in> set (asAll (fed pkts NewAssembler)) \<and>
       directionByFlow astr st ref = Some d \<and>
       CiteBytes sha claim meth v observed ref (drBytes d) s e = Inr a) \<or>
    (\<exists>claim meth v observed frames. CiteFrames sha claim meth v observed pkts frames = Inr a) \<or>
    (anFrames a = [] \<and> \<not> Citable a)"

text \<open>A byte citation of an empty range, made by a reference that several connections of the capture answer to.\<close>

definition empty_on_reused :: "(addr \<Rightarrow> string) \<Rightarrow> packet list \<Rightarrow> assertion \<Rightarrow> bool" where
  "empty_on_reused astr pkts a \<longleftrightarrow> anBytesSHA256 a \<noteq> [] \<and> fst (anByteRange a) = snd (anByteRange a) \<and>
     2 \<le> length (candidates astr (fed pkts NewAssembler) (anStreamRef a))"

lemma candidates_member:
  assumes "st \<in> set (asAll asm)" "directionByFlow astr st ref = Some d"
  shows "candidates astr asm ref \<noteq> []"
  using assms by (auto simp: candidates_def map_filter_def filter_empty_conv)

lemma authored_accepted:
  assumes "capture_ok pkts" "\<forall>b. length (sha b) = 32" "authored sha astr pkts a"
  shows "(let chk = checkAssertion sha astr c a pkts (by_index pkts) (fed pkts NewAssembler) in ckCitable chk \<longrightarrow> ckOK chk) \<longleftrightarrow>
    \<not> empty_on_reused astr pkts a"
  using assms(3) unfolding authored_def
proof (elim disjE exE conjE)
  fix claim meth v observed st ref d s e
  let ?asm = "fed pkts NewAssembler" and ?n = "length (candidates astr (fed pkts NewAssembler) ref)"
  assume st: "st \<in> set (asAll ?asm)" "directionByFlow astr st ref = Some d"
    and a: "CiteBytes sha claim meth v observed ref (drBytes d) s e = Inr a"
  have n: "?n \<noteq> 0" using candidates_member [OF st] by simp
  have se: "s \<le> e" "anByteRange a = (s, e)" "anStreamRef a = ref"
    using a by (auto simp: CiteBytes_def Range_def split: if_splits)
  show ?thesis
  proof (cases "s < e \<or> ?n = 1")
    case True
    have "\<not> empty_on_reused astr pkts a" using True se n by (auto simp: empty_on_reused_def)
    then show ?thesis
      using CiteBytes_check [OF assms(1) reassemble_fed [symmetric, of _ new_report] st _ a True] assms(2) by simp
  next
    case False
    then have e: "e = s" "2 \<le> ?n" using se(1) n by linarith+
    have ne: "sha [] \<noteq> []" using assms(2) by (metis length_0_conv zero_neq_numeral)
    note amb = CiteBytes_empty_ambiguous [OF a [unfolded e(1)] e(2) ne]
    have dig: "anBytesSHA256 a \<noteq> []" using amb by (auto simp: check_bytes_def)
    have fr: "anFrames a = []" "anFramesSHA256 a = []"
      using a e(1) by (auto simp: CiteBytes_def Range_def PacketsFor_def packets_loop.simps blank_assertion_def split: if_splits)
    have "check_frames sha pkts a = None" using fr by (simp add: check_frames_def)
    then have "\<not> ckOK (checkAssertion sha astr c a pkts (by_index pkts) ?asm)"
      "ckCitable (checkAssertion sha astr c a pkts (by_index pkts) ?asm)"
      using fr amb dig by (simp_all add: checkAssertion_def Let_def Citable_def)
    moreover have "empty_on_reused astr pkts a" using dig se e by (simp add: empty_on_reused_def)
    ultimately show ?thesis by (simp add: Let_def)
  qed
next
  fix claim meth v observed frames
  assume a: "CiteFrames sha claim meth v observed pkts frames = Inr a"
  have "anBytesSHA256 a = []" using a by (auto simp: CiteFrames_def blank_assertion_def split: sum.splits)
  then show ?thesis using CiteFrames_verifies [OF a] by (simp add: Let_def empty_on_reused_def)
next
  assume "anFrames a = []" "\<not> Citable a"
  then show ?thesis
    by (simp add: checkAssertion_def check_frames_def check_bytes_def Citable_def Let_def empty_on_reused_def)
qed

text \<open>C5: which honest bundles the capture half of the verifier refuses.  A bundle whose assertions all come from
  the authoring API is accepted against the capture it ships with (distinctly numbered packets, as many as it
  records), whatever the packets are, except in exactly two cases: segments of a stream contradict each other, or an assertion cites an empty byte range by a
  reference that several connections answer to, which names no frame to tell them apart.\<close>

theorem verify_capture_authored:
  assumes "capture_ok pkts" "recorded = length pkts" "\<forall>b. length (sha b) = 32"
    and "\<forall>c \<in> set cases. \<forall>a \<in> set (tcAssertions c). authored sha astr pkts a"
  shows "vrOK (verify_capture sha astr cases recorded pkts rep) \<longleftrightarrow> vrOK rep \<and>
    (\<forall>st \<in> set (asAll (fed pkts NewAssembler)). \<forall>d \<in> set (stDirs st). \<not> HasConflictingOverlap d) \<and>
    (\<forall>c \<in> set cases. \<forall>a \<in> set (tcAssertions c). \<not> empty_on_reused astr pkts a)"
  using assms(2,4) authored_accepted [OF assms(1,3)] by (auto simp: verify_capture_ok)

theorem verify_capture_authored_witness:
  "\<exists>a. anFrames a = [1] \<and>
     vrOK (verify_capture zero_sha plain_addr [(sample_case Pass Pass)\<lparr>tcAssertions := [a, blank_assertion]\<rparr>] 1
       [sample_capture] new_report)"
proof -
  have "by_index [sample_capture] 1 = Some sample_capture" by (simp add: by_index_def sample_capture_def)
  then obtain a where a: "CiteFrames zero_sha ''c'' ''m'' Pass ''o'' [sample_capture] [1] = Inr a" "anFrames a = [1]"
    by (simp add: CiteFrames_def digestFrames_def blank_assertion_def)
  have ok: "capture_ok [sample_capture]" by (simp add: capture_ok_def sample_capture_def)
  have quiet: "\<forall>st \<in> set (asAll (fed [sample_capture] NewAssembler)). \<forall>d \<in> set (stDirs st). \<not> HasConflictingOverlap d"
    by (rule sample_capture_fed) simp
  have "authored zero_sha plain_addr [sample_capture] a" "authored zero_sha plain_addr [sample_capture] blank_assertion"
    using a(1) unfolding authored_def by (blast, simp add: blank_assertion_def Citable_def)
  moreover have "\<not> empty_on_reused plain_addr [sample_capture] a" "\<not> empty_on_reused plain_addr [sample_capture] blank_assertion"
    using a(1) by (auto simp: empty_on_reused_def CiteFrames_def blank_assertion_def split: sum.splits)
  ultimately show ?thesis
    using verify_capture_authored [OF ok, of 1 zero_sha "[(sample_case Pass Pass)\<lparr>tcAssertions := [a, blank_assertion]\<rparr>]"
        plain_addr new_report] quiet a(2)
    by (intro exI [of _ a]) (simp add: zero_sha_def new_report_def)
qed

section \<open>The manifest\<close>

text \<open>A name the manifest can carry: no line break, no white space at either end, and not empty.\<close>

definition name_ok :: "string \<Rightarrow> bool" where
  "name_ok n \<longleftrightarrow> n \<noteq> [] \<and> CHR 0x0A \<notin> set n \<and> TrimSpace n = n"

lemma string_of_bytes_of [simp]: "string_of (bytes_of s) = s"
proof -
  have "char_of (unat (word_of_nat (char_code c) :: byte)) = c" for c
    by (simp add: char_code_def)
  then show ?thesis by (induction s) (simp_all add: string_of_def bytes_of_def)
qed

definition dir_names_ok :: "directory \<Rightarrow> bool" where
  "dir_names_ok dir \<longleftrightarrow> distinct (map fst dir) \<and> (\<forall>n \<in> fst ` set dir. n \<noteq> ManifestFile \<longrightarrow> name_ok n)"

lemma manifest_line_read:
  assumes "length (sha b) = 32" "name_ok n" "line = manifest_line \<lparr>meSum = hex_encode (sha b), meName = n\<rparr>"
  shows "TrimSpace line \<noteq> []" "Cut ''  '' line = Some (hex_encode (sha b), n)" "CHR 0x0A \<notin> set line"
    "length (hex_encode (sha b)) = 64" "TrimSpace n = n"
proof -
  obtain c cs where h: "hex_encode (sha b) = c # cs" "printable c"
    using assms(1) hex_encode_printable [of _ "sha b"]
    by (cases "hex_encode (sha b)") (use length_hex_encode [of "sha b"] in auto)
  show "TrimSpace line \<noteq> []" using h by (simp add: TrimSpace_def assms(3) manifest_line_def)
  show "Cut ''  '' line = Some (hex_encode (sha b), n)"
    using Cut_prefix [of "''  ''" "CHR '' ''" "'' ''" "hex_encode (sha b)" n] hex_encode_not_break(2)
    by (simp add: assms(3) manifest_line_def)
  show "CHR 0x0A \<notin> set line" using hex_encode_not_break(1) assms(2) by (simp add: assms(3) manifest_line_def name_ok_def)
  show "length (hex_encode (sha b)) = 64" using assms(1) by (simp add: length_hex_encode)
  show "TrimSpace n = n" using assms(2) by (simp add: name_ok_def)
qed

definition entry_ok :: "sha256 \<Rightarrow> manifestEntry \<Rightarrow> bool" where
  "entry_ok sha e \<longleftrightarrow> name_ok (meName e) \<and> (\<exists>b. length (sha b) = 32 \<and> meSum e = hex_encode (sha b))"

lemma manifest_loop_lines:
  "\<forall>e \<in> set es. entry_ok sha e \<Longrightarrow> manifest_loop (map manifest_line es @ [[]]) i out = Inr (out @ es)"
proof (induction es arbitrary: i out)
  case Nil
  then show ?case by (simp add: TrimSpace_def trim_left.simps)
next
  case (Cons e es)
  then obtain b where b: "name_ok (meName e)" "length (sha b) = 32" "meSum e = hex_encode (sha b)"
    by (auto simp: entry_ok_def)
  have "manifest_line e = manifest_line \<lparr>meSum = hex_encode (sha b), meName = meName e\<rparr>"
    by (simp add: manifest_line_def b(3))
  note line = manifest_line_read [of sha b "meName e" "manifest_line e", OF b(2,1) this]
  show ?case using line b(3) Cons.IH Cons.prems by simp
qed

lemma manifest_text_lines:
  assumes "\<forall>e \<in> set es. entry_ok sha e"
  shows "split_char (CHR 0x0A) (concat (map (\<lambda>e. manifest_line e @ [CHR 0x0A]) es)) = map manifest_line es @ [[]]"
proof -
  have "\<forall>l \<in> set (map manifest_line es). CHR 0x0A \<notin> set l"
    using assms manifest_line_read(3) by (fastforce simp: entry_ok_def manifest_line_def)
  then show ?thesis using split_char_concat [of "map manifest_line es"] by (simp add: comp_def)
qed

lemma manifestEntries_ok:
  assumes "dir_names_ok dir" "\<forall>b. length (sha b) = 32" "e \<in> set (manifestEntries sha dir)"
  shows "entry_ok sha e"
proof -
  obtain n b where "(n, b) \<in> set dir" "n \<noteq> ManifestFile" "e = \<lparr>meSum = hex_encode (sha b), meName = n\<rparr>"
    using assms(3) by (auto simp: manifestEntries_def)
  then show ?thesis using assms(1,2) by (force simp: entry_ok_def dir_names_ok_def)
qed

lemma filter_update: "filter (\<lambda>(n, b). n \<noteq> k) (AList.update k v dir) = filter (\<lambda>(n, b). n \<noteq> k) dir"
  by (induction dir) auto

lemma manifestEntries_Write: "manifestEntries sha (WriteManifest sha dir) = manifestEntries sha dir"
  by (simp add: manifestEntries_def WriteManifest_def filter_update)

lemma ReadManifest_of:
  assumes "dir_names_ok dir" "\<forall>b. length (sha b) = 32"
    and "map_of dir' ManifestFile = map_of (WriteManifest sha dir) ManifestFile"
  shows "ReadManifest dir' = Inr (manifestEntries sha dir)"
proof -
  have ok: "\<forall>e \<in> set (manifestEntries sha dir). entry_ok sha e" using manifestEntries_ok [OF assms(1,2)] by blast
  have "map_of dir' ManifestFile =
      Some (bytes_of (concat (map (\<lambda>e. manifest_line e @ [CHR 0x0A]) (manifestEntries sha dir))))"
    using assms(3) by (simp add: WriteManifest_def update_conv')
  then show ?thesis
    using manifest_loop_lines [OF ok] by (simp add: ReadManifest_def manifest_text_lines [OF ok])
qed

lemma set_manifestEntries: "set (manifestEntries sha dir) =
    (\<lambda>(n, b). \<lparr>meSum = hex_encode (sha b), meName = n\<rparr>) ` {(n, b) \<in> set dir. n \<noteq> ManifestFile}"
  by (auto simp: manifestEntries_def)

lemma distinct_map_sort_key: "distinct (map g (sort_key f xs)) \<longleftrightarrow> distinct (map g xs)"
  by (rule mset_eq_imp_distinct_iff) simp

lemma sums_by_name_entries:
  assumes "distinct (map fst dir)" "n \<noteq> ManifestFile"
  shows "sums_by_name (manifestEntries sha dir) n = map_option (\<lambda>b. hex_encode (sha b)) (map_of dir n)"
proof -
  let ?es = "manifestEntries sha dir"
  have "distinct (map meName (map (\<lambda>(n, b). \<lparr>meSum = hex_encode (sha b), meName = n\<rparr>)
      (filter (\<lambda>(n, b). n \<noteq> ManifestFile) dir)))"
    using assms(1) by (induction dir) (auto, force)
  then have dist: "distinct (map meName ?es)"
    unfolding manifestEntries_def by (simp only: distinct_map_sort_key)
  then have d: "distinct (map fst (rev (map (\<lambda>e. (meName e, meSum e)) ?es)))"
    by (simp add: comp_def flip: rev_map)
  show ?thesis
  proof (cases "map_of dir n")
    case None
    then have "n \<notin> fst ` set dir" by (simp add: map_of_eq_None_iff)
    then have "n \<notin> meName ` set ?es" by (auto simp: set_manifestEntries image_iff)
    then have "sums_by_name ?es n = None" by (simp add: sums_by_name_def map_of_eq_None_iff image_image)
    then show ?thesis by (simp only: None option.map)
  next
    case (Some b)
    then have "(n, b) \<in> set dir" by (rule map_of_SomeD)
    then have "\<lparr>meSum = hex_encode (sha b), meName = n\<rparr> \<in> set ?es"
      using assms(2) by (auto simp: set_manifestEntries)
    then have "(n, hex_encode (sha b)) \<in> set (rev (map (\<lambda>e. (meName e, meSum e)) ?es))" by force
    then show ?thesis using Some map_of_is_SomeI [OF d] by (simp add: sums_by_name_def)
  qed
qed

lemma listed_loop_ok: "vrOK (listed_loop actual es rep) \<longleftrightarrow>
    vrOK rep \<and> (\<forall>e \<in> set es. sums_by_name actual (meName e) = Some (meSum e))"
  by (induction es arbitrary: rep)
     (auto simp: Let_def file_check_def fault_problem_def add_problem_def split: option.splits)

lemma unlisted_loop_ok: "vrOK (unlisted_loop names es rep) \<longleftrightarrow> vrOK rep \<and> meName ` set es \<subseteq> set names"
  by (induction es arbitrary: rep) (auto simp: Let_def fault_problem_def add_problem_def)

lemma verifyManifest_ok:
  assumes "ReadManifest dir = Inr listed" "verifyManifest sha dir rep = Inr rep'"
  shows "vrOK rep' \<longleftrightarrow> vrOK rep \<and>
    (\<forall>e \<in> set listed. sums_by_name (manifestEntries sha dir) (meName e) = Some (meSum e)) \<and>
    meName ` set (manifestEntries sha dir) \<subseteq> meName ` set listed"
proof -
  let ?actual = "manifestEntries sha dir"
  have "vrOK rep' = vrOK (unlisted_loop (map meName listed) ?actual (listed_loop ?actual listed rep))"
    using assms by (auto simp: verifyManifest_def Let_def)
  then show ?thesis by (simp only: unlisted_loop_ok listed_loop_ok set_map conj_assoc)
qed


text \<open>C6: the manifest pins the directory.  Against the manifest written for a directory, verification of any other
  directory runs to the end and passes exactly when the two hold the same files with the same contents: a
  changed byte, a missing file and a file slipped in are all refused, provided the digest does not collide on
  the files involved.\<close>

theorem verifyManifest_iff:
  assumes "dir_names_ok dir" "\<forall>b. length (sha b) = 32"
    and "map_of dir' ManifestFile = map_of (WriteManifest sha dir) ManifestFile" "distinct (map fst dir')"
    and "\<forall>x \<in> ran (map_of dir). \<forall>y \<in> ran (map_of dir'). sha x = sha y \<longrightarrow> x = y"
  shows "\<exists>rep'. verifyManifest sha dir' rep = Inr rep' \<and>
    (vrOK rep' \<longleftrightarrow> vrOK rep \<and> (\<forall>n. n \<noteq> ManifestFile \<longrightarrow> map_of dir' n = map_of dir n))"
proof -
  note read = ReadManifest_of [OF assms(1-3)]
  obtain rep' where rep': "verifyManifest sha dir' rep = Inr rep'"
    by (simp add: verifyManifest_def read Let_def)
  have dist: "distinct (map fst dir)" using assms(1) by (simp add: dir_names_ok_def)
  note sums' = sums_by_name_entries [OF assms(4)]
  have entries: "set (manifestEntries sha d) =
      {\<lparr>meSum = hex_encode (sha b), meName = n\<rparr> | n b. map_of d n = Some b \<and> n \<noteq> ManifestFile}"
    if "distinct (map fst d)" for d
    using that by (force simp: set_manifestEntries image_iff)
  have listed: "(\<forall>e \<in> set (manifestEntries sha dir). sums_by_name (manifestEntries sha dir') (meName e) = Some (meSum e)) \<longleftrightarrow>
      (\<forall>n b. map_of dir n = Some b \<longrightarrow> n \<noteq> ManifestFile \<longrightarrow> map_of dir' n = Some b)"
    using assms(5) by (fastforce simp: entries [OF dist] sums' hex_encode_inj ran_def)
  have names: "meName ` set (manifestEntries sha d) = dom (map_of d) - {ManifestFile}" if "distinct (map fst d)" for d
    using entries [OF that] by force
  have "vrOK rep' \<longleftrightarrow> vrOK rep \<and> (\<forall>n b. map_of dir n = Some b \<longrightarrow> n \<noteq> ManifestFile \<longrightarrow> map_of dir' n = Some b) \<and>
      dom (map_of dir') - {ManifestFile} \<subseteq> dom (map_of dir) - {ManifestFile}"
    by (simp only: verifyManifest_ok [OF read rep'] listed names [OF dist] names [OF assms(4)])
  also have "\<dots> \<longleftrightarrow> vrOK rep \<and> (\<forall>n. n \<noteq> ManifestFile \<longrightarrow> map_of dir' n = map_of dir n)"
    by (rule conj_cong [OF refl]) (auto simp: dom_def subset_iff, metis not_Some_eq)
  finally show ?thesis using rep' by blast
qed


definition one_sha :: sha256 where
  "one_sha b = replicate 32 (case b of [x] \<Rightarrow> x | _ \<Rightarrow> 0)"

text \<open>A bundle of one file, checked as it is and with the file grown by a byte.\<close>

theorem verifyManifest_iff_witness:
  "(\<exists>rep'. verifyManifest one_sha (WriteManifest one_sha [(''a.pcapng'', [1])]) new_report = Inr rep' \<and> vrOK rep') \<and>
   (\<exists>rep'. verifyManifest one_sha ((''a.pcapng'', [1, 2]) # tl (WriteManifest one_sha [(''a.pcapng'', [1])]))
      new_report = Inr rep' \<and> \<not> vrOK rep')"
proof -
  let ?dir = "[(''a.pcapng'', [1])] :: directory" and ?m = "WriteManifest one_sha [(''a.pcapng'', [1])]"
  have "TrimSpace ''a.pcapng'' = ''a.pcapng''" by code_simp
  then have ok: "dir_names_ok ?dir" by (simp add: dir_names_ok_def name_ok_def)
  have sha: "\<forall>b. length (one_sha b) = 32" by (simp add: one_sha_def)
  obtain t where m: "?m = [(''a.pcapng'', [1]), (ManifestFile, t)]"
    by (simp add: WriteManifest_def ManifestFile_def)
  have inj: "\<forall>x \<in> ran (map_of ?dir). \<forall>y \<in> A. one_sha x = one_sha y \<longrightarrow> x = y" for A
    by (auto simp: one_sha_def ran_def split: list.splits if_splits)
  have dist: "distinct (map fst ?m)" "distinct (map fst ((''a.pcapng'', [1, 2]) # tl ?m))"
    by (simp_all add: m ManifestFile_def)
  have "\<exists>rep'. verifyManifest one_sha ?m new_report = Inr rep' \<and> vrOK rep'"
    using verifyManifest_iff [OF ok sha refl dist(1) inj, of new_report] by (auto simp: m new_report_def)
  moreover have "map_of ((''a.pcapng'', [1, 2]) # tl ?m) ManifestFile = map_of ?m ManifestFile"
    by (simp add: m ManifestFile_def)
  then have "\<exists>rep'. verifyManifest one_sha ((''a.pcapng'', [1, 2]) # tl ?m) new_report = Inr rep' \<and> \<not> vrOK rep'"
    using verifyManifest_iff [OF ok sha _ dist(2) inj, of new_report]
    by (auto simp: ManifestFile_def dest: spec [of _ "''a.pcapng''"])
  ultimately show ?thesis by blast
qed

end
