(* ===== verification/Certify_Window.thy ===== *)
theory Certify_Window
  imports Bundle_Verify
begin

text \<open>
  \<^verbatim>\<open>internal/certify/window.go\<close>: which frames of the run's capture belong to which check.  A window is an
  interval of time together with the connections its check opened; a frame belongs to a check when both its
  time and its 4-tuple say so, and afterwards every physical connection is given whole to one check.

  A time is the \<^verbatim>\<open>gotime\<close> of the capture reader, which is the wall reading (the monotonic reading that Go
  keeps beside it, and that decides between the start and the end of one window when the wall clock is stepped, is
  left out); a duration is an unbounded number of nanoseconds; a \<^verbatim>\<open>netip.AddrPort\<close> is an endpoint whose address
  may be the zero value; a connection instance is its endpoint pair with its generation, where the code uses
  their text.  The clock is an argument of the operations that read it.  Go ranges over a map in any order and
  in another order each time: \<open>ranges\<close> gives the enumeration of the map of frame sets that each execution of
  each range statement happens to use, and the theorems hold for all of them.
\<close>

section \<open>Time\<close>

definition nanos :: "gotime \<Rightarrow> int" where "nanos t = fst t * 10 ^ 9 + int (snd t)"

definition time_add :: "gotime \<Rightarrow> int \<Rightarrow> gotime" where
  "time_add t d = ((nanos t + d) div 10 ^ 9, nat ((nanos t + d) mod 10 ^ 9))"

definition Before :: "gotime \<Rightarrow> gotime \<Rightarrow> bool" where "Before t u \<longleftrightarrow> nanos t < nanos u"

definition DefaultGuard :: int where "DefaultGuard = 250 * 10 ^ 6"

section \<open>Claims\<close>

type_synonym uid = string

datatype precision = PrecisionConnection | PrecisionEndpoint | PrecisionNone

record connClaim =
  ccProto :: string
  ccLocal :: endpoint
  ccRemote :: endpoint
  ccNote :: string
  ccAt :: gotime

definition addrPortOrAny :: "(addr \<Rightarrow> string) \<Rightarrow> endpoint \<Rightarrow> string" where
  "addrPortOrAny astr a =
    (if epAddr a = InvalidAddr \<and> epPort a = 0 then ''*:*''
     else if epAddr a = InvalidAddr then ''*:'' @ decimal (unat (epPort a))
     else if epPort a = 0 then astr (epAddr a) @ '':*''
     else endpoint_string astr a)"

definition claim_string :: "(addr \<Rightarrow> string) \<Rightarrow> connClaim \<Rightarrow> string" where
  "claim_string astr c =
    (let s = ccProto c @ '' '' @ addrPortOrAny astr (ccLocal c) @ '' <> '' @ addrPortOrAny astr (ccRemote c)
     in if ccNote c \<noteq> [] then s @ '' ('' @ ccNote c @ '')'' else s)"

text \<open>\<^verbatim>\<open>netip.Addr.Unmap\<close>: an IPv4 address mapped into IPv6 is that IPv4 address.\<close>

definition Unmap :: "addr \<Rightarrow> addr" where
  "Unmap a = (case a of IPv6Addr w \<Rightarrow> if drop_bit 32 w = 0xFFFF then IPv4Addr (ucast w) else a | _ \<Rightarrow> a)"

definition endpointMatches :: "endpoint \<Rightarrow> endpoint \<Rightarrow> bool" where
  "endpointMatches want got =
    (if epAddr want \<noteq> InvalidAddr \<and> Unmap (epAddr want) \<noteq> Unmap (epAddr got) then False
     else if epPort want \<noteq> 0 \<and> epPort want \<noteq> epPort got then False
     else True)"

definition either_way :: "connClaim \<Rightarrow> endpoint \<Rightarrow> endpoint \<Rightarrow> bool" where
  "either_way c src dst \<longleftrightarrow>
    endpointMatches (ccLocal c) src \<and> endpointMatches (ccRemote c) dst \<or>
    endpointMatches (ccLocal c) dst \<and> endpointMatches (ccRemote c) src"

definition claim_matches :: "connClaim \<Rightarrow> frame \<Rightarrow> bool" where
  "claim_matches c f =
    (case frTCP f of
       Some t \<Rightarrow>
         if ccProto c \<noteq> [] \<and> ccProto c \<noteq> ''tcp'' then False
         else either_way c (Endpoint (frSrc f) (tcSrcPort t)) (Endpoint (frDst f) (tcDstPort t))
     | None \<Rightarrow>
         (case frUDP f of
            Some u \<Rightarrow>
              if ccProto c \<noteq> [] \<and> ccProto c \<noteq> ''udp'' then False
              else either_way c (Endpoint (frSrc f) (udSrcPort u)) (Endpoint (frDst f) (udDstPort u))
          | None \<Rightarrow> False))"

definition full_endpoint :: "endpoint \<Rightarrow> bool" where
  "full_endpoint a \<longleftrightarrow> epAddr a \<noteq> InvalidAddr \<and> epPort a \<noteq> 0"

definition specificity :: "connClaim \<Rightarrow> int" where
  "specificity c =
    (if full_endpoint (ccLocal c) \<and> full_endpoint (ccRemote c) then 2
     else if full_endpoint (ccLocal c) \<or> full_endpoint (ccRemote c) then 1
     else 0)"

section \<open>Windows\<close>

record checkWindow =
  wnUID :: uid
  wnSuite :: string
  wnGuard :: int
  wnStart :: gotime
  wnEnd :: gotime
  wnClaims :: "connClaim list"
  wnLoose :: nat
  wnReason :: string

definition NewWindow :: "uid \<Rightarrow> string \<Rightarrow> checkWindow" where
  "NewWindow u suite = \<lparr>wnUID = u, wnSuite = suite, wnGuard = 0, wnStart = zero_time, wnEnd = zero_time,
     wnClaims = [], wnLoose = 0, wnReason = []\<rparr>"

definition Open :: "gotime \<Rightarrow> checkWindow \<Rightarrow> checkWindow" where
  "Open t w = w\<lparr>wnStart := t\<rparr>"

definition Close :: "gotime \<Rightarrow> checkWindow \<Rightarrow> checkWindow" where
  "Close t w = (if Before (wnEnd w) t then w\<lparr>wnEnd := t\<rparr> else w)"

definition guard :: "checkWindow \<Rightarrow> int" where
  "guard w = (if wnGuard w = 0 then DefaultGuard else if wnGuard w < 0 then 0 else wnGuard w)"

definition interval :: "checkWindow \<Rightarrow> int \<Rightarrow> gotime \<times> gotime" where
  "interval w g =
    (if wnStart w = zero_time then (zero_time, zero_time)
     else
       let e = (if wnEnd w = zero_time \<or> Before (wnEnd w) (wnStart w) then wnStart w else wnEnd w)
       in (time_add (wnStart w) (- g), time_add e g))"

definition Interval :: "checkWindow \<Rightarrow> gotime \<times> gotime" where
  "Interval w = interval w (guard w)"

definition ClaimAddrs :: "string \<Rightarrow> endpoint \<Rightarrow> endpoint \<Rightarrow> string \<Rightarrow> gotime \<Rightarrow> checkWindow \<Rightarrow> checkWindow" where
  "ClaimAddrs proto local remote note now w =
    (let c = \<lparr>ccProto = proto, ccLocal = local, ccRemote = remote, ccNote = note, ccAt = now\<rparr>;
         w1 = w\<lparr>wnClaims := wnClaims w @ [c]\<rparr>
     in if specificity c < 2 then w1\<lparr>wnLoose := wnLoose w1 + 1\<rparr> else w1)"

text \<open>The addresses of a socket as the runtime reports them: the two concrete types with the raw bytes of
  the address and an unbounded port, and any other type, whose text is parsed by \<^verbatim>\<open>netip.ParseAddrPort\<close>.\<close>

datatype netAddr = NilAddr | TCPAddr bytes int | UDPAddr bytes int | OtherAddr string string

datatype window_error =
    ClaimNilConn
  | NilAddress
  | UnparseableAddr bytes
  | NotAnIPPort string string
  | UnreadableAddrs string "window_error option" "window_error option"
  | EndpointNotFull endpoint
  | NoReason

definition AddrFromSlice :: "bytes \<Rightarrow> addr option" where
  "AddrFromSlice ip =
    (if length ip = 4 then Some (AddrFrom4 ip) else if length ip = 16 then Some (AddrFrom16 ip) else None)"

definition addrPortOf :: "(string \<Rightarrow> endpoint option) \<Rightarrow> netAddr \<Rightarrow> window_error + endpoint" where
  "addrPortOf parse a =
    (case a of
       NilAddr \<Rightarrow> Inl NilAddress
     | TCPAddr ip port \<Rightarrow>
         (case AddrFromSlice ip of None \<Rightarrow> Inl (UnparseableAddr ip)
          | Some x \<Rightarrow> Inr (Endpoint (Unmap x) (word_of_int port)))
     | UDPAddr ip port \<Rightarrow>
         (case AddrFromSlice ip of None \<Rightarrow> Inl (UnparseableAddr ip)
          | Some x \<Rightarrow> Inr (Endpoint (Unmap x) (word_of_int port)))
     | OtherAddr s network \<Rightarrow>
         (case parse s of None \<Rightarrow> Inl (NotAnIPPort s network)
          | Some ap \<Rightarrow> Inr (Endpoint (Unmap (epAddr ap)) (epPort ap))))"

text \<open>A connection is its two addresses and whether it is a packet connection; \<open>None\<close> is nil.\<close>

definition sum_error :: "'e + 'a \<Rightarrow> 'e option" where
  "sum_error r = (case r of Inl e \<Rightarrow> Some e | Inr _ \<Rightarrow> None)"

definition ClaimConn :: "(string \<Rightarrow> endpoint option) \<Rightarrow> (netAddr \<times> netAddr \<times> bool) option \<Rightarrow> string \<Rightarrow> gotime \<Rightarrow>
    checkWindow \<Rightarrow> window_error option \<times> checkWindow" where
  "ClaimConn parse conn note now w =
    (case conn of
       None \<Rightarrow> (Some ClaimNilConn, w)
     | Some (la, ra, packet) \<Rightarrow>
         (case (addrPortOf parse la, addrPortOf parse ra) of
            (Inr local, Inr remote) \<Rightarrow>
              (None, ClaimAddrs (if packet then ''udp'' else ''tcp'') local remote note now w)
          | (l, r) \<Rightarrow> (Some (UnreadableAddrs note (sum_error l) (sum_error r)), w)))"

definition ClaimEndpointDuring :: "string \<Rightarrow> endpoint \<Rightarrow> string \<Rightarrow> gotime \<Rightarrow> checkWindow \<Rightarrow> window_error option \<times> checkWindow" where
  "ClaimEndpointDuring proto remote reason now w =
    (if epAddr remote = InvalidAddr \<or> epPort remote = 0 then (Some (EndpointNotFull remote), w)
     else if TrimSpace reason = [] then (Some NoReason, w)
     else
       let c = \<lparr>ccProto = proto, ccLocal = Endpoint InvalidAddr 0, ccRemote = remote, ccNote = reason, ccAt = now\<rparr>;
           w1 = w\<lparr>wnClaims := wnClaims w @ [c], wnLoose := wnLoose w + 1\<rparr>
       in (None, if wnReason w1 = [] then w1\<lparr>wnReason := reason\<rparr> else w1))"

definition Precision :: "checkWindow \<Rightarrow> precision" where
  "Precision w =
    (if wnClaims w = [] then PrecisionNone
     else if wnLoose w > 0 then PrecisionEndpoint
     else PrecisionConnection)"

text \<open>The loop of \<^verbatim>\<open>Window.matches\<close>: the best specificity of a claim that matches, starting from -1.\<close>

fun best_claim :: "frame \<Rightarrow> connClaim list \<Rightarrow> int \<Rightarrow> int" where
  "best_claim f [] best = best"
| "best_claim f (c # cs) best =
    best_claim f cs (if claim_matches c f \<and> specificity c > best then specificity c else best)"

definition window_matches :: "checkWindow \<Rightarrow> frame \<Rightarrow> bool \<Rightarrow> bool \<times> int" where
  "window_matches w f withGuard =
    (let (start, end') = interval w (if withGuard then guard w else 0) in
     if start = zero_time then (False, 0)
     else if Before (frTime f) start \<or> Before end' (frTime f) then (False, 0)
     else
       let best = best_claim f (wnClaims w) (- 1)
       in if best < 0 then (False, 0) else (True, best))"

definition inInterval :: "checkWindow \<Rightarrow> gotime \<Rightarrow> bool" where
  "inInterval w t =
    (let (start, end') = interval w (guard w)
     in start \<noteq> zero_time \<and> \<not> Before t start \<and> \<not> Before end' t)"

section \<open>Frame sets and the attribution\<close>

type_synonym instance_key = "streamKey \<times> nat"

record frameSet =
  fsUID :: uid
  fsSuite :: string
  fsPrecision :: precision
  fsStart :: gotime
  fsEnd :: gotime
  fsFrames :: "nat list"
  fsStreams :: "instance_key list"
  fsTimeOnlyRejected :: nat
  fsContested :: "nat list"
  fsConsolidated :: nat
  fsClaims :: "string list"
  fsEndpointReason :: string
  fsOwns :: "nat \<Rightarrow> bool"

text \<open>The map of stream sets beside the attribution is a function from a check to a list without
  duplicates.\<close>

record attribution =
  atSets :: "uid \<rightharpoonup> frameSet"
  atContested :: "nat \<rightharpoonup> uid list"
  atAmbiguous :: "(instance_key \<times> uid list) list"
  atUnattributed :: nat
  atFrames :: nat

type_synonym streams = "uid \<Rightarrow> instance_key list"

definition empty_set :: "uid \<Rightarrow> frameSet" where
  "empty_set u = \<lparr>fsUID = u, fsSuite = [], fsPrecision = PrecisionNone, fsStart = zero_time,
     fsEnd = zero_time, fsFrames = [], fsStreams = [], fsTimeOnlyRejected = 0, fsContested = [],
     fsConsolidated = 0, fsClaims = [], fsEndpointReason = [], fsOwns = (\<lambda>_. False)\<rparr>"

definition att_Set :: "attribution \<Rightarrow> uid \<Rightarrow> frameSet" where
  "att_Set att u = (case atSets att u of Some s \<Rightarrow> s | None \<Rightarrow> empty_set u)"

definition owns :: "attribution \<Rightarrow> uid \<Rightarrow> nat \<Rightarrow> bool" where
  "owns att u n \<longleftrightarrow> (case atSets att u of Some s \<Rightarrow> fsOwns s n | None \<Rightarrow> False)"

definition on_set :: "uid \<Rightarrow> (frameSet \<Rightarrow> frameSet) \<Rightarrow> attribution \<Rightarrow> attribution" where
  "on_set u g att = att\<lparr>atSets := (atSets att)(u := map_option g (atSets att u))\<rparr>"

definition open_set :: "(addr \<Rightarrow> string) \<Rightarrow> checkWindow \<Rightarrow> frameSet" where
  "open_set astr w =
    (empty_set (wnUID w))\<lparr>fsSuite := wnSuite w, fsPrecision := Precision w, fsStart := fst (Interval w),
      fsEnd := snd (Interval w), fsEndpointReason := wnReason w,
      fsClaims := map (claim_string astr) (wnClaims w)\<rparr>"

definition new_attribution :: "(addr \<Rightarrow> string) \<Rightarrow> checkWindow list \<Rightarrow> nat \<Rightarrow> attribution" where
  "new_attribution astr wins n =
    \<lparr>atSets = fold (\<lambda>w m. m(wnUID w \<mapsto> open_set astr w)) wins Map.empty, atContested = Map.empty,
     atAmbiguous = [], atUnattributed = 0, atFrames = n\<rparr>"

section \<open>The two-signal rule\<close>

text \<open>\<^verbatim>\<open>narrow\<close>: the windows that match without the guard; then the strictly most specific claim.\<close>

fun top_loop :: "(uid \<Rightarrow> int) \<Rightarrow> checkWindow list \<Rightarrow> int \<Rightarrow> nat \<Rightarrow> checkWindow option \<Rightarrow> nat \<times> checkWindow option" where
  "top_loop spec [] high k best = (k, best)"
| "top_loop spec (w # ws) high k best =
    (if spec (wnUID w) > high then top_loop spec ws (spec (wnUID w)) 1 (Some w)
     else if spec (wnUID w) = high then top_loop spec ws high (k + 1) best
     else top_loop spec ws high k best)"

definition narrow :: "checkWindow list \<Rightarrow> frame \<Rightarrow> (uid \<Rightarrow> int) \<Rightarrow> checkWindow option" where
  "narrow winners f spec =
    (let strict = filter (\<lambda>w. fst (window_matches w f False)) winners in
     if length strict = 1 then Some (hd strict)
     else
       let (k, best) = top_loop spec (if strict = [] then winners else strict) (- 1) 0 None
       in if k = 1 then best else None)"

definition assign :: "assembler \<Rightarrow> uid \<Rightarrow> frame \<Rightarrow> attribution \<times> streams \<Rightarrow> attribution \<times> streams" where
  "assign asm u f s =
    (on_set u (\<lambda>fs. fs\<lparr>fsFrames := fsFrames fs @ [frIndex f], fsOwns := (fsOwns fs)(frIndex f := True)\<rparr>) (fst s),
     case StreamFor asm (frIndex f) of
       None \<Rightarrow> snd s
     | Some st \<Rightarrow> (snd s)(u := List.insert (InstanceKey st) (snd s u)))"

text \<open>The loop over the windows for one frame: the windows that want it, their specificity by check, and the
  near misses counted on the way.\<close>

fun want_loop :: "frame \<Rightarrow> checkWindow list \<Rightarrow> checkWindow list \<Rightarrow> (uid \<Rightarrow> int) \<Rightarrow> attribution \<Rightarrow>
    checkWindow list \<times> (uid \<Rightarrow> int) \<times> attribution" where
  "want_loop f [] winners spec att = (winners, spec, att)"
| "want_loop f (w # ws) winners spec att =
    (case window_matches w f True of
       (True, s) \<Rightarrow> want_loop f ws (winners @ [w]) (spec(wnUID w := s)) att
     | (False, _) \<Rightarrow>
         want_loop f ws winners spec
           (if inInterval w (frTime f)
            then on_set (wnUID w) (\<lambda>fs. fs\<lparr>fsTimeOnlyRejected := fsTimeOnlyRejected fs + 1\<rparr>) att
            else att))"

definition contest :: "checkWindow list \<Rightarrow> frame \<Rightarrow> attribution \<Rightarrow> attribution" where
  "contest winners f att =
    (let att1 = fold (\<lambda>w. on_set (wnUID w) (\<lambda>fs. fs\<lparr>fsContested := fsContested fs @ [frIndex f]\<rparr>)) winners att
     in att1\<lparr>atContested := (atContested att1)(frIndex f \<mapsto> sort (map wnUID winners))\<rparr>)"

definition attribute_frame :: "checkWindow list \<Rightarrow> assembler \<Rightarrow> frame \<Rightarrow> attribution \<times> streams \<Rightarrow>
    attribution \<times> streams" where
  "attribute_frame wins asm f s =
    (case want_loop f wins [] (\<lambda>_. 0) (fst s) of
       ([], _, att) \<Rightarrow> (att\<lparr>atUnattributed := atUnattributed att + 1\<rparr>, snd s)
     | ([w], _, att) \<Rightarrow> assign asm (wnUID w) f (att, snd s)
     | (winners, spec, att) \<Rightarrow>
         (case narrow winners f spec of
            Some w \<Rightarrow> assign asm (wnUID w) f (att, snd s)
          | None \<Rightarrow> (contest winners f att, snd s)))"

section \<open>Giving each connection to one check\<close>

text \<open>The range statements over the map of frame sets, and the enumeration each execution of one uses: by the
  frame it is executed for, or for the vote by the first frame of the connection.\<close>

datatype range_site = Counting | Splitting | Stripping | Voting

type_synonym ranges = "range_site \<Rightarrow> nat \<Rightarrow> uid list"

definition first_owner :: "attribution \<Rightarrow> uid list \<Rightarrow> nat \<Rightarrow> uid option" where
  "first_owner att us n = find (\<lambda>u. owns att u n) us"

record frameGroup =
  fgFrames :: "frame list"
  fgByUID :: "(uid \<times> nat) list"

definition inc :: "uid \<Rightarrow> (uid \<times> nat) list \<Rightarrow> (uid \<times> nat) list" where
  "inc u m = AList.update u (case map_of m u of None \<Rightarrow> 1 | Some n \<Rightarrow> n + 1) m"

type_synonym groups = "(instance_key \<times> frameGroup) list"

text \<open>The map of groups together with the order in which they were first seen is one association list.\<close>

definition group_frame :: "ranges \<Rightarrow> attribution \<Rightarrow> assembler \<Rightarrow> frame \<Rightarrow> groups \<Rightarrow> groups" where
  "group_frame rng att asm f gs =
    (case StreamFor asm (frIndex f) of
       None \<Rightarrow> gs
     | Some st \<Rightarrow>
         let g = (case map_of gs (InstanceKey st) of None \<Rightarrow> \<lparr>fgFrames = [], fgByUID = []\<rparr> | Some g \<Rightarrow> g);
             g1 = g\<lparr>fgFrames := fgFrames g @ [f]\<rparr>;
             g2 = (case first_owner att (rng Counting (frIndex f)) (frIndex f) of
                     None \<Rightarrow> g1
                   | Some u \<Rightarrow> g1\<lparr>fgByUID := inc u (fgByUID g1)\<rparr>)
         in AList.update (InstanceKey st) g2 gs)"

fun transitions :: "uid list \<Rightarrow> nat" where
  "transitions (u # v # seq) = (if v \<noteq> u then 1 else 0) + transitions (v # seq)"
| "transitions _ = 0"

definition cleanSplit :: "ranges \<Rightarrow> attribution \<Rightarrow> frame list \<Rightarrow> bool" where
  "cleanSplit rng att frames =
    (let seq = List.map_filter (\<lambda>f. first_owner att (rng Splitting (frIndex f)) (frIndex f)) frames
     in if seq = [] then True else transitions seq = length (remdups seq) - 1)"

definition disown :: "uid \<Rightarrow> nat \<Rightarrow> attribution \<Rightarrow> attribution" where
  "disown u n = on_set u (\<lambda>fs. fs\<lparr>fsOwns := (fsOwns fs)(n := False), fsFrames := remove1 n (fsFrames fs)\<rparr>)"

definition forget :: "uid list \<Rightarrow> instance_key \<Rightarrow> streams \<Rightarrow> streams" where
  "forget us key streams = (\<lambda>u. if u \<in> set us then removeAll key (streams u) else streams u)"

definition mark_frame :: "uid list \<Rightarrow> frame \<Rightarrow> attribution \<Rightarrow> attribution" where
  "mark_frame us f att =
    (let n = frIndex f; owner = (case first_owner att us n of None \<Rightarrow> [] | Some u \<Rightarrow> u) in
     if owner = [] then att
     else
       let att1 = disown owner n att;
           att2 = att1\<lparr>atContested := (atContested att1)(n \<mapsto> us)\<rparr>
       in fold (\<lambda>u. on_set u (\<lambda>fs. fs\<lparr>fsContested := fsContested fs @ [n]\<rparr>)) us att2)"

definition markAmbiguous :: "instance_key \<Rightarrow> frameGroup \<Rightarrow> attribution \<times> streams \<Rightarrow> attribution \<times> streams" where
  "markAmbiguous key g s =
    (let us = sort (map fst (fgByUID g));
         att = fold (mark_frame us) (fgFrames g) (fst s)
     in (att\<lparr>atAmbiguous := atAmbiguous att @ [(key, us)]\<rparr>, forget us key (snd s)))"

text \<open>The majority vote, ties broken by the smaller check.\<close>

fun vote :: "(uid \<times> nat) list \<Rightarrow> uid list \<Rightarrow> uid \<Rightarrow> int \<Rightarrow> uid" where
  "vote m [] winner best = winner"
| "vote m (u # us) winner best =
    (case map_of m u of
       None \<Rightarrow> vote m us winner best
     | Some n \<Rightarrow>
         if int n > best \<or> int n = best \<and> u < winner then vote m us u (int n) else vote m us winner best)"

fun strip_loop :: "uid \<Rightarrow> nat \<Rightarrow> uid list \<Rightarrow> attribution \<Rightarrow> attribution" where
  "strip_loop winner n [] att = att"
| "strip_loop winner n (u # us) att =
    strip_loop winner n us
      (if u = winner \<or> \<not> owns att u n then att
       else on_set u (\<lambda>fs. fs\<lparr>fsConsolidated := fsConsolidated fs + 1\<rparr>) (disown u n att))"

definition hand_over :: "ranges \<Rightarrow> uid \<Rightarrow> frame \<Rightarrow> attribution \<Rightarrow> attribution" where
  "hand_over rng winner f att =
    (let n = frIndex f; att1 = strip_loop winner n (rng Stripping n) att
     in if owns att1 winner n then att1
        else on_set winner (\<lambda>fs. fs\<lparr>fsOwns := (fsOwns fs)(n := True), fsFrames := fsFrames fs @ [n]\<rparr>) att1)"

definition consolidate_group :: "ranges \<Rightarrow> instance_key \<times> frameGroup \<Rightarrow> attribution \<times> streams \<Rightarrow>
    attribution \<times> streams" where
  "consolidate_group rng kg s =
    (let (key, g) = kg in
     if length (fgByUID g) < 2 then s
     else if \<not> cleanSplit rng (fst s) (fgFrames g) then markAmbiguous key g s
     else
       let winner = vote (fgByUID g) (rng Voting (frIndex (hd (fgFrames g)))) [] (- 1) in
       if winner = [] then s
       else
         let att = fold (hand_over rng winner) (fgFrames g) (fst s);
             streams = forget (map fst (fgByUID g)) key (snd s)
         in (att, streams(winner := List.insert key (streams winner))))"

definition consolidateStreams :: "ranges \<Rightarrow> frame list \<Rightarrow> assembler \<Rightarrow> attribution \<times> streams \<Rightarrow>
    attribution \<times> streams" where
  "consolidateStreams rng frames asm s =
    fold (consolidate_group rng) (fold (group_frame rng (fst s) asm) frames []) s"

definition finish_set :: "(instance_key \<Rightarrow> string) \<Rightarrow> streams \<Rightarrow> uid \<Rightarrow> frameSet \<Rightarrow> frameSet" where
  "finish_set kstr streams u fs =
    fs\<lparr>fsFrames := sort (fsFrames fs), fsStreams := sort_key kstr (streams u)\<rparr>"

text \<open>The frames of the source are pointers, of which the nil ones are passed over in both passes.\<close>

definition attributeStreams :: "(addr \<Rightarrow> string) \<Rightarrow> (instance_key \<Rightarrow> string) \<Rightarrow> ranges \<Rightarrow> frame option list \<Rightarrow>
    checkWindow list \<Rightarrow> assembler \<Rightarrow> attribution" where
  "attributeStreams astr kstr rng pframes wins asm =
    (let frames = List.map_filter id pframes;
         s = fold (attribute_frame wins asm) frames (new_attribution astr wins (length pframes), \<lambda>_. []);
         (att, streams) = consolidateStreams rng frames asm s
     in att\<lparr>atSets := (\<lambda>u. map_option (finish_set kstr streams u) (atSets att u))\<rparr>)"

definition attribute :: "(addr \<Rightarrow> string) \<Rightarrow> (instance_key \<Rightarrow> string) \<Rightarrow> ranges \<Rightarrow> frame option list \<Rightarrow>
    checkWindow list \<Rightarrow> attribution" where
  "attribute astr kstr rng pframes wins =
    attributeStreams astr kstr rng pframes wins (fold (\<lambda>f a. AddFrame a f) (List.map_filter id pframes) NewAssembler)"

end
