(* ===== verification/Certify_Attribution.thy ===== *)
theory Certify_Attribution
  imports Certify_Window
begin

text \<open>
  What the attribution of \<^verbatim>\<open>internal/certify/window.go\<close> promises.  The abstract state is a partial function
  from frames to checks: \<open>decide\<close> is the two-signal rule for one frame, \<open>resolve\<close> the fate of one
  connection.  The maps of the code refine it whatever order its range statements use.
\<close>

section \<open>The abstract owner of a frame\<close>

definition wants :: "frame \<Rightarrow> checkWindow \<Rightarrow> bool" where
  "wants f w \<longleftrightarrow> fst (window_matches w f True)"

definition best_spec :: "frame \<Rightarrow> checkWindow list \<Rightarrow> (uid \<Rightarrow> int) \<Rightarrow> uid \<Rightarrow> int" where
  "best_spec f ws spec = fold (\<lambda>w s. s(wnUID w := snd (window_matches w f True))) ws spec"

definition decide :: "checkWindow list \<Rightarrow> frame \<Rightarrow> uid option" where
  "decide wins f =
    (let ws = filter (wants f) wins in
     if ws = [] then None
     else if length ws = 1 then Some (wnUID (hd ws))
     else map_option wnUID (narrow ws f (best_spec f ws (\<lambda>_. 0))))"

definition instance_of :: "assembler \<Rightarrow> frame \<Rightarrow> instance_key option" where
  "instance_of asm f = map_option InstanceKey (StreamFor asm (frIndex f))"

definition leads :: "uid list \<Rightarrow> uid \<Rightarrow> bool" where
  "leads seq u \<longleftrightarrow> u \<in> set seq \<and>
     (\<forall>v \<in> set seq. count_list seq v < count_list seq u \<or> count_list seq v = count_list seq u \<and> u \<le> v)"

definition majority :: "uid list \<Rightarrow> uid" where
  "majority seq = hd (filter (leads seq) seq)"

definition resolve :: "uid list \<Rightarrow> uid option \<Rightarrow> uid option" where
  "resolve seq here =
    (if length (remdups seq) < 2 then here
     else if distinct (remdups_adj seq) then Some (majority seq)
     else None)"

definition peers :: "assembler \<Rightarrow> frame list \<Rightarrow> instance_key \<Rightarrow> frame list" where
  "peers asm frames key = filter (\<lambda>g. instance_of asm g = Some key) frames"

definition frame_owner :: "checkWindow list \<Rightarrow> assembler \<Rightarrow> frame list \<Rightarrow> frame \<Rightarrow> uid option" where
  "frame_owner wins asm frames f =
    (case instance_of asm f of
       None \<Rightarrow> decide wins f
     | Some key \<Rightarrow> resolve (List.map_filter (decide wins) (peers asm frames key)) (decide wins f))"

section \<open>Frame sets hold an ownership\<close>

definition set_holds :: "(nat \<Rightarrow> uid option) \<Rightarrow> uid \<Rightarrow> frameSet \<Rightarrow> bool" where
  "set_holds ow u fs \<longleftrightarrow> distinct (fsFrames fs) \<and> (\<forall>n. n \<in> set (fsFrames fs) \<longleftrightarrow> ow n = Some u) \<and>
     (\<forall>n. fsOwns fs n \<longleftrightarrow> ow n = Some u)"

definition held :: "uid set \<Rightarrow> attribution \<Rightarrow> (nat \<Rightarrow> uid option) \<Rightarrow> bool" where
  "held U att ow \<longleftrightarrow> dom (atSets att) = U \<and> (\<forall>n u. ow n = Some u \<longrightarrow> u \<in> U) \<and>
     (\<forall>u fs. atSets att u = Some fs \<longrightarrow> set_holds ow u fs)"

lemma held_owns: "held U att ow \<Longrightarrow> owns att u n \<longleftrightarrow> ow n = Some u"
  by (cases "atSets att u") (auto simp: held_def owns_def set_holds_def)

lemma held_range: "held U att ow \<Longrightarrow> ow n = Some u \<Longrightarrow> u \<in> U"
  by (auto simp: held_def)

lemma held_on_set:
  assumes "held U att ow" "\<And>fs. set_holds ow u fs \<Longrightarrow> set_holds ow' u (g fs)"
    and "\<And>v n. v \<noteq> u \<Longrightarrow> ow' n = Some v \<longleftrightarrow> ow n = Some v" "\<And>n. ow' n = Some u \<Longrightarrow> u \<in> U"
  shows "held U (on_set u g att) ow'"
  unfolding held_def
proof (intro conjI allI impI)
  show "dom (atSets (on_set u g att)) = U" using assms(1) by (auto simp: held_def on_set_def)
  show "v \<in> U" if "ow' n = Some v" for n v
    using assms(1,3,4) that by (cases "v = u") (auto simp: held_def)
  show "set_holds ow' v fs" if "atSets (on_set u g att) v = Some fs" for v fs
    using assms that by (cases "v = u") (auto simp: held_def on_set_def set_holds_def)
qed

lemma held_fields [simp]:
  "held U (att\<lparr>atUnattributed := k\<rparr>) ow = held U att ow"
  "held U (att\<lparr>atContested := c\<rparr>) ow = held U att ow"
  "held U (att\<lparr>atAmbiguous := x\<rparr>) ow = held U att ow"
  by (simp_all add: held_def)

lemma held_keep:
  assumes "held U att ow" "\<And>fs. fsFrames (g fs) = fsFrames fs" "\<And>fs. fsOwns (g fs) = fsOwns fs"
  shows "held U (on_set u g att) ow"
  using assms by (intro held_on_set [OF assms(1)]) (auto simp: set_holds_def held_def)

lemma held_fold_keep:
  assumes "held U att ow" "\<And>w fs. fsFrames (g w fs) = fsFrames fs" "\<And>w fs. fsOwns (g w fs) = fsOwns fs"
  shows "held U (fold (\<lambda>w. on_set (h w) (g w)) ws att) ow"
  using assms(1)
proof (induction ws arbitrary: att)
  case (Cons w ws)
  show ?case using Cons.IH [OF held_keep [OF Cons.prems assms(2,3), of "h w"]] by simp
qed simp

lemma held_give:
  assumes "held U att ow" "ow n = None" "u \<in> U"
  shows "held U (on_set u (\<lambda>fs. fs\<lparr>fsFrames := fsFrames fs @ [n], fsOwns := (fsOwns fs)(n := True)\<rparr>) att)
    (ow(n \<mapsto> u))"
  using assms by (intro held_on_set [OF assms(1)]) (auto simp: set_holds_def)

lemma held_disown:
  assumes "held U att ow" "ow n = Some u"
  shows "held U (disown u n att) (ow(n := None))"
proof -
  have "u \<in> U" using assms by (auto simp: held_def)
  then show ?thesis
    using assms unfolding disown_def
    by (intro held_on_set [OF assms(1)]) (auto simp: set_holds_def)
qed

lemma set_holds_fields: "set_holds ow u (fs\<lparr>fsConsolidated := k\<rparr>) = set_holds ow u fs"
  by (simp add: set_holds_def)

section \<open>The first pass\<close>

lemma want_loop_result:
  "fst (want_loop f ws winners spec att) = winners @ filter (wants f) ws"
  "fst (snd (want_loop f ws winners spec att)) = best_spec f (filter (wants f) ws) spec"
  by (induction ws arbitrary: winners spec att)
     (auto simp: wants_def best_spec_def split: prod.splits bool.splits)

lemma want_loop_held:
  assumes "held U att ow"
  shows "held U (snd (snd (want_loop f ws winners spec att))) ow"
  using assms
proof (induction ws arbitrary: winners spec att)
  case (Cons w ws)
  have near: "held U (on_set (wnUID w) (\<lambda>fs. fs\<lparr>fsTimeOnlyRejected := fsTimeOnlyRejected fs + 1\<rparr>) att) ow"
    by (rule held_keep [OF Cons.prems]) simp_all
  show ?case
    using Cons.IH [OF Cons.prems] Cons.IH [OF near] by (auto split: prod.split bool.split)
qed simp

lemma want_loop_contested [simp]:
  "atContested (snd (snd (want_loop f ws winners spec att))) = atContested att"
  by (induction ws arbitrary: winners spec att) (auto simp: on_set_def split: prod.split bool.split)

lemma top_loop_member:
  "snd (top_loop spec ws t k best) = best \<or> (\<exists>w \<in> set ws. snd (top_loop spec ws t k best) = Some w)"
  by (induction ws arbitrary: t k best) (simp, fastforce)

lemma narrow_member:
  assumes "narrow ws f spec = Some w"
  shows "w \<in> set ws"
proof -
  let ?strict = "filter (\<lambda>w. fst (window_matches w f False)) ws"
  show ?thesis
  proof (cases "length ?strict = 1")
    case True
    then have "w \<in> set ?strict" using assms hd_in_set [of ?strict] by (fastforce simp: narrow_def)
    then show ?thesis by simp
  next
    case False
    let ?cands = "if ?strict = [] then ws else ?strict"
    have "snd (top_loop spec ?cands (- 1) 0 None) = Some w"
      using assms False by (simp add: narrow_def Let_def split: prod.splits if_splits)
    then have "w \<in> set ?cands" using top_loop_member [of spec ?cands "- 1" 0 None] by (metis option.distinct(1) option.inject)
    then show ?thesis by (simp split: if_splits)
  qed
qed

lemma decide_wants: "decide wins f = Some u \<Longrightarrow> \<exists>w \<in> set wins. wnUID w = u \<and> wants f w"
proof -
  assume u: "decide wins f = Some u"
  let ?ws = "filter (wants f) wins"
  consider "?ws \<noteq> []" "u = wnUID (hd ?ws)" | w where "narrow ?ws f (best_spec f ?ws (\<lambda>_. 0)) = Some w" "wnUID w = u"
    using u unfolding decide_def Let_def by (auto split: if_split_asm)
  then have "\<exists>w \<in> set ?ws. wnUID w = u"
    by cases (use hd_in_set narrow_member in blast)+
  then show ?thesis by auto
qed

lemma attribute_frame_cases:
  obtains (Nobody) att where "decide wins f = None" "filter (wants f) wins = []"
      "attribute_frame wins asm f s = (att\<lparr>atUnattributed := atUnattributed att + 1\<rparr>, snd s)"
      "att = snd (snd (want_loop f wins [] (\<lambda>_. 0) (fst s)))"
  | (Given) att u where "decide wins f = Some u" "attribute_frame wins asm f s = assign asm u f (att, snd s)"
      "att = snd (snd (want_loop f wins [] (\<lambda>_. 0) (fst s)))"
  | (Contested) att where "decide wins f = None" "2 \<le> length (filter (wants f) wins)"
      "attribute_frame wins asm f s = (contest (filter (wants f) wins) f att, snd s)"
      "att = snd (snd (want_loop f wins [] (\<lambda>_. 0) (fst s)))"
proof -
  let ?ws = "filter (wants f) wins" and ?spec = "best_spec f (filter (wants f) wins) (\<lambda>_. 0)"
  obtain att where eq: "want_loop f wins [] (\<lambda>_. 0) (fst s) = (?ws, ?spec, att)"
    using want_loop_result [of f wins "[]" "\<lambda>_. 0" "fst s"] by (metis append_Nil prod.collapse)
  have att: "att = snd (snd (want_loop f wins [] (\<lambda>_. 0) (fst s)))" by (simp add: eq)
  note step = attribute_frame_def [of wins asm f s, unfolded eq prod.case]
  consider "?ws = []" | w where "?ws = [w]" | w v vs where "?ws = w # v # vs" by (metis remdups_adj.cases)
  then show thesis
  proof cases
    case 1
    show ?thesis by (rule Nobody [OF _ 1 _ att]) (simp_all add: decide_def step 1)
  next
    case (2 w)
    show ?thesis by (rule Given [OF _ _ att]) (simp_all add: decide_def step 2)
  next
    case (3 w v vs)
    have d: "decide wins f = map_option wnUID (narrow ?ws f ?spec)" unfolding decide_def Let_def 3 by simp
    show ?thesis
    proof (cases "narrow ?ws f ?spec")
      case None
      show ?thesis
        by (rule Contested [OF _ _ _ att]) (use None in \<open>simp_all add: d step 3\<close>)
    next
      case (Some x)
      show ?thesis by (rule Given [OF _ _ att]) (use Some in \<open>simp_all add: d step 3\<close>)
    qed
  qed
qed

lemma attribute_frame_held:
  assumes "held U att ow" "wnUID ` set wins \<subseteq> U" "ow (frIndex f) = None"
  shows "held U (fst (attribute_frame wins asm f (att, ss))) (ow(frIndex f := decide wins f))"
proof -
  have keep: "ow(frIndex f := None) = ow" using assms(3) by (simp add: fun_upd_idem)
  show ?thesis
  proof (cases rule: attribute_frame_cases [of wins f asm "(att, ss)"])
    case (Nobody att')
    have "held U att' ow" unfolding Nobody(4) fst_conv by (rule want_loop_held [OF assms(1)])
    then show ?thesis by (simp add: Nobody(1,3) keep)
  next
    case (Given att' u)
    have att: "held U att' ow" unfolding Given(3) fst_conv by (rule want_loop_held [OF assms(1)])
    have "u \<in> U" using decide_wants [OF Given(1)] assms(2) by auto
    from held_give [OF att assms(3) this] show ?thesis by (simp add: Given(1,2) assign_def)
  next
    case (Contested att')
    have att: "held U att' ow" unfolding Contested(4) fst_conv by (rule want_loop_held [OF assms(1)])
    show ?thesis
      unfolding Contested(1,3) keep fst_conv contest_def Let_def held_fields
      by (rule held_fold_keep [OF att]) simp_all
  qed
qed

lemma attribute_frame_streams:
  "key \<in> set (snd (attribute_frame wins asm f (att, ss)) u) \<longleftrightarrow>
    key \<in> set (ss u) \<or> decide wins f = Some u \<and> instance_of asm f = Some key"
  by (cases rule: attribute_frame_cases [of wins f asm "(att, ss)"])
     (auto simp: assign_def instance_of_def split: option.splits)

definition claimed :: "checkWindow list \<Rightarrow> frame list \<Rightarrow> nat \<Rightarrow> uid option" where
  "claimed wins frames n = Option.bind (find (\<lambda>f. frIndex f = n) frames) (decide wins)"

lemma find_distinct: "distinct (map frIndex frames) \<Longrightarrow> f \<in> set frames \<Longrightarrow>
    find (\<lambda>g. frIndex g = frIndex f) frames = Some f"
  by (induction frames) auto

lemma claimed_frame: "distinct (map frIndex frames) \<Longrightarrow> f \<in> set frames \<Longrightarrow>
    claimed wins frames (frIndex f) = decide wins f"
  by (simp add: claimed_def find_distinct)

lemma claimed_snoc: "frIndex f \<notin> frIndex ` set fs \<Longrightarrow>
    claimed wins (fs @ [f]) = (claimed wins fs)(frIndex f := decide wins f)"
  by (induction fs) (auto simp: claimed_def fun_eq_iff)

lemma claimed_new: "n \<notin> frIndex ` set fs \<Longrightarrow> claimed wins fs n = None"
  by (induction fs) (auto simp: claimed_def)

lemma first_pass:
  assumes "held U att (\<lambda>_. None)" "wnUID ` set wins \<subseteq> U" "distinct (map frIndex frames)"
  shows "held U (fst (fold (attribute_frame wins asm) frames (att, \<lambda>_. []))) (claimed wins frames) \<and>
    (\<forall>u key. key \<in> set (snd (fold (attribute_frame wins asm) frames (att, \<lambda>_. [])) u) \<longleftrightarrow>
       (\<exists>f \<in> set frames. decide wins f = Some u \<and> instance_of asm f = Some key))"
  using assms(3)
proof (induction frames rule: rev_induct)
  case Nil
  then show ?case using assms(1) by (simp add: claimed_def)
next
  case (snoc f fs)
  let ?s = "fold (attribute_frame wins asm) fs (att, \<lambda>_. [])"
  have new: "frIndex f \<notin> frIndex ` set fs" "distinct (map frIndex fs)" using snoc(2) by auto
  have held: "held U (fst ?s) (claimed wins fs)" using snoc new by blast
  show ?case
    using attribute_frame_held [OF held assms(2) claimed_new [OF new(1)], of asm "snd ?s"] snoc(1) [OF new(2)]
    by (auto simp del: fun_upd_apply
        simp: claimed_snoc [OF new(1)] attribute_frame_streams [of _ _ _ _ "fst ?s" "snd ?s", simplified])
qed

lemma new_attribution_sets:
  "dom (atSets (new_attribution astr wins n)) = wnUID ` set wins"
  "atSets (new_attribution astr wins n) u = Some fs \<Longrightarrow> fsFrames fs = [] \<and> fsOwns fs = (\<lambda>_. False)"
proof -
  have "dom (fold (\<lambda>w m. m(wnUID w \<mapsto> open_set astr w)) wins m) = dom m \<union> wnUID ` set wins" for m
    by (induction wins arbitrary: m) auto
  then show "dom (atSets (new_attribution astr wins n)) = wnUID ` set wins" by (simp add: new_attribution_def)
  have "fold (\<lambda>w m. m(wnUID w \<mapsto> open_set astr w)) wins m u = Some fs \<Longrightarrow>
      m u = Some fs \<or> (\<exists>w. fs = open_set astr w)" for m
    by (induction wins arbitrary: m) (simp, fastforce split: if_splits)
  from this [of Map.empty] show "atSets (new_attribution astr wins n) u = Some fs \<Longrightarrow>
      fsFrames fs = [] \<and> fsOwns fs = (\<lambda>_. False)"
    by (auto simp: new_attribution_def open_set_def empty_set_def)
qed

lemma new_attribution_held: "held (wnUID ` set wins) (new_attribution astr wins n) (\<lambda>_. None)"
  using new_attribution_sets [of astr wins n] by (auto simp: held_def set_holds_def)

section \<open>Enumerations and tallies\<close>

text \<open>Each execution of a range statement goes through the frame sets once each, in any order of its own.\<close>

definition enumerates :: "uid set \<Rightarrow> ranges \<Rightarrow> bool" where
  "enumerates U rng \<longleftrightarrow> (\<forall>site n. distinct (rng site n) \<and> set (rng site n) = U)"

lemma first_owner_held:
  assumes "held U att ow" "\<And>u. ow n = Some u \<Longrightarrow> u \<in> set us"
  shows "first_owner att us n = ow n"
proof (cases "ow n")
  case None
  then show ?thesis by (simp add: first_owner_def find_None_iff held_owns [OF assms(1)])
next
  case (Some u)
  then have "find (\<lambda>v. owns att v n) us \<noteq> None" using assms by (auto simp: find_None_iff held_owns)
  then obtain v where v: "find (\<lambda>v. owns att v n) us = Some v" by blast
  then have "owns att v n" by (auto simp: find_Some_iff)
  then show ?thesis using v by (simp add: first_owner_def held_owns [OF assms(1)])
qed

lemma enumerated_owner:
  assumes "held U att ow" "enumerates U rng"
  shows "first_owner att (rng site m) n = ow n"
  using assms by (intro first_owner_held [OF assms(1)]) (auto simp: enumerates_def held_def)

definition tally :: "uid list \<Rightarrow> (uid \<times> nat) list" where
  "tally seq = fold inc seq []"

lemma tally_snoc: "tally (seq @ [u]) = inc u (tally seq)"
  by (simp add: tally_def)

lemma tally_keys: "distinct (map fst (tally seq))"
  by (induction seq rule: rev_induct) (auto simp: tally_def inc_def distinct_update)

lemma tally_lookup: "map_of (tally seq) u = (if u \<in> set seq then Some (count_list seq u) else None)"
  by (induction seq rule: rev_induct)
     (auto simp: tally_snoc inc_def update_conv' tally_def count_list_0_iff)

lemma tally_set: "set (map fst (tally seq)) = set seq"
proof -
  have "u \<in> set (map fst (tally seq)) \<longleftrightarrow> u \<in> set seq" for u
    using map_of_eq_None_iff [of "tally seq" u] by (simp add: tally_lookup split: if_splits)
  then show ?thesis by blast
qed

lemma tally_length: "length (tally seq) = length (remdups seq)"
  using distinct_card [OF tally_keys, of seq] by (simp add: tally_set length_remdups_card_conv del: set_map)

section \<open>The shape of a connection and its majority\<close>

lemma transitions_adj: "seq \<noteq> [] \<Longrightarrow> transitions seq = length (remdups_adj seq) - 1"
proof (induction seq rule: transitions.induct)
  case (1 u v seq)
  have "remdups_adj (v # seq) \<noteq> []" by simp
  then show ?case using 1 by (cases "remdups_adj (v # seq)") auto
qed auto

lemma clean_iff:
  assumes "seq \<noteq> []"
  shows "transitions seq = length (remdups seq) - 1 \<longleftrightarrow> distinct (remdups_adj seq)"
proof -
  have "length (remdups_adj seq) \<noteq> 0" "length (remdups seq) \<noteq> 0" using assms by simp_all
  moreover have "distinct (remdups_adj seq) \<longleftrightarrow> length (remdups_adj seq) = length (remdups seq)"
    using card_distinct [of "remdups_adj seq"] distinct_card [of "remdups_adj seq"]
    by (metis length_remdups_card_conv remdups_adj_set)
  ultimately show ?thesis unfolding transitions_adj [OF assms] by linarith
qed

lemma leads_unique: "leads seq u \<Longrightarrow> leads seq v \<Longrightarrow> u = v"
  by (fastforce simp: leads_def)

lemma majority_eq: "leads seq u \<Longrightarrow> majority seq = u"
proof -
  assume u: "leads seq u"
  then have "filter (leads seq) seq \<noteq> []" by (auto simp: leads_def filter_empty_conv)
  then have "leads seq (majority seq)" 
    unfolding majority_def using hd_in_set [of "filter (leads seq) seq"] by auto
  then show "majority seq = u" using u by (rule leads_unique)
qed

text \<open>The loop of the vote keeps the candidate that is not beaten by any of those seen.\<close>

definition unbeaten :: "(uid \<Rightarrow> nat) \<Rightarrow> uid \<Rightarrow> uid \<Rightarrow> bool" where
  "unbeaten cnt u v \<longleftrightarrow> cnt v < cnt u \<or> cnt v = cnt u \<and> u \<le> v"

lemma unbeaten_refl: "unbeaten cnt u u"
  by (simp add: unbeaten_def)

lemma unbeaten_trans: "unbeaten cnt u v \<Longrightarrow> unbeaten cnt v w \<Longrightarrow> unbeaten cnt u w"
  by (auto simp: unbeaten_def)

lemma vote_started:
  assumes "\<And>u n. map_of m u = Some n \<Longrightarrow> n = cnt u"
  shows "vote m us winner (int (cnt winner)) \<in> insert winner {u \<in> set us. map_of m u \<noteq> None} \<and>
    (\<forall>v \<in> insert winner {u \<in> set us. map_of m u \<noteq> None}.
       unbeaten cnt (vote m us winner (int (cnt winner))) v)"
proof (induction us arbitrary: winner)
  case Nil
  then show ?case by (simp add: unbeaten_refl)
next
  case (Cons u us)
  show ?case
  proof (cases "map_of m u")
    case None
    then show ?thesis using Cons.IH [of winner] by auto
  next
    case (Some n)
    note n = assms [OF Some]
    have step: "vote m (u # us) winner (int (cnt winner)) =
        (if cnt winner < cnt u \<or> cnt u = cnt winner \<and> u < winner then vote m us u (int (cnt u))
         else vote m us winner (int (cnt winner)))"
      by (simp add: Some n)
    consider (Take) "unbeaten cnt u winner" "vote m (u # us) winner (int (cnt winner)) = vote m us u (int (cnt u))"
      | (Keep) "unbeaten cnt winner u"
        "vote m (u # us) winner (int (cnt winner)) = vote m us winner (int (cnt winner))"
      unfolding unbeaten_def step by (metis linorder_neqE_nat linorder_not_less order_less_imp_le)
    then show ?thesis
    proof cases
      case Take
      let ?r = "vote m us u (int (cnt u))"
      have ih: "?r \<in> insert u {v \<in> set us. map_of m v \<noteq> None}" "unbeaten cnt ?r u"
        "\<And>v. v \<in> set us \<Longrightarrow> map_of m v \<noteq> None \<Longrightarrow> unbeaten cnt ?r v"
        using Cons.IH [of u] by simp_all
      have "unbeaten cnt ?r winner" using unbeaten_trans [OF ih(2) Take(1)] .
      then show ?thesis unfolding Take(2) using ih Some by auto
    next
      case Keep
      let ?r = "vote m us winner (int (cnt winner))"
      have ih: "?r \<in> insert winner {v \<in> set us. map_of m v \<noteq> None}" "unbeaten cnt ?r winner"
        "\<And>v. v \<in> set us \<Longrightarrow> map_of m v \<noteq> None \<Longrightarrow> unbeaten cnt ?r v"
        using Cons.IH [of winner] by simp_all
      have "unbeaten cnt ?r u" using unbeaten_trans [OF ih(2) Keep(1)] .
      then show ?thesis unfolding Keep(2) using ih by auto
    qed
  qed
qed

lemma vote_fresh:
  assumes "\<And>u n. map_of m u = Some n \<Longrightarrow> n = cnt u" "{u \<in> set us. map_of m u \<noteq> None} \<noteq> {}"
  shows "vote m us w (- 1) \<in> {u \<in> set us. map_of m u \<noteq> None} \<and>
    (\<forall>v \<in> {u \<in> set us. map_of m u \<noteq> None}. unbeaten cnt (vote m us w (- 1)) v)"
  using assms(2)
proof (induction us)
  case (Cons u us)
  show ?case
  proof (cases "map_of m u")
    case None
    then show ?thesis using Cons by auto
  next
    case (Some n)
    then show ?thesis using vote_started [of m cnt us u, OF assms(1)] assms(1) [OF Some] by auto
  qed
qed simp

lemma vote_majority:
  assumes "seq \<noteq> []" "set seq \<subseteq> set us"
  shows "vote (tally seq) us [] (- 1) = majority seq" "majority seq \<in> set seq"
proof -
  have C: "{u \<in> set us. map_of (tally seq) u \<noteq> None} = set seq" using assms(2) by (auto simp: tally_lookup)
  have "vote (tally seq) us [] (- 1) \<in> set seq \<and> (\<forall>v \<in> set seq. unbeaten (count_list seq) (vote (tally seq) us [] (- 1)) v)"
    using assms(1) by (intro vote_fresh [of "tally seq" "count_list seq" us "[]", unfolded C])
      (auto simp: tally_lookup split: if_splits)
  then have "leads seq (vote (tally seq) us [] (- 1))" by (simp add: leads_def unbeaten_def)
  then show "vote (tally seq) us [] (- 1) = majority seq" "majority seq \<in> set seq"
    using majority_eq by (simp, fastforce simp: leads_def)
qed

section \<open>Grouping\<close>

definition owner_seq :: "(nat \<Rightarrow> uid option) \<Rightarrow> frame list \<Rightarrow> uid list" where
  "owner_seq ow fs = List.map_filter (\<lambda>f. ow (frIndex f)) fs"

lemma owner_seq_simps [simp]:
  "owner_seq ow [] = []"
  "owner_seq ow (fs @ gs) = owner_seq ow fs @ owner_seq ow gs"
  "owner_seq ow [f] = (case ow (frIndex f) of None \<Rightarrow> [] | Some u \<Rightarrow> [u])"
  by (simp_all add: owner_seq_def map_filter_def split: option.split)

lemma owner_seq_set: "u \<in> set (owner_seq ow fs) \<longleftrightarrow> (\<exists>f \<in> set fs. ow (frIndex f) = Some u)"
  by (force simp: owner_seq_def map_filter_def)

lemma owner_seq_cong: "(\<And>f. f \<in> set fs \<Longrightarrow> ow (frIndex f) = ow' (frIndex f)) \<Longrightarrow> owner_seq ow fs = owner_seq ow' fs"
  unfolding owner_seq_def map_filter_def by (intro arg_cong2 [where f = map] filter_cong map_cong) auto

definition group_of :: "(nat \<Rightarrow> uid option) \<Rightarrow> frame list \<Rightarrow> frameGroup" where
  "group_of ow fs = \<lparr>fgFrames = fs, fgByUID = tally (owner_seq ow fs)\<rparr>"

lemma peers_snoc: "peers asm (fs @ [f]) key = peers asm fs key @ (if instance_of asm f = Some key then [f] else [])"
  by (simp add: peers_def)

definition groups_of :: "(nat \<Rightarrow> uid option) \<Rightarrow> assembler \<Rightarrow> frame list \<Rightarrow> instance_key \<Rightarrow> frameGroup option" where
  "groups_of ow asm frames key =
    (if peers asm frames key = [] then None else Some (group_of ow (peers asm frames key)))"

lemma grouping:
  assumes "held U att ow" "enumerates U rng"
  shows "map_of (fold (group_frame rng att asm) frames []) = groups_of ow asm frames \<and>
    distinct (map fst (fold (group_frame rng att asm) frames []))"
proof (induction frames rule: rev_induct)
  case Nil
  show ?case by (simp add: groups_of_def peers_def fun_eq_iff)
next
  case (snoc f fs)
  let ?gs = "fold (group_frame rng att asm) fs []"
  show ?case
  proof (cases "StreamFor asm (frIndex f)")
    case None
    then have "groups_of ow asm (fs @ [f]) = groups_of ow asm fs"
      by (simp add: groups_of_def peers_snoc instance_of_def fun_eq_iff)
    then show ?thesis using snoc None by (simp add: group_frame_def)
  next
    case (Some st)
    let ?key = "InstanceKey st"
    have inst: "instance_of asm f = Some ?key" by (simp add: instance_of_def Some)
    have g: "(case map_of ?gs ?key of None \<Rightarrow> \<lparr>fgFrames = [], fgByUID = []\<rparr> | Some g \<Rightarrow> g) =
        group_of ow (peers asm fs ?key)"
      using snoc by (simp add: groups_of_def group_of_def tally_def)
    have "group_frame rng att asm f ?gs = AList.update ?key (group_of ow (peers asm (fs @ [f]) ?key)) ?gs"
      using enumerated_owner [OF assms, of Counting "frIndex f" "frIndex f"]
      by (simp add: group_frame_def Some Let_def g)
         (simp add: group_of_def peers_snoc inst tally_snoc split: option.split)
    moreover have "groups_of ow asm (fs @ [f]) =
        (groups_of ow asm fs)(?key \<mapsto> group_of ow (peers asm (fs @ [f]) ?key))"
      by (auto simp: groups_of_def peers_snoc inst fun_eq_iff)
    ultimately show ?thesis using snoc by (simp add: update_conv' distinct_update)
  qed
qed

section \<open>One connection\<close>

lemma clean_split:
  assumes "held U att ow" "enumerates U rng"
  shows "cleanSplit rng att fs \<longleftrightarrow> distinct (remdups_adj (owner_seq ow fs))"
proof -
  have "List.map_filter (\<lambda>f. first_owner att (rng Splitting (frIndex f)) (frIndex f)) fs = owner_seq ow fs"
    by (simp add: enumerated_owner [OF assms] owner_seq_def)
  then show ?thesis using clean_iff by (simp add: cleanSplit_def Let_def)
qed

definition strip_one :: "uid \<Rightarrow> nat \<Rightarrow> attribution \<Rightarrow> attribution" where
  "strip_one u n att = on_set u (\<lambda>fs. fs\<lparr>fsConsolidated := fsConsolidated fs + 1\<rparr>) (disown u n att)"

lemma strip_one_held: "held U att ow \<Longrightarrow> ow n = Some u \<Longrightarrow> held U (strip_one u n att) (ow(n := None))"
  unfolding strip_one_def by (rule held_keep [OF held_disown]) simp_all

lemma strip_loop_none: "held U att ow \<Longrightarrow> (\<And>u. u \<in> set us \<Longrightarrow> u \<noteq> w \<Longrightarrow> ow n \<noteq> Some u) \<Longrightarrow>
    strip_loop w n us att = att"
  by (induction us) (auto simp: held_owns)

lemma strip_loop_held:
  assumes "held U att ow" "distinct us" "\<And>u. ow n = Some u \<Longrightarrow> u \<in> set us"
  shows "strip_loop w n us att =
    (case ow n of None \<Rightarrow> att | Some u \<Rightarrow> if u = w then att else strip_one u n att)"
  using assms
proof (induction us)
  case Nil
  then show ?case by (cases "ow n") auto
next
  case (Cons u us)
  show ?case
  proof (cases "u \<noteq> w \<and> ow n = Some u")
    case True
    have "strip_loop w n us (strip_one u n att) = strip_one u n att"
      by (rule strip_loop_none [OF strip_one_held [OF Cons.prems(1)]]) (use True in auto)
    then show ?thesis using True by (simp add: held_owns [OF Cons.prems(1)] strip_one_def)
  next
    case False
    show ?thesis
    proof (cases "ow n = Some w")
      case True
      then show ?thesis using strip_loop_none [OF Cons.prems(1), of "u # us" w n] by simp
    next
      case here: False
      have "v \<in> set us" if "ow n = Some v" for v using False here Cons.prems(3) that by auto
      then show ?thesis using Cons False by (auto simp: held_owns)
    qed
  qed
qed

definition take_over :: "uid \<Rightarrow> nat \<Rightarrow> attribution \<Rightarrow> attribution" where
  "take_over w n = on_set w (\<lambda>fs. fs\<lparr>fsOwns := (fsOwns fs)(n := True), fsFrames := fsFrames fs @ [n]\<rparr>)"

lemma take_over_held:
  assumes "held U att ow" "ow n = None" "w \<in> U"
  shows "held U (take_over w n att) (ow(n \<mapsto> w))"
  using assms unfolding take_over_def by (intro held_on_set [OF assms(1)]) (auto simp: set_holds_def)

lemma hand_over_held:
  assumes "held U att ow" "enumerates U rng" "w \<in> U"
  shows "hand_over rng w f att =
      (case ow (frIndex f) of
         None \<Rightarrow> take_over w (frIndex f) att
       | Some u \<Rightarrow> if u = w then att else take_over w (frIndex f) (strip_one u (frIndex f) att))"
    "held U (hand_over rng w f att) (ow(frIndex f \<mapsto> w))"
proof -
  let ?n = "frIndex f"
  have strip: "strip_loop w ?n (rng Stripping ?n) att =
      (case ow ?n of None \<Rightarrow> att | Some u \<Rightarrow> if u = w then att else strip_one u ?n att)"
    using assms(1,2) by (intro strip_loop_held [OF assms(1)]) (auto simp: enumerates_def held_def)
  consider "ow ?n = None" | "ow ?n = Some w" | u where "ow ?n = Some u" "u \<noteq> w" by (cases "ow ?n") auto
  then have "hand_over rng w f att =
      (case ow ?n of None \<Rightarrow> take_over w ?n att
       | Some u \<Rightarrow> if u = w then att else take_over w ?n (strip_one u ?n att)) \<and>
      held U (hand_over rng w f att) (ow(?n \<mapsto> w))"
  proof cases
    case 1
    then show ?thesis using take_over_held [OF assms(1) 1 assms(3)]
      by (simp add: hand_over_def Let_def strip held_owns [OF assms(1)] take_over_def)
  next
    case 2
    then show ?thesis using assms(1)
      by (simp add: hand_over_def Let_def strip held_owns [OF assms(1)] fun_upd_idem)
  next
    case 3
    have h: "held U (strip_one u ?n att) (ow(?n := None))" by (rule strip_one_held [OF assms(1) 3(1)])
    then show ?thesis using take_over_held [OF h _ assms(3), of ?n] 3
      by (simp add: hand_over_def Let_def strip held_owns [OF h] take_over_def)
  qed
  then show "hand_over rng w f att =
      (case ow ?n of None \<Rightarrow> take_over w ?n att
       | Some u \<Rightarrow> if u = w then att else take_over w ?n (strip_one u ?n att))"
    "held U (hand_over rng w f att) (ow(?n \<mapsto> w))" by blast+
qed

definition over :: "frame list \<Rightarrow> (nat \<Rightarrow> uid option) \<Rightarrow> (nat \<Rightarrow> uid option) \<Rightarrow> nat \<Rightarrow> uid option" where
  "over fs new ow n = (if n \<in> frIndex ` set fs then new n else ow n)"

lemma over_Cons: "over (f # fs) new ow = over fs new (ow(frIndex f := new (frIndex f)))"
  by (auto simp: over_def fun_eq_iff)

lemma hand_over_all:
  assumes "held U att ow" "enumerates U rng" "w \<in> U"
  shows "held U (fold (hand_over rng w) fs att) (over fs (\<lambda>_. Some w) ow)"
    "enumerates U rng' \<Longrightarrow> fold (hand_over rng w) fs att = fold (hand_over rng' w) fs att"
  using assms(1)
proof (induction fs arbitrary: att ow)
  case Nil
  { case 1 then show ?case by (simp add: over_def [abs_def]) next case 2 then show ?case by simp }
next
  case (Cons f fs)
  { case 1 then show ?case using Cons.IH(1) [OF hand_over_held(2) [OF 1 assms(2,3)]]
      by (simp add: over_Cons del: fun_upd_apply) }
  { case 2
    have "hand_over rng w f att = hand_over rng' w f att"
      by (simp add: hand_over_held(1) [OF 2(2) assms(2,3)] hand_over_held(1) [OF 2(2) 2(1) assms(3)])
    then show ?case using Cons.IH(2) [OF 2(1) hand_over_held(2) [OF 2(2) 2(1) assms(3)]] by simp }
qed

lemma mark_frame_held:
  assumes "held U att ow" "[] \<notin> U" "\<And>u. ow (frIndex f) = Some u \<Longrightarrow> u \<in> set us"
  shows "held U (mark_frame us f att) (ow(frIndex f := None))"
proof (cases "ow (frIndex f)")
  case None
  then have "first_owner att us (frIndex f) = None" using first_owner_held [OF assms(1), of "frIndex f"] by simp
  then show ?thesis using assms(1) None by (simp add: mark_frame_def fun_upd_idem)
next
  case (Some u)
  then have "first_owner att us (frIndex f) = Some u" "u \<noteq> []"
    using first_owner_held [OF assms(1), of "frIndex f" us] assms by (auto simp: held_def)
  moreover have "held U (fold (\<lambda>v. on_set v (\<lambda>fs. fs\<lparr>fsContested := fsContested fs @ [frIndex f]\<rparr>)) us
      ((disown u (frIndex f) att)\<lparr>atContested := c\<rparr>)) (ow(frIndex f := None))" for c
    by (rule held_fold_keep) (simp_all add: held_disown [OF assms(1) Some])
  ultimately show ?thesis by (simp add: mark_frame_def Let_def del: fun_upd_apply)
qed

lemma mark_all:
  assumes "held U att ow" "[] \<notin> U" "set (owner_seq ow fs) \<subseteq> set us"
  shows "held U (fold (mark_frame us) fs att) (over fs (\<lambda>_. None) ow)"
  using assms(1,3)
proof (induction fs arbitrary: att ow)
  case Nil
  then show ?case by (simp add: over_def [abs_def])
next
  case (Cons f fs)
  have "held U (mark_frame us f att) (ow(frIndex f := None))"
    using Cons.prems by (intro mark_frame_held assms(2)) (auto simp: owner_seq_set)
  moreover have "set (owner_seq (ow(frIndex f := None)) fs) \<subseteq> set us"
    using Cons.prems(2) by (auto simp: subset_iff owner_seq_set split: if_splits)
  ultimately show ?case using Cons.IH by (simp add: over_Cons del: fun_upd_apply)
qed

lemma consolidate_cases:
  assumes "held U att ow" "enumerates U rng" "[] \<notin> U" "seq = owner_seq ow fs"
  obtains (Whole) "length (remdups seq) < 2" "consolidate_group rng (key, group_of ow fs) (att, ss) = (att, ss)"
  | (Mixed) "2 \<le> length (remdups seq)" "\<not> distinct (remdups_adj seq)"
      "consolidate_group rng (key, group_of ow fs) (att, ss) = markAmbiguous key (group_of ow fs) (att, ss)"
  | (Split) w where "2 \<le> length (remdups seq)" "distinct (remdups_adj seq)" "w = majority seq" "w \<in> set seq" "w \<in> U"
      "consolidate_group rng (key, group_of ow fs) (att, ss) =
        (fold (hand_over rng w) fs att, (forget (map fst (tally seq)) key ss)
           (w := List.insert key (forget (map fst (tally seq)) key ss w)))"
proof -
  note clean = clean_split [OF assms(1,2), of fs, folded assms(4)]
  consider "length (remdups seq) < 2" | "2 \<le> length (remdups seq)" "\<not> distinct (remdups_adj seq)"
    | "2 \<le> length (remdups seq)" "distinct (remdups_adj seq)" by linarith
  then show thesis
  proof cases
    case 1
    then show ?thesis
      by (intro Whole) (simp_all add: consolidate_group_def group_of_def tally_length flip: assms(4))
  next
    case 2
    then show ?thesis
      by (intro Mixed) (simp_all add: consolidate_group_def group_of_def tally_length clean flip: assms(4))
  next
    case 3
    then have ne: "seq \<noteq> []" by auto
    have sub: "set seq \<subseteq> U" using held_range [OF assms(1)] by (auto simp: assms(4) owner_seq_set)
    have rng: "set seq \<subseteq> set (rng Voting n)" for n using sub assms(2) by (simp add: enumerates_def)
    have w: "majority seq \<in> set seq" by (rule vote_majority(2) [OF ne rng])
    then have U: "majority seq \<in> U" "majority seq \<noteq> []" using sub assms(3) by auto
    show ?thesis
      by (rule Split [OF 3 refl w U(1)])
         (use 3 U(2) in \<open>simp add: consolidate_group_def group_of_def tally_length clean
            vote_majority(1) [OF ne rng] Let_def flip: assms(4)\<close>)
  qed
qed

lemma forget_streams: "k \<in> set (forget us key ss u) \<longleftrightarrow> k \<in> set (ss u) \<and> \<not> (u \<in> set us \<and> k = key)"
  by (auto simp: forget_def)

lemma consolidate_group_held:
  assumes "held U att ow" "enumerates U rng" "[] \<notin> U" "seq = owner_seq ow fs"
  shows "held U (fst (consolidate_group rng (key, group_of ow fs) (att, ss))) (over fs (\<lambda>n. resolve seq (ow n)) ow)"
  using assms
proof (cases rule: consolidate_cases [where key = key and ss = ss])
  case Whole
  then have "over fs (\<lambda>n. resolve seq (ow n)) ow = ow" by (simp add: over_def resolve_def fun_eq_iff)
  then show ?thesis using Whole(2) assms(1) by simp
next
  case Mixed
  then have "over fs (\<lambda>n. resolve seq (ow n)) ow = over fs (\<lambda>_. None) ow" by (auto simp: over_def resolve_def fun_eq_iff)
  then show ?thesis using mark_all [OF assms(1,3), of fs "sort (map fst (tally seq))"] Mixed(3)
    by (simp add: markAmbiguous_def Let_def group_of_def tally_set assms(4) del: set_map)
next
  case (Split w)
  then have "over fs (\<lambda>n. resolve seq (ow n)) ow = over fs (\<lambda>_. Some w) ow" by (auto simp: over_def resolve_def fun_eq_iff)
  then show ?thesis using hand_over_all(1) [OF assms(1,2) Split(5), of fs] Split(6) by simp
qed

lemma consolidate_group_streams:
  assumes "held U att ow" "enumerates U rng" "[] \<notin> U" "seq = owner_seq ow fs"
    and "\<And>u. key \<in> set (ss u) \<Longrightarrow> u \<in> set seq"
  shows "k \<in> set (snd (consolidate_group rng (key, group_of ow fs) (att, ss)) u) \<longleftrightarrow>
    (if k = key \<and> 2 \<le> length (remdups seq) then resolve seq None = Some u else k \<in> set (ss u))"
  using assms(1-4)
proof (cases rule: consolidate_cases [where key = key and ss = ss])
  case Whole
  then show ?thesis by auto
next
  case Mixed
  then show ?thesis using assms(5) [of u]
    by (auto simp: markAmbiguous_def Let_def group_of_def forget_streams tally_set resolve_def
        simp del: set_map simp flip: assms(4))
next
  case (Split w)
  then show ?thesis using assms(5) [of u] by (auto simp: forget_streams tally_set resolve_def simp del: set_map)
qed

lemma consolidate_group_order:
  assumes "held U att ow" "enumerates U rng" "enumerates U rng'" "[] \<notin> U"
  shows "consolidate_group rng (key, group_of ow fs) (att, ss) = consolidate_group rng' (key, group_of ow fs) (att, ss)"
proof -
  note here = assms(1,2,4) refl [of "owner_seq ow fs"] and there = assms(1,3,4) refl [of "owner_seq ow fs"]
  from here show ?thesis
  proof (cases rule: consolidate_cases [where key = key and ss = ss])
    case Whole
    from there show ?thesis by (cases rule: consolidate_cases [where key = key and ss = ss]) (use Whole in simp_all)
  next
    case Mixed
    from there show ?thesis by (cases rule: consolidate_cases [where key = key and ss = ss]) (use Mixed in simp_all)
  next
    case one: (Split w)
    from there show ?thesis
    proof (cases rule: consolidate_cases [where key = key and ss = ss])
      case (Split v)
      have "v = w" using one(3) Split(3) by simp
      then show ?thesis using one(6) Split(6) hand_over_all(2) [OF assms(1,2) one(5) assms(3)] by simp
    qed (use one in simp_all)
  qed
qed

section \<open>All connections\<close>

definition frame_instance :: "assembler \<Rightarrow> nat \<Rightarrow> instance_key option" where
  "frame_instance asm n = map_option InstanceKey (StreamFor asm n)"

definition settled_owner :: "assembler \<Rightarrow> frame list \<Rightarrow> (nat \<Rightarrow> uid option) \<Rightarrow> instance_key set \<Rightarrow> nat \<Rightarrow> uid option" where
  "settled_owner asm frames ow K n =
    (case frame_instance asm n of
       None \<Rightarrow> ow n
     | Some key \<Rightarrow>
         if key \<in> K \<and> n \<in> frIndex ` set frames then resolve (owner_seq ow (peers asm frames key)) (ow n) else ow n)"

lemma peers_index: "n \<in> frIndex ` set (peers asm frames key) \<longleftrightarrow>
    n \<in> frIndex ` set frames \<and> frame_instance asm n = Some key"
  by (auto simp: peers_def instance_of_def frame_instance_def)

lemma settled_outside: "key \<notin> K \<Longrightarrow> f \<in> set (peers asm frames key) \<Longrightarrow> settled_owner asm frames ow K (frIndex f) = ow (frIndex f)"
  by (auto simp: settled_owner_def peers_def instance_of_def frame_instance_def)

lemma settled_insert:
  assumes "key \<notin> K"
  shows "over (peers asm frames key)
      (\<lambda>n. resolve (owner_seq ow (peers asm frames key)) (settled_owner asm frames ow K n)) (settled_owner asm frames ow K) =
    settled_owner asm frames ow (insert key K)"
  using assms by (auto simp: over_def peers_index settled_owner_def fun_eq_iff split: option.split)

definition listed :: "assembler \<Rightarrow> frame list \<Rightarrow> (nat \<Rightarrow> uid option) \<Rightarrow> instance_key set \<Rightarrow> uid \<Rightarrow> instance_key \<Rightarrow> bool" where
  "listed asm frames ow K u key \<longleftrightarrow>
    (let seq = owner_seq ow (peers asm frames key) in
     if key \<in> K \<and> 2 \<le> length (remdups seq) then resolve seq None = Some u else u \<in> set seq)"

lemma consolidate_fold:
  assumes "held U att ow" "enumerates U rng" "[] \<notin> U"
    and "\<And>u key. key \<in> set (ss u) \<longleftrightarrow> listed asm frames ow {} u key"
    and "distinct (map fst gs)"
    and "\<And>key g. (key, g) \<in> set gs \<Longrightarrow> g = group_of ow (peers asm frames key)"
  shows "held U (fst (fold (consolidate_group rng) gs (att, ss))) (settled_owner asm frames ow (fst ` set gs)) \<and>
    (\<forall>u key. key \<in> set (snd (fold (consolidate_group rng) gs (att, ss)) u) \<longleftrightarrow>
       listed asm frames ow (fst ` set gs) u key) \<and>
    (\<forall>rng'. enumerates U rng' \<longrightarrow>
       fold (consolidate_group rng) gs (att, ss) = fold (consolidate_group rng') gs (att, ss))"
  using assms(5,6)
proof (induction gs rule: rev_induct)
  case Nil
  have "settled_owner asm frames ow {} = ow" by (simp add: settled_owner_def fun_eq_iff split: option.split)
  then show ?case using assms(1,4) by simp
next
  case (snoc kg gs)
  obtain key where kg: "kg = (key, group_of ow (peers asm frames key))" using snoc(3) by (cases kg) auto
  let ?K = "fst ` set gs" and ?s = "fold (consolidate_group rng) gs (att, ss)"
  let ?fs = "peers asm frames key" and ?ow = "settled_owner asm frames ow (fst ` set gs)"
  have new: "key \<notin> ?K" using snoc(2) kg by auto
  have ih: "held U (fst ?s) ?ow" "\<And>u k. k \<in> set (snd ?s u) \<longleftrightarrow> listed asm frames ow ?K u k"
    "\<And>rng'. enumerates U rng' \<Longrightarrow> ?s = fold (consolidate_group rng') gs (att, ss)"
    using snoc by auto
  have seq: "owner_seq ow ?fs = owner_seq ?ow ?fs"
    by (rule owner_seq_cong) (simp add: settled_outside [OF new])
  then have g: "kg = (key, group_of ?ow ?fs)" by (simp add: kg group_of_def)
  have pre: "u \<in> set (owner_seq ow ?fs)" if "key \<in> set (snd ?s u)" for u
    using that new by (simp add: ih(2) listed_def)
  have "held U (fst (consolidate_group rng kg ?s)) (settled_owner asm frames ow (insert key ?K))"
    using consolidate_group_held [OF ih(1) assms(2,3) seq, of key "snd ?s"] settled_insert [OF new, of asm frames ow]
    by (simp add: g)
  moreover have "k \<in> set (snd (consolidate_group rng kg ?s) u) \<longleftrightarrow> listed asm frames ow (insert key ?K) u k" for u k
    using consolidate_group_streams [OF ih(1) assms(2,3) seq, of key "snd ?s" k u] pre
    by (auto simp: g ih(2) listed_def Let_def)
  moreover have "consolidate_group rng kg ?s = consolidate_group rng' kg ?s" if "enumerates U rng'" for rng'
    using consolidate_group_order [OF ih(1) assms(2) that assms(3), of key ?fs "snd ?s"] by (simp add: g)
  ultimately show ?case using ih(3) kg by (auto simp: image_Un)
qed

section \<open>The whole pass\<close>

text \<open>A check without a name: the code uses the empty name for "nobody".\<close>

definition nameless :: "checkWindow list \<Rightarrow> bool" where
  "nameless wins \<longleftrightarrow> [] \<in> wnUID ` set wins"

definition first_state :: "(addr \<Rightarrow> string) \<Rightarrow> frame option list \<Rightarrow> checkWindow list \<Rightarrow> assembler \<Rightarrow> attribution \<times> streams" where
  "first_state astr pframes wins asm =
    fold (attribute_frame wins asm) (List.map_filter id pframes) (new_attribution astr wins (length pframes), \<lambda>_. [])"

lemma owner_seq_claimed:
  assumes "distinct (map frIndex frames)"
  shows "owner_seq (claimed wins frames) (peers asm frames key) = List.map_filter (decide wins) (peers asm frames key)"
  unfolding owner_seq_def map_filter_def
  by (intro arg_cong2 [where f = map] filter_cong map_cong) (auto simp: peers_def claimed_frame [OF assms])

lemma settled_frame:
  assumes "distinct (map frIndex frames)" "f \<in> set frames" "\<And>key. instance_of asm f = Some key \<Longrightarrow> key \<in> K"
  shows "settled_owner asm frames (claimed wins frames) K (frIndex f) = frame_owner wins asm frames f"
proof (cases "instance_of asm f")
  case None
  then show ?thesis using assms(1,2)
    by (simp add: settled_owner_def frame_owner_def claimed_frame frame_instance_def instance_of_def)
next
  case (Some key)
  then have "frame_instance asm (frIndex f) = Some key" by (simp add: instance_of_def frame_instance_def)
  then show ?thesis using assms(2) assms(3) [OF Some] Some
    by (simp add: settled_owner_def frame_owner_def owner_seq_claimed [OF assms(1)] claimed_frame [OF assms(1,2)])
qed

lemma settled_none: "n \<notin> frIndex ` set frames \<Longrightarrow> settled_owner asm frames (claimed wins frames) K n = None"
  by (simp add: settled_owner_def claimed_new split: option.split)

lemma owned_keys:
  assumes "distinct (map frIndex frames)" "\<And>f key. f \<in> set frames \<Longrightarrow> instance_of asm f = Some key \<Longrightarrow> key \<in> K"
  shows "listed asm frames (claimed wins frames) K u key \<longleftrightarrow>
    (\<exists>f \<in> set frames. instance_of asm f = Some key \<and> frame_owner wins asm frames f = Some u)"
proof -
  let ?fs = "peers asm frames key"
  let ?seq = "List.map_filter (decide wins) ?fs"
  have seq: "owner_seq (claimed wins frames) ?fs = ?seq" by (rule owner_seq_claimed [OF assms(1)])
  have fs: "f \<in> set ?fs \<longleftrightarrow> f \<in> set frames \<and> instance_of asm f = Some key" for f by (simp add: peers_def)
  have own: "frame_owner wins asm frames f = resolve ?seq (decide wins f)" if "f \<in> set ?fs" for f
    using that by (simp add: fs frame_owner_def)
  have mem: "u \<in> set ?seq \<longleftrightarrow> (\<exists>f \<in> set ?fs. decide wins f = Some u)" by (force simp: map_filter_def)
  show ?thesis
  proof (cases "2 \<le> length (remdups ?seq)")
    case True
    then have "?fs \<noteq> []" by auto
    then obtain f where f: "f \<in> set ?fs" by (meson last_in_set)
    have const: "resolve ?seq here = resolve ?seq None" for here using True by (simp add: resolve_def)
    have "key \<in> K" using assms(2) f fs by blast
    then have "listed asm frames (claimed wins frames) K u key \<longleftrightarrow> resolve ?seq None = Some u"
      using True by (simp add: listed_def seq)
    also have "\<dots> \<longleftrightarrow> (\<exists>f \<in> set ?fs. frame_owner wins asm frames f = Some u)"
      using f own const by metis
    finally show ?thesis using fs by auto
  next
    case False
    then have "listed asm frames (claimed wins frames) K u key \<longleftrightarrow> u \<in> set ?seq" by (simp add: listed_def seq)
    also have "\<dots> \<longleftrightarrow> (\<exists>f \<in> set ?fs. frame_owner wins asm frames f = Some u)"
      using mem own False by (auto simp: resolve_def)
    finally show ?thesis using fs by auto
  qed
qed

lemma bind_find:
  assumes "distinct (map frIndex frames)"
  shows "Option.bind (find (\<lambda>f. frIndex f = n) frames) h = Some u \<longleftrightarrow> (\<exists>f \<in> set frames. frIndex f = n \<and> h f = Some u)"
proof
  assume "Option.bind (find (\<lambda>f. frIndex f = n) frames) h = Some u"
  then obtain f where "find (\<lambda>f. frIndex f = n) frames = Some f" "h f = Some u" by (auto simp: bind_eq_Some_conv)
  then show "\<exists>f \<in> set frames. frIndex f = n \<and> h f = Some u" by (auto simp: find_Some_iff)
qed (auto simp: find_distinct [OF assms])

lemma attribution_result:
  assumes "frames = List.map_filter id pframes" "distinct (map frIndex frames)" "\<not> nameless wins"
    and "U = wnUID ` set wins" "enumerates U rng"
  obtains att ss where
    "consolidateStreams rng frames asm (first_state astr pframes wins asm) = (att, ss)"
    "held U att (\<lambda>n. Option.bind (find (\<lambda>f. frIndex f = n) frames) (frame_owner wins asm frames))"
    "\<forall>u key. key \<in> set (ss u) \<longleftrightarrow>
       (\<exists>f \<in> set frames. instance_of asm f = Some key \<and> frame_owner wins asm frames f = Some u)"
    "\<forall>rng'. enumerates U rng' \<longrightarrow>
       consolidateStreams rng' frames asm (first_state astr pframes wins asm) = (att, ss)"
proof -
  let ?s = "first_state astr pframes wins asm" and ?ow = "claimed wins frames"
  have first: "held U (fst ?s) ?ow" "\<And>u key. key \<in> set (snd ?s u) \<longleftrightarrow>
      (\<exists>f \<in> set frames. decide wins f = Some u \<and> instance_of asm f = Some key)"
    using first_pass [OF new_attribution_held [where astr = astr and wins = wins and n = "length pframes"] order_refl assms(2), where asm = asm]
    unfolding first_state_def assms(1,4) by blast+
  have start: "key \<in> set (snd ?s u) \<longleftrightarrow> listed asm frames ?ow {} u key" for u key
    unfolding first(2) listed_def owner_seq_claimed [OF assms(2)] by (force simp: map_filter_def peers_def)
  have named: "[] \<notin> U" using assms(3,4) by (simp add: nameless_def)
  define gs where "gs = fold (group_frame rng (fst ?s) asm) frames []"
  note grp = grouping [OF first(1) assms(5), of asm frames, folded gs_def]
  have same: "fold (group_frame rng' (fst ?s) asm) frames [] = gs" if "enumerates U rng'" for rng'
    unfolding gs_def
    by (intro fold_cong refl ext)
       (unfold group_frame_def enumerated_owner [OF first(1) that] enumerated_owner [OF first(1) assms(5)], rule refl)
  have group: "g = group_of ?ow (peers asm frames key)" if "(key, g) \<in> set gs" for key g
    using map_of_is_SomeI [OF conjunct2 [OF grp] that] grp by (simp add: groups_of_def split: if_splits)
  have key: "key \<in> fst ` set gs" if "f \<in> set frames" "instance_of asm f = Some key" for f key
  proof -
    have "f \<in> set (peers asm frames key)" using that by (simp add: peers_def)
    then have "map_of gs key \<noteq> None" using grp by (auto simp: groups_of_def)
    then show ?thesis by (simp add: map_of_eq_None_iff)
  qed
  note fold = consolidate_fold [OF first(1) assms(5) named start conjunct2 [OF grp] group]
  obtain att ss where as: "fold (consolidate_group rng) gs ?s = (att, ss)" by fastforce
  have ow: "settled_owner asm frames ?ow (fst ` set gs) =
      (\<lambda>n. Option.bind (find (\<lambda>f. frIndex f = n) frames) (frame_owner wins asm frames))"
  proof
    fix n
    show "settled_owner asm frames ?ow (fst ` set gs) n =
        Option.bind (find (\<lambda>f. frIndex f = n) frames) (frame_owner wins asm frames)"
    proof (cases "n \<in> frIndex ` set frames")
      case True
      then obtain f where f: "f \<in> set frames" "n = frIndex f" by blast
      show ?thesis using settled_frame [OF assms(2) f(1) key] f find_distinct [OF assms(2) f(1)] by simp
    next
      case False
      then have "find (\<lambda>f. frIndex f = n) frames = None" by (auto simp: find_None_iff)
      then show ?thesis using settled_none [OF False] by simp
    qed
  qed
  show thesis
  proof (rule that)
    show "consolidateStreams rng frames asm ?s = (att, ss)" by (simp add: consolidateStreams_def gs_def [symmetric] as)
    show "held U att (\<lambda>n. Option.bind (find (\<lambda>f. frIndex f = n) frames) (frame_owner wins asm frames))"
      using fold by (simp add: as ow)
    show "\<forall>u key. key \<in> set (ss u) \<longleftrightarrow>
        (\<exists>f \<in> set frames. instance_of asm f = Some key \<and> frame_owner wins asm frames f = Some u)"
      using fold owned_keys [OF assms(2) key] by (simp add: as)
    show "\<forall>rng'. enumerates U rng' \<longrightarrow>
        consolidateStreams rng' frames asm (first_state astr pframes wins asm) = (att, ss)"
      using fold by (auto simp: consolidateStreams_def same as)
  qed
qed

lemma attribution_sets:
  assumes "frames = List.map_filter id pframes" "distinct (map frIndex frames)" "\<not> nameless wins"
    and "enumerates (wnUID ` set wins) rng" "w \<in> set wins"
  shows "\<exists>fs. atSets (attributeStreams astr kstr rng pframes wins asm) (wnUID w) = Some fs \<and>
    sorted (fsFrames fs) \<and> distinct (fsFrames fs) \<and>
    (\<forall>n. fsOwns fs n \<longleftrightarrow> n \<in> set (fsFrames fs)) \<and>
    (\<forall>n. n \<in> set (fsFrames fs) \<longleftrightarrow>
       (\<exists>f \<in> set frames. frIndex f = n \<and> frame_owner wins asm frames f = Some (wnUID w))) \<and>
    (\<forall>key. key \<in> set (fsStreams fs) \<longleftrightarrow>
       (\<exists>f \<in> set frames. instance_of asm f = Some key \<and> frame_owner wins asm frames f = Some (wnUID w)))"
proof -
  obtain att ss where r: "consolidateStreams rng frames asm (first_state astr pframes wins asm) = (att, ss)"
    "held (wnUID ` set wins) att (\<lambda>n. Option.bind (find (\<lambda>f. frIndex f = n) frames) (frame_owner wins asm frames))"
    "\<forall>u key. key \<in> set (ss u) \<longleftrightarrow>
       (\<exists>f \<in> set frames. instance_of asm f = Some key \<and> frame_owner wins asm frames f = Some u)"
    "\<forall>rng'. enumerates (wnUID ` set wins) rng' \<longrightarrow>
       consolidateStreams rng' frames asm (first_state astr pframes wins asm) = (att, ss)"
    by (rule attribution_result [OF assms(1-3) refl assms(4), where asm = asm and astr = astr])
  obtain fs where fs: "atSets att (wnUID w) = Some fs" "set_holds
      (\<lambda>n. Option.bind (find (\<lambda>f. frIndex f = n) frames) (frame_owner wins asm frames)) (wnUID w) fs"
    using r(2) assms(5) unfolding held_def by (metis (no_types, lifting) domD imageI)
  let ?fs = "finish_set kstr ss (wnUID w) fs"
  have fields: "fsFrames ?fs = sort (fsFrames fs)" "fsOwns ?fs = fsOwns fs" "set (fsStreams ?fs) = set (ss (wnUID w))"
    by (simp_all add: finish_set_def)
  have "atSets (attributeStreams astr kstr rng pframes wins asm) (wnUID w) = Some ?fs"
    using r(1) fs(1) by (simp add: attributeStreams_def first_state_def assms(1))
  moreover have "sorted (fsFrames ?fs)" "distinct (fsFrames ?fs)"
    using fs(2) by (simp_all add: fields set_holds_def)
  moreover have "fsOwns ?fs n \<longleftrightarrow> n \<in> set (fsFrames ?fs)" for n
    using fs(2) by (simp add: fields set_holds_def)
  moreover have "n \<in> set (fsFrames ?fs) \<longleftrightarrow>
      (\<exists>f \<in> set frames. frIndex f = n \<and> frame_owner wins asm frames f = Some (wnUID w))" for n
    using fs(2) by (simp add: fields set_holds_def bind_find [OF assms(2)])
  ultimately show ?thesis using r(3) fields(3) by blast
qed

lemma frame_owner_wants:
  assumes "frame_owner wins asm frames f = Some u" "f \<in> set frames"
  shows "\<exists>g \<in> set frames. decide wins g = Some u \<and> (g = f \<or> instance_of asm g = instance_of asm f \<and> instance_of asm f \<noteq> None)"
proof (cases "instance_of asm f")
  case None
  then show ?thesis using assms by (auto simp: frame_owner_def)
next
  case (Some key)
  let ?seq = "List.map_filter (decide wins) (peers asm frames key)"
  have res: "resolve ?seq (decide wins f) = Some u" using assms(1) Some by (simp add: frame_owner_def)
  show ?thesis
  proof (cases "length (remdups ?seq) < 2")
    case True
    then show ?thesis using res assms(2) by (auto simp: resolve_def)
  next
    case False
    then have ne: "?seq \<noteq> []" by auto
    have "u = majority ?seq" using res False by (simp add: resolve_def split: if_splits)
    then have "u \<in> set ?seq" using vote_majority(2) [OF ne order_refl] by simp
    then obtain g where "g \<in> set (peers asm frames key)" "decide wins g = Some u" by (force simp: map_filter_def)
    then show ?thesis using Some by (auto simp: peers_def)
  qed
qed

lemma attributed_dom:
  assumes "frames = List.map_filter id pframes" "distinct (map frIndex frames)" "\<not> nameless wins"
    and "enumerates (wnUID ` set wins) rng" "u \<notin> wnUID ` set wins"
  shows "atSets (attributeStreams astr kstr rng pframes wins asm) u = None"
proof -
  obtain att ss where r: "consolidateStreams rng frames asm (first_state astr pframes wins asm) = (att, ss)"
    "held (wnUID ` set wins) att (\<lambda>n. Option.bind (find (\<lambda>f. frIndex f = n) frames) (frame_owner wins asm frames))"
    "\<forall>u key. key \<in> set (ss u) \<longleftrightarrow>
       (\<exists>f \<in> set frames. instance_of asm f = Some key \<and> frame_owner wins asm frames f = Some u)"
    "\<forall>rng'. enumerates (wnUID ` set wins) rng' \<longrightarrow>
       consolidateStreams rng' frames asm (first_state astr pframes wins asm) = (att, ss)"
    by (rule attribution_result [OF assms(1-3) refl assms(4), where asm = asm and astr = astr])
  then have "atSets att u = None" using assms(5) by (auto simp: held_def)
  then show ?thesis using r(1) by (simp add: attributeStreams_def first_state_def assms(1))
qed

lemma owns_attributed:
  assumes "frames = List.map_filter id pframes" "distinct (map frIndex frames)" "\<not> nameless wins"
    and "enumerates (wnUID ` set wins) rng"
  shows "owns (attributeStreams astr kstr rng pframes wins asm) u n \<longleftrightarrow>
    (\<exists>f \<in> set frames. frIndex f = n \<and> frame_owner wins asm frames f = Some u)"
proof (cases "u \<in> wnUID ` set wins")
  case True
  then obtain w where w: "w \<in> set wins" "u = wnUID w" by blast
  obtain fs where fs: "atSets (attributeStreams astr kstr rng pframes wins asm) (wnUID w) = Some fs"
    "\<forall>n. fsOwns fs n \<longleftrightarrow> n \<in> set (fsFrames fs)"
    "\<forall>n. n \<in> set (fsFrames fs) \<longleftrightarrow>
      (\<exists>f \<in> set frames. frIndex f = n \<and> frame_owner wins asm frames f = Some (wnUID w))"
    using attribution_sets [OF assms w(1), of astr kstr asm] by (elim exE conjE) (rule that)
  show ?thesis unfolding w(2) owns_def fs(1) option.case using fs(2,3) by blast
next
  case False
  then have "\<not> owns (attributeStreams astr kstr rng pframes wins asm) u n"
    using attributed_dom [OF assms] by (simp add: owns_def)
  moreover have "u \<in> wnUID ` set wins" if "f \<in> set frames" "frame_owner wins asm frames f = Some u" for f
    using frame_owner_wants [OF that(2,1)] by (auto dest: decide_wants)
  ultimately show ?thesis using False by blast
qed

lemma resolve_unique:
  assumes "resolve seq a = Some u" "resolve seq b = Some v" "a = Some u \<Longrightarrow> u \<in> set seq" "b = Some v \<Longrightarrow> v \<in> set seq"
  shows "u = v"
proof (cases "length (remdups seq) < 2")
  case True
  then have "card (set seq) \<le> Suc 0" by (simp add: length_remdups_card_conv)
  moreover have "u \<in> set seq" "v \<in> set seq" using assms True by (auto simp: resolve_def)
  ultimately show ?thesis using card_le_Suc0_iff_eq [of "set seq"] by blast
qed (use assms in \<open>auto simp: resolve_def split: if_splits\<close>)

lemma frame_owner_same_instance:
  assumes "f \<in> set frames" "g \<in> set frames" "instance_of asm f = Some key" "instance_of asm g = Some key"
    and "frame_owner wins asm frames f = Some u" "frame_owner wins asm frames g = Some v"
  shows "u = v"
proof -
  have "u \<in> set (List.map_filter (decide wins) (peers asm frames key))" if "decide wins h = Some u" "h \<in> set frames"
    "instance_of asm h = Some key" for h u
    using that by (force simp: map_filter_def peers_def)
  then show ?thesis
    using assms resolve_unique [of "List.map_filter (decide wins) (peers asm frames key)" "decide wins f" u "decide wins g" v]
    by (simp add: frame_owner_def)
qed

section \<open>What is contested stays on record\<close>

lemma contested_steps [simp]:
  "atContested (on_set u g att) = atContested att"
  "atContested (disown u n att) = atContested att"
  "atContested (fold (\<lambda>w. on_set (h w) (k w)) ws att) = atContested att"
  "atContested (strip_loop w n us att) = atContested att"
  "atContested (hand_over rng w f att) = atContested att"
  "atContested (fold (hand_over rng w) fs att) = atContested att"
proof -
  show on: "atContested (on_set u g att) = atContested att" for u g att by (simp add: on_set_def)
  show dis: "atContested (disown u n att) = atContested att" for u n att by (simp add: disown_def on)
  show "atContested (fold (\<lambda>w. on_set (h w) (k w)) ws att) = atContested att"
    by (induction ws arbitrary: att) (simp_all add: on)
  show strip: "atContested (strip_loop w n us att) = atContested att" for w n us att
    by (induction us arbitrary: att) (simp_all add: on dis)
  show hand: "atContested (hand_over rng w f att) = atContested att" for rng w f att
    by (simp add: hand_over_def Let_def on strip)
  show "atContested (fold (hand_over rng w) fs att) = atContested att"
    by (induction fs arbitrary: att) (simp_all add: hand)
qed

lemma mark_contested: "atContested att n \<noteq> None \<Longrightarrow> atContested (fold (mark_frame us) fs att) n \<noteq> None"
proof (induction fs arbitrary: att)
  case (Cons f fs)
  have "atContested (mark_frame us f att) n \<noteq> None"
    using Cons.prems contested_steps(3) [of "\<lambda>u. u" "\<lambda>_ fs. fs\<lparr>fsContested := fsContested fs @ [frIndex f]\<rparr>"]
    by (simp add: mark_frame_def Let_def)
  then show ?case using Cons.IH by simp
qed simp

lemma group_contested: "atContested (fst s) n \<noteq> None \<Longrightarrow> atContested (fst (consolidate_group rng kg s)) n \<noteq> None"
  using mark_contested [of "fst s" n] by (auto simp: consolidate_group_def markAmbiguous_def Let_def split: prod.split)

lemma groups_contested: "atContested (fst s) n \<noteq> None \<Longrightarrow> atContested (fst (fold (consolidate_group rng) gs s)) n \<noteq> None"
proof (induction gs arbitrary: s)
  case (Cons kg gs)
  show ?case using Cons.IH [OF group_contested [OF Cons.prems]] by simp
qed simp

lemma attribute_frame_contested:
  "atContested (fst s) n \<noteq> None \<Longrightarrow> atContested (fst (attribute_frame wins asm f s)) n \<noteq> None"
  "decide wins f = None \<Longrightarrow> 2 \<le> length (filter (wants f) wins) \<Longrightarrow>
    atContested (fst (attribute_frame wins asm f s)) (frIndex f) \<noteq> None"
  by (cases rule: attribute_frame_cases [of wins f asm s]; simp add: assign_def contest_def)+

lemma first_pass_contested:
  "f \<in> set frames \<and> decide wins f = None \<and> 2 \<le> length (filter (wants f) wins) \<or> atContested (fst s) (frIndex f) \<noteq> None \<Longrightarrow>
    atContested (fst (fold (attribute_frame wins asm) frames s)) (frIndex f) \<noteq> None"
proof (induction frames arbitrary: s)
  case (Cons g gs)
  have "f \<in> set gs \<and> decide wins f = None \<and> 2 \<le> length (filter (wants f) wins) \<or>
      atContested (fst (attribute_frame wins asm g s)) (frIndex f) \<noteq> None"
    using Cons.prems attribute_frame_contested(1) [of s "frIndex f" wins asm g]
      attribute_frame_contested(2) [of wins f asm s] by auto
  then show ?case using Cons.IH by simp
qed simp

lemma attribution_contested:
  assumes "f \<in> set (List.map_filter id pframes)" "decide wins f = None" "2 \<le> length (filter (wants f) wins)"
  shows "atContested (attributeStreams astr kstr rng pframes wins asm) (frIndex f) \<noteq> None"
proof -
  have "atContested (fst (first_state astr pframes wins asm)) (frIndex f) \<noteq> None"
    unfolding first_state_def by (rule first_pass_contested) (use assms in blast)
  then have "atContested (fst (consolidateStreams rng frames asm (first_state astr pframes wins asm))) (frIndex f) \<noteq> None" for frames
    unfolding consolidateStreams_def by (rule groups_contested)
  then show ?thesis by (simp add: attributeStreams_def first_state_def Let_def split: prod.split) (metis fst_conv)
qed

section \<open>A capture two checks share\<close>

text \<open>One connection to the bench server, four frames; the windows of the checks A and B overlap, so that the
  third frame is wanted by both and the two-signal rule gives it to nobody.\<close>

definition server :: endpoint where "server = Endpoint (IPv4Addr 2) 802"
definition client :: endpoint where "client = Endpoint (IPv4Addr 1) 40000"

definition demo_frame :: "nat \<Rightarrow> int \<Rightarrow> frame" where
  "demo_frame n t = (fresh_frame 1 [])\<lparr>frIndex := n, frTime := (t, 0), frSrc := epAddr client, frDst := epAddr server,
    frTCP := Some \<lparr>tcSrcPort = epPort client, tcDstPort = epPort server, tcSeq = 0, tcAck = 0, tcFlags = 0,
      tcWindow = 0, tcHeaderLen = 20, tcOptions = [], tcPayload = []\<rparr>\<rparr>"

definition demo_frames :: "frame list" where
  "demo_frames = [demo_frame 1 11, demo_frame 2 12, demo_frame 3 19, demo_frame 4 25]"

definition demo_window :: "uid \<Rightarrow> int \<Rightarrow> int \<Rightarrow> checkWindow" where
  "demo_window u s e = Close (e, 0) (Open (s, 0)
    (snd (ClaimEndpointDuring ''tcp'' server ''bench only'' (s, 0) ((NewWindow u ''csip'')\<lparr>wnGuard := - 1\<rparr>))))"

definition demo_windows :: "checkWindow list" where
  "demo_windows = [demo_window ''A'' 10 20, demo_window ''B'' 18 30]"

definition demo_asm :: assembler where
  "demo_asm = NewAssembler\<lparr>asAll := [new_stream (Stream \<lparr>flSrc = client, flDst = server\<rparr>) 0 0 1],
    asOwner := (\<lambda>n. if n \<in> {1, 2, 3, 4} then Some 0 else None)\<rparr>"

definition demo_ranges :: ranges where "demo_ranges _ _ = [''A'', ''B'']"

lemma demo_distinct: "distinct (map frIndex demo_frames)" by code_simp
lemma demo_named: "\<not> nameless demo_windows" by code_simp
lemma demo_ranges_ok: "enumerates (wnUID ` set demo_windows) demo_ranges"
  by (simp add: enumerates_def demo_ranges_def demo_windows_def demo_window_def Open_def Close_def
      ClaimEndpointDuring_def NewWindow_def)
lemma demo_pointers: "List.map_filter id (map Some demo_frames) = demo_frames"
  by (simp add: map_filter_def comp_def)
lemma demo_owners: "map (decide demo_windows) demo_frames = [Some ''A'', Some ''A'', None, Some ''B'']"
  "map (frame_owner demo_windows demo_asm demo_frames) demo_frames = [Some ''A'', Some ''A'', Some ''A'', Some ''A'']"
  by code_simp+
lemma demo_wanted: "length (filter (wants (demo_frame 3 19)) demo_windows) = 2" by code_simp

text \<open>A frame both windows claim, and that the two-signal rule gives to neither, is owned after all when its
  connection is split: the majority owner takes every frame of the connection, the contested one included,
  which stays on record as contested.\<close>

lemma contested_frame_owned:
  "\<exists>astr kstr rng pframes wins asm f u. distinct (map frIndex (List.map_filter id pframes)) \<and> \<not> nameless wins \<and>
    enumerates (wnUID ` set wins) rng \<and> f \<in> set (List.map_filter id pframes) \<and>
    decide wins f = None \<and> owns (attributeStreams astr kstr rng pframes wins asm) u (frIndex f) \<and>
    atContested (attributeStreams astr kstr rng pframes wins asm) (frIndex f) \<noteq> None"
proof (intro exI conjI)
  let ?f = "demo_frame 3 19"
  show "distinct (map frIndex (List.map_filter id (map Some demo_frames)))" by (simp only: demo_pointers demo_distinct)
  show "\<not> nameless demo_windows" "enumerates (wnUID ` set demo_windows) demo_ranges"
    by (rule demo_named demo_ranges_ok)+
  show f: "?f \<in> set (List.map_filter id (map Some demo_frames))" by (simp add: demo_pointers) (simp add: demo_frames_def)
  show d: "decide demo_windows ?f = None" using demo_owners(1) by (simp add: demo_frames_def)
  show "atContested (attributeStreams (\<lambda>_. []) (\<lambda>_. []) demo_ranges (map Some demo_frames) demo_windows demo_asm) (frIndex ?f) \<noteq> None"
    by (rule attribution_contested [OF f d]) (simp only: demo_wanted order_refl)
  have "frame_owner demo_windows demo_asm demo_frames ?f = Some ''A''" using demo_owners(2) by (simp add: demo_frames_def)
  then show "owns (attributeStreams (\<lambda>_. []) (\<lambda>_. []) demo_ranges (map Some demo_frames) demo_windows demo_asm) ''A'' (frIndex ?f)"
    using f owns_attributed [OF demo_pointers [symmetric] demo_distinct demo_named demo_ranges_ok] by (auto simp: demo_pointers)
qed

section \<open>Properties\<close>

text \<open>C26: the frame sets the code computes are the abstract owners, for frames with distinct numbers and checks that
  all have a name, and for every order in which the map of frame sets may be ranged over: a frame is owned by a
  check exactly when the two-signal rule and the fate of its connection give it to that check, its frame list is
  the owned frames in ascending order, and its streams are the connections it owns a frame of.\<close>

theorem attributeStreams_refines:
  assumes "frames = List.map_filter id pframes" "distinct (map frIndex frames)" "\<not> nameless wins"
    and "enumerates (wnUID ` set wins) rng" "w \<in> set wins"
  shows "\<exists>fs. atSets (attributeStreams astr kstr rng pframes wins asm) (wnUID w) = Some fs \<and>
    sorted (fsFrames fs) \<and> distinct (fsFrames fs) \<and>
    (\<forall>n. fsOwns fs n \<longleftrightarrow> n \<in> set (fsFrames fs)) \<and>
    (\<forall>n. n \<in> set (fsFrames fs) \<longleftrightarrow>
       (\<exists>f \<in> set frames. frIndex f = n \<and> frame_owner wins asm frames f = Some (wnUID w))) \<and>
    (\<forall>key. key \<in> set (fsStreams fs) \<longleftrightarrow>
       (\<exists>f \<in> set frames. instance_of asm f = Some key \<and> frame_owner wins asm frames f = Some (wnUID w)))"
  by (rule attribution_sets [OF assms])

theorem attributeStreams_refines_witness:
  "\<exists>fs. atSets (attributeStreams (\<lambda>_. []) (\<lambda>_. []) demo_ranges (map Some demo_frames) demo_windows demo_asm) ''A'' = Some fs \<and>
    fsFrames fs = [1, 2, 3, 4]"
proof -
  have w: "demo_window ''A'' 10 20 \<in> set demo_windows" "wnUID (demo_window ''A'' 10 20) = ''A''"
    by (simp add: demo_windows_def) code_simp
  obtain fs where fs: "atSets (attributeStreams (\<lambda>_. []) (\<lambda>_. []) demo_ranges (map Some demo_frames) demo_windows demo_asm) ''A'' = Some fs"
    "sorted (fsFrames fs)" "distinct (fsFrames fs)"
    "\<forall>n. n \<in> set (fsFrames fs) \<longleftrightarrow>
       (\<exists>f \<in> set demo_frames. frIndex f = n \<and> frame_owner demo_windows demo_asm demo_frames f = Some ''A'')"
    using attributeStreams_refines [OF demo_pointers [symmetric] demo_distinct demo_named demo_ranges_ok w(1),
        of "\<lambda>_. []" "\<lambda>_. []" demo_asm] unfolding w(2) by (elim exE conjE) (rule that)
  have "n \<in> set (fsFrames fs) \<longleftrightarrow> n \<in> set [1, 2, 3, 4]" for n
    using fs(4) demo_owners(2) by (auto simp: demo_frames_def demo_frame_def)
  then have "fsFrames fs = [1, 2, 3, 4]" by (intro sorted_distinct_set_unique fs(2,3)) auto
  then show ?thesis using fs(1) by blast
qed

text \<open>An owned connection has one owner, and no check gets a frame of a connection that none of its own
  claims matched in time and 4-tuple: the frames two checks own are never of the same connection, and the
  owner of a frame has an open window that wants that frame or another frame of the same connection.\<close>

lemma attribution_atomic:
  assumes "frames = List.map_filter id pframes" "distinct (map frIndex frames)" "\<not> nameless wins"
    and "enumerates (wnUID ` set wins) rng" "att = attributeStreams astr kstr rng pframes wins asm"
    and "f \<in> set frames" "g \<in> set frames" "owns att u (frIndex f)" "owns att v (frIndex g)"
    and "f = g \<or> instance_of asm f = instance_of asm g \<and> instance_of asm f \<noteq> None"
  shows "u = v \<and> (\<exists>h \<in> set frames. \<exists>w \<in> set wins. wnUID w = u \<and> wants h w \<and>
    (h = f \<or> instance_of asm h = instance_of asm f \<and> instance_of asm f \<noteq> None))"
proof -
  have own: "owns att x (frIndex h) \<longleftrightarrow> frame_owner wins asm frames h = Some x" if "h \<in> set frames" for x h
  proof -
    have "h' = h" if "h' \<in> set frames" "frIndex h' = frIndex h" for h'
      using assms(2) that \<open>h \<in> set frames\<close> by (auto simp: distinct_map inj_on_def)
    then show ?thesis using that by (auto simp: assms(5) owns_attributed [OF assms(1-4)])
  qed
  have fo: "frame_owner wins asm frames f = Some u" "frame_owner wins asm frames g = Some v"
    using assms(6-9) own by blast+
  have "u = v"
  proof (cases "f = g")
    case False
    then obtain key where "instance_of asm f = Some key" "instance_of asm g = Some key"
      using assms(10) by (metis option.exhaust)
    then show ?thesis using frame_owner_same_instance [OF assms(6,7) _ _ fo] by blast
  qed (use fo in simp)
  moreover obtain h where "h \<in> set frames" "decide wins h = Some u"
    "h = f \<or> instance_of asm h = instance_of asm f \<and> instance_of asm f \<noteq> None"
    using frame_owner_wants [OF fo(1) assms(6)] by blast
  ultimately show ?thesis using decide_wants [of wins h u] by blast
qed

lemma attribution_atomic_sample:
  "\<exists>h \<in> set demo_frames. \<exists>w \<in> set demo_windows. wnUID w = ''A'' \<and> wants h w \<and>
    (h = demo_frame 4 25 \<or> instance_of demo_asm h = instance_of demo_asm (demo_frame 4 25) \<and>
      instance_of demo_asm (demo_frame 4 25) \<noteq> None)"
proof -
  let ?att = "attributeStreams (\<lambda>_. []) (\<lambda>_. []) demo_ranges (map Some demo_frames) demo_windows demo_asm"
  have f: "demo_frame 4 25 \<in> set demo_frames" by (simp add: demo_frames_def)
  have "frame_owner demo_windows demo_asm demo_frames (demo_frame 4 25) = Some ''A''"
    using demo_owners(2) by (simp add: demo_frames_def)
  then have "owns ?att ''A'' (frIndex (demo_frame 4 25))"
    using f owns_attributed [OF demo_pointers [symmetric] demo_distinct demo_named demo_ranges_ok] by blast
  then show ?thesis
    using attribution_atomic [OF demo_pointers [symmetric] demo_distinct demo_named demo_ranges_ok refl f f] by blast
qed

text \<open>The attribution does not depend on the order in which Go ranges over its maps: two runs over one
  capture produce identical bundles.\<close>

lemma attribution_deterministic:
  assumes "distinct (map frIndex (List.map_filter id pframes))" "\<not> nameless wins"
    and "enumerates (wnUID ` set wins) rng" "enumerates (wnUID ` set wins) rng'"
  shows "attributeStreams astr kstr rng pframes wins asm = attributeStreams astr kstr rng' pframes wins asm"
proof -
  obtain att ss where r: "consolidateStreams rng (List.map_filter id pframes) asm (first_state astr pframes wins asm) = (att, ss)"
    "\<forall>rng'. enumerates (wnUID ` set wins) rng' \<longrightarrow>
       consolidateStreams rng' (List.map_filter id pframes) asm (first_state astr pframes wins asm) = (att, ss)"
    by (rule attribution_result [OF refl assms(1,2) refl assms(3), where asm = asm and astr = astr])
  then show ?thesis using assms(4) by (simp add: attributeStreams_def first_state_def)
qed

lemma attribution_deterministic_sample:
  "attributeStreams (\<lambda>_. []) (\<lambda>_. []) demo_ranges (map Some demo_frames) demo_windows demo_asm =
   attributeStreams (\<lambda>_. []) (\<lambda>_. []) (\<lambda>site n. rev (demo_ranges site n)) (map Some demo_frames) demo_windows demo_asm"
  by (rule attribution_deterministic [OF _ demo_named demo_ranges_ok])
     (use demo_distinct demo_ranges_ok in \<open>simp_all add: demo_pointers enumerates_def\<close>)

end
