(* ===== verification/Certify_Evidence.thy ===== *)
theory Certify_Evidence
  imports Certify_Attribution
begin

text \<open>
  \<^verbatim>\<open>internal/certify/evidence.go\<close>: the run's capture dissected and reassembled once, and the constructors
  through which a check turns its share of it into assertions.  A check may cite the frames it owns, and the
  other frames of a connection it owns as long as no other check claims them.  The key log and the capture's
  metadata, which the constructors do not read, are left out of the record \<open>evidence\<close>.
\<close>

section \<open>The frame index\<close>

definition instance_string :: "(addr \<Rightarrow> string) \<Rightarrow> instance_key \<Rightarrow> string" where
  "instance_string astr k =
    (let s = endpoint_string astr (skA (fst k)) @ '' <> '' @ endpoint_string astr (skB (fst k))
     in if snd k = 0 then s else s @ '' (reuse #'' @ decimal (snd k) @ '')'')"

definition direction_key :: "direction \<Rightarrow> instance_key" where
  "direction_key d = (Stream (drFlow d), drGen d)"

datatype capture_problem =
    DidNotDissect nat "nat list"
  | ConflictingOverlaps flowKey "overlap list"
  | MissingBytes flowKey int
  | DamagedAfter nat pcap_error

record frameIndex =
  fiPackets :: "packet list"
  fiFrames :: "frame list"
  fiByIndex :: "int \<Rightarrow> packet option"
  fiByFrame :: "nat \<rightharpoonup> frame"
  fiAsm :: assembler
  fiUndissectable :: "nat list"
  fiProblems :: "capture_problem list"

definition firstN :: "nat list \<Rightarrow> nat \<Rightarrow> nat list" where
  "firstN v n = (if length v \<le> n then v else take n v)"

definition index_packet :: "packet \<Rightarrow> frameIndex \<Rightarrow> frameIndex" where
  "index_packet p fi =
    (let fi1 = fi\<lparr>fiByIndex := (fiByIndex fi)(int (pkIndex p) \<mapsto> p)\<rparr> in
     case DecodePacket p of
       Inl e \<Rightarrow> fi1\<lparr>fiUndissectable := fiUndissectable fi1 @ [pkIndex p]\<rparr>
     | Inr f \<Rightarrow> fi1\<lparr>fiAsm := AddFrame (fiAsm fi1) f, fiFrames := fiFrames fi1 @ [f],
                   fiByFrame := (fiByFrame fi1)(frIndex f \<mapsto> f)\<rparr>)"

definition direction_problems :: "direction \<Rightarrow> capture_problem list" where
  "direction_problems d =
    (if HasConflictingOverlap d then [ConflictingOverlaps (drFlow d) (drOverlaps d)] else []) @
    (if \<not> Complete d then [MissingBytes (drFlow d) (PendingGap d)] else [])"

definition NewFrameIndex :: "packet list \<Rightarrow> frameIndex" where
  "NewFrameIndex pkts =
    (let fi = fold index_packet pkts \<lparr>fiPackets = pkts, fiFrames = [], fiByIndex = (\<lambda>_. None),
                 fiByFrame = Map.empty, fiAsm = NewAssembler, fiUndissectable = [], fiProblems = []\<rparr>;
         n = length (fiUndissectable fi);
         first = (if n > 0 then [DidNotDissect n (firstN (fiUndissectable fi) 8)] else [])
     in fi\<lparr>fiProblems := first @
          concat (map (\<lambda>st. concat (map direction_problems (stDirs st))) (asAll (fiAsm fi)))\<rparr>)"

text \<open>\<^verbatim>\<open>LoadFrameIndex\<close>, from what \<^verbatim>\<open>pcapng.ReadFile\<close> returned.\<close>

definition LoadFrameIndex :: "packet list \<times> pcap_error option \<Rightarrow> pcap_error + frameIndex" where
  "LoadFrameIndex r =
    (case r of
       ([], Some e) \<Rightarrow> Inl e
     | (pkts, err) \<Rightarrow>
         let fi = NewFrameIndex pkts in
         Inr (case err of None \<Rightarrow> fi
              | Some e \<Rightarrow> fi\<lparr>fiProblems := fiProblems fi @ [DamagedAfter (length pkts) e]\<rparr>))"

definition Attribute :: "(addr \<Rightarrow> string) \<Rightarrow> ranges \<Rightarrow> frameIndex \<Rightarrow> checkWindow list \<Rightarrow> attribution" where
  "Attribute astr rng fi wins =
    attributeStreams astr (instance_string astr) rng (map Some (fiFrames fi)) wins (fiAsm fi)"

section \<open>What a check is handed\<close>

record evidence =
  evCase :: uid
  evSet :: frameSet
  evIndex :: frameIndex
  evAttribution :: "attribution option"
  evOffWire :: bool
  evOffWireReason :: string

definition DeclareOffWire :: "string \<Rightarrow> evidence \<Rightarrow> evidence" where
  "DeclareOffWire reason e =
    (let e1 = e\<lparr>evOffWire := True\<rparr> in if reason \<noteq> [] then e1\<lparr>evOffWireReason := reason\<rparr> else e1)"

text \<open>Frame numbers come from the suite and may be any integer; \<open>rng n\<close> is the enumeration of the frame sets
  that the range statement uses when it looks for frame \<open>n\<close>.\<close>

type_synonym frame_ranges = "int \<Rightarrow> uid list"

definition set_owns :: "frameSet \<Rightarrow> int \<Rightarrow> bool" where
  "set_owns fs n \<longleftrightarrow> 0 \<le> n \<and> fsOwns fs (nat n)"

definition att_owns :: "attribution \<Rightarrow> uid \<Rightarrow> int \<Rightarrow> bool" where
  "att_owns att u n \<longleftrightarrow> 0 \<le> n \<and> owns att u (nat n)"

definition contested :: "attribution \<Rightarrow> int \<Rightarrow> uid list option" where
  "contested att n = (if n < 0 then None else atContested att (nat n))"

text \<open>\<^verbatim>\<open>Attribution.owner\<close>, of a pointer that may be nil.\<close>

definition att_owner :: "frame_ranges \<Rightarrow> attribution option \<Rightarrow> int \<Rightarrow> string" where
  "att_owner rng pa n =
    (case pa of None \<Rightarrow> []
     | Some att \<Rightarrow>
         (case find (\<lambda>u. att_owns att u n) (rng n) of
            Some u \<Rightarrow> u
          | None \<Rightarrow>
              (case contested att n of
                 Some us \<Rightarrow> ''contested between '' @ join '', '' us
               | None \<Rightarrow> [])))"

definition mayCite :: "frame_ranges \<Rightarrow> evidence \<Rightarrow> int \<Rightarrow> bool \<times> bool" where
  "mayCite rng e n =
    (if set_owns (evSet e) n then (True, False)
     else if n < 0 \<or> fiByFrame (evIndex e) (nat n) = None then (False, False)
     else
       case stream_for (fiAsm (evIndex e)) n of
         None \<Rightarrow> (False, False)
       | Some st \<Rightarrow>
           if InstanceKey st \<notin> set (fsStreams (evSet e)) then (False, False)
           else
             case evAttribution e of
               None \<Rightarrow> (True, True)
             | Some att \<Rightarrow>
                 if list_ex (\<lambda>u. u \<noteq> evCase e \<and> att_owns att u n) (rng n) then (False, False)
                 else if contested att n \<noteq> None then (False, False)
                 else (True, True))"

definition ev_Packets :: "evidence \<Rightarrow> packet list" where
  "ev_Packets e = List.map_filter (\<lambda>n. fiByIndex (evIndex e) (int n)) (fsFrames (evSet e))"

section \<open>Conversations\<close>

datatype evidence_error =
    NoConversation uid endpoint "instance_key list"
  | ManyConversations uid nat endpoint
  | NoneOnPort uid u16 "instance_key list"
  | ManyOnPort uid nat u16
  | NoFramesCited uid
  | MayNotCite uid int string
  | NilDirection uid
  | NotOurStream uid string "instance_key list"
  | OutsideWindow uid string int int nat
  | BundleRefused uid cite_error
  | NarrativeNoSource uid

definition ev_Streams :: "evidence \<Rightarrow> stream list" where
  "ev_Streams e = filter (\<lambda>st. InstanceKey st \<in> set (fsStreams (evSet e))) (asAll (fiAsm (evIndex e)))"

definition endpointOf :: "endpoint \<Rightarrow> endpoint" where
  "endpointOf e = Endpoint (Unmap (epAddr e)) (epPort e)"

definition ev_Stream :: "endpoint \<Rightarrow> evidence \<Rightarrow> evidence_error + stream" where
  "ev_Stream remote e =
    (case filter (\<lambda>st. endpointOf (skA (stKey st)) = remote \<or> endpointOf (skB (stKey st)) = remote) (ev_Streams e) of
       [] \<Rightarrow> Inl (NoConversation (evCase e) remote (fsStreams (evSet e)))
     | [st] \<Rightarrow> Inr st
     | hits \<Rightarrow> Inl (ManyConversations (evCase e) (length hits) remote))"

definition StreamsOn :: "u16 \<Rightarrow> evidence \<Rightarrow> evidence_error + stream list" where
  "StreamsOn port e =
    (let hits = filter (\<lambda>st. epPort (skA (stKey st)) = port \<or> epPort (skB (stKey st)) = port) (ev_Streams e)
     in if length hits = 0 then Inl (NoneOnPort (evCase e) port (fsStreams (evSet e))) else Inr hits)"

definition StreamOn :: "u16 \<Rightarrow> evidence \<Rightarrow> evidence_error + stream" where
  "StreamOn port e =
    (case StreamsOn port e of
       Inl err \<Rightarrow> Inl err
     | Inr hits \<Rightarrow> if length hits > 1 then Inl (ManyOnPort (evCase e) (length hits) port) else Inr (hd hits))"

section \<open>Citations\<close>

definition joinNote :: "string \<Rightarrow> string \<Rightarrow> string" where
  "joinNote a b = (if a = [] then b else if b = [] then a else a @ ''; '' @ b)"

definition sessionNote :: string where
  "sessionNote =
    ''cited as part of a TLS conversation this check owns whose establishing handshake '' @
    ''landed just before the window opened (a long-lived connection the DUT kept alive into it); the same '' @
    [CHR 0x22] @ ''a TLS session is indivisible evidence'' @ [CHR 0x22] @
    '' rule the attributor applies to a split conversation''"

definition annotate :: "evidence \<Rightarrow> assertion \<Rightarrow> assertion" where
  "annotate e a =
    (if fsPrecision (evSet e) = PrecisionEndpoint then
       let note = ''frames attributed by remote endpoint and time, not by connection 4-tuple'';
           note1 = (if fsEndpointReason (evSet e) \<noteq> [] then note @ '': '' @ fsEndpointReason (evSet e) else note)
       in a\<lparr>anNote := joinNote (anNote a) note1\<rparr>
     else a)"

definition with_session :: "bool \<Rightarrow> assertion \<Rightarrow> assertion" where
  "with_session via a = (if via then a\<lparr>anNote := joinNote (anNote a) sessionNote\<rparr> else a)"

fun cite_loop :: "frame_ranges \<Rightarrow> evidence \<Rightarrow> int list \<Rightarrow> bool \<Rightarrow> evidence_error + bool" where
  "cite_loop rng e [] via = Inr via"
| "cite_loop rng e (f # fs) via =
    (case mayCite rng e f of
       (False, _) \<Rightarrow>
         let owner = att_owner rng (evAttribution e) f in
         Inl (MayNotCite (evCase e) f
           (if owner = [] then ''no test case (background traffic or outside every window)'' else owner))
     | (True, s) \<Rightarrow> cite_loop rng e fs (via \<or> s))"

definition ev_CiteFrames :: "sha256 \<Rightarrow> frame_ranges \<Rightarrow> evidence \<Rightarrow> string \<Rightarrow> string \<Rightarrow> verdict \<Rightarrow> string \<Rightarrow> int list \<Rightarrow>
    evidence_error + assertion" where
  "ev_CiteFrames sha rng e claim meth v observed frames =
    (if length frames = 0 then Inl (NoFramesCited (evCase e))
     else
       case cite_loop rng e frames False of
         Inl err \<Rightarrow> Inl err
       | Inr via \<Rightarrow>
           (case CiteFrames sha claim meth v observed (fiPackets (evIndex e)) frames of
              Inl err \<Rightarrow> Inl (BundleRefused (evCase e) err)
            | Inr a \<Rightarrow> Inr (annotate e (with_session via a))))"

fun carried_loop :: "frame_ranges \<Rightarrow> evidence \<Rightarrow> string \<Rightarrow> int \<Rightarrow> int \<Rightarrow> nat list \<Rightarrow> bool \<Rightarrow> evidence_error + bool" where
  "carried_loop rng e ref start end' [] via = Inr via"
| "carried_loop rng e ref start end' (f # fs) via =
    (case mayCite rng e (int f) of
       (False, _) \<Rightarrow> Inl (OutsideWindow (evCase e) ref start end' f)
     | (True, s) \<Rightarrow> carried_loop rng e ref start end' fs (via \<or> s))"

definition ev_CiteBytes :: "sha256 \<Rightarrow> (addr \<Rightarrow> string) \<Rightarrow> frame_ranges \<Rightarrow> evidence \<Rightarrow> string \<Rightarrow> string \<Rightarrow> verdict \<Rightarrow>
    string \<Rightarrow> direction option \<Rightarrow> int \<Rightarrow> int \<Rightarrow> evidence_error + assertion" where
  "ev_CiteBytes sha astr rng e claim meth v observed pd start end' =
    (case pd of
       None \<Rightarrow> Inl (NilDirection (evCase e))
     | Some d \<Rightarrow>
         let ref = StreamRef astr d in
         if direction_key d \<notin> set (fsStreams (evSet e)) then Inl (NotOurStream (evCase e) ref (fsStreams (evSet e)))
         else
           case carried_loop rng e ref start end' (PacketsFor (drBytes d) start end') False of
             Inl err \<Rightarrow> Inl err
           | Inr via \<Rightarrow>
               (case CiteBytes sha claim meth v observed ref (drBytes d) start end' of
                  Inl err \<Rightarrow> Inl (BundleRefused (evCase e) err)
                | Inr a \<Rightarrow> Inr (annotate e (with_session via a))))"

definition ev_Narrative :: "evidence \<Rightarrow> string \<Rightarrow> string \<Rightarrow> verdict \<Rightarrow> string \<Rightarrow> string \<Rightarrow> evidence_error + assertion" where
  "ev_Narrative e claim meth v observed source =
    (if TrimSpace source = [] then Inl (NarrativeNoSource (evCase e))
     else Inr (blank_assertion\<lparr>anClaim := claim, anMethod := meth, anVerdict := v, anObserved := observed,
       anNote := ''not wire-cited; source: '' @ source\<rparr>))"

definition SkipAssertion :: "string \<Rightarrow> string \<Rightarrow> string \<Rightarrow> assertion" where
  "SkipAssertion claim meth reason =
    blank_assertion\<lparr>anClaim := claim, anMethod := meth, anVerdict := Skip, anObserved := reason,
      anNote := ''not asserted in this run''\<rparr>"

definition NoEvidence :: "evidence \<Rightarrow> string \<Rightarrow> assertion" where
  "NoEvidence e claim =
    (let reason = ''no capture frames were attributed to this test case'';
         reason1 = (if fsPrecision (evSet e) = PrecisionNone
           then reason @ '': the check registered no connections, so the framework had nothing to attribute by''
           else reason @ '': '' @ decimal (fsTimeOnlyRejected (evSet e)) @
                '' frame(s) fell inside the window but belonged to other conversations'')
     in SkipAssertion claim ''frame attribution (time AND flow)'' reason1)"

section \<open>The index of a capture\<close>

lemma index_fold:
  "fiPackets (fold index_packet ps fi) = fiPackets fi"
  "fiAsm (fold index_packet ps fi) = fed ps (fiAsm fi)"
  "fiFrames (fold index_packet ps fi) = fiFrames fi @
     concat (map (\<lambda>p. case DecodePacket p of Inl e \<Rightarrow> [] | Inr f \<Rightarrow> [f]) ps)"
  by (induction ps arbitrary: fi)
     (auto simp: index_packet_def Let_def fed_def AddPacket_def split: sum.splits)

lemma index_by_frame:
  "\<forall>n f. fiByFrame fi n = Some f \<longrightarrow> f \<in> set (fiFrames fi) \<and> frIndex f = n \<Longrightarrow>
    fiByFrame (fold index_packet ps fi) n = Some f \<Longrightarrow> f \<in> set (fiFrames (fold index_packet ps fi)) \<and> frIndex f = n"
proof (induction ps arbitrary: fi)
  case (Cons p ps)
  have "\<forall>n f. fiByFrame (index_packet p fi) n = Some f \<longrightarrow> f \<in> set (fiFrames (index_packet p fi)) \<and> frIndex f = n"
    using Cons.prems(1) by (auto simp: index_packet_def Let_def split: sum.splits if_splits)
  then show ?case using Cons.IH [of "index_packet p fi"] Cons.prems(2) by simp
qed simp

lemma NewFrameIndex_frames:
  assumes "capture_ok pkts"
  shows "distinct (map frIndex (fiFrames (NewFrameIndex pkts)))"
proof -
  let ?dec = "\<lambda>p. case DecodePacket p of Inl e \<Rightarrow> [] | Inr f \<Rightarrow> [f]"
  have sub: "frIndex ` set (concat (map ?dec ps)) \<subseteq> pkIndex ` set ps" for ps
    by (auto simp: DecodePacket_index split: sum.splits)
  have "distinct (map pkIndex ps) \<Longrightarrow> distinct (map frIndex (concat (map ?dec ps)))" for ps
  proof (induction ps)
    case (Cons p ps)
    have "frIndex f \<notin> frIndex ` set (concat (map ?dec ps))" if "DecodePacket p = Inr f" for f
      using sub [of ps] Cons.prems DecodePacket_index [OF that] by (auto simp del: set_concat)
    then show ?case using Cons by (auto simp del: set_concat split: sum.split)
  qed simp
  then show ?thesis using assms by (simp add: NewFrameIndex_def Let_def index_fold capture_ok_def)
qed

lemma NewFrameIndex_by_frame:
  "fiByFrame (NewFrameIndex pkts) n = Some f \<Longrightarrow> f \<in> set (fiFrames (NewFrameIndex pkts)) \<and> frIndex f = n"
  using index_by_frame [of "\<lparr>fiPackets = pkts, fiFrames = [], fiByIndex = (\<lambda>_. None),
    fiByFrame = Map.empty, fiAsm = NewAssembler, fiUndissectable = [], fiProblems = []\<rparr>" pkts n f]
  by (simp add: NewFrameIndex_def Let_def)

lemma index_frame_instance: "fiByFrame fi (nat n) = Some f \<Longrightarrow> frIndex f = nat n \<Longrightarrow> 0 \<le> n \<Longrightarrow>
    stream_for (fiAsm fi) n = Some st \<Longrightarrow> instance_of (fiAsm fi) f = Some (InstanceKey st)"
  by (simp add: stream_for_def instance_of_def)

section \<open>Who may cite what\<close>

definition evidence_for :: "frameIndex \<Rightarrow> attribution \<Rightarrow> uid \<Rightarrow> evidence \<Rightarrow> bool" where
  "evidence_for fi att u e \<longleftrightarrow>
    evCase e = u \<and> evSet e = att_Set att u \<and> evIndex e = fi \<and> evAttribution e = Some att"

definition citation_by :: "sha256 \<Rightarrow> (addr \<Rightarrow> string) \<Rightarrow> frame_ranges \<Rightarrow> evidence \<Rightarrow> assertion \<Rightarrow> bool" where
  "citation_by sha astr rng e a \<longleftrightarrow>
    (\<exists>claim meth v observed frames. ev_CiteFrames sha rng e claim meth v observed frames = Inr a) \<or>
    (\<exists>claim meth v observed pd start end'. ev_CiteBytes sha astr rng e claim meth v observed pd start end' = Inr a)"

lemma note_fields [simp]:
  "anFrames (annotate e a) = anFrames a" "anFrames (with_session via a) = anFrames a"
  by (simp_all add: annotate_def with_session_def Let_def)

lemma cite_loop_all: "cite_loop rng e fs via = Inr via' \<Longrightarrow> n \<in> set fs \<Longrightarrow> fst (mayCite rng e n)"
  by (induction fs arbitrary: via) (auto split: prod.splits bool.splits simp: Let_def)

lemma carried_loop_all: "carried_loop rng e ref s t fs via = Inr via' \<Longrightarrow> n \<in> set fs \<Longrightarrow> fst (mayCite rng e (int n))"
  by (induction fs arbitrary: via) (auto split: prod.splits bool.splits simp: Let_def)

lemma cites_may:
  assumes "citation_by sha astr rng e a" "n \<in> set (anFrames a)"
  shows "fst (mayCite rng e n)"
proof -
  consider (Frames) claim meth v observed frames via x where "cite_loop rng e frames False = Inr via"
      "CiteFrames sha claim meth v observed (fiPackets (evIndex e)) frames = Inr x" "anFrames a = anFrames x"
    | (Bytes) claim meth v observed d s t via x where
      "carried_loop rng e (StreamRef astr d) s t (PacketsFor (drBytes d) s t) False = Inr via"
      "CiteBytes sha claim meth v observed (StreamRef astr d) (drBytes d) s t = Inr x" "anFrames a = anFrames x"
    using assms(1) unfolding citation_by_def ev_CiteFrames_def ev_CiteBytes_def
    by (auto simp: Let_def split: if_splits sum.splits option.splits)
  then show ?thesis
  proof cases
    case Frames
    have "anFrames x = sort frames" using Frames(2) by (auto simp: CiteFrames_def split: sum.splits)
    then show ?thesis using cite_loop_all [OF Frames(1)] Frames(3) assms(2) by simp
  next
    case Bytes
    have "anFrames x = map int (PacketsFor (drBytes d) s t)" using Bytes(2) by (auto simp: CiteBytes_def split: sum.splits)
    then show ?thesis using carried_loop_all [OF Bytes(1)] Bytes(3) assms(2) by auto
  qed
qed

lemma mayCite_cases:
  assumes "fst (mayCite rng e n)" "evidence_for fi att u e"
  obtains (Owned) "0 \<le> n" "owns att u (nat n)"
  | (Session) f st where "0 \<le> n" "fiByFrame fi (nat n) = Some f" "stream_for (fiAsm fi) n = Some st"
      "InstanceKey st \<in> set (fsStreams (att_Set att u))"
      "\<And>v. v \<in> set (rng n) \<Longrightarrow> v \<noteq> u \<Longrightarrow> \<not> owns att v (nat n)" "atContested att (nat n) = None"
proof (cases "set_owns (evSet e) n")
  case True
  then show ?thesis using assms(2) Owned
    by (auto simp: evidence_for_def set_owns_def att_Set_def owns_def empty_set_def split: option.splits)
next
  case False
  then show ?thesis
    using assms Session by (auto simp: mayCite_def evidence_for_def att_owns_def contested_def list_ex_iff
        split: if_splits option.splits)
qed

text \<open>The setting of the theorems: a capture whose packets have distinct numbers from 1 on, its index, the windows of
  named checks and the attribution, with the enumerations of the map of frame sets.\<close>

definition run_evidence :: "packet list \<Rightarrow> checkWindow list \<Rightarrow> (addr \<Rightarrow> string) \<Rightarrow> ranges \<Rightarrow> frame_ranges \<Rightarrow> frameIndex \<Rightarrow>
    attribution \<Rightarrow> bool" where
  "run_evidence pkts wins astr rng frng fi att \<longleftrightarrow>
    capture_ok pkts \<and> \<not> nameless wins \<and> enumerates (wnUID ` set wins) rng \<and>
    (\<forall>n. set (frng n) = wnUID ` set wins) \<and> fi = NewFrameIndex pkts \<and> att = Attribute astr rng fi wins"

lemma pointers: "List.map_filter id (map Some xs) = xs"
  by (simp add: map_filter_def comp_def)

lemma run_owns:
  assumes "run_evidence pkts wins astr rng frng fi att"
  shows "owns att u n \<longleftrightarrow> (\<exists>f \<in> set (fiFrames fi). frIndex f = n \<and> frame_owner wins (fiAsm fi) (fiFrames fi) f = Some u)"
  using assms owns_attributed [OF pointers [symmetric] NewFrameIndex_frames]
  by (auto simp: run_evidence_def Attribute_def)

lemma run_owner_known: "run_evidence pkts wins astr rng frng fi att \<Longrightarrow> owns att u n \<Longrightarrow> u \<in> wnUID ` set wins"
  unfolding run_owns by (auto dest!: frame_owner_wants decide_wants)

lemma run_streams:
  assumes "run_evidence pkts wins astr rng frng fi att" "key \<in> set (fsStreams (att_Set att u))"
  shows "\<exists>f \<in> set (fiFrames fi). instance_of (fiAsm fi) f = Some key \<and>
    frame_owner wins (fiAsm fi) (fiFrames fi) f = Some u"
proof -
  have r: "capture_ok pkts" "\<not> nameless wins" "enumerates (wnUID ` set wins) rng" "fi = NewFrameIndex pkts"
    "att = attributeStreams astr (instance_string astr) rng (map Some (fiFrames fi)) wins (fiAsm fi)"
    using assms(1) by (auto simp: run_evidence_def Attribute_def)
  have d: "distinct (map frIndex (fiFrames fi))" using NewFrameIndex_frames [OF r(1)] r(4) by simp
  show ?thesis
  proof (cases "u \<in> wnUID ` set wins")
    case True
    then obtain w where w: "w \<in> set wins" "u = wnUID w" by blast
    obtain fs where fs: "atSets (attributeStreams astr (instance_string astr) rng (map Some (fiFrames fi)) wins (fiAsm fi))
        (wnUID w) = Some fs"
      "\<forall>key. key \<in> set (fsStreams fs) \<longleftrightarrow> (\<exists>f \<in> set (fiFrames fi). instance_of (fiAsm fi) f = Some key \<and>
         frame_owner wins (fiAsm fi) (fiFrames fi) f = Some (wnUID w))"
      using attribution_sets [OF pointers [symmetric] d r(2,3) w(1), of astr "instance_string astr" "fiAsm fi"]
      by (elim exE conjE) (rule that)
    then show ?thesis using assms(2) fs by (simp add: att_Set_def w(2) flip: r(5))
  next
    case False
    have "atSets att u = None" unfolding r(5) by (rule attributed_dom [OF pointers [symmetric] d r(2,3) False])
    then show ?thesis using assms(2) by (simp add: att_Set_def empty_set_def)
  qed
qed

lemma mayCite_exclusive:
  assumes run: "run_evidence pkts wins astr rng frng fi att"
    and e: "evidence_for fi att u e" "evidence_for fi att v e'" "u \<noteq> v"
    and may: "fst (mayCite frng e n)" "fst (mayCite frng e' n)"
  shows False
proof -
  have all: "w \<in> set (frng n)" if "owns att w k" for w k
    using run_owner_known [OF run that] run by (simp add: run_evidence_def)
  have one: "x = y" if "owns att x k" "owns att y k" for x y k
  proof -
    have "distinct (map frIndex (fiFrames fi))" using run NewFrameIndex_frames by (auto simp: run_evidence_def)
    then have "inj_on frIndex (set (fiFrames fi))" by (simp add: distinct_map)
    then show ?thesis using that unfolding run_owns [OF run] by (metis inj_onD option.inject)
  qed
  from may(1) e(1) show False
  proof (cases rule: mayCite_cases)
    case Owned
    from may(2) e(2) show False
      by (cases rule: mayCite_cases) (use Owned one all e(3) in blast)+
  next
    case (Session f st)
    note first = this
    from may(2) e(2) show False
    proof (cases rule: mayCite_cases)
      case Owned
      then show False using first(5) all e(3) by blast
    next
      case (Session g st')
      then have "InstanceKey st \<in> set (fsStreams (att_Set att v))" using first(3) by simp
      then show False
        using run_streams [OF run first(4)] run_streams [OF run] frame_owner_same_instance e(3) by metis
    qed
  qed
qed

lemma mayCite_grounded:
  assumes run: "run_evidence pkts wins astr rng frng fi att" and e: "evidence_for fi att u e"
    and may: "fst (mayCite frng e n)"
  shows "\<exists>f \<in> set (fiFrames fi). int (frIndex f) = n \<and> (\<exists>h \<in> set (fiFrames fi). \<exists>w \<in> set wins. wnUID w = u \<and> wants h w \<and>
    (h = f \<or> instance_of (fiAsm fi) h = instance_of (fiAsm fi) f \<and> instance_of (fiAsm fi) f \<noteq> None))"
  using may e
proof (cases rule: mayCite_cases)
  case Owned
  then obtain f where f: "f \<in> set (fiFrames fi)" "frIndex f = nat n" "frame_owner wins (fiAsm fi) (fiFrames fi) f = Some u"
    using run_owns [OF run] by blast
  have "int (frIndex f) = n" using f(2) Owned(1) by simp
  then show ?thesis using frame_owner_wants [OF f(3,1)] f(1) decide_wants by metis
next
  case (Session f st)
  have f: "f \<in> set (fiFrames fi)" "frIndex f = nat n"
    using Session(2) NewFrameIndex_by_frame run by (auto simp: run_evidence_def)
  have inst: "instance_of (fiAsm fi) f = Some (InstanceKey st)"
    by (rule index_frame_instance [OF Session(2) f(2) Session(1,3)])
  obtain g where g: "g \<in> set (fiFrames fi)" "instance_of (fiAsm fi) g = Some (InstanceKey st)"
    "frame_owner wins (fiAsm fi) (fiFrames fi) g = Some u" using run_streams [OF run Session(4)] by blast
  obtain h where h: "h \<in> set (fiFrames fi)" "decide wins h = Some u" "instance_of (fiAsm fi) h = Some (InstanceKey st)"
    using frame_owner_wants [OF g(3,1)] g(2) by metis
  have "int (frIndex f) = n" using f(2) Session(1) by simp
  moreover obtain w where "w \<in> set wins" "wnUID w = u" "wants h w" using decide_wants [OF h(2)] by blast
  ultimately show ?thesis using f(1) h(1,3) inst by (metis option.distinct(1))
qed

text \<open>A note does not bear on what the bundle's verifier checks.\<close>

lemma checkAssertion_note: "checkAssertion sha astr c (a\<lparr>anNote := x\<rparr>) pkts byIndex asm = checkAssertion sha astr c a pkts byIndex asm"
proof -
  have "check_frames sha pkts (a\<lparr>anNote := x\<rparr>) = check_frames sha pkts a" 
    by (simp add: check_frames_def split: sum.split)
  moreover have "check_bytes sha astr asm (a\<lparr>anNote := x\<rparr>) = check_bytes sha astr asm a"
    by (cases a) (hypsubst, unfold check_bytes_def resolveDirection_def assertion.select_convs assertion.update_convs, rule refl)
  moreover have "Citable (a\<lparr>anNote := x\<rparr>) = Citable a" by (simp add: Citable_def)
  moreover have "anClaim (a\<lparr>anNote := x\<rparr>) = anClaim a" "anFrames (a\<lparr>anNote := x\<rparr>) = anFrames a" by simp_all
  ultimately show ?thesis unfolding checkAssertion_def by (simp only:)
qed

lemma checkAssertion_notes [simp]:
  "checkAssertion sha astr c (annotate e a) pkts byIndex asm = checkAssertion sha astr c a pkts byIndex asm"
  "checkAssertion sha astr c (with_session via a) pkts byIndex asm = checkAssertion sha astr c a pkts byIndex asm"
  by (simp_all add: annotate_def with_session_def Let_def checkAssertion_note)

lemma cite_own_loop: "\<forall>n \<in> set fs. set_owns (evSet e) n \<Longrightarrow> cite_loop rng e fs via = Inr via"
  by (induction fs arbitrary: via) (auto simp: mayCite_def)

lemma digest_ok: "\<forall>f \<in> set fs. byIndex f \<noteq> None \<Longrightarrow> \<exists>x. digest_loop byIndex n fs h = Inr x"
  by (induction fs arbitrary: h) auto

lemma by_index_some: "p \<in> set pkts \<Longrightarrow> by_index pkts (int (pkIndex p)) \<noteq> None"
proof -
  assume p: "p \<in> set pkts"
  have "map_of (rev (map (\<lambda>p. (int (pkIndex p), p)) pkts)) (int (pkIndex p)) \<noteq> None"
    unfolding map_of_eq_None_iff using p by force
  then show ?thesis by (simp add: by_index_def)
qed

lemma frame_packet: "f \<in> set (fiFrames (NewFrameIndex pkts)) \<Longrightarrow> \<exists>p \<in> set pkts. pkIndex p = frIndex f"
  by (auto simp: NewFrameIndex_def Let_def index_fold split: sum.splits) (metis DecodePacket_index)

lemma NewFrameIndex_fields:
  "fiFrames (NewFrameIndex pkts) = concat (map (\<lambda>p. case DecodePacket p of Inl e \<Rightarrow> [] | Inr f \<Rightarrow> [f]) pkts)"
  "fiAsm (NewFrameIndex pkts) = fed pkts NewAssembler"
  by (simp_all add: NewFrameIndex_def Let_def index_fold)

lemma NewFrameIndex_packets: "fiPackets (NewFrameIndex pkts) = pkts"
  by (simp add: NewFrameIndex_def Let_def index_fold)

lemma run_owned_packet:
  assumes "run_evidence pkts wins astr rng frng fi att" "owns att u n"
  shows "by_index pkts (int n) \<noteq> None"
proof -
  have "\<exists>f \<in> set (fiFrames fi). frIndex f = n" using assms(2) unfolding run_owns [OF assms(1)] by blast
  then obtain p where "p \<in> set pkts" "pkIndex p = n" 
    using frame_packet [of _ pkts] assms(1) unfolding run_evidence_def by metis
  then show ?thesis using by_index_some by blast
qed

lemma cite_own:
  assumes "run_evidence pkts wins astr rng frng fi att" "evidence_for fi att u e"
    and "frames \<noteq> []" "\<forall>n \<in> set frames. att_owns att u n"
  shows "\<exists>a. ev_CiteFrames sha frng e claim meth v observed frames = Inr a \<and> anFrames a = sort frames \<and>
    ckOK (checkAssertion sha astr' c a pkts (by_index pkts) asm)"
proof -
  have own: "\<forall>n \<in> set frames. set_owns (evSet e) n"
    using assms(2,4) by (auto simp: evidence_for_def set_owns_def att_owns_def att_Set_def owns_def split: option.splits)
  have pk: "fiPackets (evIndex e) = pkts" using assms(1,2) NewFrameIndex_packets by (simp add: run_evidence_def evidence_for_def)
  have "\<forall>n \<in> set (sort frames). by_index pkts n \<noteq> None"
  proof
    fix n assume "n \<in> set (sort frames)"
    then have "owns att u (nat n)" "int (nat n) = n" using assms(4) by (auto simp: att_owns_def)
    then show "by_index pkts n \<noteq> None" using run_owned_packet [OF assms(1)] by metis
  qed
  then obtain x where "digest_loop (by_index pkts) (length pkts) (sort frames) [] = Inr x" using digest_ok by blast
  then obtain a where a: "CiteFrames sha claim meth v observed pkts frames = Inr a" "anFrames a = sort frames"
    by (simp add: CiteFrames_def digestFrames_def)
  have "ev_CiteFrames sha frng e claim meth v observed frames = Inr (annotate e (with_session False a))"
    using assms(3) own a(1) by (simp add: ev_CiteFrames_def cite_own_loop pk)
  then show ?thesis using a(2) CiteFrames_verifies [OF a(1)] by simp
qed

section \<open>Two checks of one run\<close>

text \<open>Two datagrams to the bench server, one in the window of each check.\<close>

definition two_header :: ip4_header where
  "two_header = \<lparr>ipTos = 0, ipIdent = [0, 1], ipTTL = 64, ipChecksum = [0, 0],
     ipSrcAddr = 1, ipDstAddr = 2, ipOptions = []\<rparr>"

definition two_payload :: bytes where "two_payload = [0x9C, 0x40, 0x03, 0x22, 0, 8, 0, 0]"

definition two_packet :: "nat \<Rightarrow> int \<Rightarrow> packet" where
  "two_packet n t = \<lparr>pkIndex = n, pkTime = (t, 0), pkLinkType = LinkTypeEthernet, pkInterface = 0, pkOrigLen = 0,
     pkData = eth_wire (replicate 12 0) etherTypeIPv4 (ip4_wire two_header ipProtoUDP two_payload @ [])\<rparr>"

definition two_packets :: "packet list" where "two_packets = [two_packet 1 11, two_packet 2 21]"

definition two_window :: "uid \<Rightarrow> int \<Rightarrow> int \<Rightarrow> checkWindow" where
  "two_window u s t = Close (t, 0) (Open (s, 0) (ClaimAddrs ''udp'' (Endpoint InvalidAddr 0) server [] (s, 0)
     ((NewWindow u ''csip'')\<lparr>wnGuard := - 1\<rparr>)))"

definition two_windows :: "checkWindow list" where
  "two_windows = [two_window ''A'' 10 15, two_window ''B'' 20 25]"

definition two_att :: attribution where
  "two_att = Attribute (\<lambda>_. []) demo_ranges (NewFrameIndex two_packets) two_windows"

definition two_evidence :: "uid \<Rightarrow> evidence" where
  "two_evidence u = \<lparr>evCase = u, evSet = att_Set two_att u, evIndex = NewFrameIndex two_packets,
     evAttribution = Some two_att, evOffWire = False, evOffWireReason = []\<rparr>"

lemma two_decode:
  obtains f where "DecodePacket (two_packet n t) = Inr f" "frIndex f = n" "frTime f = (t, 0)" "frTCP f = None"
    "frSrc f = IPv4Addr 1" "frDst f = IPv4Addr 2"
    "frUDP f = Some \<lparr>udSrcPort = 40000, udDstPort = 802, udLength = 8, udPayload = []\<rparr>"
proof -
  have udp: "decodeUDP g two_payload = Inr (g\<lparr>frUDP := Some \<lparr>udSrcPort = 40000, udDstPort = 802, udLength = 8,
      udPayload = []\<rparr>\<rparr>)" for g
    by (simp add: decodeUDP_def two_payload_def subslice_def be_u16_def be_val_def)
  have "wf_ip4 two_header two_payload" by (simp add: wf_ip4_def two_header_def two_payload_def)
  note ip = decodeIPv4_wire [OF this, of _ ipProtoUDP "[]", unfolded append_Nil2]
  have proto: "ipProtoUDP \<noteq> ipProtoTCP" by (simp add: ipProtoUDP_def ipProtoTCP_def)
  have "\<exists>f. DecodePacket (two_packet n t) = Inr f \<and> frIndex f = n \<and> frTime f = (t, 0) \<and> frTCP f = None \<and>
      frSrc f = IPv4Addr 1 \<and> frDst f = IPv4Addr 2 \<and>
      frUDP f = Some \<lparr>udSrcPort = 40000, udDstPort = 802, udLength = 8, udPayload = []\<rparr>"
    by (simp add: two_packet_def DecodePacket_def Decode_eth ip decodeTransport_def ip4_frame_def udp proto
        fresh_frame_def Let_def) (simp add: two_header_def)
  then show ?thesis using that by blast
qed

lemma two_wanted:
  assumes "frTCP f = None" "frSrc f = IPv4Addr 1" "frDst f = IPv4Addr 2"
    and "frUDP f = Some \<lparr>udSrcPort = 40000, udDstPort = 802, udLength = 8, udPayload = []\<rparr>"
  shows "frTime f = (11, 0) \<Longrightarrow> decide two_windows f = Some ''A''" "frTime f = (21, 0) \<Longrightarrow> decide two_windows f = Some ''B''"
proof -
  have w: "two_windows = [
    \<lparr>wnUID = ''A'', wnSuite = ''csip'', wnGuard = -1, wnStart = (10, 0), wnEnd = (15, 0),
      wnClaims = [\<lparr>ccProto = ''udp'', ccLocal = Endpoint InvalidAddr 0, ccRemote = server, ccNote = [], ccAt = (10, 0)\<rparr>],
      wnLoose = 1, wnReason = []\<rparr>,
    \<lparr>wnUID = ''B'', wnSuite = ''csip'', wnGuard = -1, wnStart = (20, 0), wnEnd = (25, 0),
      wnClaims = [\<lparr>ccProto = ''udp'', ccLocal = Endpoint InvalidAddr 0, ccRemote = server, ccNote = [], ccAt = (20, 0)\<rparr>],
      wnLoose = 1, wnReason = []\<rparr>]"
    by (simp add: two_windows_def two_window_def NewWindow_def ClaimAddrs_def server_def Open_def Close_def
      Before_def nanos_def zero_time_def specificity_def full_endpoint_def Let_def)
  note eval = w decide_def wants_def window_matches_def interval_def guard_def Before_def nanos_def zero_time_def
    time_add_def claim_matches_def either_way_def endpointMatches_def server_def specificity_def full_endpoint_def
    Unmap_def Let_def
  show "frTime f = (11, 0) \<Longrightarrow> decide two_windows f = Some ''A''" "frTime f = (21, 0) \<Longrightarrow> decide two_windows f = Some ''B''"
    using assms by (simp_all add: eval)
qed

lemma two_run: "run_evidence two_packets two_windows (\<lambda>_. []) demo_ranges (\<lambda>_. [''A'', ''B'']) (NewFrameIndex two_packets) two_att"
  by (simp add: run_evidence_def two_att_def capture_ok_def two_packets_def two_packet_def nameless_def enumerates_def
      demo_ranges_def two_windows_def two_window_def Close_def Open_def ClaimAddrs_def NewWindow_def Let_def)

lemma two_owners: "owns two_att ''A'' 1" "owns two_att ''B'' 2"
proof -
  obtain f where f: "DecodePacket (two_packet 1 11) = Inr f" "frIndex f = 1" "frTime f = (11, 0)" "frTCP f = None"
    "frSrc f = IPv4Addr 1" "frDst f = IPv4Addr 2"
    "frUDP f = Some \<lparr>udSrcPort = 40000, udDstPort = 802, udLength = 8, udPayload = []\<rparr>" by (rule two_decode)
  obtain g where g: "DecodePacket (two_packet 2 21) = Inr g" "frIndex g = 2" "frTime g = (21, 0)" "frTCP g = None"
    "frSrc g = IPv4Addr 1" "frDst g = IPv4Addr 2"
    "frUDP g = Some \<lparr>udSrcPort = 40000, udDstPort = 802, udLength = 8, udPayload = []\<rparr>" by (rule two_decode)
  have frames: "fiFrames (NewFrameIndex two_packets) = [f, g]"
    by (simp add: NewFrameIndex_fields two_packets_def f(1) g(1) del: One_nat_def)
  have "fiAsm (NewFrameIndex two_packets) = NewAssembler"
    by (simp add: NewFrameIndex_fields two_packets_def fed_def AddPacket_def f(1,4) g(1,4) AddFrame_def del: One_nat_def)
  then have none: "instance_of (fiAsm (NewFrameIndex two_packets)) h = None" for h
    by (simp add: instance_of_def StreamFor_def NewAssembler_def)
  have "decide two_windows f = Some ''A''" "decide two_windows g = Some ''B''"
    using two_wanted(1) [OF f(4-7) f(3)] two_wanted(2) [OF g(4-7) g(3)] .
  then show "owns two_att ''A'' 1" "owns two_att ''B'' 2"
    unfolding run_owns [OF two_run] frames using f(2) g(2) by (auto simp: frame_owner_def none)
qed

lemma two_for: "evidence_for (NewFrameIndex two_packets) two_att u (two_evidence u)"
  by (simp add: evidence_for_def two_evidence_def)

lemma two_cites:
  obtains a b where "citation_by one_sha astr (\<lambda>_. [''A'', ''B'']) (two_evidence ''A'') a" "anFrames a = [1]"
    "citation_by one_sha astr (\<lambda>_. [''A'', ''B'']) (two_evidence ''B'') b" "anFrames b = [2]"
proof -
  obtain a where "ev_CiteFrames one_sha (\<lambda>_. [''A'', ''B'']) (two_evidence ''A'') [] [] Pass [] [1] = Inr a" "anFrames a = [1]"
    using cite_own [OF two_run two_for, where frames = "[1]" and u = "''A''" and sha = one_sha and
        claim = "[]" and meth = "[]" and v = Pass and observed = "[]" and astr' = plain_addr and
        c = "sample_case Pass Pass" and asm = NewAssembler] two_owners by (auto simp: att_owns_def)
  moreover obtain b where "ev_CiteFrames one_sha (\<lambda>_. [''A'', ''B'']) (two_evidence ''B'') [] [] Pass [] [2] = Inr b" "anFrames b = [2]"
    using cite_own [OF two_run two_for, where frames = "[2]" and u = "''B''" and sha = one_sha and
        claim = "[]" and meth = "[]" and v = Pass and observed = "[]" and astr' = plain_addr and
        c = "sample_case Pass Pass" and asm = NewAssembler] two_owners by (auto simp: att_owns_def)
  ultimately show thesis using that unfolding citation_by_def by blast
qed

section \<open>Properties\<close>

text \<open>C38: no frame is evidence for two checks: the assertions two different checks of one run make through the
  citation constructors have no frame in common, whatever the checks cite, by frames or by bytes.  A run is a
  capture whose packets are numbered distinctly from 1, as the reader numbers them, windows of named checks, and
  their attribution, ranged over in any order.\<close>

theorem citations_exclusive:
  assumes "run_evidence pkts wins astr rng frng fi att" "evidence_for fi att u e" "evidence_for fi att v e'" "u \<noteq> v"
    and "citation_by sha astr frng e a" "citation_by sha astr frng e' b"
  shows "set (anFrames a) \<inter> set (anFrames b) = {}"
  using mayCite_exclusive [OF assms(1-4)] cites_may [OF assms(5)] cites_may [OF assms(6)] by blast

theorem citations_exclusive_witness:
  "\<exists>a b. citation_by one_sha (\<lambda>_. []) (\<lambda>_. [''A'', ''B'']) (two_evidence ''A'') a \<and>
    citation_by one_sha (\<lambda>_. []) (\<lambda>_. [''A'', ''B'']) (two_evidence ''B'') b \<and> anFrames a = [1] \<and>
    set (anFrames a) \<inter> set (anFrames b) = {}"
proof -
  obtain a b where ab: "citation_by one_sha (\<lambda>_. []) (\<lambda>_. [''A'', ''B'']) (two_evidence ''A'') a" "anFrames a = [1]"
    "citation_by one_sha (\<lambda>_. []) (\<lambda>_. [''A'', ''B'']) (two_evidence ''B'') b" "anFrames b = [2]" by (rule two_cites)
  then show ?thesis using citations_exclusive [OF two_run two_for two_for _ ab(1,3)] by fastforce
qed

text \<open>C39: a check cites only its own traffic: every frame of an assertion it makes is a frame of the capture
  that one of its own windows wants, in time and by 4-tuple, or of a TCP connection of which one of its own
  windows wants a frame (in a run as above).\<close>

theorem citations_grounded:
  assumes "run_evidence pkts wins astr rng frng fi att" "evidence_for fi att u e"
    and "citation_by sha astr frng e a" "n \<in> set (anFrames a)"
  shows "\<exists>f \<in> set (fiFrames fi). int (frIndex f) = n \<and> (\<exists>h \<in> set (fiFrames fi). \<exists>w \<in> set wins. wnUID w = u \<and> wants h w \<and>
    (h = f \<or> instance_of (fiAsm fi) h = instance_of (fiAsm fi) f \<and> instance_of (fiAsm fi) f \<noteq> None))"
  by (rule mayCite_grounded [OF assms(1,2) cites_may [OF assms(3,4)]])

theorem citations_grounded_witness:
  "\<exists>f \<in> set (fiFrames (NewFrameIndex two_packets)). int (frIndex f) = 2 \<and>
    (\<exists>h \<in> set (fiFrames (NewFrameIndex two_packets)). \<exists>w \<in> set two_windows. wnUID w = ''B'' \<and> wants h w)"
proof -
  obtain a b where ab: "citation_by one_sha (\<lambda>_. []) (\<lambda>_. [''A'', ''B'']) (two_evidence ''A'') a" "anFrames a = [1]"
    "citation_by one_sha (\<lambda>_. []) (\<lambda>_. [''A'', ''B'']) (two_evidence ''B'') b" "anFrames b = [2]" by (rule two_cites)
  then show ?thesis using citations_grounded [OF two_run two_for ab(3), of 2] by auto
qed

text \<open>Citing its own frames never fails: for any list of frames it owns, not empty, a check gets an
  assertion over exactly those frames, and the bundle's verifier accepts it against the same capture.\<close>

lemma own_frames_citable:
  assumes "run_evidence pkts wins astr rng frng fi att" "evidence_for fi att u e"
    and "frames \<noteq> []" "\<forall>n \<in> set frames. att_owns att u n"
  shows "\<exists>a. ev_CiteFrames sha frng e claim meth v observed frames = Inr a \<and> anFrames a = sort frames \<and>
    ckOK (checkAssertion sha astr' c a pkts (by_index pkts) asm)"
  by (rule cite_own [OF assms])

lemma own_frames_citable_sample:
  "\<exists>a. ev_CiteFrames one_sha (\<lambda>_. [''A'', ''B'']) (two_evidence ''A'') [] [] Pass [] [1] = Inr a \<and>
    ckOK (checkAssertion one_sha plain_addr (sample_case Pass Pass) a two_packets (by_index two_packets) NewAssembler)"
  using own_frames_citable [OF two_run two_for, where frames = "[1]" and u = "''A''" and sha = one_sha and
      claim = "[]" and meth = "[]" and v = Pass and observed = "[]" and astr' = plain_addr and
      c = "sample_case Pass Pass" and asm = NewAssembler]
    two_owners by (auto simp: att_owns_def)

end
