(* ===== verification/Bundle_Redact.thy ===== *)
theory Bundle_Redact
  imports Go_Strings
begin

text \<open>
  \<^verbatim>\<open>internal/evidence/bundle/redact.go\<close>: what of a recorded command line a bundle may carry, and how the line
  is printed.  \<^verbatim>\<open>SecretFlag\<close> and \<^verbatim>\<open>SecretParamKey\<close> are package variables a binary may replace, so the
  redactor takes them as arguments; the shipped rules are modelled too.  The two regular expressions are
  alternatives of fixed words, matched anywhere and without regard to case.
\<close>

section \<open>Names that look like credentials\<close>

text \<open>Case folding of \<^verbatim>\<open>(?i)\<close>: the ASCII letters, and the two other runes that fold to one of them, the long s
  and the Kelvin sign.\<close>

fun fold_case :: "string \<Rightarrow> string" where
  "fold_case [] = []"
| "fold_case (a # s) =
    (if char_code a = 0xC5 \<and> map char_code (take 1 s) = [0xBF] then CHR ''s'' # fold_case (drop 1 s)
     else if char_code a = 0xE2 \<and> map char_code (take 2 s) = [0x84, 0xAA] then CHR ''k'' # fold_case (drop 2 s)
     else to_lower a # fold_case s)"

fun occurs :: "string \<Rightarrow> string \<Rightarrow> bool" where
  "occurs w [] \<longleftrightarrow> w = []"
| "occurs w (c # s) \<longleftrightarrow> take (length w) (c # s) = w \<or> occurs w s"

definition secretFlagName :: "string \<Rightarrow> bool" where
  "secretFlagName s = list_ex (\<lambda>w. occurs w (fold_case s))
    [''secret'', ''token'', ''passw'', ''password'', ''credential'', ''bearer'', ''apikey'', ''api-key'',
     ''api_key'', ''ssh'', ''key'']"

definition keptFlags :: "string list" where "keptFlags = [''gateway-ssh'', ''keylog'']"

definition secretKey :: "string \<Rightarrow> bool" where
  "secretKey s = list_ex (\<lambda>w. occurs w (fold_case s)) [''secret'', ''token'', ''pass'', ''key'']"

definition DefaultSecretFlag :: "string \<Rightarrow> bool" where
  "DefaultSecretFlag name = (if name \<in> set keptFlags then False else secretFlagName name)"

definition DefaultSecretParamKey :: "string \<Rightarrow> bool" where "DefaultSecretParamKey key = secretKey key"

section \<open>Redaction\<close>

definition Redacted :: string where "Redacted = ''[redacted]''"

definition isFlag :: "string \<Rightarrow> bool" where
  "isFlag arg \<longleftrightarrow> take 1 arg = ''-'' \<and> arg \<noteq> ''-'' \<and> arg \<noteq> ''--''"

definition flagDashes :: "string \<Rightarrow> string" where
  "flagDashes arg = (if take 2 arg = ''--'' then ''--'' else ''-'')"

definition redactPair :: "(string \<Rightarrow> bool) \<Rightarrow> string \<Rightarrow> string" where
  "redactPair secretParam arg =
    (case Cut ''='' arg of
       None \<Rightarrow> arg
     | Some (key, _) \<Rightarrow> if key = [] \<or> \<not> secretParam key then arg else key @ ''='' @ Redacted)"

text \<open>One argument that is a flag, and whether the next one is its value and secret.\<close>

definition redact_flag :: "(string \<Rightarrow> bool) \<Rightarrow> (string \<Rightarrow> bool) \<Rightarrow> string \<Rightarrow> string \<times> bool" where
  "redact_flag secretFlag secretParam arg =
    (let trimmed = dropWhile (\<lambda>c. c = CHR ''-'') arg
     in case Cut ''='' trimmed of
          None \<Rightarrow> (arg, secretFlag trimmed)
        | Some (name, value) \<Rightarrow>
            if secretFlag name then (flagDashes arg @ name @ ''='' @ Redacted, False)
            else (flagDashes arg @ name @ ''='' @ redactPair secretParam value, False))"

text \<open>The loop of \<^verbatim>\<open>RedactCommand\<close>, with the index and the flag \<^verbatim>\<open>redactNext\<close>.\<close>

fun redact_loop :: "(string \<Rightarrow> bool) \<Rightarrow> (string \<Rightarrow> bool) \<Rightarrow> string list \<Rightarrow> nat \<Rightarrow> bool \<Rightarrow> string list" where
  "redact_loop sf sp [] i redactNext = []"
| "redact_loop sf sp (arg # args) i redactNext =
    (if redactNext \<and> \<not> isFlag arg then Redacted # redact_loop sf sp args (i + 1) False
     else if i = 0 \<or> \<not> isFlag arg then redactPair sp arg # redact_loop sf sp args (i + 1) False
     else case redact_flag sf sp arg of (out, next) \<Rightarrow> out # redact_loop sf sp args (i + 1) next)"

definition RedactCommand :: "(string \<Rightarrow> bool) \<Rightarrow> (string \<Rightarrow> bool) \<Rightarrow> string list \<Rightarrow> string list" where
  "RedactCommand sf sp argv = (if length argv = 0 then [] else redact_loop sf sp argv 0 False)"

section \<open>Printing the line\<close>

definition safe_char :: "char \<Rightarrow> bool" where
  "safe_char c \<longleftrightarrow>
    (let n = char_code c
     in 65 \<le> n \<and> n \<le> 90 \<or> 97 \<le> n \<and> n \<le> 122 \<or> 48 \<le> n \<and> n \<le> 57 \<or> c \<in> set ''_@%+=:,./-'')"

definition shellSafe :: "string \<Rightarrow> bool" where
  "shellSafe s \<longleftrightarrow> s \<noteq> [] \<and> list_all safe_char s"

definition apostrophe :: char where "apostrophe = CHR 0x27"
definition backslash :: char where "backslash = CHR 0x5C"

definition shellQuote :: "string \<Rightarrow> string" where
  "shellQuote s =
    (if s = [] then [apostrophe, apostrophe]
     else if shellSafe s then s
     else [apostrophe] @
       concat (map (\<lambda>c. if c = apostrophe then [apostrophe, backslash, apostrophe, apostrophe] else [c]) s) @ [apostrophe])"

fun join_words :: "string list \<Rightarrow> string" where
  "join_words [] = []"
| "join_words [s] = s"
| "join_words (s # t # ss) = s @ '' '' @ join_words (t # ss)"

definition shellLine :: "string list \<Rightarrow> string" where "shellLine argv = join_words (map shellQuote argv)"

section \<open>Only the names travel\<close>

text \<open>Two arguments that differ in a withheld value only.\<close>

inductive alike :: "(string \<Rightarrow> bool) \<Rightarrow> (string \<Rightarrow> bool) \<Rightarrow> string \<Rightarrow> string \<Rightarrow> bool" for sf sp where
  same: "alike sf sp a a"
| pair: "k \<noteq> [] \<Longrightarrow> sp k \<Longrightarrow> CHR ''='' \<notin> set k \<Longrightarrow> hd k \<noteq> CHR ''-'' \<Longrightarrow> alike sf sp (k @ ''='' @ v) (k @ ''='' @ w)"
| flag: "sf n \<Longrightarrow> CHR ''='' \<notin> set n \<Longrightarrow> n = [] \<or> hd n \<noteq> CHR ''-'' \<Longrightarrow> set ds \<subseteq> {CHR ''-''} \<Longrightarrow> ds \<noteq> [] \<Longrightarrow>
    alike sf sp (ds @ n @ ''='' @ v) (ds @ n @ ''='' @ w)"
| nested: "CHR ''='' \<notin> set n \<Longrightarrow> n = [] \<or> hd n \<noteq> CHR ''-'' \<Longrightarrow> set ds \<subseteq> {CHR ''-''} \<Longrightarrow> ds \<noteq> [] \<Longrightarrow>
    k \<noteq> [] \<Longrightarrow> sp k \<Longrightarrow> CHR ''='' \<notin> set k \<Longrightarrow>
    alike sf sp (ds @ n @ ''='' @ k @ ''='' @ v) (ds @ n @ ''='' @ k @ ''='' @ w)"

text \<open>Two command lines that differ in withheld values only: those inside an argument, and the argument after a
  flag that takes a secret.\<close>

inductive same_command :: "(string \<Rightarrow> bool) \<Rightarrow> (string \<Rightarrow> bool) \<Rightarrow> string list \<Rightarrow> string list \<Rightarrow> bool" for sf sp where
  nil: "same_command sf sp [] []"
| arg: "alike sf sp a b \<Longrightarrow> same_command sf sp as bs \<Longrightarrow> same_command sf sp (a # as) (b # bs)"
| secret: "isFlag f \<Longrightarrow> CHR ''='' \<notin> set f \<Longrightarrow> sf (dropWhile (\<lambda>c. c = CHR ''-'') f) \<Longrightarrow> \<not> isFlag v \<Longrightarrow> \<not> isFlag w \<Longrightarrow>
    same_command sf sp as bs \<Longrightarrow> same_command sf sp (f # v # as) (f # w # bs)"

lemma Cut_eq: "CHR ''='' \<notin> set k \<Longrightarrow> Cut ''='' (k @ CHR ''='' # v) = Some (k, v)"
  using Cut_char .

lemma dashes_drop: "set ds \<subseteq> {CHR ''-''} \<Longrightarrow> n = [] \<or> hd n \<noteq> CHR ''-'' \<Longrightarrow>
    dropWhile (\<lambda>c. c = CHR ''-'') (ds @ n @ CHR ''='' # v) = n @ CHR ''='' # v"
  by (induction ds) (cases n; auto)+

lemma dashes_flag: "set ds \<subseteq> {CHR ''-''} \<Longrightarrow> ds \<noteq> [] \<Longrightarrow> isFlag (ds @ n @ CHR ''='' # v)"
  by (cases ds; cases "tl ds") (auto simp: isFlag_def append_eq_Cons_conv Cons_eq_append_conv)

lemma dashes_kept: "set ds \<subseteq> {CHR ''-''} \<Longrightarrow> ds \<noteq> [] \<Longrightarrow> n = [] \<or> hd n \<noteq> CHR ''-'' \<Longrightarrow>
    flagDashes (ds @ n @ CHR ''='' # v) = flagDashes (ds @ n @ CHR ''='' # w)"
  by (cases ds; cases "tl ds"; cases n) (auto simp: flagDashes_def)

lemma alike_same:
  assumes "alike sf sp a b"
  shows "isFlag a = isFlag b" "\<not> isFlag a \<Longrightarrow> redactPair sp a = redactPair sp b"
    "isFlag a \<Longrightarrow> redact_flag sf sp a = redact_flag sf sp b"
  using assms
proof (induction rule: alike.induct)
  case (pair k v w)
  have nf: "\<not> isFlag (k @ ''='' @ x)" for x using pair(1,4) by (cases k) (auto simp: isFlag_def)
  {
    case 1 then show ?case using nf by simp
  next
    case 2 then show ?case using pair by (simp add: redactPair_def Cut_eq)
  next
    case 3 then show ?case using nf by simp
  }
next
  case (flag n ds v w)
  note f = dashes_flag [OF flag(4,5)]
  {
    case 1 then show ?case using f by simp
  next
    case 2 then show ?case using f by simp
  next
    case 3 then show ?case using flag dashes_kept [OF flag(4,5,3), of v w]
      by (simp add: redact_flag_def dashes_drop Cut_eq)
  }
next
  case (nested n ds k v w)
  note f = dashes_flag [OF nested(3,4)]
  {
    case 1 then show ?case using f by simp
  next
    case 2 then show ?case using f by simp
  next
    case 3 then show ?case
      using nested dashes_kept [OF nested(3,4,2), of "k @ ''='' @ v" "k @ ''='' @ w"]
        dashes_drop [OF nested(3,2), of "k @ ''='' @ v"] dashes_drop [OF nested(3,2), of "k @ ''='' @ w"]
        Cut_eq [OF nested(1), of "k @ ''='' @ v"] Cut_eq [OF nested(1), of "k @ ''='' @ w"]
      by (simp add: redact_flag_def redactPair_def Cut_eq Let_def)
  }
qed simp_all

lemma redact_loop_same: "same_command sf sp as bs \<Longrightarrow> 0 < i \<Longrightarrow>
    redact_loop sf sp as i next = redact_loop sf sp bs i next"
proof (induction arbitrary: i "next" rule: same_command.induct)
  case (arg a b as bs)
  then show ?case using alike_same [OF arg(1)] by (auto split: prod.splits)
next
  case (secret f v w as bs)
  have no_eq: "CHR ''='' \<notin> set (dropWhile (\<lambda>c. c = CHR ''-'') f)" using secret(2) set_dropWhileD by fast
  have "redact_flag sf sp f = (f, True)"
    using secret(3) Cut_char_none [OF no_eq] by (simp add: redact_flag_def)
  then show ?case using secret by simp
qed simp

text \<open>C8: what a bundle records of a command line does not depend on its secrets.  Two command lines that differ
  only in withheld values - the value of a credential-named flag, joined or as the next argument, and the value
  of a credential-named key, bare or inside a flag - are recorded as the same line, whatever the rule for
  names is.\<close>

theorem RedactCommand_noninterference:
  assumes "same_command sf sp as bs"
  shows "RedactCommand sf sp (prog # as) = RedactCommand sf sp (prog # bs)"
  using redact_loop_same [OF assms, of 1] by (auto simp: RedactCommand_def)

theorem RedactCommand_noninterference_witness:
  "RedactCommand DefaultSecretFlag DefaultSecretParamKey [''certify'', ''-token'', ''abc'', ''-param=key=1'', ''x=1''] =
   RedactCommand DefaultSecretFlag DefaultSecretParamKey [''certify'', ''-token'', ''xyz'', ''-param=key=2'', ''x=1'']"
proof (rule RedactCommand_noninterference)
  have nested: "alike DefaultSecretFlag DefaultSecretParamKey ''-param=key=1'' ''-param=key=2''"
    using alike.nested [of "''param''" "''-''" "''key''" DefaultSecretParamKey DefaultSecretFlag "''1''" "''2''"]
    by (simp add: DefaultSecretParamKey_def secretKey_def to_lower_def char_code_def)
  have tok: "DefaultSecretFlag ''token''" by code_simp
  show "same_command DefaultSecretFlag DefaultSecretParamKey [''-token'', ''abc'', ''-param=key=1'', ''x=1'']
      [''-token'', ''xyz'', ''-param=key=2'', ''x=1'']"
    by (rule same_command.secret)
       (simp_all add: isFlag_def tok same_command.arg same_command.nil nested alike.same)
qed

section \<open>Redacting twice\<close>

lemma Redacted_not_flag: "\<not> isFlag Redacted" by (simp add: isFlag_def Redacted_def)

lemma Redacted_pair: "redactPair sp Redacted = Redacted"
proof -
  have "Cut ''='' Redacted = None" by code_simp
  then show ?thesis by (simp add: redactPair_def)
qed

lemma redactPair_cases:
  obtains (Kept) "redactPair sp a = a"
  | (Hidden) k v where "a = k @ CHR ''='' # v" "CHR ''='' \<notin> set k" "k \<noteq> []" "sp k"
      "redactPair sp a = k @ CHR ''='' # Redacted"
proof (cases "Cut ''='' a")
  case (Some kv)
  then have "CHR ''='' \<notin> set (fst kv)"
    by (induction a arbitrary: kv) (auto split: if_splits)
  moreover have "a = fst kv @ CHR ''='' # snd kv" using Cut_parts [of "''=''" a "fst kv" "snd kv"] Some by simp
  ultimately show thesis
    using Kept Hidden [of "fst kv" "snd kv"] Some
    by (cases kv; cases "fst kv = [] \<or> \<not> sp (fst kv)") (auto simp: redactPair_def)
qed (use Kept in \<open>simp add: redactPair_def\<close>)

lemma redactPair_idem: "redactPair sp (redactPair sp a) = redactPair sp a"
proof (cases rule: redactPair_cases [of sp a])
  case (Hidden k v)
  then show ?thesis by (simp add: redactPair_def Cut_eq)
qed simp

lemma redactPair_flag: "isFlag (redactPair sp a) = isFlag a"
proof (cases rule: redactPair_cases [of sp a])
  case (Hidden k v)
  then show ?thesis by (cases k; cases "tl k") (auto simp: isFlag_def Redacted_def)
qed simp

lemma flag_split:
  assumes "isFlag a"
  obtains ds r where "a = ds @ r" "ds \<noteq> []" "set ds \<subseteq> {CHR ''-''}" "r = [] \<or> hd r \<noteq> CHR ''-''"
    "dropWhile (\<lambda>c. c = CHR ''-'') a = r"
proof -
  let ?P = "\<lambda>c. c = CHR ''-''"
  have "takeWhile ?P a \<noteq> []" using assms by (cases a) (auto simp: isFlag_def)
  moreover have "set (takeWhile ?P a) \<subseteq> {CHR ''-''}" using set_takeWhileD by fastforce
  moreover have "dropWhile ?P a = [] \<or> hd (dropWhile ?P a) \<noteq> CHR ''-''" using hd_dropWhile by blast
  ultimately show thesis using that [of "takeWhile ?P a" "dropWhile ?P a"] by simp
qed

lemma flagDashes_form: "flagDashes a \<in> {''-'', ''--''}" by (simp add: flagDashes_def)

lemma flagDashes_again: "n = [] \<or> hd n \<noteq> CHR ''-'' \<Longrightarrow> flagDashes (flagDashes a @ n @ CHR ''='' # v) = flagDashes a"
  by (cases n) (auto simp: flagDashes_def)

lemma redact_flag_idem:
  assumes "isFlag a" "redact_flag sf sp a = (out, next)"
  shows "isFlag out" "redact_flag sf sp out = (out, next)"
proof -
  obtain ds r where a: "a = ds @ r" "ds \<noteq> []" "set ds \<subseteq> {CHR ''-''}" "r = [] \<or> hd r \<noteq> CHR ''-''"
    "dropWhile (\<lambda>c. c = CHR ''-'') a = r" using flag_split [OF assms(1)] .
  have "isFlag out \<and> redact_flag sf sp out = (out, next)"
  proof (cases "Cut ''='' r")
    case None
    then show ?thesis using assms a by (auto simp: redact_flag_def)
  next
    case (Some nv)
    obtain n v where nv: "nv = (n, v)" by fastforce
    have "CHR ''='' \<notin> set n" using Some unfolding nv
      by (induction r arbitrary: n) (auto split: if_splits)
    moreover have r: "r = n @ CHR ''='' # v" using Cut_parts Some nv by fastforce
    then have n: "n = [] \<or> hd n \<noteq> CHR ''-''" using a(4) by (cases n) auto
    moreover define w where "w = (if sf n then Redacted else redactPair sp v)"
    then have out: "out = flagDashes a @ n @ CHR ''='' # w" "next = False"
      using assms(2) a(5) Some nv by (auto simp: redact_flag_def split: if_splits)
    moreover have "set (flagDashes a) \<subseteq> {CHR ''-''}" "flagDashes a \<noteq> []" using flagDashes_form [of a] by auto
    ultimately show ?thesis
      using dashes_flag [of "flagDashes a" n w] dashes_drop [of "flagDashes a" n w] flagDashes_again [of n a w]
      by (auto simp: redact_flag_def Cut_eq w_def redactPair_idem)
  qed
  then show "isFlag out" "redact_flag sf sp out = (out, next)" by blast+
qed

lemma redact_loop_idem:
  "redact_loop sf sp (redact_loop sf sp argv i next) i next = redact_loop sf sp argv i next"
  "length (redact_loop sf sp argv i next) = length argv"
proof (induction argv arbitrary: i "next")
  case (Cons a args)
  {
    case 1
    show ?case
    proof (cases "next \<and> \<not> isFlag a \<or> i = 0 \<or> \<not> isFlag a")
      case True
      then show ?thesis using Cons(1) by (auto simp: Redacted_not_flag Redacted_pair redactPair_idem redactPair_flag)
    next
      case False
      obtain out n where f: "redact_flag sf sp a = (out, n)" by fastforce
      from redact_flag_idem [OF _ f] False Cons(1) f show ?thesis by simp
    qed
  next
    case 2
    then show ?case using Cons(2) by (auto split: prod.splits)
  }
qed simp_all

text \<open>Redaction is stable: redacting a recorded command line again changes nothing, and every argument that
  was given is still there, so a reader can tell a withheld value from one that was never passed.\<close>

lemma RedactCommand_idempotent:
  "RedactCommand sf sp (RedactCommand sf sp argv) = RedactCommand sf sp argv \<and>
   length (RedactCommand sf sp argv) = length argv"
  using redact_loop_idem [of sf sp argv 0 False] by (cases argv) (simp_all add: RedactCommand_def)

section \<open>The line pastes back\<close>

text \<open>How a POSIX shell splits a line into words, for the quoting the line uses, and a refusal (\<open>None\<close>) of every line
  outside it.  Blanks separate words; a single quote takes everything up to the next one, line breaks and
  metacharacters included; a backslash outside quotes takes the next character, and joins lines before a line break.
  Refused are, outside quotes: the operators and redirections, the characters that start an expansion, a double
  quote, a pattern, a comment or a brace, a history reference, and every control character, tabs and line breaks
  included; and anywhere an open quote, a last backslash and a NUL byte.  What is left out is what a shell does with
  the words after splitting: a first word that holds an equals sign is an assignment, and an alias or a reserved
  word may take a meaning of its own.\<close>

definition NUL :: char where "NUL = CHR 0x00"

definition sh_special :: "char \<Rightarrow> bool" where
  "sh_special c \<longleftrightarrow> char_code c < 32 \<or> char_code c = 127 \<or>
    c \<in> set ''|&;<>()$*?[]^!#~{}'' \<or> c \<in> {CHR 0x22, CHR 0x60}"

fun sh_words :: "string \<Rightarrow> string \<Rightarrow> bool \<Rightarrow> bool \<Rightarrow> string list option" where
  "sh_words [] cur quoted started = (if quoted then None else Some (if started then [cur] else []))"
| "sh_words (c # s) cur quoted started =
    (if c = NUL then None
     else if quoted then
       (if c = apostrophe then sh_words s cur False True else sh_words s (cur @ [c]) True True)
     else if c = CHR '' '' then
       (if started then map_option (\<lambda>ws. cur # ws) (sh_words s [] False False) else sh_words s [] False False)
     else if c = apostrophe then sh_words s cur True True
     else if c = backslash then
       (case s of [] \<Rightarrow> None
        | d # t \<Rightarrow> if d = NUL then None else if d = CHR 0x0A then sh_words t cur False started
                  else sh_words t (cur @ [d]) False True)
     else if sh_special c then None
     else sh_words s (cur @ [c]) False True)"

lemma char_facts: "apostrophe \<noteq> backslash" "apostrophe \<noteq> CHR '' ''" "backslash \<noteq> CHR '' ''"
  "apostrophe \<noteq> NUL" "backslash \<noteq> NUL" "apostrophe \<noteq> CHR 0x0A" "CHR '' '' \<noteq> NUL"
  by (simp_all add: apostrophe_def backslash_def NUL_def)

lemma safe_char_plain:
  assumes "safe_char c"
  shows "c \<noteq> CHR '' '' \<and> c \<noteq> apostrophe \<and> c \<noteq> backslash \<and> c \<noteq> NUL \<and> \<not> sh_special c"
proof (cases "c \<in> set ''_@%+=:,./-''")
  case True
  then show ?thesis by (auto simp: apostrophe_def backslash_def NUL_def sh_special_def char_code_def)
next
  case False
  then have n: "65 \<le> char_code c \<and> char_code c \<le> 90 \<or> 97 \<le> char_code c \<and> char_code c \<le> 122 \<or>
      48 \<le> char_code c \<and> char_code c \<le> 57"
    using assms by (simp add: safe_char_def Let_def)
  then show ?thesis by (auto simp: apostrophe_def backslash_def NUL_def sh_special_def char_code_def)
qed

lemma sh_words_safe: "list_all safe_char w \<Longrightarrow> w \<noteq> [] \<Longrightarrow> sh_words (w @ s) cur False started = sh_words s (cur @ w) False True"
proof (induction w arbitrary: cur started)
  case (Cons c w)
  then show ?case using safe_char_plain [of c] by (cases "w = []") auto
qed simp

lemma sh_words_escaped:
  "NUL \<notin> set w \<Longrightarrow> sh_words (concat (map (\<lambda>c. if c = apostrophe then [apostrophe, backslash, apostrophe, apostrophe] else [c]) w) @
     apostrophe # s) cur True True = sh_words s (cur @ w) False True"
  by (induction w arbitrary: cur) (use char_facts in auto)

lemma sh_words_quote: "NUL \<notin> set w \<Longrightarrow> sh_words (shellQuote w @ s) cur False started = sh_words s (cur @ w) False True"
  using sh_words_safe [of w s cur started] sh_words_escaped [of w s cur] char_facts
  by (auto simp: shellQuote_def shellSafe_def)

text \<open>C40: the recorded command line pastes back: a shell splits the printed line into exactly the recorded
  arguments, whatever they hold: blanks, quotes, line breaks, and every character that means something to a shell.
  No such character is ever printed outside quotes.  Arguments hold no NUL byte, as those of a process never do.\<close>

theorem shellLine_roundtrip:
  assumes "\<forall>a \<in> set argv. NUL \<notin> set a"
  shows "sh_words (shellLine argv) [] False False = Some argv"
proof -
  have "sh_words (shellLine argv) [] False False = Some argv \<and> (argv \<noteq> [] \<longrightarrow>
      sh_words (CHR '' '' # shellLine argv) w False True = Some (w # argv))" for w
    using assms
  proof (induction argv rule: join_words.induct)
    case (2 s)
    then show ?case using sh_words_quote [of s "[]" "[]"] char_facts by (simp add: shellLine_def)
  next
    case (3 s t ss)
    then have "sh_words (CHR '' '' # shellLine (t # ss)) s False True = Some (s # t # ss)"
      by (simp add: char_facts)
    then show ?case using 3(2) sh_words_quote [of s] char_facts by (simp add: shellLine_def)
  qed (simp add: shellLine_def)
  then show ?thesis by blast
qed

theorem shellLine_roundtrip_witness:
  "let argv = [''certify'', ''-out=a/b.json'', [], ''$(id); rm * > x'', [apostrophe, CHR 0x22, CHR 0x0A, CHR 0x09, backslash]]
   in sh_words (shellLine argv) [] False False = Some argv \<and>
      shellLine (take 4 argv) = ''certify -out=a/b.json '' @ [apostrophe, apostrophe] @ '' '' @ [apostrophe] @ ''$(id); rm * > x'' @ [apostrophe]"
proof -
  have "shellLine [''certify'', ''-out=a/b.json'', [], ''$(id); rm * > x''] =
      ''certify -out=a/b.json '' @ [apostrophe, apostrophe] @ '' '' @ [apostrophe] @ ''$(id); rm * > x'' @ [apostrophe]"
    by code_simp
  then show ?thesis
    using shellLine_roundtrip [of "[''certify'', ''-out=a/b.json'', [], ''$(id); rm * > x'', [apostrophe, CHR 0x22, CHR 0x0A, CHR 0x09, backslash]]"]
    by (simp add: NUL_def apostrophe_def backslash_def)
qed

text \<open>What happens without quotes: the line of an unquoted metacharacter is refused.\<close>

lemma sh_words_refuses: "sh_special c \<Longrightarrow> c \<noteq> NUL \<Longrightarrow> sh_words (c # s) cur False started = None"
  by (auto simp: sh_special_def apostrophe_def backslash_def char_code_def)

section \<open>Where the rule falls short\<close>

text \<open>A secret that begins with a dash is taken for the next flag and recorded as it is; and a key that only the
  rule for flags calls a credential is recorded with its value.\<close>

lemma dash_secret_leaks:
  "RedactCommand DefaultSecretFlag DefaultSecretParamKey [''certify'', ''-token'', ''-s3cr3t''] =
   [''certify'', ''-token'', ''-s3cr3t'']"
  by code_simp

lemma bearer_key_leaks:
  "RedactCommand DefaultSecretFlag DefaultSecretParamKey [''certify'', ''-param'', ''bearer=s3cr3t''] =
   [''certify'', ''-param'', ''bearer=s3cr3t'']" "DefaultSecretFlag ''bearer''"
  by code_simp+

end
