(* ===== verification/Spec2Isabelle.thy ===== *)
theory Spec2Isabelle
  imports Mbap_Differential Tls_Decrypt Tls_Handshake Campaign_Shrink Csip_Discovery Aead Certify_Evidence Bundle_Redact
begin

text \<open>
  Verification development of \<^verbatim>\<open>csip-tls-test\<close>, a conformance bench for IEEE 2030.5 (CSIP)
  clients and Secure SunSpec Modbus devices. The bench captures the traffic of a device under test, re-derives from
  the packets alone what was said, and grades it; what is modelled here is the chain from captured packets to cited
  evidence, the independent referees the verdicts rest on, and the planner of fault campaigns.

  \<^bold>\<open>The evidence chain.\<close> A capture file is read into numbered packets
  (\<^verbatim>\<open>Pcapng\<close>: \<^verbatim>\<open>internal/evidence/pcapng\<close>; the other paths of this
  paragraph are under \<^verbatim>\<open>internal/evidence\<close>). Each packet is dissected into a TCP segment
  (\<^verbatim>\<open>Netdis_Dissect\<close>: \<^verbatim>\<open>netdis/dissect.go\<close>), whose endpoints name a
  flow and a conversation (\<^verbatim>\<open>Netdis_Flow\<close>: \<^verbatim>\<open>netdis/flow.go\<close>), and
  is put in order with an offset map back to frame numbers (\<^verbatim>\<open>Netdis_Reassembly\<close>:
  \<^verbatim>\<open>netdis/reassembly.go\<close>). The ordered bytes are cut into TLS records
  (\<^verbatim>\<open>Tls_Record\<close>: \<^verbatim>\<open>tlsdis/record.go\<close>) and handshake messages
  (\<^verbatim>\<open>Tls_Handshake\<close>: \<^verbatim>\<open>tlsdis/handshake.go\<close>, over the cursor of
  \<^verbatim>\<open>Tls_Cursor\<close>, with the numbers of \<^verbatim>\<open>Tls_Names\<close>:
  \<^verbatim>\<open>tlsdis/names.go\<close>). With a key log (\<^verbatim>\<open>Keylog\<close>:
  \<^verbatim>\<open>keylog/keylog.go\<close>) the records are decrypted: \<^verbatim>\<open>Aead\<close> is
  \<^verbatim>\<open>aead/ccm.go\<close> and \<^verbatim>\<open>aead/chacha20poly1305.go\<close>,
  \<^verbatim>\<open>Tls_Keys\<close> is \<^verbatim>\<open>tlsdecrypt/suite.go\<close> and
  \<^verbatim>\<open>schedule.go\<close>, \<^verbatim>\<open>Tls_Decrypt\<close> is
  \<^verbatim>\<open>tlsdecrypt/session.go\<close>. Claims about this traffic are assertions that cite byte ranges
  and frames: \<^verbatim>\<open>Bundle_Model\<close> is \<^verbatim>\<open>bundle/bundle.go\<close> (verdicts,
  assertions, citations, the roll-up of a case), \<^verbatim>\<open>Bundle_Verify\<close> is
  \<^verbatim>\<open>verify.go\<close> and the manifest of \<^verbatim>\<open>write.go\<close> (what a third party
  runs on a bundle), and \<^verbatim>\<open>Bundle_Redact\<close> is \<^verbatim>\<open>redact.go\<close>.
  \<^verbatim>\<open>Netdis_Owner\<close> proves that the assembler's frame map leads from a cited frame back to the
  connection that carried it, which is what lets a citation survive the reuse of a port.

  \<^bold>\<open>Whose evidence it is.\<close> Many checks share one capture.
  \<^verbatim>\<open>Certify_Window\<close> (\<^verbatim>\<open>internal/certify/window.go\<close>) gives each frame
  to the check whose window contains its time and whose connection claims match its 4-tuple, then gives every
  physical connection whole to one check or to nobody; \<^verbatim>\<open>Certify_Attribution\<close> holds the
  abstract owner of a frame and the refinement; \<^verbatim>\<open>Certify_Evidence\<close>
  (\<^verbatim>\<open>internal/certify/evidence.go\<close>) is the frame index and the constructors through which a
  check may cite only its own frames, on top of those of the bundle.

  \<^bold>\<open>The referees.\<close> Decrypted bytes of port 802 are Modbus.
  \<^verbatim>\<open>Mbap_Decode\<close> is the bench's own reader (\<^verbatim>\<open>internal/mbapref\<close>),
  \<^verbatim>\<open>Mbap_Product\<close> the codec the product uses, and
  \<^verbatim>\<open>Mbap_Differential\<close> the comparison that reports where the two disagree and the few known
  differences it forgives. \<^verbatim>\<open>Csip_Scheduler\<close>
  (\<^verbatim>\<open>internal/csipref/scheduler\<close>) decides which DER control is in force, over the programs
  that the walker of \<^verbatim>\<open>Csip_Discovery\<close>
  (\<^verbatim>\<open>internal/csipref/discovery\<close>) collects by following links.
  \<^verbatim>\<open>Campaign_Plan\<close> and \<^verbatim>\<open>Campaign_Shrink\<close>
  (\<^verbatim>\<open>internal/campaign\<close>) draw a reproducible campaign of faults from a seed and reduce a
  failing one to a minimal reproducer.

  \<^bold>\<open>How the model corresponds to the code.\<close> A struct is a record with the fields in the same
  order under a two-letter prefix; an operation has the name of the Go function or method; a pointer that may be nil
  is an option; a Go error is the left value of a sum whose datatype has one constructor per error of the source.
  Bytes and header fields are machine words and wrap; lengths, frame numbers and counters that only count are
  natural numbers; times of the scheduler are 64-bit words. Pointers into the assembler are positions in its list of
  streams, so the maps by key and by frame keep their aliasing. Every loop of the source is a recursive function
  proved to terminate, except the shrinker's, which is the library's \<^verbatim>\<open>while_option\<close> and is
  proved to return. Go ranges over a map in an unspecified order: where the order could matter the model takes the
  enumeration as an argument, and the properties hold for every one.

  \<^bold>\<open>What the lemmas show.\<close> \<^verbatim>\<open>Bytes_Prelude\<close>,
  \<^verbatim>\<open>Go_Prelude\<close> and \<^verbatim>\<open>Go_Strings\<close> hold the shared facts on byte
  strings, big-endian numbers, binary search and sorting, and Go's text functions. Each component then has its
  invariant (\<^verbatim>\<open>sb_ok\<close>, \<^verbatim>\<open>dir_ok\<close>, \<^verbatim>\<open>asm_ok\<close>
  for reassembly, the session invariant of decryption, the cache of the scheduler), preserved by every operation;
  its functional behaviour on each branch; and, where there is a writer, the round trip with its reader. The theorem
  of this file composes them: as long as the out-of-order buffer of a direction could hold all segment bytes,
  repeats included, the evidence does not depend on how TCP carried the stream. Without that proviso it does: a full
  buffer drops segments, even the next one in order (\<^verbatim>\<open>full_buffer_drops_next_segment\<close>).
  Reassembly is compared with an abstract state of cells (offset, byte, frame) in which the first writer wins; the
  MBAP reader with a stream grammar; CCM and ChaCha20-Poly1305 with an AEAD contract stated as a locale and
  interpreted on each mode; record decryption with an abstract sender of RFC 5246 and RFC 8446. The bundle verifier
  accepts what the authoring functions produce except in exactly two cases, streams whose segments contradict each
  other and empty byte ranges cited by an ambiguous reference, and what it accepts holds of the capture at hand; its
  manifest pins the directory. The attribution refines an abstract owner of each frame, and no frame is ever
  evidence for two checks. The walker keeps a ghost trace in which every request must follow an advertised link.

  \<^bold>\<open>Bounds.\<close> The line limit of the key log (1 MiB), the handshake message limit (1 MiB), the
  record limit (2^14 bytes and its expansion), the buffer of 8 MiB per direction and the window of 2^30 sequence
  numbers are the constants of the source, and no smaller bound is introduced. One definition takes a bound that the
  code does not have: \<^verbatim>\<open>items_loop\<close> of \<^verbatim>\<open>Tls_Cursor\<close>, the loop over
  the items of a TLS vector, counts down from the number of bytes left; each item consumes a byte, so the bound is
  never what stops it (\<^verbatim>\<open>items_loop_ends\<close>).

  \<^bold>\<open>Parameters.\<close> Code that is not in the repository is an argument: the AES block cipher and the
  hash functions (the record \<^verbatim>\<open>library\<close> of \<^verbatim>\<open>Tls_Keys\<close>), certificate
  parsing (\<^verbatim>\<open>crypto/x509\<close>), the random generator (\<^verbatim>\<open>math/rand\<close>, the
  record \<^verbatim>\<open>generator\<close>), SHA-256 and the text of an IP address in the bundle verifier, and
  the HTTP client and XML decoder of the walker. The clock is an argument too. Where a property needs a fact about
  one of them it is a named hypothesis, and a witness instantiates it.

  \<^bold>\<open>Simplifications.\<close> Mutexes are left out: every operation holds its lock throughout, so
  operations are atomic. Offsets in the differential are natural numbers. The panic of a GCM nonce of the wrong
  length is the error \<^verbatim>\<open>NonceLengthError\<close>, shown unreachable from a session. Durations and
  instants in nanoseconds (campaign plans, attribution windows) are unbounded integers where Go has 64 bits. Folding
  of case is that of the ASCII letters, except in the redactor. The sender of
  \<^verbatim>\<open>DecryptAll_sender\<close> puts each handshake message in its own record.

  \<^bold>\<open>Not modelled.\<close> Everything whose behaviour is outside the process: the certificate summary (a
  rendering of \<^verbatim>\<open>crypto/x509\<close>), the campaign's execution against a live device, the report,
  clock and metrics channels of a bundle and the copying of its files, the metrics scraper, the runner, catalogue
  and reports of \<^verbatim>\<open>internal/certify\<close> and the suites of checks, the dashboard, the simulators
  under \<^verbatim>\<open>sim/\<close>, the commands, and the cgo bindings of wolfSSL. The invariants of
  \<^verbatim>\<open>internal/invariant\<close>, the tariff engine and the device drivers are predicates over IEEE
  floating point and are left out for that reason. The vendored packages are third party, except the MBAP codec the
  differential compares with.
\<close>

section \<open>From segments to handshake messages\<close>

definition delivered_stream :: "segment list \<Rightarrow> flowKey \<Rightarrow> nat \<Rightarrow> int \<Rightarrow> nat \<Rightarrow> bytes" where
  "delivered_stream segs flow gen cap n =
    take n (sbData (drBytes (insert_all segs (new_direction flow gen cap))))"

text \<open>C1: the TLS evidence read from a direction does not depend on how TCP carried it, as long as the
  out-of-order buffer is large enough.  Provided the buffer's cap is at least the number of segment bytes, repeats
  included, then however the segments of a byte stream are cut, ordered, repeated or overlapped, and whatever
  frames the offset map cites, the handshake parsed from the reassembled bytes is the one parsed from the stream
  itself, message by message, with the same errors; only the citations differ.  Without the proviso the claim is
  false: a buffer that is full drops segments, even the one next in order.\<close>

theorem handshake_independent_of_delivery:
  assumes "0 \<le> cap" "int (segments_total segs) \<le> cap"
    and "\<forall>s \<in> set segs. segment_ok s \<and> agree S (segment_cells s)"
    and "{..<n} \<subseteq> fst ` (\<Union>s \<in> set segs. segment_cells s)"
  shows "apfst (uncited_stream \<circ> tdHandshake) (ParseDirection pci (delivered_stream segs flow gen cap n) m) =
    apfst (uncited_stream \<circ> tdHandshake) (ParseDirection pci (map S [0..<n]) None)"
proof -
  have "delivered_stream segs flow gen cap n = map S [0..<n]"
    using insert_all_delivers [OF assms] by (simp add: delivered_stream_def Let_def)
  then show ?thesis by (metis ParseDirection_unplaced)
qed

theorem handshake_independent_of_delivery_witness:
  "apfst (uncited_stream \<circ> tdHandshake)
     (ParseDirection no_cert_info (delivered_stream [(2, [12, 13], 5), (0, [10, 11, 12], 7)] sample_flow 0 100 4)
       (Some (\<lambda>i j. [i, j]))) =
   apfst (uncited_stream \<circ> tdHandshake)
     (ParseDirection no_cert_info (map (\<lambda>i. word_of_nat (10 + i)) [0..<4]) None)"
proof (rule handshake_independent_of_delivery)
  let ?segs = "[(2, [12, 13], 5), (0, [10, 11, 12], 7)] :: segment list"
  show "\<forall>s \<in> set ?segs. segment_ok s \<and> agree (\<lambda>i. word_of_nat (10 + i)) (segment_cells s)"
    by (simp add: segment_ok_def segment_cells_def agree_def)
  have "{..<4 :: nat} \<subseteq> {0, 1, 2, 3}" by auto
  then show "{..<4} \<subseteq> fst ` (\<Union>s \<in> set ?segs. segment_cells s)"
    by (simp add: segment_cells_def) blast
qed (simp_all add: segments_total_def)

end
